(* ===== verification/H2_Prelude.thy ===== *)
theory H2_Prelude
  imports Main "HOL-Library.Word" "HOL-Library.List_Lexorder" "HOL-Library.Monad_Syntax"
    "HOL-Library.Sublist" "HOL-Library.AList"
begin

text \<open>
  Shared vocabulary of the development: the machine types of the Rust sources, the error type of
  \<^verbatim>\<open>crates/h2-types/src/error.rs\<close>, the \<^verbatim>\<open>Vec\<close> operations with their panics, the standard
  library's binary search, sorted association lists (the abstract value of every ordered map), and
  fixed-width integer encodings.  A panic of the source is the value \<open>None\<close> of an \<open>option\<close>.
\<close>

section \<open>Types\<close>

type_synonym byte = "8 word"
type_synonym bytes = "byte list"
type_synonym u16 = "16 word"
type_synonym u32 = "32 word"
type_synonym u64 = "64 word"

text \<open>
  \<^verbatim>\<open>H2Error\<close>: one constructor per variant; the payload is the message with interpolated values
  left out.
\<close>

datatype h2_error =
    Io string
  | Serialization string
  | TypeError string
  | Storage string
  | Transaction string
  | SqlParse string
  | Execution string
  | Catalog string
  | LockConflict string
  | QueryTimeout string
  | Corrupted string
  | ReadOnly string
  | Replication string
  | Unsupported string
  | OffsetOutOfRange string
  | Authentication string
  | PermissionDenied string
  | Panic

text \<open>
  \<open>Panic\<close> is not a variant of \<^verbatim>\<open>H2Error\<close>: it marks a Rust panic inside an operation that returns a
  result, and \<open>or_panic\<close> lifts an operation that may panic.
\<close>

type_synonym 'a h2_result = "h2_error + 'a"

text \<open>The \<^verbatim>\<open>Display\<close> of an error.\<close>

fun error_to_string :: "h2_error \<Rightarrow> string" where
  "error_to_string (Io m) = ''I/O error: '' @ m"
| "error_to_string (Serialization m) = ''Serialization error: '' @ m"
| "error_to_string (TypeError m) = ''Type error: '' @ m"
| "error_to_string (Storage m) = ''Storage error: '' @ m"
| "error_to_string (Transaction m) = ''Transaction error: '' @ m"
| "error_to_string (SqlParse m) = ''SQL parse error: '' @ m"
| "error_to_string (Execution m) = ''Execution error: '' @ m"
| "error_to_string (Catalog m) = ''Catalog error: '' @ m"
| "error_to_string (LockConflict m) = ''Lock conflict: '' @ m"
| "error_to_string (QueryTimeout m) = ''Query timeout: '' @ m"
| "error_to_string (Corrupted m) = ''Corrupted database file: '' @ m"
| "error_to_string (ReadOnly m) = ''Read-only transaction: '' @ m"
| "error_to_string (Replication m) = ''Replication error: '' @ m"
| "error_to_string (Unsupported m) = ''Unsupported operation: '' @ m"
| "error_to_string (OffsetOutOfRange m) = ''Offset out of range: '' @ m"
| "error_to_string (Authentication m) = ''Authentication error: '' @ m"
| "error_to_string (PermissionDenied m) = ''Permission denied: '' @ m"
| "error_to_string Panic = ''panic''"

definition or_panic :: "'a option \<Rightarrow> 'a h2_result" where
  "or_panic r = (case r of None \<Rightarrow> Inl Panic | Some x \<Rightarrow> Inr x)"

fun res_bind :: "'a h2_result \<Rightarrow> ('a \<Rightarrow> 'b h2_result) \<Rightarrow> 'b h2_result" where
  "res_bind (Inl e) f = Inl e"
| "res_bind (Inr x) f = f x"

lemma res_bind_cong [fundef_cong]:
  "x = y \<Longrightarrow> (\<And>a. y = Inr a \<Longrightarrow> f a = g a) \<Longrightarrow> res_bind x f = res_bind y g"
  by (cases y) auto

lemma res_bind_eq_Inr: "res_bind x f = Inr b \<longleftrightarrow> (\<exists>a. x = Inr a \<and> f a = Inr b)"
  by (cases x) auto

lemma or_panic_Some [simp]: "or_panic (Some x) = Inr x"
  by (simp add: or_panic_def)

section \<open>Hash maps\<close>

text \<open>
  A \<^verbatim>\<open>HashMap\<close> is an association list with distinct keys; the order of the list stands for the
  iteration order, which the sources must not depend on.  Lookup is \<open>map_of\<close>, insertion and removal
  are \<open>AList.update\<close> and \<open>AList.delete\<close>.
\<close>

type_synonym ('k, 'v) hashmap = "('k \<times> 'v) list"

definition hm_contains :: "('k, 'v) hashmap \<Rightarrow> 'k \<Rightarrow> bool" where
  "hm_contains m k \<longleftrightarrow> map_of m k \<noteq> None"

lemma hm_lookup_update [simp]: "map_of (AList.update k v m) = (map_of m)(k \<mapsto> v)"
  by (rule update_conv')

lemma hm_lookup_delete [simp]: "map_of (AList.delete k m) = (map_of m)(k := None)"
  by (rule delete_conv')

text \<open>A loop over a list whose body may panic.\<close>

fun fold_opt :: "('s \<Rightarrow> 'a \<Rightarrow> 's option) \<Rightarrow> 's \<Rightarrow> 'a list \<Rightarrow> 's option" where
  "fold_opt f s [] = Some s"
| "fold_opt f s (x # xs) = (case f s x of None \<Rightarrow> None | Some s' \<Rightarrow> fold_opt f s' xs)"

lemma fold_opt_append:
  "fold_opt f s (xs @ ys) = (case fold_opt f s xs of None \<Rightarrow> None | Some s' \<Rightarrow> fold_opt f s' ys)"
  by (induction xs arbitrary: s) (auto split: option.splits)

text \<open>A loop over a list whose body may fail with an error.\<close>

fun fold_res :: "('s \<Rightarrow> 'a \<Rightarrow> 's h2_result) \<Rightarrow> 's \<Rightarrow> 'a list \<Rightarrow> 's h2_result" where
  "fold_res f s [] = Inr s"
| "fold_res f s (x # xs) = (case f s x of Inl e \<Rightarrow> Inl e | Inr s' \<Rightarrow> fold_res f s' xs)"

named_theorems vec_simps \<open>successful Vec operations\<close>
named_theorems codec_simps \<open>lengths and round trips of the fixed-width encodings\<close>

section \<open>Vectors\<close>

definition vec_get :: "'a list \<Rightarrow> nat \<Rightarrow> 'a option" where
  "vec_get xs i = (if i < length xs then Some (xs ! i) else None)"

definition vec_set :: "'a list \<Rightarrow> nat \<Rightarrow> 'a \<Rightarrow> 'a list option" where
  "vec_set xs i x = (if i < length xs then Some (xs[i := x]) else None)"

definition vec_insert :: "'a list \<Rightarrow> nat \<Rightarrow> 'a \<Rightarrow> 'a list option" where
  "vec_insert xs i x = (if i \<le> length xs then Some (take i xs @ x # drop i xs) else None)"

definition vec_remove :: "'a list \<Rightarrow> nat \<Rightarrow> ('a \<times> 'a list) option" where
  "vec_remove xs i =
     (if i < length xs then Some (xs ! i, take i xs @ drop (Suc i) xs) else None)"

definition vec_split_off :: "'a list \<Rightarrow> nat \<Rightarrow> ('a list \<times> 'a list) option" where
  "vec_split_off xs i = (if i \<le> length xs then Some (take i xs, drop i xs) else None)"

text \<open>\<^verbatim>\<open>&xs[a..b]\<close> panics unless \<open>a \<le> b \<le> xs.len()\<close>.\<close>

definition slice :: "'a list \<Rightarrow> nat \<Rightarrow> nat \<Rightarrow> 'a list option" where
  "slice xs a b = (if a \<le> b \<and> b \<le> length xs then Some (take (b - a) (drop a xs)) else None)"

lemma vec_get_append [vec_simps]: "i = length xs \<Longrightarrow> vec_get (xs @ y # ys) i = Some y"
  by (simp add: vec_get_def)

lemma vec_set_append [vec_simps]:
  "i = length xs \<Longrightarrow> vec_set (xs @ y # ys) i z = Some (xs @ z # ys)"
  by (simp add: vec_set_def)

lemma vec_insert_append [vec_simps]:
  "i = length xs \<Longrightarrow> vec_insert (xs @ ys) i z = Some (xs @ z # ys)"
  by (simp add: vec_insert_def)

lemma vec_insert_append_Suc [vec_simps]:
  "i = length xs \<Longrightarrow> vec_insert (xs @ y # ys) (Suc i) z = Some (xs @ y # z # ys)"
  by (simp add: vec_insert_def)

lemma vec_remove_append [vec_simps]:
  "i = length xs \<Longrightarrow> vec_remove (xs @ y # ys) i = Some (y, xs @ ys)"
  by (simp add: vec_remove_def)

lemma vec_split_off_append [vec_simps]:
  "i = length xs \<Longrightarrow> vec_split_off (xs @ ys) i = Some (xs, ys)"
  by (simp add: vec_split_off_def)

lemma vec_get_SomeD: "vec_get xs i = Some x \<Longrightarrow> x \<in> set xs"
  by (auto simp: vec_get_def split: if_splits)

text \<open>Vec operations keep a property of all elements.\<close>

lemma list_all_vec:
  "list_all P xs \<Longrightarrow> vec_get xs i = Some x \<Longrightarrow> P x"
  "list_all P xs \<Longrightarrow> P x \<Longrightarrow> vec_set xs i x = Some ys \<Longrightarrow> list_all P ys"
  "list_all P xs \<Longrightarrow> P x \<Longrightarrow> vec_insert xs i x = Some ys \<Longrightarrow> list_all P ys"
  "list_all P xs \<Longrightarrow> vec_remove xs i = Some (x, ys) \<Longrightarrow> P x \<and> list_all P ys"
  "list_all P xs \<Longrightarrow> vec_split_off xs i = Some (ys, zs) \<Longrightarrow> list_all P ys \<and> list_all P zs"
  by (auto simp: vec_get_def vec_set_def vec_insert_def vec_remove_def vec_split_off_def list_all_iff
      dest!: in_set_takeD in_set_dropD set_update_subset_insert [THEN subsetD] split: if_splits)

lemma length_vec:
  "vec_set xs i x = Some ys \<Longrightarrow> length ys = length xs"
  "vec_insert xs i x = Some ys \<Longrightarrow> length ys = Suc (length xs)"
  "vec_remove xs i = Some (x, ys) \<Longrightarrow> Suc (length ys) = length xs"
  "vec_split_off xs i = Some (ys, zs) \<Longrightarrow> length ys = i \<and> length zs = length xs - i \<and> i \<le> length xs"
  by (auto simp: vec_set_def vec_insert_def vec_remove_def vec_split_off_def split: if_splits)

lemma split_at_nth: "i < length xs \<Longrightarrow> \<exists>ys zs. xs = ys @ xs ! i # zs \<and> length ys = i"
  by (intro exI [of _ "take i xs"] exI [of _ "drop (Suc i) xs"]) (simp add: id_take_nth_drop)

lemma split_at: "i \<le> length xs \<Longrightarrow> \<exists>ys zs. xs = ys @ zs \<and> length ys = i"
  by (intro exI [of _ "take i xs"] exI [of _ "drop i xs"]) simp

section \<open>Binary search\<close>

datatype ordering = Less | Equal | Greater

definition cmp_key :: "'k::linorder \<Rightarrow> 'k \<Rightarrow> ordering" where
  "cmp_key a b = (if a < b then Less else if a = b then Equal else Greater)"

lemma cmp_key_simps [simp]:
  "a < b \<Longrightarrow> cmp_key a b = Less" "cmp_key a a = Equal" "b < a \<Longrightarrow> cmp_key a b = Greater"
  by (auto simp: cmp_key_def)

text \<open>
  The loop of \<^verbatim>\<open>slice::binary_search_by\<close>: \<open>Inr i\<close> is \<^verbatim>\<open>Ok(i)\<close>, \<open>Inl i\<close> is \<^verbatim>\<open>Err(i)\<close>.
\<close>

function bsearch_loop :: "('a \<Rightarrow> ordering) \<Rightarrow> 'a list \<Rightarrow> nat \<Rightarrow> nat \<Rightarrow> nat + nat" where
  "bsearch_loop f xs left right =
     (if left < right then
        (let mid = left + (right - left) div 2 in
         case f (xs ! mid) of
           Less \<Rightarrow> bsearch_loop f xs (mid + 1) right
         | Greater \<Rightarrow> bsearch_loop f xs left mid
         | Equal \<Rightarrow> Inr mid)
      else Inl left)"
  by pat_completeness auto
termination
  by (relation "measure (\<lambda>(f, xs, l, r). r - l)") auto

declare bsearch_loop.simps [simp del]

definition binary_search_by :: "'a list \<Rightarrow> ('a \<Rightarrow> ordering) \<Rightarrow> nat + nat" where
  "binary_search_by xs f = bsearch_loop f xs 0 (length xs)"

abbreviation sorted_keys :: "('a \<Rightarrow> 'k::linorder) \<Rightarrow> 'a list \<Rightarrow> bool" where
  "sorted_keys key xs \<equiv> sorted_wrt (<) (map key xs)"

lemma sorted_keys_nth:
  "sorted_keys key xs \<Longrightarrow> i < j \<Longrightarrow> j < length xs \<Longrightarrow> key (xs ! i) < key (xs ! j)"
  by (simp add: sorted_wrt_iff_nth_less)

definition search_result :: "('a \<Rightarrow> 'k::linorder) \<Rightarrow> 'k \<Rightarrow> 'a list \<Rightarrow> nat + nat \<Rightarrow> bool" where
  "search_result key k xs r \<longleftrightarrow>
     (case r of
        Inr i \<Rightarrow> i < length xs \<and> key (xs ! i) = k
      | Inl i \<Rightarrow> i \<le> length xs \<and> (\<forall>j < i. key (xs ! j) < k) \<and>
                 (\<forall>j. i \<le> j \<and> j < length xs \<longrightarrow> k < key (xs ! j)))"

lemma bsearch_loop_result:
  assumes "sorted_keys key xs" and "left \<le> right" and "right \<le> length xs"
    and "\<forall>j < left. key (xs ! j) < k" and "\<forall>j. right \<le> j \<and> j < length xs \<longrightarrow> k < key (xs ! j)"
  shows "search_result key k xs (bsearch_loop (\<lambda>x. cmp_key (key x) k) xs left right)"
  using assms
proof (induction "\<lambda>x. cmp_key (key x) k" xs left right rule: bsearch_loop.induct)
  case (1 xs left right)
  define mid where "mid = left + (right - left) div 2"
  note unfold = bsearch_loop.simps [of "\<lambda>x. cmp_key (key x) k" xs left right]
  show ?case
  proof (cases "left < right")
    case False
    with 1 show ?thesis by (subst unfold) (simp add: search_result_def)
  next
    case True
    then have mid: "left \<le> mid" "mid < right" by (auto simp: mid_def)
    consider "key (xs ! mid) < k" | "key (xs ! mid) = k" | "k < key (xs ! mid)"
      by fastforce
    then show ?thesis
    proof cases
      case 1
      have "\<forall>j < mid + 1. key (xs ! j) < k"
      proof (intro allI impI)
        fix j assume "j < mid + 1"
        then have "j = mid \<or> j < mid" by auto
        then show "key (xs ! j) < k"
          using 1 sorted_keys_nth [OF "1.prems"(1), of j mid] mid "1.prems"(3) by force
      qed
      with "1.hyps"(1) [OF True mid_def] "1.prems" mid 1 True show ?thesis
        by (subst unfold) (simp add: mid_def [symmetric])
    next
      case 2
      with True mid "1.prems"(3) show ?thesis
        by (subst unfold) (simp add: mid_def [symmetric] search_result_def)
    next
      case 3
      have "\<forall>j. mid \<le> j \<and> j < length xs \<longrightarrow> k < key (xs ! j)"
      proof (intro allI impI)
        fix j assume "mid \<le> j \<and> j < length xs"
        then have "j = mid \<or> mid < j \<and> j < length xs" by auto
        then show "k < key (xs ! j)"
          using 3 sorted_keys_nth [OF "1.prems"(1), of mid j] by force
      qed
      with "1.hyps"(2) [OF True mid_def] "1.prems" mid 3 True show ?thesis
        by (subst unfold) (simp add: mid_def [symmetric])
    qed
  qed
qed

lemma binary_search_result:
  "sorted_keys key xs \<Longrightarrow>
   search_result key k xs (binary_search_by xs (\<lambda>x. cmp_key (key x) k))"
  unfolding binary_search_by_def by (rule bsearch_loop_result) auto

text \<open>The two outcomes as list decompositions, the form in which client proofs use them.\<close>

lemma binary_search_Ok:
  assumes "sorted_keys key xs" and "binary_search_by xs (\<lambda>x. cmp_key (key x) k) = Inr i"
  shows "\<exists>ys x zs. xs = ys @ x # zs \<and> length ys = i \<and> key x = k \<and>
           (\<forall>y\<in>set ys. key y < k) \<and> (\<forall>z\<in>set zs. k < key z)"
proof -
  have i: "i < length xs" "key (xs ! i) = k"
    using binary_search_result [OF assms(1), of k] assms(2) by (simp_all add: search_result_def)
  from split_at_nth [OF i(1)] obtain ys zs where xs: "xs = ys @ xs ! i # zs" "length ys = i"
    by blast
  from assms(1) xs(1) have "sorted_keys key (ys @ xs ! i # zs)" by simp
  with i(2) have "(\<forall>y\<in>set ys. key y < k) \<and> (\<forall>z\<in>set zs. k < key z)"
    by (auto simp: sorted_wrt_append)
  with xs i show ?thesis by blast
qed

lemma binary_search_Err:
  assumes "sorted_keys key xs" and "binary_search_by xs (\<lambda>x. cmp_key (key x) k) = Inl i"
  shows "\<exists>ys zs. xs = ys @ zs \<and> length ys = i \<and>
           (\<forall>y\<in>set ys. key y < k) \<and> (\<forall>z\<in>set zs. k < key z)"
proof -
  have i: "i \<le> length xs" "\<forall>j < i. key (xs ! j) < k"
      "\<forall>j. i \<le> j \<and> j < length xs \<longrightarrow> k < key (xs ! j)"
    using binary_search_result [OF assms(1), of k] assms(2) by (simp_all add: search_result_def)
  have "\<forall>y\<in>set (take i xs). key y < k" and "\<forall>z\<in>set (drop i xs). k < key z"
    using i by (auto simp: in_set_conv_nth)
  with i(1) show ?thesis
    by (intro exI [of _ "take i xs"] exI [of _ "drop i xs"]) simp
qed

section \<open>Sorted association lists\<close>

text \<open>
  The abstract value of an ordered byte map is its list of key-value pairs in ascending key order.
  Insertion keeps the order and replaces an existing pair; deletion drops the pair of a key.
\<close>

type_synonym ('k, 'v) kvs = "('k \<times> 'v) list"

fun put_sorted :: "'k::linorder \<Rightarrow> 'v \<Rightarrow> ('k, 'v) kvs \<Rightarrow> ('k, 'v) kvs" where
  "put_sorted k v [] = [(k, v)]"
| "put_sorted k v (p # ps) =
     (if fst p < k then p # put_sorted k v ps
      else if fst p = k then (k, v) # ps
      else (k, v) # p # ps)"

definition del_key :: "'k \<Rightarrow> ('k, 'v) kvs \<Rightarrow> ('k, 'v) kvs" where
  "del_key k ps = filter (\<lambda>p. fst p \<noteq> k) ps"

lemma put_sorted_between:
  "\<forall>y\<in>set ys. fst y < k \<Longrightarrow> \<forall>z\<in>set zs. k < fst z \<Longrightarrow>
   put_sorted k v (ys @ xs @ zs) = ys @ put_sorted k v xs @ zs"
proof (induction ys)
  case Nil
  then show ?case
  proof (induction xs)
    case Nil
    then show ?case by (cases zs) auto
  qed auto
qed auto

lemma put_sorted_hit: "\<forall>y\<in>set ys. fst y < k \<Longrightarrow>
   put_sorted k v (ys @ (k, w) # zs) = ys @ (k, v) # zs"
  by (induction ys) auto

lemma put_sorted_new: "\<forall>y\<in>set ys. fst y < k \<Longrightarrow> \<forall>z\<in>set zs. k < fst z \<Longrightarrow>
   put_sorted k v (ys @ zs) = ys @ (k, v) # zs"
  using put_sorted_between [of ys k zs v "[]"] by simp

lemma map_of_put_sorted [simp]: "map_of (put_sorted k v ps) = (map_of ps)(k \<mapsto> v)"
  by (induction ps) (auto simp: fun_eq_iff)

lemma keys_put_sorted: "set (map fst (put_sorted k v ps)) = insert k (set (map fst ps))"
  by (induction ps) auto

lemma sorted_put_sorted: "sorted_keys fst ps \<Longrightarrow> sorted_keys fst (put_sorted k v ps)"
proof (induction ps)
  case (Cons p ps)
  have "set (map fst (put_sorted k v ps)) = insert k (set (map fst ps))"
    by (rule keys_put_sorted)
  with Cons show ?case by (auto simp del: set_map)
qed simp

lemma map_of_del_key [simp]: "map_of (del_key k ps) = (map_of ps)(k := None)"
  by (induction ps) (auto simp: del_key_def fun_eq_iff)

lemma sorted_del_key: "sorted_keys fst ps \<Longrightarrow> sorted_keys fst (del_key k ps)"
  by (induction ps) (auto simp: del_key_def)

lemma del_key_append [simp]: "del_key k (xs @ ys) = del_key k xs @ del_key k ys"
  by (simp add: del_key_def)

lemma del_key_absent: "\<forall>p\<in>set ps. fst p \<noteq> k \<Longrightarrow> del_key k ps = ps"
  by (simp add: del_key_def filter_id_conv)

lemma sorted_keys_distinct: "sorted_keys fst ps \<Longrightarrow> distinct (map fst ps)"
  by (simp add: strict_sorted_iff)

text \<open>A sorted association list is determined by the map it denotes.\<close>

lemma sorted_kvs_eqI:
  assumes "sorted_keys fst ps" and "sorted_keys fst qs" and "map_of ps = map_of qs"
  shows "ps = qs"
proof -
  have "set ps = set qs"
    using assms by (metis map_of_eq_Some_iff sorted_keys_distinct subrelI subset_antisym)
  moreover have "inj_on fst (set ps \<union> set qs)"
    using calculation sorted_keys_distinct [OF assms(1)] by (simp add: distinct_map)
  ultimately show ?thesis
    using assms(1,2) by (intro map_sorted_distinct_set_unique) (auto simp: strict_sorted_iff)
qed

section \<open>Fixed-width integers as bytes\<close>

fun le_enc :: "nat \<Rightarrow> nat \<Rightarrow> bytes" where
  "le_enc 0 x = []"
| "le_enc (Suc n) x = word_of_nat (x mod 256) # le_enc n (x div 256)"

fun le_nat :: "bytes \<Rightarrow> nat" where
  "le_nat [] = 0"
| "le_nat (b # bs) = unat b + 256 * le_nat bs"

lemma length_le_enc [simp, codec_simps]: "length (le_enc n x) = n"
  by (induction n arbitrary: x) auto

lemma le_nat_le_enc: "le_nat (le_enc n x) = x mod 256 ^ n"
proof (induction n arbitrary: x)
  case (Suc n)
  have "unat (word_of_nat (x mod 256) :: byte) = x mod 256"
    by (simp add: unat_of_nat)
  with Suc show ?case by (simp add: mod_mult2_eq)
qed simp

lemma le_nat_bound: "le_nat bs < 256 ^ length bs"
proof (induction bs)
  case (Cons b bs)
  have "unat b < 256" using unsigned_less [of b] by simp
  with Cons have "unat b + 256 * le_nat bs < 256 + 256 * (256 ^ length bs - 1)"
    by (intro add_less_le_mono mult_left_mono) auto
  then show ?case by (simp add: algebra_simps)
qed simp

definition u16_to_be_bytes :: "u16 \<Rightarrow> bytes" where
  "u16_to_be_bytes w = rev (le_enc 2 (unat w))"
definition u32_to_be_bytes :: "u32 \<Rightarrow> bytes" where
  "u32_to_be_bytes w = rev (le_enc 4 (unat w))"
definition u64_to_be_bytes :: "u64 \<Rightarrow> bytes" where
  "u64_to_be_bytes w = rev (le_enc 8 (unat w))"
definition u32_to_le_bytes :: "u32 \<Rightarrow> bytes" where
  "u32_to_le_bytes w = le_enc 4 (unat w)"
definition u64_to_le_bytes :: "u64 \<Rightarrow> bytes" where
  "u64_to_le_bytes w = le_enc 8 (unat w)"

definition u16_from_be_bytes :: "bytes \<Rightarrow> u16" where
  "u16_from_be_bytes bs = word_of_nat (le_nat (rev bs))"
definition u32_from_be_bytes :: "bytes \<Rightarrow> u32" where
  "u32_from_be_bytes bs = word_of_nat (le_nat (rev bs))"
definition u64_from_be_bytes :: "bytes \<Rightarrow> u64" where
  "u64_from_be_bytes bs = word_of_nat (le_nat (rev bs))"
definition u32_from_le_bytes :: "bytes \<Rightarrow> u32" where
  "u32_from_le_bytes bs = word_of_nat (le_nat bs)"
definition u64_from_le_bytes :: "bytes \<Rightarrow> u64" where
  "u64_from_le_bytes bs = word_of_nat (le_nat bs)"

lemma word_le_enc_roundtrip:
  fixes w :: "'a::len word"
  assumes "256 ^ n = (2::nat) ^ LENGTH('a)"
  shows "word_of_nat (le_nat (le_enc n (unat w))) = w"
  using assms unsigned_less [of w] by (simp add: le_nat_le_enc)

lemma u16_be_roundtrip [simp, codec_simps]: "u16_from_be_bytes (u16_to_be_bytes w) = w"
  by (simp add: u16_from_be_bytes_def u16_to_be_bytes_def word_le_enc_roundtrip)
lemma u32_be_roundtrip [simp, codec_simps]: "u32_from_be_bytes (u32_to_be_bytes w) = w"
  by (simp add: u32_from_be_bytes_def u32_to_be_bytes_def word_le_enc_roundtrip)
lemma u64_be_roundtrip [simp, codec_simps]: "u64_from_be_bytes (u64_to_be_bytes w) = w"
  by (simp add: u64_from_be_bytes_def u64_to_be_bytes_def word_le_enc_roundtrip)
lemma u32_le_roundtrip [simp, codec_simps]: "u32_from_le_bytes (u32_to_le_bytes w) = w"
  by (simp add: u32_from_le_bytes_def u32_to_le_bytes_def word_le_enc_roundtrip)
lemma u64_le_roundtrip [simp, codec_simps]: "u64_from_le_bytes (u64_to_le_bytes w) = w"
  by (simp add: u64_from_le_bytes_def u64_to_le_bytes_def word_le_enc_roundtrip)

lemma length_to_bytes [simp, codec_simps]:
  "length (u16_to_be_bytes a) = 2" "length (u32_to_be_bytes b) = 4"
  "length (u64_to_be_bytes c) = 8" "length (u32_to_le_bytes b) = 4"
  "length (u64_to_le_bytes c) = 8"
  by (simp_all add: u16_to_be_bytes_def u32_to_be_bytes_def u64_to_be_bytes_def
      u32_to_le_bytes_def u64_to_le_bytes_def)

end
