(* ===== verification/KV_Interface.thy ===== *)
theory KV_Interface
  imports H2_Prelude
begin

text \<open>
  The two contracts the storage layers rely on.  \<open>ordered_kv\<close> is what a B+ tree promises to a map: a
  lookup after an insertion or removal, ascending scans, no panic.  \<open>replayable\<close> is what a change log
  relies on: applying one change updates one key of the abstract state.  Its lemmas (replaying a log
  is a fold of updates, and replaying it twice changes nothing) carry checkpoint and crash recovery.
\<close>

section \<open>Ordered key-value maps\<close>

locale ordered_kv =
  fixes empty :: "'s"
    and get :: "'s \<Rightarrow> 'k::linorder \<Rightarrow> 'v option option"
    and put :: "'s \<Rightarrow> 'k \<Rightarrow> 'v \<Rightarrow> 's option"
    and remove :: "'s \<Rightarrow> 'k \<Rightarrow> ('s \<times> 'v option) option"
    and kvs :: "'s \<Rightarrow> ('k, 'v) kvs"
    and inv :: "'s \<Rightarrow> bool"
  assumes empty_law: "inv empty" "kvs empty = []"
    and sorted_law: "inv s \<Longrightarrow> sorted_keys fst (kvs s)"
    and get_law: "inv s \<Longrightarrow> get s k = Some (map_of (kvs s) k)"
    and put_law: "inv s \<Longrightarrow> \<exists>s'. put s k v = Some s' \<and> inv s' \<and> kvs s' = put_sorted k v (kvs s)"
    and remove_law: "inv s \<Longrightarrow>
      \<exists>s'. remove s k = Some (s', map_of (kvs s) k) \<and> inv s' \<and> kvs s' = del_key k (kvs s)"
begin

lemma get_after_put:
  assumes "inv s" "put s k v = Some s'"
  shows "get s' k' = Some (if k' = k then Some v else map_of (kvs s) k')"
  using put_law [OF assms(1), of k v] assms(2) by (auto simp: get_law)

lemma get_after_remove:
  assumes "inv s" "remove s k = Some (s', old)"
  shows "get s' k' = Some (if k' = k then None else map_of (kvs s) k')"
    and "old = map_of (kvs s) k"
  using remove_law [OF assms(1), of k] assms(2) by (auto simp: get_law)

text \<open>Loading sorted pairs in order rebuilds exactly those pairs (the snapshot and compaction loops).\<close>

lemma load_pairs:
  assumes "inv s"
  shows "\<exists>s'. fold_opt (\<lambda>s (k, v). put s k v) s ps = Some s' \<and> inv s' \<and>
           kvs s' = fold (\<lambda>(k, v). put_sorted k v) ps (kvs s)"
  using assms
proof (induction ps arbitrary: s)
  case (Cons p ps)
  obtain k v where p: "p = (k, v)" by force
  from put_law [OF Cons.prems, of k v] obtain s1 where
    s1: "put s k v = Some s1" "inv s1" "kvs s1 = put_sorted k v (kvs s)" by blast
  from Cons.IH [OF s1(2)] show ?case by (simp add: p s1)
qed simp

lemma load_sorted:
  assumes "sorted_keys fst ps"
  shows "\<exists>s'. fold_opt (\<lambda>s (k, v). put s k v) empty ps = Some s' \<and> inv s' \<and> kvs s' = ps"
proof -
  have snoc: "fold (\<lambda>(k, v). put_sorted k v) ps acc = acc @ ps"
    if "sorted_keys fst (acc @ ps)" for acc :: "('k, 'v) kvs" and ps
    using that
  proof (induction ps arbitrary: acc)
    case (Cons p ps)
    obtain k v where p: "p = (k, v)" by force
    from Cons.prems p have "\<forall>y\<in>set acc. fst y < k" by (auto simp: sorted_wrt_append)
    then have "put_sorted k v acc = acc @ [(k, v)]"
      using put_sorted_new [of acc k "[]" v] by simp
    with Cons.IH [of "acc @ [(k, v)]"] Cons.prems p show ?case by simp
  qed simp
  from load_pairs [OF empty_law(1), of ps] snoc [of "[]" ps] assms show ?thesis
    by (simp add: empty_law)
qed

end

section \<open>Replaying change logs\<close>

text \<open>A log entry sets one key to a value (\<open>Some\<close>) or deletes it (\<open>None\<close>).\<close>

fun upd_all :: "('k \<times> 'v option) list \<Rightarrow> ('k \<rightharpoonup> 'v) \<Rightarrow> ('k \<rightharpoonup> 'v)" where
  "upd_all [] m = m"
| "upd_all ((k, vo) # cs) m = upd_all cs (m(k := vo))"

lemma upd_all_append: "upd_all (xs @ ys) m = upd_all ys (upd_all xs m)"
  by (induction xs arbitrary: m) auto

lemma upd_all_apply:
  "upd_all cs m k = (case map_of (rev cs) k of None \<Rightarrow> m k | Some vo \<Rightarrow> vo)"
proof (induction cs arbitrary: m)
  case (Cons c cs)
  then show ?case by (cases c) (auto simp: map_add_def split: option.splits)
qed simp

lemma upd_all_idem: "upd_all cs (upd_all cs m) = upd_all cs m"
  by (rule ext) (simp add: upd_all_apply split: option.split)

text \<open>With distinct keys the order of the changes does not matter.\<close>

lemma upd_all_distinct:
  "distinct (map fst cs) \<Longrightarrow> upd_all cs m k = (case map_of cs k of None \<Rightarrow> m k | Some vo \<Rightarrow> vo)"
proof (induction cs arbitrary: m)
  case (Cons c cs)
  obtain a vo where c: "c = (a, vo)" by force
  with Cons.prems have "map_of cs a = None" by (auto simp: map_of_eq_None_iff)
  with Cons c show ?case by (auto split: option.splits)
qed simp

locale replayable =
  fixes apply_change :: "'s \<Rightarrow> 'k \<times> 'v option \<Rightarrow> 's option"
    and inv :: "'s \<Rightarrow> bool"
    and look :: "'s \<Rightarrow> ('k \<rightharpoonup> 'v)"
  assumes apply_law:
    "inv s \<Longrightarrow> \<exists>s'. apply_change s c = Some s' \<and> inv s' \<and> look s' = (look s)(fst c := snd c)"
begin

lemma replay_correct:
  assumes "inv s"
  shows "\<exists>s'. fold_opt apply_change s cs = Some s' \<and> inv s' \<and> look s' = upd_all cs (look s)"
  using assms
proof (induction cs arbitrary: s)
  case (Cons c cs)
  obtain k vo where c: "c = (k, vo)" by force
  from apply_law [OF Cons.prems, of c] obtain s1 where
    s1: "apply_change s (k, vo) = Some s1" "inv s1" "look s1 = (look s)(k := vo)"
    unfolding c by auto
  from Cons.IH [OF s1(2)] show ?case unfolding c by (simp add: s1(1) s1(3) [symmetric])
qed simp

text \<open>A log that was already applied can be applied again: what makes redo logs crash safe.\<close>

lemma replay_twice:
  assumes "inv s" "fold_opt apply_change s cs = Some s'"
  shows "\<exists>s''. fold_opt apply_change s' cs = Some s'' \<and> inv s'' \<and> look s'' = look s'"
  using replay_correct [OF assms(1), of cs] replay_correct [of s' cs] assms(2)
  by (auto simp: upd_all_idem)

lemma replay_suffix:
  assumes "inv s" "fold_opt apply_change s (xs @ ys) = Some s'" "fold_opt apply_change s xs = Some s1"
  shows "look s' = upd_all ys (look s1)"
  using replay_correct [OF assms(1), of "xs @ ys"] replay_correct [OF assms(1), of xs] assms
  by (auto simp: upd_all_append)

end

section \<open>Transition systems\<close>

text \<open>
  The states a component reaches from an initial state by its steps, and the contract under which an
  invariant holds in all of them.
\<close>

inductive reachable :: "('s \<Rightarrow> bool) \<Rightarrow> ('s \<Rightarrow> 's \<Rightarrow> bool) \<Rightarrow> 's \<Rightarrow> bool" for init step where
  reach_init: "init s \<Longrightarrow> reachable init step s"
| reach_step: "reachable init step s \<Longrightarrow> step s s' \<Longrightarrow> reachable init step s'"

locale invariant_system =
  fixes init :: "'s \<Rightarrow> bool" and step :: "'s \<Rightarrow> 's \<Rightarrow> bool" and inv :: "'s \<Rightarrow> bool"
  assumes init_inv: "init s \<Longrightarrow> inv s"
    and step_inv: "inv s \<Longrightarrow> step s s' \<Longrightarrow> inv s'"
begin

lemma reachable_inv: "reachable init step s \<Longrightarrow> inv s"
  by (induction rule: reachable.induct) (auto intro: init_inv step_inv)

end

end
