(* ===== verification/MV_Tree.thy ===== *)
theory MV_Tree
  imports KV_Interface
begin

text \<open>
  The copy-on-write B+ tree of \<^verbatim>\<open>crates/h2-mvstore/src/page.rs\<close> and \<^verbatim>\<open>tree.rs\<close>: pages, point
  operations with node splitting, and the prefix and range scans.  A Rust panic (an index out of
  range) is \<open>None\<close>; every theorem below shows in passing that well-formed trees never panic.
  Sharing of sub-pages through \<^verbatim>\<open>Arc\<close> is not observable because pages are immutable.
\<close>

section \<open>Pages (page.rs)\<close>

record page_ref =
  chunk_id :: u32
  page_offset :: u32

definition MEMORY_ONLY :: page_ref where
  "MEMORY_ONLY = \<lparr>chunk_id = 0, page_offset = 0\<rparr>"

record entry =
  entry_key :: bytes
  entry_value :: bytes

datatype page =
    Leaf "entry list"
  | Branch "bytes list" "page list" "page_ref list"

definition new_leaf :: page where
  "new_leaf = Leaf []"

definition new_branch :: "bytes list \<Rightarrow> page list \<Rightarrow> page" where
  "new_branch keys children = Branch keys children (replicate (length children) MEMORY_ONLY)"

fun is_leaf :: "page \<Rightarrow> bool" where
  "is_leaf (Leaf _) = True"
| "is_leaf (Branch _ _ _) = False"

fun entry_count :: "page \<Rightarrow> nat" where
  "entry_count (Leaf entries) = length entries"
| "entry_count (Branch keys _ _) = length keys"

abbreviation search_entries :: "entry list \<Rightarrow> bytes \<Rightarrow> nat + nat" where
  "search_entries entries k \<equiv> binary_search_by entries (\<lambda>e. cmp_key (entry_key e) k)"

abbreviation search_keys :: "bytes list \<Rightarrow> bytes \<Rightarrow> nat + nat" where
  "search_keys keys k \<equiv> binary_search_by keys (\<lambda>x. cmp_key x k)"

fun find_key :: "page \<Rightarrow> bytes \<Rightarrow> nat + nat" where
  "find_key (Leaf entries) k = search_entries entries k"
| "find_key (Branch keys _ _) k = search_keys keys k"

fun page_get :: "page \<Rightarrow> bytes \<Rightarrow> bytes option option" where
  "page_get (Leaf entries) k =
     (case find_key (Leaf entries) k of
        Inr idx \<Rightarrow> do { e \<leftarrow> vec_get entries idx; Some (Some (entry_value e)) }
      | Inl _ \<Rightarrow> Some None)"
| "page_get (Branch _ _ _) k = Some None"

section \<open>The tree (tree.rs)\<close>

record mvtree =
  root :: page
  max_entries_per_page :: nat
  tree_version :: u64

definition DEFAULT_PAGE_SPLIT_SIZE :: nat where
  "DEFAULT_PAGE_SPLIT_SIZE = 32"

definition mvtree_new :: "nat \<Rightarrow> mvtree" where
  "mvtree_new m = \<lparr>root = new_leaf, max_entries_per_page = m, tree_version = 0\<rparr>"

definition mvtree_default :: mvtree where
  "mvtree_default = mvtree_new DEFAULT_PAGE_SPLIT_SIZE"

text \<open>Which child of a branch covers a key: equal separators send the search to the right.\<close>

definition child_index :: "bytes list \<Rightarrow> bytes \<Rightarrow> nat" where
  "child_index keys k = (case search_keys keys k of Inr i \<Rightarrow> i + 1 | Inl i \<Rightarrow> i)"

lemma size_child [termination_simp]:
  "vec_get children i = Some c \<Longrightarrow> size c < Suc (size_list size children)"
  by (auto dest!: vec_get_SomeD size_list_estimation' [where f = size, OF _ order_refl])

fun descend_get :: "page \<Rightarrow> bytes \<Rightarrow> bytes option option" where
  "descend_get (Leaf entries) k =
     (case search_entries entries k of
        Inr idx \<Rightarrow> do { e \<leftarrow> vec_get entries idx; Some (Some (entry_value e)) }
      | Inl _ \<Rightarrow> Some None)"
| "descend_get (Branch keys children _) k =
     do { c \<leftarrow> vec_get children (child_index keys k); descend_get c k }"

definition tree_get :: "mvtree \<Rightarrow> bytes \<Rightarrow> bytes option option" where
  "tree_get t k = descend_get (root t) k"

text \<open>\<^verbatim>\<open>insert_recursive\<close>: the new page, and the pivot and right sibling when it was split.\<close>

fun insert_recursive :: "nat \<Rightarrow> page \<Rightarrow> bytes \<Rightarrow> bytes \<Rightarrow> (page \<times> (bytes \<times> page) option) option" where
  "insert_recursive m (Leaf entries) k v =
     (case search_entries entries k of
        Inr idx \<Rightarrow>
          do { e \<leftarrow> vec_get entries idx;
               new_entries \<leftarrow> vec_set entries idx (e\<lparr>entry_value := v\<rparr>);
               Some (Leaf new_entries, None) }
      | Inl idx \<Rightarrow>
          do { new_entries \<leftarrow> vec_insert entries idx \<lparr>entry_key = k, entry_value = v\<rparr>;
               if m < length new_entries then
                 (let mid = length new_entries div 2 in
                  do { (left_entries, right_entries) \<leftarrow> vec_split_off new_entries mid;
                       pivot \<leftarrow> vec_get right_entries 0;
                       Some (Leaf left_entries, Some (entry_key pivot, Leaf right_entries)) })
               else Some (Leaf new_entries, None) })"
| "insert_recursive m (Branch keys children _) k v =
     (let idx = child_index keys k in
      do { target_child \<leftarrow> vec_get children idx;
           (new_child, split) \<leftarrow> insert_recursive m target_child k v;
           new_children \<leftarrow> vec_set children idx new_child;
           (case split of
              Some (pivot, right_child) \<Rightarrow>
                do { new_keys \<leftarrow> vec_insert keys idx pivot;
                     new_children' \<leftarrow> vec_insert new_children (idx + 1) right_child;
                     if m < length new_keys then
                       (let mid = length new_keys div 2 in
                        do { (pivot', keys') \<leftarrow> vec_remove new_keys mid;
                             (left_keys, right_keys) \<leftarrow> vec_split_off keys' mid;
                             (left_children, right_children) \<leftarrow> vec_split_off new_children' (mid + 1);
                             Some (new_branch left_keys left_children,
                                   Some (pivot', new_branch right_keys right_children)) })
                     else Some (new_branch new_keys new_children', None) }
            | None \<Rightarrow> Some (new_branch keys new_children, None)) })"

definition tree_put :: "mvtree \<Rightarrow> bytes \<Rightarrow> bytes \<Rightarrow> mvtree option" where
  "tree_put t k v =
     do { (new_page, split) \<leftarrow> insert_recursive (max_entries_per_page t) (root t) k v;
          (case split of
             Some (pivot, right) \<Rightarrow> Some (t\<lparr>root := new_branch [pivot] [new_page, right]\<rparr>)
           | None \<Rightarrow> Some (t\<lparr>root := new_page\<rparr>)) }"

fun remove_recursive :: "page \<Rightarrow> bytes \<Rightarrow> (page \<times> bytes option) option" where
  "remove_recursive (Leaf entries) k =
     (case search_entries entries k of
        Inr idx \<Rightarrow>
          do { (removed, new_entries) \<leftarrow> vec_remove entries idx;
               Some (Leaf new_entries, Some (entry_value removed)) }
      | Inl _ \<Rightarrow> Some (Leaf entries, None))"
| "remove_recursive (Branch keys children refs) k =
     (let idx = child_index keys k in
      do { target_child \<leftarrow> vec_get children idx;
           (new_child, old_val) \<leftarrow> remove_recursive target_child k;
           (case old_val of
              Some _ \<Rightarrow>
                do { new_children \<leftarrow> vec_set children idx new_child;
                     Some (new_branch keys new_children, old_val) }
            | None \<Rightarrow> Some (Branch keys children refs, None)) })"

definition tree_remove :: "mvtree \<Rightarrow> bytes \<Rightarrow> (mvtree \<times> bytes option) option" where
  "tree_remove t k =
     do { (new_page, old_val) \<leftarrow> remove_recursive (root t) k;
          (case old_val of
             Some val \<Rightarrow> Some (t\<lparr>root := new_page\<rparr>, Some val)
           | None \<Rightarrow> Some (t, None)) }"

fun collect_entries :: "page \<Rightarrow> entry list" where
  "collect_entries (Leaf entries) = entries"
| "collect_entries (Branch _ children _) = concat (map collect_entries children)"

definition tree_scan_all :: "mvtree \<Rightarrow> entry list" where
  "tree_scan_all t = collect_entries (root t)"

text \<open>\<^verbatim>\<open>for_each_entry\<close> folds a callback over the entries in tree order.\<close>

fun traverse_for_each :: "(bytes \<Rightarrow> bytes \<Rightarrow> 's \<Rightarrow> 's) \<Rightarrow> page \<Rightarrow> 's \<Rightarrow> 's" where
  "traverse_for_each f (Leaf entries) s = fold (\<lambda>e. f (entry_key e) (entry_value e)) entries s"
| "traverse_for_each f (Branch _ children _) s = fold (traverse_for_each f) children s"

definition tree_for_each_entry :: "mvtree \<Rightarrow> (bytes \<Rightarrow> bytes \<Rightarrow> 's \<Rightarrow> 's) \<Rightarrow> 's \<Rightarrow> 's" where
  "tree_for_each_entry t f s = traverse_for_each f (root t) s"

text \<open>The leaf loop of the prefix scan stops at the first larger key that lacks the prefix.\<close>

fun prefix_loop :: "bytes \<Rightarrow> entry list \<Rightarrow> entry list" where
  "prefix_loop p [] = []"
| "prefix_loop p (e # es) =
     (if prefix p (entry_key e) then e # prefix_loop p es
      else if p < entry_key e then []
      else prefix_loop p es)"

definition search_index :: "nat + nat \<Rightarrow> nat" where
  "search_index r = (case r of Inr i \<Rightarrow> i | Inl i \<Rightarrow> i)"

fun collect_prefix_entries :: "page \<Rightarrow> bytes \<Rightarrow> entry list option"
and collect_prefix_children :: "bytes list \<Rightarrow> nat \<Rightarrow> page list \<Rightarrow> bytes \<Rightarrow> entry list option" where
  "collect_prefix_entries (Leaf entries) p =
     do { es \<leftarrow> slice entries (search_index (search_entries entries p)) (length entries);
          Some (prefix_loop p es) }"
| "collect_prefix_entries (Branch keys children _) p = collect_prefix_children keys 0 children p"
| "collect_prefix_children keys i [] p = Some []"
| "collect_prefix_children keys i (child # children) p =
     do { skip_left \<leftarrow>
            (if i > 0 then
               do { l \<leftarrow> vec_get keys (i - 1); Some (p < l \<and> \<not> prefix p l) }
             else Some False);
          skip \<leftarrow>
            (if skip_left then Some True
             else if i < length keys then
               do { r \<leftarrow> vec_get keys i; Some (r \<le> p \<and> \<not> prefix p r) }
             else Some False);
          out \<leftarrow> (if skip then Some [] else collect_prefix_entries child p);
          rest \<leftarrow> collect_prefix_children keys (i + 1) children p;
          Some (out @ rest) }"

definition tree_scan_prefix :: "mvtree \<Rightarrow> bytes \<Rightarrow> entry list option" where
  "tree_scan_prefix t p = collect_prefix_entries (root t) p"

datatype bound = Unbounded | Included bytes | Excluded bytes

fun within_end :: "bound \<Rightarrow> bytes \<Rightarrow> bool" where
  "within_end Unbounded k = True"
| "within_end (Included e) k = (k \<le> e)"
| "within_end (Excluded e) k = (k < e)"

fun range_start_index :: "bound \<Rightarrow> entry list \<Rightarrow> nat" where
  "range_start_index Unbounded entries = 0"
| "range_start_index (Included k) entries = search_index (search_entries entries k)"
| "range_start_index (Excluded k) entries =
     (case search_entries entries k of Inr idx \<Rightarrow> idx + 1 | Inl idx \<Rightarrow> idx)"

fun ends_before :: "bound \<Rightarrow> bytes \<Rightarrow> bool" where
  "ends_before Unbounded lower = False"
| "ends_before (Included e) lower = (e < lower)"
| "ends_before (Excluded e) lower = (e \<le> lower)"

fun starts_after :: "bound \<Rightarrow> bytes \<Rightarrow> bool" where
  "starts_after Unbounded upper = False"
| "starts_after (Included s) upper = (upper \<le> s)"
| "starts_after (Excluded s) upper = (upper \<le> s)"

fun collect_range_entries :: "page \<Rightarrow> bound \<Rightarrow> bound \<Rightarrow> entry list option"
and collect_range_children ::
  "bytes list \<Rightarrow> nat \<Rightarrow> page list \<Rightarrow> bound \<Rightarrow> bound \<Rightarrow> entry list option" where
  "collect_range_entries (Leaf entries) st en =
     do { es \<leftarrow> slice entries (range_start_index st entries) (length entries);
          Some (takeWhile (\<lambda>e. within_end en (entry_key e)) es) }"
| "collect_range_entries (Branch keys children _) st en =
     collect_range_children keys 0 children st en"
| "collect_range_children keys i [] st en = Some []"
| "collect_range_children keys i (child # children) st en =
     do { skip_left \<leftarrow>
            (if i > 0 then do { l \<leftarrow> vec_get keys (i - 1); Some (ends_before en l) }
             else Some False);
          skip \<leftarrow>
            (if skip_left then Some True
             else if i < length keys then do { r \<leftarrow> vec_get keys i; Some (starts_after st r) }
             else Some False);
          out \<leftarrow> (if skip then Some [] else collect_range_entries child st en);
          rest \<leftarrow> collect_range_children keys (i + 1) children st en;
          Some (out @ rest) }"

definition tree_scan_range :: "mvtree \<Rightarrow> bound \<Rightarrow> bound \<Rightarrow> entry list option" where
  "tree_scan_range t st en = collect_range_entries (root t) st en"

section \<open>Well-formed pages\<close>

text \<open>
  A page is well-formed for a key interval \<open>[lo, hi)\<close> (\<open>None\<close> is unbounded): leaf entries are
  strictly ascending and inside the interval; a branch has one more child than separators, one page
  reference per child, and its separators cut the interval into the non-empty intervals of its
  children.
\<close>

fun ge_lo :: "bytes option \<Rightarrow> bytes \<Rightarrow> bool" where
  "ge_lo None k = True"
| "ge_lo (Some a) k = (a \<le> k)"

fun lt_hi :: "bytes \<Rightarrow> bytes option \<Rightarrow> bool" where
  "lt_hi k None = True"
| "lt_hi k (Some b) = (k < b)"

fun gap :: "bytes option \<Rightarrow> bytes option \<Rightarrow> bool" where
  "gap (Some a) (Some b) = (a < b)"
| "gap _ _ = True"

fun page_wf :: "bytes option \<Rightarrow> bytes option \<Rightarrow> page \<Rightarrow> bool"
and children_wf :: "bytes option \<Rightarrow> bytes option \<Rightarrow> bytes list \<Rightarrow> page list \<Rightarrow> bool" where
  "page_wf lo hi (Leaf entries) =
     (gap lo hi \<and> sorted_keys entry_key entries \<and>
      (\<forall>e\<in>set entries. ge_lo lo (entry_key e) \<and> lt_hi (entry_key e) hi))"
| "page_wf lo hi (Branch keys children refs) =
     (length refs = length children \<and> children_wf lo hi keys children)"
| "children_wf lo hi keys [] = False"
| "children_wf lo hi [] (c # cs) = (cs = [] \<and> page_wf lo hi c)"
| "children_wf lo hi (k # ks) (c # cs) = (page_wf lo (Some k) c \<and> children_wf (Some k) hi ks cs)"

text \<open>Every leaf is at the same depth, and no page holds more entries than the configured bound.\<close>

fun uniform_depth :: "nat \<Rightarrow> page \<Rightarrow> bool" where
  "uniform_depth d (Leaf _) = (d = 0)"
| "uniform_depth d (Branch _ children _) =
     (case d of 0 \<Rightarrow> False | Suc d' \<Rightarrow> list_all (uniform_depth d') children)"

fun page_fits :: "nat \<Rightarrow> page \<Rightarrow> bool" where
  "page_fits m (Leaf entries) = (length entries \<le> m)"
| "page_fits m (Branch keys children _) = (length keys \<le> m \<and> list_all (page_fits m) children)"

definition tree_wf :: "mvtree \<Rightarrow> bool" where
  "tree_wf t \<longleftrightarrow> 0 < max_entries_per_page t \<and> page_wf None None (root t)"

definition tree_balanced :: "mvtree \<Rightarrow> bool" where
  "tree_balanced t \<longleftrightarrow>
     (\<exists>d. uniform_depth d (root t)) \<and> page_fits (max_entries_per_page t) (root t)"

text \<open>The abstract value of a page and of a tree.\<close>

definition kv :: "entry \<Rightarrow> bytes \<times> bytes" where
  "kv e = (entry_key e, entry_value e)"

definition page_kvs :: "page \<Rightarrow> (bytes, bytes) kvs" where
  "page_kvs p = map kv (collect_entries p)"

definition tree_kvs :: "mvtree \<Rightarrow> (bytes, bytes) kvs" where
  "tree_kvs t = page_kvs (root t)"

lemma fst_kv [simp]: "fst (kv e) = entry_key e" and snd_kv [simp]: "snd (kv e) = entry_value e"
  by (simp_all add: kv_def)

lemma page_kvs_Leaf [simp]: "page_kvs (Leaf entries) = map kv entries"
  by (simp add: page_kvs_def)

lemma page_kvs_Branch [simp]: "page_kvs (Branch ks cs rs) = concat (map page_kvs cs)"
  by (simp add: page_kvs_def [abs_def] map_concat comp_def)

lemma page_kvs_new_branch [simp]: "page_kvs (new_branch ks cs) = concat (map page_kvs cs)"
  by (simp add: new_branch_def)

lemma page_wf_new_branch [simp]: "page_wf lo hi (new_branch ks cs) = children_wf lo hi ks cs"
  by (simp add: new_branch_def)

subsection \<open>Intervals\<close>

lemma gap_trans: "gap lo (Some k) \<Longrightarrow> gap (Some k) hi \<Longrightarrow> gap lo hi"
  by (cases lo; cases hi) auto

lemma ge_lo_trans: "ge_lo (Some k) x \<Longrightarrow> gap lo (Some k) \<Longrightarrow> ge_lo lo x"
  by (cases lo) auto

lemma lt_hi_trans: "lt_hi x (Some k) \<Longrightarrow> gap (Some k) hi \<Longrightarrow> lt_hi x hi"
  by (cases hi) auto

lemma page_wf_gap:
  "page_wf lo hi p \<Longrightarrow> gap lo hi" "children_wf lo hi ks cs \<Longrightarrow> gap lo hi"
  by (induction lo hi p and lo hi ks cs rule: page_wf_children_wf.induct)
    (auto intro: gap_trans)

lemma page_wf_bounds:
  "page_wf lo hi p \<Longrightarrow> \<forall>k\<in>fst ` set (page_kvs p). ge_lo lo k \<and> lt_hi k hi"
  "children_wf lo hi ks cs \<Longrightarrow>
     \<forall>k\<in>fst ` set (concat (map page_kvs cs)). ge_lo lo k \<and> lt_hi k hi"
proof (induction lo hi p and lo hi ks cs rule: page_wf_children_wf.induct)
  case (5 lo hi k ks c cs)
  from 5 have "gap lo (Some k)" "gap (Some k) hi" by (auto dest: page_wf_gap)
  moreover from 5 have "\<forall>x\<in>fst ` set (page_kvs c). ge_lo lo x \<and> lt_hi x (Some k)"
    and "\<forall>x\<in>fst ` set (concat (map page_kvs cs)). ge_lo (Some k) x \<and> lt_hi x hi"
    by auto
  ultimately have "ge_lo lo x \<and> lt_hi x hi"
    if "x \<in> fst ` set (page_kvs c) \<union> fst ` set (concat (map page_kvs cs))" for x
    using that by (blast intro: ge_lo_trans lt_hi_trans)
  then show ?case by (simp add: image_Un del: set_concat)
qed auto

lemma children_wf_length: "children_wf lo hi ks cs \<Longrightarrow> length cs = Suc (length ks)"
proof (induction ks arbitrary: lo cs)
  case Nil
  then show ?case by (cases cs) auto
next
  case (Cons k ks)
  then show ?case by (cases cs) auto
qed

lemma children_wf_append:
  "length cs1 = Suc (length ks1) \<Longrightarrow>
   children_wf lo hi (ks1 @ k # ks2) (cs1 @ cs2) \<longleftrightarrow>
   children_wf lo (Some k) ks1 cs1 \<and> children_wf (Some k) hi ks2 cs2"
proof (induction ks1 arbitrary: lo cs1)
  case Nil
  then obtain c where "cs1 = [c]" by (cases cs1) auto
  then show ?case by simp
next
  case (Cons a ks1)
  then obtain c cs where "cs1 = c # cs" by (cases cs1) auto
  with Cons show ?case by simp
qed

text \<open>The children left and right of position \<open>length ks1\<close>, with the interval they leave for it.\<close>

definition last_sep :: "bytes option \<Rightarrow> bytes list \<Rightarrow> bytes option" where
  "last_sep lo ks = (if ks = [] then lo else Some (last ks))"

definition next_sep :: "bytes list \<Rightarrow> bytes option \<Rightarrow> bytes option" where
  "next_sep ks hi = (case ks of [] \<Rightarrow> hi | k # _ \<Rightarrow> Some k)"

definition left_wf :: "bytes option \<Rightarrow> bytes list \<Rightarrow> page list \<Rightarrow> bool" where
  "left_wf lo ks cs \<longleftrightarrow>
     (if ks = [] then cs = [] else children_wf lo (Some (last ks)) (butlast ks) cs)"

definition right_wf :: "bytes list \<Rightarrow> page list \<Rightarrow> bytes option \<Rightarrow> bool" where
  "right_wf ks cs hi \<longleftrightarrow> (case ks of [] \<Rightarrow> cs = [] | k # ks' \<Rightarrow> children_wf (Some k) hi ks' cs)"

lemma children_wf_right:
  "children_wf lo hi ks (c # cs) \<longleftrightarrow> page_wf lo (next_sep ks hi) c \<and> right_wf ks cs hi"
  by (cases ks) (auto simp: next_sep_def right_wf_def)

lemma children_wf_focus:
  assumes "length ks1 = length cs1"
  shows "children_wf lo hi (ks1 @ ks2) (cs1 @ c # cs2) \<longleftrightarrow>
     left_wf lo ks1 cs1 \<and> page_wf (last_sep lo ks1) (next_sep ks2 hi) c \<and> right_wf ks2 cs2 hi"
proof (cases ks1 rule: rev_cases)
  case Nil
  with assms show ?thesis
    by (simp add: children_wf_right left_wf_def last_sep_def)
next
  case (snoc ks k)
  with assms have "length cs1 = Suc (length ks)" by simp
  from children_wf_append [OF this, of lo hi k ks2 "c # cs2"] snoc show ?thesis
    by (simp add: children_wf_right left_wf_def last_sep_def)
qed

lemma left_wf_bounds:
  assumes "left_wf lo ks cs"
  shows "\<forall>k\<in>fst ` set (concat (map page_kvs cs)). lt_hi k (last_sep lo ks)"
proof (cases "ks = []")
  case True
  with assms show ?thesis by (simp add: left_wf_def)
next
  case False
  with assms have "children_wf lo (Some (last ks)) (butlast ks) cs" by (simp add: left_wf_def)
  from page_wf_bounds(2) [OF this] False show ?thesis by (simp add: last_sep_def del: set_concat)
qed

lemma right_wf_bounds:
  assumes "right_wf ks cs hi"
  shows "\<forall>k\<in>fst ` set (concat (map page_kvs cs)). ge_lo (next_sep ks hi) k"
proof (cases ks)
  case Nil
  with assms show ?thesis by (simp add: right_wf_def)
next
  case (Cons k ks')
  with assms have "children_wf (Some k) hi ks' cs" by (simp add: right_wf_def)
  from page_wf_bounds(2) [OF this] Cons show ?thesis by (simp add: next_sep_def del: set_concat)
qed

lemma children_wf_keys:
  "children_wf lo hi ks cs \<Longrightarrow>
   sorted_wrt (<) ks \<and> (\<forall>k\<in>set ks. gap lo (Some k) \<and> gap (Some k) hi)"
proof (induction ks arbitrary: lo cs)
  case (Cons k ks)
  then obtain c cs' where cs: "cs = c # cs'" by (cases cs) auto
  with Cons have "page_wf lo (Some k) c" "children_wf (Some k) hi ks cs'" by auto
  with Cons.IH [of "Some k" cs'] show ?case
    by (auto dest: page_wf_gap intro: gap_trans)
qed simp

subsection \<open>The child that covers a key\<close>

lemma child_index_split:
  assumes "sorted_wrt (<) ks"
  shows "\<exists>ks1 ks2. ks = ks1 @ ks2 \<and> length ks1 = child_index ks k \<and>
           (\<forall>a\<in>set ks1. a \<le> k) \<and> (\<forall>b\<in>set ks2. k < b)"
proof (cases "search_keys ks k")
  case (Inl i)
  with assms binary_search_Err [of "\<lambda>x. x" ks k i] obtain ys zs where
    "ks = ys @ zs" "length ys = i" "\<forall>y\<in>set ys. y < k" "\<forall>z\<in>set zs. k < z"
    by auto
  with Inl show ?thesis
    by (intro exI [of _ ys] exI [of _ zs]) (auto simp: child_index_def)
next
  case (Inr i)
  with assms binary_search_Ok [of "\<lambda>x. x" ks k i] obtain ys x zs where
    "ks = ys @ x # zs" "length ys = i" "x = k" "\<forall>y\<in>set ys. y < k" "\<forall>z\<in>set zs. k < z"
    by auto
  with Inr show ?thesis
    by (intro exI [of _ "ys @ [x]"] exI [of _ zs]) (auto simp: child_index_def)
qed

lemma covering_child:
  assumes wf: "children_wf lo hi ks cs" and lo: "ge_lo lo k" and hi: "lt_hi k hi"
  obtains ks1 ks2 cs1 c cs2 where
    "ks = ks1 @ ks2" "cs = cs1 @ c # cs2" "length ks1 = length cs1"
    "child_index ks k = length cs1"
    "left_wf lo ks1 cs1" "page_wf (last_sep lo ks1) (next_sep ks2 hi) c" "right_wf ks2 cs2 hi"
    "ge_lo (last_sep lo ks1) k" "lt_hi k (next_sep ks2 hi)"
    "\<forall>x\<in>set (concat (map page_kvs cs1)). fst x < k"
    "\<forall>x\<in>set (concat (map page_kvs cs2)). k < fst x"
proof -
  from child_index_split children_wf_keys [OF wf] obtain ks1 ks2 where
    ks: "ks = ks1 @ ks2" "length ks1 = child_index ks k"
      "\<forall>a\<in>set ks1. a \<le> k" "\<forall>b\<in>set ks2. k < b"
    by blast
  from children_wf_length [OF wf] ks(1) have "length ks1 < length cs" by simp
  from split_at_nth [OF this] obtain cs1 cs2 where
    cs: "cs = cs1 @ cs ! length ks1 # cs2" "length ks1 = length cs1"
    by metis
  from wf ks(1) cs(1) have "children_wf lo hi (ks1 @ ks2) (cs1 @ cs ! length ks1 # cs2)" by simp
  with children_wf_focus [OF cs(2)] have focus:
    "left_wf lo ks1 cs1" "page_wf (last_sep lo ks1) (next_sep ks2 hi) (cs ! length ks1)"
    "right_wf ks2 cs2 hi"
    by blast+
  have sep: "ge_lo (last_sep lo ks1) k" "lt_hi k (next_sep ks2 hi)"
    using lo hi ks(3,4) by (auto simp: last_sep_def next_sep_def split: list.split)
  have "\<forall>x\<in>fst ` set (concat (map page_kvs cs1)). x < k"
  proof (cases "ks1 = []")
    case True
    with focus(1) show ?thesis by (simp add: left_wf_def)
  next
    case False
    then have "last ks1 \<le> k" using ks(3) by simp
    with False left_wf_bounds [OF focus(1)] show ?thesis
      by (simp only: last_sep_def if_False lt_hi.simps) (blast intro: less_le_trans)
  qed
  moreover have "\<forall>x\<in>fst ` set (concat (map page_kvs cs2)). k < x"
  proof (cases ks2)
    case Nil
    with focus(3) show ?thesis by (simp add: right_wf_def)
  next
    case (Cons b ks')
    then have "k < b" using ks(4) by simp
    with Cons right_wf_bounds [OF focus(3)] show ?thesis
      by (simp only: next_sep_def list.case ge_lo.simps) (blast intro: less_le_trans)
  qed
  ultimately show ?thesis
    using that [of ks1 ks2 cs1 "cs ! length ks1" cs2] ks cs focus sep by fastforce
qed

section \<open>Lookup\<close>

lemma map_of_absent: "\<forall>x\<in>set xs. fst x \<noteq> k \<Longrightarrow> map_of xs k = None"
  by (auto simp: map_of_eq_None_iff)

lemma map_of_focus:
  assumes "\<forall>x\<in>set xs. fst x < k" "\<forall>x\<in>set zs. (k::'k::linorder) < fst x"
  shows "map_of (xs @ ys @ zs) k = map_of ys k"
proof -
  have "map_of xs k = None" "map_of zs k = None"
    using assms by (auto intro!: map_of_absent)
  then show ?thesis by (auto simp: map_add_def split: option.split)
qed

lemma sorted_keys_kv: "sorted_keys fst (map kv es) = sorted_keys entry_key es"
  by (simp add: comp_def)

lemma descend_get_correct:
  "page_wf lo hi p \<Longrightarrow> ge_lo lo k \<Longrightarrow> lt_hi k hi \<Longrightarrow>
   descend_get p k = Some (map_of (page_kvs p) k)"
proof (induction p k arbitrary: lo hi rule: descend_get.induct)
  case (1 entries k)
  then have srt: "sorted_keys entry_key entries" by simp
  show ?case
  proof (cases "search_entries entries k")
    case (Inl i)
    from binary_search_Err [OF srt Inl] have "\<forall>x\<in>set (map kv entries). fst x \<noteq> k" by auto
    with Inl show ?thesis by (simp add: map_of_absent)
  next
    case (Inr i)
    from binary_search_Ok [OF srt Inr] obtain ys x zs where
      "entries = ys @ x # zs" "length ys = i" "entry_key x = k"
      "\<forall>y\<in>set ys. entry_key y < k" "\<forall>z\<in>set zs. k < entry_key z"
      by blast
    with Inr map_of_focus [of "map kv ys" k "map kv zs" "[kv x]"] show ?thesis
      by (simp add: vec_simps kv_def)
  qed
next
  case (2 keys children refs k)
  then have "children_wf lo hi keys children" by simp
  from covering_child [OF this "2.prems"(2,3)] obtain ks1 ks2 cs1 c cs2 where f:
    "children = cs1 @ c # cs2" "child_index keys k = length cs1"
    "page_wf (last_sep lo ks1) (next_sep ks2 hi) c"
    "ge_lo (last_sep lo ks1) k" "lt_hi k (next_sep ks2 hi)"
    "\<forall>x\<in>set (concat (map page_kvs cs1)). fst x < k"
    "\<forall>x\<in>set (concat (map page_kvs cs2)). k < fst x"
    by metis
  have "vec_get children (child_index keys k) = Some c" using f by (simp add: vec_simps)
  with "2.IH" [OF this f(3-5)] map_of_focus [OF f(6,7)] f(1) show ?case by simp
qed

section \<open>Insertion\<close>

text \<open>What \<open>insert_recursive\<close> promises: no panic, the sorted insertion, and well-formed halves.\<close>

definition insert_ok :: "bytes option \<Rightarrow> bytes option \<Rightarrow> (bytes, bytes) kvs \<Rightarrow> page \<times> (bytes \<times> page) option \<Rightarrow> bool" where
  "insert_ok lo hi kvs r \<longleftrightarrow>
     (case r of
        (l, None) \<Rightarrow> page_wf lo hi l \<and> page_kvs l = kvs
      | (l, Some (p, rt)) \<Rightarrow>
          page_wf lo (Some p) l \<and> page_wf (Some p) hi rt \<and> page_kvs l @ page_kvs rt = kvs)"

lemma insert_leaf_ok:
  assumes "page_wf lo hi (Leaf entries)" "ge_lo lo k" "lt_hi k hi" "0 < m"
  shows "\<exists>r. insert_recursive m (Leaf entries) k v = Some r \<and>
             insert_ok lo hi (put_sorted k v (map kv entries)) r"
proof (cases "search_entries entries k")
  case (Inr i)
  from assms(1) have srt: "sorted_keys entry_key entries" by simp
  from binary_search_Ok [OF srt Inr] obtain ys x zs where e:
    "entries = ys @ x # zs" "length ys = i" "entry_key x = k"
    "\<forall>y\<in>set ys. entry_key y < k"
    by blast
  have "kv (x\<lparr>entry_value := v\<rparr>) = (k, v)" using e(3) by (simp add: kv_def)
  with Inr e assms put_sorted_hit [of "map kv ys" k v "entry_value x" "map kv zs"] show ?thesis
    by (auto simp: vec_simps insert_ok_def sorted_wrt_append kv_def)
next
  case (Inl i)
  from assms(1) have srt: "sorted_keys entry_key entries" by simp
  from binary_search_Err [OF srt Inl] obtain ys zs where e:
    "entries = ys @ zs" "length ys = i" "\<forall>y\<in>set ys. entry_key y < k" "\<forall>z\<in>set zs. k < entry_key z"
    by blast
  define es where "es = ys @ \<lparr>entry_key = k, entry_value = v\<rparr> # zs"
  have ins: "vec_insert entries i \<lparr>entry_key = k, entry_value = v\<rparr> = Some es"
    using e by (simp add: vec_simps es_def)
  have srt': "sorted_keys entry_key es"
    using srt e by (auto simp: es_def sorted_wrt_append)
  have bnd: "\<forall>x\<in>set es. ge_lo lo (entry_key x) \<and> lt_hi (entry_key x) hi"
    using assms e by (auto simp: es_def)
  have kvs: "map kv es = put_sorted k v (map kv entries)"
    using e put_sorted_new [of "map kv ys" k "map kv zs" v] by (simp add: es_def kv_def)
  show ?thesis
  proof (cases "m < length es")
    case False
    with Inl ins srt' bnd kvs assms(1) show ?thesis by (simp add: insert_ok_def)
  next
    case True
    define mid where "mid = length es div 2"
    from True assms(4) have mid: "0 < mid" "mid < length es" by (auto simp: mid_def)
    define l r where "l = take mid es" and "r = drop mid es"
    have es: "es = l @ r" "l \<noteq> []" "r \<noteq> []" using mid by (auto simp: l_def r_def)
    then obtain a r' where r: "r = a # r'" by (cases r) auto
    have "sorted_keys entry_key (l @ a # r')" using srt' es r by simp
    then have order: "\<forall>x\<in>set l. entry_key x < entry_key a" "sorted_keys entry_key l"
      "sorted_keys entry_key r" "\<forall>x\<in>set r. entry_key a \<le> entry_key x"
      by (auto simp: sorted_wrt_append r less_imp_le)
    obtain b where "b \<in> set l" using es(2) by (cases l) auto
    then have "ge_lo lo (entry_key b)" "entry_key b < entry_key a"
      using bnd es order by auto
    then have gap_lo: "gap lo (Some (entry_key a))" by (cases lo) auto
    have "lt_hi (entry_key a) hi" using bnd es r by simp
    then have gap_hi: "gap (Some (entry_key a)) hi" by (cases hi) auto
    have "insert_recursive m (Leaf entries) k v
          = Some (Leaf l, Some (entry_key a, Leaf r))"
      using Inl ins True mid r
      by (simp add: vec_split_off_def vec_get_def Let_def mid_def [symmetric] l_def r_def)
    moreover have "insert_ok lo hi (map kv es) (Leaf l, Some (entry_key a, Leaf r))"
      using order gap_lo gap_hi bnd es by (auto simp: insert_ok_def)
    ultimately show ?thesis by (simp add: kvs)
  qed
qed

lemma new_branch_split_ok:
  assumes wf: "children_wf lo hi ks cs" and m: "m < length ks"
  shows "\<exists>pivot lk rk lc rc.
     vec_remove ks (length ks div 2) = Some (pivot, lk @ rk) \<and>
     vec_split_off (lk @ rk) (length ks div 2) = Some (lk, rk) \<and>
     vec_split_off cs (length ks div 2 + 1) = Some (lc, rc) \<and>
     insert_ok lo hi (concat (map page_kvs cs)) (new_branch lk lc, Some (pivot, new_branch rk rc))"
proof -
  define mid where "mid = length ks div 2"
  from m have "mid < length ks" by (auto simp: mid_def)
  from split_at_nth [OF this] obtain lk rk where ks: "ks = lk @ ks ! mid # rk" "length lk = mid"
    by blast
  from children_wf_length [OF wf] m have "mid + 1 \<le> length cs" by (simp add: mid_def)
  from split_at [OF this] obtain lc rc where cs: "cs = lc @ rc" "length lc = mid + 1"
    by blast
  from wf ks(1) cs(1) have "children_wf lo hi (lk @ ks ! mid # rk) (lc @ rc)" by simp
  with children_wf_append [of lc lk] ks(2) cs(2) have halves:
    "children_wf lo (Some (ks ! mid)) lk lc" "children_wf (Some (ks ! mid)) hi rk rc"
    by auto
  have "vec_remove ks mid = Some (ks ! mid, lk @ rk)"
    by (subst ks(1)) (simp add: vec_simps ks(2))
  moreover have "vec_split_off (lk @ rk) mid = Some (lk, rk)" "vec_split_off cs (mid + 1) = Some (lc, rc)"
    using ks(2) cs by (simp_all add: vec_simps)
  moreover have "insert_ok lo hi (concat (map page_kvs cs)) (new_branch lk lc, Some (ks ! mid, new_branch rk rc))"
    using halves cs(1) by (simp add: insert_ok_def)
  ultimately show ?thesis unfolding mid_def by blast
qed

lemma insert_recursive_ok:
  "page_wf lo hi p \<Longrightarrow> ge_lo lo k \<Longrightarrow> lt_hi k hi \<Longrightarrow> 0 < m \<Longrightarrow>
   \<exists>r. insert_recursive m p k v = Some r \<and> insert_ok lo hi (put_sorted k v (page_kvs p)) r"
proof (induction m p k v arbitrary: lo hi rule: insert_recursive.induct)
  case (1 m entries k v)
  then show ?case using insert_leaf_ok by (simp only: page_kvs_Leaf)
next
  case (2 m keys children refs k v)
  then have "children_wf lo hi keys children" by simp
  from covering_child [OF this "2.prems"(2,3)] obtain ks1 ks2 cs1 c cs2 where f:
    "keys = ks1 @ ks2" "children = cs1 @ c # cs2" "length ks1 = length cs1"
    "child_index keys k = length cs1" "left_wf lo ks1 cs1"
    "page_wf (last_sep lo ks1) (next_sep ks2 hi) c" "right_wf ks2 cs2 hi"
    "ge_lo (last_sep lo ks1) k" "lt_hi k (next_sep ks2 hi)"
    "\<forall>x\<in>set (concat (map page_kvs cs1)). fst x < k"
    "\<forall>x\<in>set (concat (map page_kvs cs2)). k < fst x"
    by metis
  note focus = children_wf_focus [OF f(3)]
  have get: "vec_get children (length cs1) = Some c"
    and set: "\<And>c'. vec_set children (length cs1) c' = Some (cs1 @ c' # cs2)"
    using f by (simp_all add: vec_simps)
  from "2.IH" [OF refl] get f(4) f(6,8,9) "2.prems"(4) obtain c' sp where
    rec: "insert_recursive m c k v = Some (c', sp)"
    and ok: "insert_ok (last_sep lo ks1) (next_sep ks2 hi) (put_sorted k v (page_kvs c)) (c', sp)"
    by (metis old.prod.exhaust)
  have put: "put_sorted k v (page_kvs (Branch keys children refs)) =
      concat (map page_kvs cs1) @ put_sorted k v (page_kvs c) @ concat (map page_kvs cs2)"
    using put_sorted_between [OF f(10,11)] f(2) by simp
  show ?case
  proof (cases sp)
    case None
    with ok have "page_wf (last_sep lo ks1) (next_sep ks2 hi) c'"
      "page_kvs c' = put_sorted k v (page_kvs c)"
      by (auto simp: insert_ok_def)
    with focus [of lo hi ks2 c' cs2] f None rec get set put show ?thesis
      by (simp add: insert_ok_def)
  next
    case (Some pr)
    obtain pv rt where pr: "pr = (pv, rt)" by force
    with Some ok have halves:
      "page_wf (last_sep lo ks1) (Some pv) c'" "page_wf (Some pv) (next_sep ks2 hi) rt"
      "page_kvs c' @ page_kvs rt = put_sorted k v (page_kvs c)"
      by (auto simp: insert_ok_def)
    define nk nc where "nk = ks1 @ pv # ks2" and "nc = cs1 @ c' # rt # cs2"
    have wf: "children_wf lo hi nk nc"
      using focus [of lo hi "pv # ks2" c' "rt # cs2"] halves f
      by (simp add: nk_def nc_def next_sep_def right_wf_def children_wf_right)
    have kvs: "concat (map page_kvs nc) = put_sorted k v (page_kvs (Branch keys children refs))"
      by (subst put) (simp add: nc_def halves(3) [symmetric])
    have ins: "vec_insert keys (length cs1) pv = Some nk"
      "vec_insert (cs1 @ c' # cs2) (Suc (length cs1)) rt = Some nc"
      using f by (simp_all add: vec_simps nk_def nc_def)
    show ?thesis
    proof (cases "m < length nk")
      case True
      from new_branch_split_ok [OF wf True] obtain pivot lk rk lc rc where
        "vec_remove nk (length nk div 2) = Some (pivot, lk @ rk)"
        "vec_split_off (lk @ rk) (length nk div 2) = Some (lk, rk)"
        "vec_split_off nc (length nk div 2 + 1) = Some (lc, rc)"
        "insert_ok lo hi (concat (map page_kvs nc)) (new_branch lk lc, Some (pivot, new_branch rk rc))"
        by blast
      with True ins rec get set f(4) Some pr kvs show ?thesis
        by (simp add: Let_def del: page_kvs_Branch)
    next
      case False
      with ins rec get set f(4) Some pr kvs wf show ?thesis
        by (simp add: Let_def insert_ok_def del: page_kvs_Branch)
    qed
  qed
qed

section \<open>Removal\<close>

lemma map_of_Cons_hit: "\<forall>y\<in>set ys. fst y \<noteq> k \<Longrightarrow> map_of (ys @ (k, w) # zs) k = Some w"
  by (induction ys) auto

lemma remove_leaf_ok:
  assumes "page_wf lo hi (Leaf entries)"
  shows "\<exists>p'. remove_recursive (Leaf entries) k = Some (p', map_of (map kv entries) k) \<and>
              page_wf lo hi p' \<and> page_kvs p' = del_key k (map kv entries)"
proof (cases "search_entries entries k")
  case (Inl i)
  from assms have srt: "sorted_keys entry_key entries" by simp
  from binary_search_Err [OF srt Inl] have "\<forall>x\<in>set (map kv entries). fst x \<noteq> k" by auto
  with Inl assms show ?thesis by (simp add: map_of_absent del_key_absent)
next
  case (Inr i)
  from assms have srt: "sorted_keys entry_key entries" by simp
  from binary_search_Ok [OF srt Inr] obtain ys x zs where e:
    "entries = ys @ x # zs" "length ys = i" "entry_key x = k"
    "\<forall>y\<in>set ys. entry_key y < k" "\<forall>z\<in>set zs. k < entry_key z"
    by blast
  have ne: "\<forall>x\<in>set (map kv ys). fst x \<noteq> k" "\<forall>x\<in>set (map kv zs). fst x \<noteq> k"
    using e(4,5) by auto
  have "map_of (map kv entries) k = Some (entry_value x)"
    using e map_of_Cons_hit [OF ne(1), of "entry_value x" "map kv zs"] by (simp add: kv_def)
  moreover have "del_key k (map kv entries) = map kv (ys @ zs)"
    using e del_key_absent [OF ne(1)] del_key_absent [OF ne(2)] by (simp add: del_key_def)
  ultimately show ?thesis
    using assms Inr e by (auto simp: vec_simps sorted_wrt_append)
qed

lemma remove_recursive_ok:
  "page_wf lo hi p \<Longrightarrow> ge_lo lo k \<Longrightarrow> lt_hi k hi \<Longrightarrow>
   \<exists>p'. remove_recursive p k = Some (p', map_of (page_kvs p) k) \<and>
        page_wf lo hi p' \<and> page_kvs p' = del_key k (page_kvs p)"
proof (induction p k arbitrary: lo hi rule: remove_recursive.induct)
  case (1 entries k)
  from remove_leaf_ok [OF "1.prems"(1)] show ?case by (simp only: page_kvs_Leaf)
next
  case (2 keys children refs k)
  then have "children_wf lo hi keys children" by simp
  from covering_child [OF this "2.prems"(2,3)] obtain ks1 ks2 cs1 c cs2 where f:
    "keys = ks1 @ ks2" "children = cs1 @ c # cs2" "length ks1 = length cs1"
    "child_index keys k = length cs1" "left_wf lo ks1 cs1"
    "page_wf (last_sep lo ks1) (next_sep ks2 hi) c" "right_wf ks2 cs2 hi"
    "ge_lo (last_sep lo ks1) k" "lt_hi k (next_sep ks2 hi)"
    "\<forall>x\<in>set (concat (map page_kvs cs1)). fst x < k"
    "\<forall>x\<in>set (concat (map page_kvs cs2)). k < fst x"
    by metis
  note focus = children_wf_focus [OF f(3)]
  have get: "vec_get children (length cs1) = Some c"
    and set: "\<And>c'. vec_set children (length cs1) c' = Some (cs1 @ c' # cs2)"
    using f by (simp_all add: vec_simps)
  from "2.IH" [OF refl] get f(4) f(6,8,9) obtain c' where
    rec: "remove_recursive c k = Some (c', map_of (page_kvs c) k)"
    and wf: "page_wf (last_sep lo ks1) (next_sep ks2 hi) c'"
    and kvs: "page_kvs c' = del_key k (page_kvs c)"
    by metis
  have look: "map_of (page_kvs (Branch keys children refs)) k = map_of (page_kvs c) k"
    using map_of_focus [OF f(10,11)] f(2) by simp
  have "\<forall>x\<in>set (concat (map page_kvs cs1)). fst x \<noteq> k"
    "\<forall>x\<in>set (concat (map page_kvs cs2)). fst x \<noteq> k"
    using f(10,11) by blast+
  then have del: "del_key k (page_kvs (Branch keys children refs)) =
      concat (map page_kvs cs1) @ del_key k (page_kvs c) @ concat (map page_kvs cs2)"
    using f(2) by (simp add: del_key_absent del: set_concat)
  show ?case
  proof (cases "map_of (page_kvs c) k")
    case None
    then have "del_key k (page_kvs c) = page_kvs c"
      by (intro del_key_absent) (auto simp: map_of_eq_None_iff)
    with del f(2) have "del_key k (page_kvs (Branch keys children refs)) =
        page_kvs (Branch keys children refs)"
      by simp
    with None rec get f(4) look "2.prems"(1) show ?thesis
      by (simp add: Let_def del: page_kvs_Branch)
  next
    case (Some v)
    with rec get set f(4) look del kvs wf focus [of lo hi ks2 c' cs2] f show ?thesis
      by (simp add: Let_def del: page_kvs_Branch)
  qed
qed

section \<open>Order of the entries\<close>

lemma sorted_append_bounds:
  assumes "sorted_keys fst xs" "sorted_keys fst ys"
    and "\<forall>x\<in>fst ` set xs. x < k" "\<forall>y\<in>fst ` set ys. (k::'k::linorder) \<le> y"
  shows "sorted_keys fst (xs @ ys)"
  using assms by (auto simp: sorted_wrt_append) (metis fst_conv image_eqI less_le_trans)

lemma page_kvs_sorted:
  "page_wf lo hi p \<Longrightarrow> sorted_keys fst (page_kvs p)"
  "children_wf lo hi ks cs \<Longrightarrow> sorted_keys fst (concat (map page_kvs cs))"
proof (induction lo hi p and lo hi ks cs rule: page_wf_children_wf.induct)
  case (1 lo hi entries)
  then show ?case by (simp add: comp_def)
next
  case (5 lo hi k ks c cs)
  then have "page_wf lo (Some k) c" "children_wf (Some k) hi ks cs" by auto
  from page_wf_bounds(1) [OF this(1)] page_wf_bounds(2) [OF this(2)] 5
  have "sorted_keys fst (page_kvs c @ concat (map page_kvs cs))"
    by (intro sorted_append_bounds [where k = k]) (auto simp del: set_concat)
  then show ?case by simp
qed auto

section \<open>Balance\<close>

text \<open>The shape of a page and of its right sibling, for any predicate on pages.\<close>

definition both_halves :: "(page \<Rightarrow> bool) \<Rightarrow> page \<times> (bytes \<times> page) option \<Rightarrow> bool" where
  "both_halves P r \<longleftrightarrow> P (fst r) \<and> (case snd r of None \<Rightarrow> True | Some (_, p) \<Rightarrow> P p)"

lemma uniform_depth_new_branch [simp]:
  "uniform_depth (Suc d) (new_branch ks cs) = list_all (uniform_depth d) cs"
  by (simp add: new_branch_def)

lemma page_fits_new_branch [simp]:
  "page_fits m (new_branch ks cs) = (length ks \<le> m \<and> list_all (page_fits m) cs)"
  by (simp add: new_branch_def)

text \<open>The three ways an insertion into a branch ends.\<close>

lemma insert_branchE:
  assumes "insert_recursive m (Branch keys children refs) k v = Some r"
  obtains (plain) c c' nc where
      "vec_get children (child_index keys k) = Some c"
      "insert_recursive m c k v = Some (c', None)"
      "vec_set children (child_index keys k) c' = Some nc" "r = (new_branch keys nc, None)"
  | (absorbed) c c' pv rt nc nk nc' where
      "vec_get children (child_index keys k) = Some c"
      "insert_recursive m c k v = Some (c', Some (pv, rt))"
      "vec_set children (child_index keys k) c' = Some nc"
      "vec_insert keys (child_index keys k) pv = Some nk"
      "vec_insert nc (child_index keys k + 1) rt = Some nc'"
      "length nk \<le> m" "r = (new_branch nk nc', None)"
  | (divided) c c' pv rt nc nk nc' pivot ks lk rk lc rc where
      "vec_get children (child_index keys k) = Some c"
      "insert_recursive m c k v = Some (c', Some (pv, rt))"
      "vec_set children (child_index keys k) c' = Some nc"
      "vec_insert keys (child_index keys k) pv = Some nk"
      "vec_insert nc (child_index keys k + 1) rt = Some nc'"
      "m < length nk" "vec_remove nk (length nk div 2) = Some (pivot, ks)"
      "vec_split_off ks (length nk div 2) = Some (lk, rk)"
      "vec_split_off nc' (length nk div 2 + 1) = Some (lc, rc)"
      "r = (new_branch lk lc, Some (pivot, new_branch rk rc))"
proof -
  from assms obtain c c' sp nc where
    c: "vec_get children (child_index keys k) = Some c"
      "insert_recursive m c k v = Some (c', sp)"
      "vec_set children (child_index keys k) c' = Some nc"
    by (auto simp: Let_def bind_eq_Some_conv)
  show thesis
  proof (cases sp)
    case None
    with assms c plain show thesis by auto
  next
    case (Some pr)
    obtain pv rt where "pr = (pv, rt)" by force
    with assms c Some absorbed divided show thesis
      by (auto simp: Let_def bind_eq_Some_conv not_less split: if_splits)
  qed
qed

lemma insert_recursive_depth:
  "insert_recursive m p k v = Some r \<Longrightarrow> uniform_depth d p \<Longrightarrow> both_halves (uniform_depth d) r"
proof (induction m p k v arbitrary: d r rule: insert_recursive.induct)
  case (1 m entries k v)
  then show ?case
    by (auto simp: Let_def both_halves_def split: sum.splits if_splits Option.bind_splits)
next
  case (2 m keys children refs k v)
  then obtain d' where d: "d = Suc d'" and cs: "list_all (uniform_depth d') children"
    by (auto split: nat.splits)
  have child: "both_halves (uniform_depth d') x"
    if "vec_get children (child_index keys k) = Some c" "insert_recursive m c k v = Some x" for c x
    using "2.IH" [OF refl that] list_all_vec(1) [OF cs that(1)] by simp
  from "2.prems"(1) show ?case
  proof (cases rule: insert_branchE)
    case plain
    with child [OF plain(1,2)] cs d show ?thesis
      by (auto simp: both_halves_def dest: list_all_vec(2))
  next
    case absorbed
    with child [OF absorbed(1,2)] cs d show ?thesis
      by (auto simp: both_halves_def dest: list_all_vec(2,3))
  next
    case (divided c c' pv rt nc nk nc' pivot ks lk rk lc rc)
    from child [OF divided(1,2)] have "uniform_depth d' c'" "uniform_depth d' rt"
      by (auto simp: both_halves_def)
    then have "list_all (uniform_depth d') nc'"
      using list_all_vec(2) [OF cs _ divided(3)] list_all_vec(3) [OF _ _ divided(5)] by blast
    with list_all_vec(5) [OF _ divided(9)] divided(10) d show ?thesis
      by (auto simp: both_halves_def)
  qed
qed

lemma insert_leaf_fits:
  assumes "insert_recursive m (Leaf entries) k v = Some r" "length entries \<le> m" "0 < m"
  shows "both_halves (page_fits m) r"
  using assms
  by (auto simp: Let_def both_halves_def bind_eq_Some_conv split: sum.splits if_splits
      dest!: length_vec)

lemma insert_recursive_fits:
  "insert_recursive m p k v = Some r \<Longrightarrow> page_fits m p \<Longrightarrow> 0 < m \<Longrightarrow> both_halves (page_fits m) r"
proof (induction m p k v arbitrary: r rule: insert_recursive.induct)
  case (1 m entries k v)
  then show ?case by (intro insert_leaf_fits) auto
next
  case (2 m keys children refs k v)
  then have cs: "list_all (page_fits m) children" and ks: "length keys \<le> m" by auto
  have child: "both_halves (page_fits m) x"
    if "vec_get children (child_index keys k) = Some c" "insert_recursive m c k v = Some x" for c x
    using "2.IH" [OF refl that] list_all_vec(1) [OF cs that(1)] "2.prems"(3) by simp
  from "2.prems"(1) show ?case
  proof (cases rule: insert_branchE)
    case plain
    with child [OF plain(1,2)] cs ks show ?thesis
      by (auto simp: both_halves_def dest: list_all_vec(2))
  next
    case absorbed
    with child [OF absorbed(1,2)] cs ks show ?thesis
      by (auto simp: both_halves_def dest: list_all_vec(2,3))
  next
    case (divided c c' pv rt nc nk nc' pivot ks' lk rk lc rc)
    have len: "length lk \<le> m" "length rk \<le> m"
      using length_vec(2) [OF divided(4)] length_vec(3) [OF divided(7)] length_vec(4) [OF divided(8)] ks
      by auto
    from child [OF divided(1,2)] have "page_fits m c'" "page_fits m rt"
      by (auto simp: both_halves_def)
    then have "list_all (page_fits m) nc'"
      using list_all_vec(2) [OF cs _ divided(3)] list_all_vec(3) [OF _ _ divided(5)] by blast
    with list_all_vec(5) [OF _ divided(9)] divided(10) len show ?thesis
      by (auto simp: both_halves_def)
  qed
qed

lemma remove_recursive_shape:
  "remove_recursive p k = Some (p', ov) \<Longrightarrow> uniform_depth d p \<Longrightarrow> uniform_depth d p'"
  "remove_recursive p k = Some (p', ov) \<Longrightarrow> page_fits m p \<Longrightarrow> page_fits m p'"
proof (induction p k arbitrary: d p' ov rule: remove_recursive.induct)
  case (1 entries k)
  {
    case 1
    then show ?case by (auto split: sum.splits Option.bind_splits)
  next
    case 2
    then show ?case by (auto simp: bind_eq_Some_conv split: sum.splits dest!: length_vec)
  }
next
  case (2 keys children refs k)
  {
    case 1
    then obtain d' where d: "d = Suc d'" "list_all (uniform_depth d') children"
      by (auto split: nat.splits)
    with 1 "2.IH"(1) [OF refl] show ?case
      by (fastforce simp: Let_def bind_eq_Some_conv split: option.splits
          dest: list_all_vec(1,2))
  next
    case 2
    then have "list_all (page_fits m) children" "length keys \<le> m" by auto
    with 2 "2.IH"(2) [OF refl] show ?case
      by (fastforce simp: Let_def bind_eq_Some_conv split: option.splits
          dest: list_all_vec(1,2))
  }
qed

section \<open>Scans\<close>

lemma entry_keys_page_kvs: "entry_key ` set (collect_entries p) = fst ` set (page_kvs p)"
  by (simp add: page_kvs_def image_image)

lemma page_wf_entry_bounds:
  "page_wf lo hi p \<Longrightarrow> e \<in> set (collect_entries p) \<Longrightarrow> ge_lo lo (entry_key e) \<and> lt_hi (entry_key e) hi"
  using page_wf_bounds(1) [of lo hi p] entry_keys_page_kvs [of p] by blast

subsection \<open>Keys that start with a prefix form an interval\<close>

lemma prefix_le: "prefix p k \<Longrightarrow> p \<le> (k :: bytes)"
proof (induction p arbitrary: k)
  case (Cons x p)
  then show ?case by (cases k) auto
qed simp

lemma prefix_convex: "p \<le> a \<Longrightarrow> a \<le> b \<Longrightarrow> prefix p b \<Longrightarrow> prefix p (a :: bytes)"
proof (induction p arbitrary: a b)
  case (Cons x p)
  then obtain y a' z b' where "a = y # a'" "b = z # b'"
    by (cases a; cases b) auto
  with Cons show ?case by (auto intro: Cons.IH)
qed simp

lemma prefix_loop_eq_filter:
  "sorted_keys entry_key es \<Longrightarrow> \<forall>e\<in>set es. p \<le> entry_key e \<Longrightarrow>
   prefix_loop p es = filter (\<lambda>e. prefix p (entry_key e)) es"
proof (induction es)
  case (Cons e es)
  show ?case
  proof (cases "prefix p (entry_key e)")
    case False
    have "\<not> prefix p (entry_key x)" if "x \<in> set es" for x
      using that False Cons.prems prefix_convex [of p "entry_key e" "entry_key x"]
      by (auto simp: less_imp_le)
    then have "filter (\<lambda>e. prefix p (entry_key e)) es = []" by simp
    with False Cons show ?thesis by auto
  qed (use Cons in auto)
qed simp

text \<open>A binary search splits sorted entries at the first key that is not below the target.\<close>

lemma search_index_split:
  assumes "sorted_keys entry_key entries"
  shows "\<exists>ys zs. entries = ys @ zs \<and> length ys = search_index (search_entries entries k) \<and>
           (\<forall>y\<in>set ys. entry_key y < k) \<and> (\<forall>z\<in>set zs. k \<le> entry_key z)"
proof (cases "search_entries entries k")
  case (Inl i)
  from binary_search_Err [OF assms Inl] obtain ys zs where
    "entries = ys @ zs" "length ys = i" "\<forall>y\<in>set ys. entry_key y < k" "\<forall>z\<in>set zs. k < entry_key z"
    by blast
  with Inl show ?thesis by (force simp: search_index_def)
next
  case (Inr i)
  from binary_search_Ok [OF assms Inr] obtain ys x zs where
    "entries = ys @ x # zs" "length ys = i" "entry_key x = k"
    "\<forall>y\<in>set ys. entry_key y < k" "\<forall>z\<in>set zs. k < entry_key z"
    by blast
  with Inr show ?thesis
    by (intro exI [of _ ys] exI [of _ "x # zs"]) (auto simp: search_index_def)
qed

lemma slice_suffix: "length ys = i \<Longrightarrow> slice (ys @ zs) i (length (ys @ zs)) = Some zs"
  by (simp add: slice_def)

lemma filter_none: "\<forall>x\<in>set xs. \<not> P x \<Longrightarrow> filter P xs = []"
  by simp

lemma vec_get_last_sep:
  "ks1 \<noteq> [] \<Longrightarrow> vec_get (ks1 @ ks2) (length ks1 - 1) = Some (last ks1)"
  by (cases ks1 rule: rev_cases) (simp_all add: vec_get_def nth_append)

lemma collect_prefix_correct:
  "page_wf lo hi pg \<Longrightarrow>
     collect_prefix_entries pg p = Some (filter (\<lambda>e. prefix p (entry_key e)) (collect_entries pg))"
  "keys = ks1 @ ks2 \<Longrightarrow> i = length ks1 \<Longrightarrow> children_wf (last_sep lo ks1) hi ks2 cs \<Longrightarrow>
     collect_prefix_children keys i cs p =
       Some (filter (\<lambda>e. prefix p (entry_key e)) (concat (map collect_entries cs)))"
proof (induction pg p and keys i cs p arbitrary: lo hi and lo hi ks1 ks2
    rule: collect_prefix_entries_collect_prefix_children.induct)
  case (1 entries p)
  then have srt: "sorted_keys entry_key entries" by simp
  from search_index_split [OF this, of p] obtain ys zs where e:
    "entries = ys @ zs" "length ys = search_index (search_entries entries p)"
    "\<forall>y\<in>set ys. entry_key y < p" "\<forall>z\<in>set zs. p \<le> entry_key z"
    by blast
  have "prefix_loop p zs = filter (\<lambda>e. prefix p (entry_key e)) zs"
    using e srt by (intro prefix_loop_eq_filter) (auto simp: sorted_wrt_append)
  moreover have "\<forall>y\<in>set ys. \<not> prefix p (entry_key y)"
    using e(3) by (meson leD prefix_le)
  ultimately show ?case
    using e slice_suffix [OF e(2), of zs] by (simp add: filter_none)
next
  case (2 keys children refs p)
  then show ?case using "2.IH" [of "[]" keys lo hi] by (simp add: last_sep_def)
next
  case (3 keys i p)
  then show ?case by simp
next
  case (4 keys i child children p)
  let ?P = "\<lambda>e. prefix p (entry_key e)"
  from "4.prems"(3) have wf: "page_wf (last_sep lo ks1) (next_sep ks2 hi) child"
    and right: "right_wf ks2 children hi"
    by (simp_all add: children_wf_right)
  note bnd = page_wf_entry_bounds [OF wf]
  define sl where "sl \<longleftrightarrow> ks1 \<noteq> [] \<and> p < last ks1 \<and> \<not> prefix p (last ks1)"
  define sr where "sr \<longleftrightarrow> ks2 \<noteq> [] \<and> hd ks2 \<le> p \<and> \<not> prefix p (hd ks2)"
  have skip: "filter ?P (collect_entries child) = []" if "sl \<or> sr"
  proof (rule filter_none, intro ballI notI)
    fix e assume e: "e \<in> set (collect_entries child)" "?P e"
    from that show False
    proof
      assume sl
      with bnd [OF e(1)] e(2) show False
        using prefix_convex [of p "last ks1" "entry_key e"]
        by (auto simp: sl_def last_sep_def less_imp_le)
    next
      assume sr
      with bnd [OF e(1)] prefix_le [OF e(2)] show False
        by (auto simp: sr_def next_sep_def neq_Nil_conv)
    qed
  qed
  have t1: "(if i > 0 then do { l \<leftarrow> vec_get keys (i - 1); Some (p < l \<and> \<not> prefix p l) } else Some False) = Some sl"
    using "4.prems"(1,2) vec_get_last_sep [of ks1 ks2] by (auto simp: sl_def)
  have t2: "(if sl then Some True else if i < length keys then
      do { r \<leftarrow> vec_get keys i; Some (r \<le> p \<and> \<not> prefix p r) } else Some False) = Some (sl \<or> sr)"
    using "4.prems"(1,2) by (auto simp: sr_def vec_get_def nth_append hd_conv_nth)
  have t3: "(if sl \<or> sr then Some [] else collect_prefix_entries child p) =
      Some (filter ?P (collect_entries child))"
    using skip "4.IH"(1) [OF t1 t2 _ wf] by auto
  have rest: "collect_prefix_children keys (i + 1) children p =
      Some (filter ?P (concat (map collect_entries children)))"
  proof (cases ks2)
    case Nil
    with right show ?thesis by (simp add: right_wf_def)
  next
    case (Cons k ks)
    with right have "children_wf (last_sep lo (ks1 @ [k])) hi ks children"
      by (simp add: right_wf_def last_sep_def)
    with "4.IH"(2) [OF t1 t2 t3, of "ks1 @ [k]" ks] "4.prems" Cons show ?thesis by simp
  qed
  show ?case
    unfolding collect_prefix_children.simps t1 Option.bind.bind_lunit t2 t3 rest by simp
qed

fun within_start :: "bound \<Rightarrow> bytes \<Rightarrow> bool" where
  "within_start Unbounded k = True"
| "within_start (Included s) k = (s \<le> k)"
| "within_start (Excluded s) k = (s < k)"

definition in_range :: "bound \<Rightarrow> bound \<Rightarrow> bytes \<Rightarrow> bool" where
  "in_range st en k \<longleftrightarrow> within_start st k \<and> within_end en k"

lemma within_end_antimono: "within_end en b \<Longrightarrow> a \<le> b \<Longrightarrow> within_end en a"
  by (cases en) auto

lemma takeWhile_within_end:
  "sorted_keys entry_key es \<Longrightarrow>
   takeWhile (\<lambda>e. within_end en (entry_key e)) es = filter (\<lambda>e. within_end en (entry_key e)) es"
proof (induction es)
  case (Cons e es)
  show ?case
  proof (cases "within_end en (entry_key e)")
    case False
    have "\<not> within_end en (entry_key x)" if "x \<in> set es" for x
      using that False Cons.prems within_end_antimono [of en "entry_key x" "entry_key e"]
      by (auto simp: less_imp_le)
    with False show ?thesis by simp
  qed (use Cons in simp)
qed simp

lemma range_start_split:
  assumes srt: "sorted_keys entry_key entries"
  shows "\<exists>ys zs. entries = ys @ zs \<and> length ys = range_start_index st entries \<and>
           (\<forall>y\<in>set ys. \<not> within_start st (entry_key y)) \<and> (\<forall>z\<in>set zs. within_start st (entry_key z))"
proof (cases st)
  case Unbounded
  then show ?thesis by auto
next
  case (Included k)
  with search_index_split [OF srt, of k] show ?thesis by (auto simp: not_le)
next
  case (Excluded k)
  show ?thesis
  proof (cases "search_entries entries k")
    case (Inl i)
    with binary_search_Err [OF srt Inl] Excluded show ?thesis by (force simp: not_less)
  next
    case (Inr i)
    from binary_search_Ok [OF srt Inr] obtain ys x zs where
      "entries = ys @ x # zs" "length ys = i" "entry_key x = k"
      "\<forall>y\<in>set ys. entry_key y < k" "\<forall>z\<in>set zs. k < entry_key z"
      by blast
    with Inr Excluded show ?thesis
      by (intro exI [of _ "ys @ [x]"] exI [of _ zs]) auto
  qed
qed

lemma collect_range_correct:
  "page_wf lo hi pg \<Longrightarrow>
     collect_range_entries pg st en = Some (filter (\<lambda>e. in_range st en (entry_key e)) (collect_entries pg))"
  "keys = ks1 @ ks2 \<Longrightarrow> i = length ks1 \<Longrightarrow> children_wf (last_sep lo ks1) hi ks2 cs \<Longrightarrow>
     collect_range_children keys i cs st en =
       Some (filter (\<lambda>e. in_range st en (entry_key e)) (concat (map collect_entries cs)))"
proof (induction pg st en and keys i cs st en arbitrary: lo hi and lo hi ks1 ks2
    rule: collect_range_entries_collect_range_children.induct)
  case (1 entries st en)
  then have srt: "sorted_keys entry_key entries" by simp
  from range_start_split [OF this, of st] obtain ys zs where e:
    "entries = ys @ zs" "length ys = range_start_index st entries"
    "\<forall>y\<in>set ys. \<not> within_start st (entry_key y)" "\<forall>z\<in>set zs. within_start st (entry_key z)"
    by blast
  have "sorted_keys entry_key zs" using e(1) srt by (simp add: sorted_wrt_append)
  from takeWhile_within_end [OF this, of en]
  have "takeWhile (\<lambda>e. within_end en (entry_key e)) zs = filter (\<lambda>e. in_range st en (entry_key e)) zs"
    using e(4) by (auto simp: in_range_def intro!: filter_cong)
  moreover have "filter (\<lambda>e. in_range st en (entry_key e)) ys = []"
    using e(3) by (auto simp: in_range_def intro!: filter_none)
  ultimately show ?case
    using e(1) slice_suffix [OF e(2), of zs] by simp
next
  case (2 keys children refs st en)
  then show ?case using "2.IH" [of "[]" keys lo hi] by (simp add: last_sep_def)
next
  case (3 keys i st en)
  then show ?case by simp
next
  case (4 keys i child children st en)
  let ?P = "\<lambda>e. in_range st en (entry_key e)"
  from "4.prems"(3) have wf: "page_wf (last_sep lo ks1) (next_sep ks2 hi) child"
    and right: "right_wf ks2 children hi"
    by (simp_all add: children_wf_right)
  note bnd = page_wf_entry_bounds [OF wf]
  define sl where "sl \<longleftrightarrow> ks1 \<noteq> [] \<and> ends_before en (last ks1)"
  define sr where "sr \<longleftrightarrow> ks2 \<noteq> [] \<and> starts_after st (hd ks2)"
  have skip: "filter ?P (collect_entries child) = []" if "sl \<or> sr"
  proof (rule filter_none, intro ballI notI)
    fix e assume e: "e \<in> set (collect_entries child)" "?P e"
    from that bnd [OF e(1)] e(2) show False
      by (cases en; cases st) (auto simp: sl_def sr_def last_sep_def next_sep_def neq_Nil_conv in_range_def)
  qed
  have t1: "(if i > 0 then do { l \<leftarrow> vec_get keys (i - 1); Some (ends_before en l) } else Some False) = Some sl"
    using "4.prems"(1,2) vec_get_last_sep [of ks1 ks2] by (auto simp: sl_def)
  have t2: "(if sl then Some True else if i < length keys then
      do { r \<leftarrow> vec_get keys i; Some (starts_after st r) } else Some False) = Some (sl \<or> sr)"
    using "4.prems"(1,2) by (auto simp: sr_def vec_get_def nth_append hd_conv_nth)
  have t3: "(if sl \<or> sr then Some [] else collect_range_entries child st en) =
      Some (filter ?P (collect_entries child))"
    using skip "4.IH"(1) [OF t1 t2 _ wf] by auto
  have rest: "collect_range_children keys (i + 1) children st en =
      Some (filter ?P (concat (map collect_entries children)))"
  proof (cases ks2)
    case Nil
    with right show ?thesis by (simp add: right_wf_def)
  next
    case (Cons k ks)
    with right have "children_wf (last_sep lo (ks1 @ [k])) hi ks children"
      by (simp add: right_wf_def last_sep_def)
    with "4.IH"(2) [OF t1 t2 t3, of "ks1 @ [k]" ks] "4.prems" Cons show ?thesis by simp
  qed
  show ?case
    unfolding collect_range_children.simps t1 Option.bind.bind_lunit t2 t3 rest by simp
qed

section \<open>The tree as an ordered map\<close>

lemma tree_kvs_sorted: "tree_wf t \<Longrightarrow> sorted_keys fst (tree_kvs t)"
  using page_kvs_sorted(1) [of None None "root t"] by (simp add: tree_wf_def tree_kvs_def)

lemma tree_get_correct: "tree_wf t \<Longrightarrow> tree_get t k = Some (map_of (tree_kvs t) k)"
  by (simp add: tree_wf_def tree_get_def tree_kvs_def descend_get_correct [where lo = None and hi = None])

lemma tree_put_correct:
  assumes "tree_wf t"
  shows "\<exists>t'. tree_put t k v = Some t' \<and> tree_wf t' \<and> tree_kvs t' = put_sorted k v (tree_kvs t) \<and>
              max_entries_per_page t' = max_entries_per_page t"
proof -
  from assms insert_recursive_ok [of None None "root t" k "max_entries_per_page t" v] obtain l sp where
    "insert_recursive (max_entries_per_page t) (root t) k v = Some (l, sp)"
    "insert_ok None None (put_sorted k v (tree_kvs t)) (l, sp)"
    by (auto simp: tree_wf_def tree_kvs_def)
  with assms show ?thesis
    by (cases sp) (auto simp: tree_put_def tree_wf_def tree_kvs_def insert_ok_def)
qed

lemma tree_remove_correct:
  assumes "tree_wf t"
  shows "\<exists>t'. tree_remove t k = Some (t', map_of (tree_kvs t) k) \<and> tree_wf t' \<and>
              tree_kvs t' = del_key k (tree_kvs t) \<and> max_entries_per_page t' = max_entries_per_page t"
proof -
  from assms remove_recursive_ok [of None None "root t" k] obtain p' where
    p': "remove_recursive (root t) k = Some (p', map_of (tree_kvs t) k)"
    "page_wf None None p'" "page_kvs p' = del_key k (tree_kvs t)"
    by (auto simp: tree_wf_def tree_kvs_def)
  show ?thesis
  proof (cases "map_of (tree_kvs t) k")
    case None
    then have "del_key k (tree_kvs t) = tree_kvs t"
      by (intro del_key_absent) (auto simp: map_of_eq_None_iff)
    with None p' assms show ?thesis by (simp add: tree_remove_def)
  next
    case (Some v)
    with p' assms show ?thesis by (simp add: tree_remove_def tree_wf_def tree_kvs_def)
  qed
qed

lemma tree_put_balanced:
  assumes "tree_put t k v = Some t'" "tree_balanced t" "0 < max_entries_per_page t"
  shows "tree_balanced t'"
proof -
  from assms(1) obtain l sp where
    ins: "insert_recursive (max_entries_per_page t) (root t) k v = Some (l, sp)"
    by (auto simp: tree_put_def bind_eq_Some_conv)
  from assms(2) obtain d where d: "uniform_depth d (root t)"
    and fits: "page_fits (max_entries_per_page t) (root t)"
    by (auto simp: tree_balanced_def)
  have halves: "both_halves (uniform_depth d) (l, sp)" "both_halves (page_fits (max_entries_per_page t)) (l, sp)"
    using insert_recursive_depth [OF ins d] insert_recursive_fits [OF ins fits assms(3)] by auto
  show ?thesis
  proof (cases sp)
    case None
    with assms(1) ins halves show ?thesis
      by (auto simp: tree_put_def tree_balanced_def both_halves_def)
  next
    case (Some pr)
    obtain pv rt where "pr = (pv, rt)" by force
    with assms ins halves Some have "uniform_depth (Suc d) (root t')" "page_fits (max_entries_per_page t') (root t')"
      by (auto simp: tree_put_def both_halves_def)
    then show ?thesis by (auto simp: tree_balanced_def)
  qed
qed

lemma tree_remove_balanced:
  assumes "tree_remove t k = Some (t', ov)" "tree_balanced t"
  shows "tree_balanced t'"
  using assms remove_recursive_shape
  by (auto simp: tree_remove_def tree_balanced_def bind_eq_Some_conv split: option.splits) blast+

lemma tree_scan_all_kvs: "map kv (tree_scan_all t) = tree_kvs t"
  by (simp add: tree_scan_all_def tree_kvs_def page_kvs_def)

lemma traverse_for_each_fold:
  "traverse_for_each f p s = fold (\<lambda>(k, v). f k v) (page_kvs p) s"
proof (induction f p s rule: traverse_for_each.induct)
  case (1 f entries s)
  then show ?case by (simp add: fold_map comp_def kv_def)
next
  case (2 f ks children refs s)
  then have "fold (traverse_for_each f) children s =
      fold (\<lambda>p. fold (\<lambda>(k, v). f k v) (page_kvs p)) children s"
    by (intro fold_cong) auto
  also have "\<dots> = fold (\<lambda>(k, v). f k v) (concat (map page_kvs children)) s"
    by (induction children arbitrary: s) auto
  finally show ?case by simp
qed

lemma tree_scan_prefix_correct:
  "tree_wf t \<Longrightarrow> tree_scan_prefix t p = Some (filter (\<lambda>e. prefix p (entry_key e)) (tree_scan_all t))"
  by (simp add: tree_wf_def tree_scan_prefix_def tree_scan_all_def
      collect_prefix_correct(1) [where lo = None and hi = None])

lemma tree_scan_range_correct:
  "tree_wf t \<Longrightarrow>
   tree_scan_range t st en = Some (filter (\<lambda>e. in_range st en (entry_key e)) (tree_scan_all t))"
  by (simp add: tree_wf_def tree_scan_range_def tree_scan_all_def
      collect_range_correct(1) [where lo = None and hi = None])

lemma tree_wf_default: "tree_wf mvtree_default" "tree_kvs mvtree_default = []"
    "tree_balanced mvtree_default"
  by (auto simp: tree_wf_def tree_kvs_def tree_balanced_def mvtree_default_def mvtree_new_def
      DEFAULT_PAGE_SPLIT_SIZE_def new_leaf_def)

text \<open>The tree meets the contract of an ordered map.\<close>

interpretation bt: ordered_kv mvtree_default tree_get tree_put tree_remove tree_kvs tree_wf
  using tree_put_correct tree_remove_correct
  by unfold_locales (auto simp: tree_wf_default tree_kvs_sorted tree_get_correct, blast+)


section \<open>Histories of a tree\<close>

text \<open>One call: \<open>Some\<close> is a put, \<open>None\<close> a remove.\<close>

definition tree_apply :: "mvtree \<Rightarrow> bytes \<times> bytes option \<Rightarrow> mvtree option" where
  "tree_apply t c = (case c of (k, Some v) \<Rightarrow> tree_put t k v | (k, None) \<Rightarrow> map_option fst (tree_remove t k))"

definition tree_inv :: "mvtree \<Rightarrow> bool" where
  "tree_inv t \<longleftrightarrow> tree_wf t \<and> tree_balanced t"

lemma tree_apply_step:
  assumes "tree_inv t"
  shows "\<exists>t'. tree_apply t c = Some t' \<and> tree_inv t' \<and> map_of (tree_kvs t') = (map_of (tree_kvs t))(fst c := snd c)"
proof -
  obtain k vo where c: "c = (k, vo)" by force
  from assms have wf: "tree_wf t" and bal: "tree_balanced t" and pos: "0 < max_entries_per_page t"
    by (auto simp: tree_inv_def tree_wf_def)
  show ?thesis
  proof (cases vo)
    case (Some v)
    with tree_put_correct [OF wf, of k v] tree_put_balanced [OF _ bal pos] show ?thesis
      by (auto simp: c tree_apply_def tree_inv_def)
  next
    case None
    with tree_remove_correct [OF wf, of k] tree_remove_balanced [OF _ bal] show ?thesis
      by (auto simp: c tree_apply_def tree_inv_def)
  qed
qed

interpretation treer: replayable tree_apply tree_inv "\<lambda>t. map_of (tree_kvs t)"
  by unfold_locales (rule tree_apply_step)

section \<open>Properties\<close>

text \<open>C9: The B+ tree is a map: from an empty tree with any page size, every sequence of puts and removes
  runs without a panic, keeps all leaves at one depth and every page within its bound, and afterwards
  a lookup returns what a finite map updated by the same calls holds.\<close>

theorem tree_refines_map:
  assumes "0 < m"
  shows "\<exists>t. fold_opt tree_apply (mvtree_new m) cs = Some t \<and> tree_balanced t \<and>
    (\<forall>k. tree_get t k = Some (upd_all cs Map.empty k))"
proof -
  have "tree_inv (mvtree_new m)" "map_of (tree_kvs (mvtree_new m)) = Map.empty"
    using assms by (auto simp: tree_inv_def tree_wf_def tree_balanced_def tree_kvs_def page_kvs_def mvtree_new_def new_leaf_def)
  with treer.replay_correct [of "mvtree_new m" cs] show ?thesis
    by (auto simp: tree_inv_def tree_get_correct)
qed

theorem tree_refines_map_witness:
  "\<exists>t. fold_opt tree_apply (mvtree_new 2)
        [([3], Some [30]), ([1], Some [10]), ([2], Some [20]), ([1], None), ([2], Some [21])] = Some t \<and>
     tree_get t [2] = Some (Some [21]) \<and> tree_get t [1] = Some None"
  using tree_refines_map [of 2 "[([3], Some [30]), ([1], Some [10]), ([2], Some [20]), ([1], None), ([2], Some [21])]"] by auto

text \<open>C10: The prefix and range scans, which skip subtrees by comparing separators, return exactly the entries
  of the full scan that have the prefix or lie in the range, in ascending key order; and the full scan
  returns each key once.\<close>

theorem tree_scans_exact:
  assumes "tree_wf t"
  shows "tree_scan_prefix t p = Some (filter (\<lambda>e. prefix p (entry_key e)) (tree_scan_all t)) \<and>
    tree_scan_range t lo hi = Some (filter (\<lambda>e. within_start lo (entry_key e) \<and> within_end hi (entry_key e)) (tree_scan_all t)) \<and>
    sorted_keys entry_key (tree_scan_all t) \<and>
    (\<forall>k v. \<lparr>entry_key = k, entry_value = v\<rparr> \<in> set (tree_scan_all t) \<longleftrightarrow> tree_get t k = Some (Some v))"
proof -
  have s: "sorted_keys fst (map kv (tree_scan_all t))" using tree_kvs_sorted [OF assms] by (simp add: tree_scan_all_kvs)
  then have d: "distinct (map fst (map kv (tree_scan_all t)))" by (rule sorted_keys_distinct)
  have "\<lparr>entry_key = k, entry_value = v\<rparr> \<in> set (tree_scan_all t) \<longleftrightarrow> (k, v) \<in> set (map kv (tree_scan_all t))" for k v
  proof
    assume "(k, v) \<in> set (map kv (tree_scan_all t))"
    then obtain e where "e \<in> set (tree_scan_all t)" "entry_key e = k" "entry_value e = v" by (auto simp: kv_def)
    moreover have "\<lparr>entry_key = entry_key e, entry_value = entry_value e\<rparr> = e" by simp
    ultimately show "\<lparr>entry_key = k, entry_value = v\<rparr> \<in> set (tree_scan_all t)" by metis
  next
    assume "\<lparr>entry_key = k, entry_value = v\<rparr> \<in> set (tree_scan_all t)"
    then have "kv \<lparr>entry_key = k, entry_value = v\<rparr> \<in> set (map kv (tree_scan_all t))" by simp
    then show "(k, v) \<in> set (map kv (tree_scan_all t))" by (simp add: kv_def)
  qed
  then have "\<lparr>entry_key = k, entry_value = v\<rparr> \<in> set (tree_scan_all t) \<longleftrightarrow> tree_get t k = Some (Some v)" for k v
    using map_of_eq_Some_iff [OF d] by (simp add: tree_get_correct [OF assms] tree_scan_all_kvs [symmetric])
  with s tree_scan_prefix_correct [OF assms] tree_scan_range_correct [OF assms] show ?thesis
    by (simp add: in_range_def sorted_wrt_map)
qed

theorem tree_scans_exact_witness:
  "\<exists>t. fold_opt tree_apply (mvtree_new 2) [([1, 5], Some [1]), ([2], Some [2]), ([1, 6], Some [3])] = Some t \<and>
     tree_scan_prefix t [1] = Some (filter (\<lambda>e. prefix [1] (entry_key e)) (tree_scan_all t))"
proof -
  have "tree_inv (mvtree_new 2)"
    by (simp add: tree_inv_def tree_wf_def tree_balanced_def mvtree_new_def new_leaf_def)
  from treer.replay_correct [OF this, of "[([1, 5], Some [1]), ([2], Some [2]), ([1, 6], Some [3])]"] obtain t where
    t: "fold_opt tree_apply (mvtree_new 2) [([1, 5], Some [1]), ([2], Some [2]), ([1, 6], Some [3])] = Some t" "tree_wf t"
    by (auto simp: tree_inv_def)
  from tree_scans_exact [OF t(2), of "[1]"] t(1) show ?thesis by blast
qed

end
