(* ===== verification/MV_Map.thy ===== *)
theory MV_Map
  imports MV_Tree
begin

text \<open>
  Named maps (\<^verbatim>\<open>map.rs\<close>) over the B+ tree and the change collector of \<^verbatim>\<open>replication.rs\<close>.  A map keeps
  its tree, a modification counter with a cache of the serialized root, and a journal of the changes
  since the last checkpoint.  The clones of an \<^verbatim>\<open>MVMap\<close> share their state through \<^verbatim>\<open>Arc\<close>, so one
  record models all of them.  Locks are taken for the whole of each operation, which is therefore one
  step of the model.  The lemmas show that the journal describes exactly the difference between the
  map and the last checkpoint, also when a failed checkpoint puts its journal back, and that the
  collected changes describe the difference for a replica.
\<close>

section \<open>Replicated changes\<close>

record replication_change =
  change_map :: string
  change_key :: bytes
  change_value :: "bytes option"
  is_clear :: bool

definition change_put :: "string \<Rightarrow> bytes \<Rightarrow> bytes \<Rightarrow> replication_change" where
  "change_put name key val =
     \<lparr>change_map = name, change_key = key, change_value = Some val, is_clear = False\<rparr>"

definition change_remove :: "string \<Rightarrow> bytes \<Rightarrow> replication_change" where
  "change_remove name key =
     \<lparr>change_map = name, change_key = key, change_value = None, is_clear = False\<rparr>"

definition change_clear :: "string \<Rightarrow> replication_change" where
  "change_clear name =
     \<lparr>change_map = name, change_key = [], change_value = None, is_clear = True\<rparr>"

text \<open>\<^verbatim>\<open>DefaultChangeCollector\<close> is the list of the changes recorded since it was last drained.\<close>

type_synonym collector = "replication_change list"

definition record_put :: "collector \<Rightarrow> string \<Rightarrow> bytes \<Rightarrow> bytes \<Rightarrow> collector" where
  "record_put c name key val = c @ [change_put name key val]"

definition record_remove :: "collector \<Rightarrow> string \<Rightarrow> bytes \<Rightarrow> collector" where
  "record_remove c name key = c @ [change_remove name key]"

definition record_clear :: "collector \<Rightarrow> string \<Rightarrow> collector" where
  "record_clear c name = c @ [change_clear name]"

definition drain_changes :: "collector \<Rightarrow> replication_change list \<times> collector" where
  "drain_changes c = (c, [])"

section \<open>Maps and journals\<close>

record map_journal =
  enabled :: bool
  journal_clear :: bool
  changes :: "(bytes, bytes option) hashmap"

definition journal_default :: map_journal where
  "journal_default = \<lparr>enabled = False, journal_clear = False, changes = []\<rparr>"

definition journal_reset :: "map_journal \<Rightarrow> map_journal" where
  "journal_reset j = j\<lparr>journal_clear := False, changes := []\<rparr>"

text \<open>\<open>sink\<close> says whether a collector is attached; the collector itself is an argument.\<close>

record mvmap =
  map_name :: string
  tree :: mvtree
  sink :: bool
  mod_count :: u64
  cached_root :: "(u64 \<times> bytes) option"
  journal :: map_journal

definition map_new :: "string \<Rightarrow> mvtree \<Rightarrow> mvmap" where
  "map_new name t =
     \<lparr>map_name = name, tree = t, sink = False, mod_count = 1, cached_root = None,
      journal = journal_default\<rparr>"

definition map_set_sink :: "mvmap \<Rightarrow> bool \<Rightarrow> mvmap" where
  "map_set_sink m b = m\<lparr>sink := b\<rparr>"

definition map_get :: "mvmap \<Rightarrow> bytes \<Rightarrow> bytes option option" where
  "map_get m key = tree_get (tree m) key"

definition journal_record :: "map_journal \<Rightarrow> bytes \<Rightarrow> bytes option \<Rightarrow> map_journal" where
  "journal_record j key vo =
     (if enabled j then j\<lparr>changes := AList.update key vo (changes j)\<rparr> else j)"

definition map_put :: "mvmap \<Rightarrow> bytes \<Rightarrow> bytes \<Rightarrow> collector \<Rightarrow> (mvmap \<times> collector) option" where
  "map_put m key val c =
     (let c' = (if sink m then record_put c (map_name m) key val else c) in
      do { t \<leftarrow> tree_put (tree m) key val;
           Some (m\<lparr>mod_count := mod_count m + 1, tree := t,
                   journal := journal_record (journal m) key (Some val)\<rparr>, c') })"

definition map_remove ::
    "mvmap \<Rightarrow> bytes \<Rightarrow> collector \<Rightarrow> (mvmap \<times> bytes option \<times> collector) option" where
  "map_remove m key c =
     (let c' = (if sink m then record_remove c (map_name m) key else c) in
      do { (t, removed) \<leftarrow> tree_remove (tree m) key;
           Some (m\<lparr>mod_count := mod_count m + 1, tree := t,
                   journal := (if removed \<noteq> None then journal_record (journal m) key None
                               else journal m)\<rparr>, removed, c') })"

definition map_clear :: "mvmap \<Rightarrow> collector \<Rightarrow> mvmap \<times> collector" where
  "map_clear m c =
     (let c' = (if sink m then record_clear c (map_name m) else c) in
      (m\<lparr>mod_count := mod_count m + 1, tree := mvtree_default,
         journal := (if enabled (journal m)
                     then (journal m)\<lparr>journal_clear := True, changes := []\<rparr>
                     else journal m)\<rparr>, c'))"

definition map_scan_all :: "mvmap \<Rightarrow> entry list" where
  "map_scan_all m = tree_scan_all (tree m)"

definition map_for_each_entry :: "mvmap \<Rightarrow> (bytes \<Rightarrow> bytes \<Rightarrow> 's \<Rightarrow> 's) \<Rightarrow> 's \<Rightarrow> 's" where
  "map_for_each_entry m f s = tree_for_each_entry (tree m) f s"

definition map_scan_prefix :: "mvmap \<Rightarrow> bytes \<Rightarrow> entry list option" where
  "map_scan_prefix m p = tree_scan_prefix (tree m) p"

definition map_scan_range :: "mvmap \<Rightarrow> bound \<Rightarrow> bound \<Rightarrow> entry list option" where
  "map_scan_range m st en = tree_scan_range (tree m) st en"

text \<open>
  \<open>ser_page\<close> stands for \<^verbatim>\<open>bincode::serialize\<close> on a page; its failure is the error it returns.
\<close>

definition get_serialized_root ::
    "(page \<Rightarrow> bytes h2_result) \<Rightarrow> mvmap \<Rightarrow> bytes h2_result \<times> mvmap" where
  "get_serialized_root ser_page m =
     (let current_mod = mod_count m;
          miss = (case ser_page (root (tree m)) of
                    Inl e \<Rightarrow> (Inl e, m)
                  | Inr bs \<Rightarrow> (Inr bs, m\<lparr>cached_root := Some (current_mod, bs)\<rparr>)) in
      case cached_root m of
        Some (mod_cnt, bs) \<Rightarrow> if mod_cnt = current_mod then (Inr bs, m) else miss
      | None \<Rightarrow> miss)"

definition take_journal :: "mvmap \<Rightarrow> map_journal \<times> mvmap" where
  "take_journal m =
     (journal m, m\<lparr>journal := journal_default\<lparr>enabled := enabled (journal m)\<rparr>\<rparr>)"

definition set_journaling :: "mvmap \<Rightarrow> bool \<Rightarrow> mvmap" where
  "set_journaling m b = m\<lparr>journal := (journal m)\<lparr>enabled := b\<rparr>\<rparr>"

text \<open>\<^verbatim>\<open>HashMap::extend\<close> and \<^verbatim>\<open>entry(key).or_insert(value)\<close>.\<close>

definition hm_extend :: "('k, 'v) hashmap \<Rightarrow> ('k, 'v) hashmap \<Rightarrow> ('k, 'v) hashmap" where
  "hm_extend m new = fold (\<lambda>(k, v) m. AList.update k v m) new m"

definition hm_or_insert :: "('k \<times> 'v) \<Rightarrow> ('k, 'v) hashmap \<Rightarrow> ('k, 'v) hashmap" where
  "hm_or_insert = (\<lambda>(k, v) m. if hm_contains m k then m else AList.update k v m)"

definition restore_journal :: "mvmap \<Rightarrow> map_journal \<Rightarrow> mvmap" where
  "restore_journal m old =
     (let current = journal m in
      if journal_clear current then m
      else if journal_clear old then
        m\<lparr>journal := current\<lparr>journal_clear := True,
                             changes := hm_extend (changes old) (changes current)\<rparr>\<rparr>
      else
        m\<lparr>journal := current\<lparr>changes := fold hm_or_insert (changes old) (changes current)\<rparr>\<rparr>)"

section \<open>What a map holds\<close>

definition map_content :: "mvmap \<Rightarrow> bytes \<rightharpoonup> bytes" where
  "map_content m = map_of (tree_kvs (tree m))"

definition map_wf :: "mvmap \<Rightarrow> bool" where
  "map_wf m \<longleftrightarrow> tree_wf (tree m) \<and> distinct (map fst (changes (journal m)))"

text \<open>The meaning of a journal: how it turns the checkpointed content into the current one.\<close>

definition journal_apply :: "map_journal \<Rightarrow> (bytes \<rightharpoonup> bytes) \<Rightarrow> (bytes \<rightharpoonup> bytes)" where
  "journal_apply j base =
     (\<lambda>k. case map_of (changes j) k of
            Some vo \<Rightarrow> vo
          | None \<Rightarrow> if journal_clear j then None else base k)"

section \<open>Point operations\<close>

lemma map_get_content: "map_wf m \<Longrightarrow> map_get m k = Some (map_content m k)"
  by (simp add: map_wf_def map_get_def map_content_def tree_get_correct)

lemma map_new_wf [simp]: "tree_wf t \<Longrightarrow> map_wf (map_new name t)"
  by (simp add: map_wf_def map_new_def journal_default_def)

lemma map_new_content [simp]: "map_content (map_new name t) = map_of (tree_kvs t)"
  by (simp add: map_content_def map_new_def)

lemma journal_record_keys:
  "distinct (map fst (changes j)) \<Longrightarrow> distinct (map fst (changes (journal_record j k vo)))"
  by (simp add: journal_record_def distinct_update)

lemma journal_record_flags [simp]:
  "enabled (journal_record j k vo) = enabled j"
  "journal_clear (journal_record j k vo) = journal_clear j"
  by (simp_all add: journal_record_def)

lemma journal_record_apply:
  "enabled j \<Longrightarrow> journal_apply (journal_record j k vo) base = (journal_apply j base)(k := vo)"
  by (rule ext) (simp add: journal_apply_def journal_record_def)

text \<open>Each operation succeeds on a well-formed map; what it does to the content and the journal.\<close>

lemma map_put_step:
  assumes "map_wf m"
  shows "\<exists>m'. map_put m k v c = Some (m', if sink m then c @ [change_put (map_name m) k v] else c) \<and>
      map_wf m' \<and> map_content m' = (map_content m)(k \<mapsto> v) \<and> map_name m' = map_name m \<and>
      sink m' = sink m \<and> mod_count m' = mod_count m + 1 \<and> cached_root m' = cached_root m \<and>
      journal m' = journal_record (journal m) k (Some v)"
proof -
  from assms have "tree_wf (tree m)" by (simp add: map_wf_def)
  from tree_put_correct [OF this, of k v] obtain t where
    "tree_put (tree m) k v = Some t" "tree_wf t" "tree_kvs t = put_sorted k v (tree_kvs (tree m))"
    by blast
  with assms show ?thesis
    by (simp add: map_put_def map_wf_def map_content_def journal_record_keys record_put_def)
qed

lemma map_remove_step:
  assumes "map_wf m"
  shows "\<exists>m'. map_remove m k c =
        Some (m', map_content m k, if sink m then c @ [change_remove (map_name m) k] else c) \<and>
      map_wf m' \<and> map_content m' = (map_content m)(k := None) \<and> map_name m' = map_name m \<and>
      sink m' = sink m \<and> mod_count m' = mod_count m + 1 \<and> cached_root m' = cached_root m \<and>
      journal m' = (if map_content m k = None then journal m else journal_record (journal m) k None)"
proof -
  from assms have "tree_wf (tree m)" by (simp add: map_wf_def)
  from tree_remove_correct [OF this, of k] obtain t where
    "tree_remove (tree m) k = Some (t, map_content m k)" "tree_wf t"
    "tree_kvs t = del_key k (tree_kvs (tree m))"
    by (auto simp: map_content_def)
  with assms show ?thesis
    by (simp add: map_remove_def map_wf_def map_content_def journal_record_keys record_remove_def)
qed

lemma map_clear_step:
  assumes "map_wf m" "map_clear m c = (m', c')"
  shows "map_wf m'" "map_content m' = Map.empty" "map_name m' = map_name m" "sink m' = sink m"
    "c' = (if sink m then c @ [change_clear (map_name m)] else c)"
    "mod_count m' = mod_count m + 1" "cached_root m' = cached_root m"
    "journal m' = (if enabled (journal m)
                   then (journal m)\<lparr>journal_clear := True, changes := []\<rparr> else journal m)"
  using assms tree_wf_default
  by (auto simp: map_clear_def map_wf_def map_content_def record_clear_def)

section \<open>Histories of a map\<close>

text \<open>
  The mutations a client can issue between two checkpoints, and the loop that issues them; the
  collector is threaded through.
\<close>

datatype map_op = Put bytes bytes | Remove bytes | Clear

fun run_map_op :: "mvmap \<times> collector \<Rightarrow> map_op \<Rightarrow> (mvmap \<times> collector) option" where
  "run_map_op (m, c) (Put k v) = map_put m k v c"
| "run_map_op (m, c) (Remove k) =
     (case map_remove m k c of None \<Rightarrow> None | Some (m', _, c') \<Rightarrow> Some (m', c'))"
| "run_map_op (m, c) Clear = Some (map_clear m c)"

fun op_effect :: "(bytes \<rightharpoonup> bytes) \<Rightarrow> map_op \<Rightarrow> (bytes \<rightharpoonup> bytes)" where
  "op_effect s (Put k v) = s(k \<mapsto> v)"
| "op_effect s (Remove k) = s(k := None)"
| "op_effect s Clear = Map.empty"

fun op_change :: "string \<Rightarrow> map_op \<Rightarrow> replication_change" where
  "op_change n (Put k v) = change_put n k v"
| "op_change n (Remove k) = change_remove n k"
| "op_change n Clear = change_clear n"

lemma run_map_op_step:
  assumes "map_wf m"
  shows "\<exists>m'. run_map_op (m, c) opn =
        Some (m', if sink m then c @ [op_change (map_name m) opn] else c) \<and>
      map_wf m' \<and> map_content m' = op_effect (map_content m) opn \<and> map_name m' = map_name m \<and>
      sink m' = sink m \<and> mod_count m' = mod_count m + 1 \<and> cached_root m' = cached_root m \<and>
      enabled (journal m') = enabled (journal m)"
proof (cases opn)
  case (Put k v)
  with map_put_step [OF assms, of k v c] show ?thesis by auto
next
  case (Remove k)
  with map_remove_step [OF assms, of k c] show ?thesis by auto
next
  case Clear
  obtain m' c' where mc: "map_clear m c = (m', c')" by force
  note cl = map_clear_step [OF assms mc]
  show ?thesis
    by (intro exI [of _ m']) (use cl in \<open>simp add: Clear mc\<close>)
qed

lemma run_map_op_tracks:
  assumes wf: "map_wf m" and en: "enabled (journal m)"
    and tr: "map_content m = journal_apply (journal m) base"
    and run: "run_map_op (m, c) opn = Some (m', c')"
  shows "map_content m' = journal_apply (journal m') base"
proof (cases opn)
  case (Put k v)
  with map_put_step [OF wf, of k v c] run have
    "map_content m' = (map_content m)(k \<mapsto> v)" "journal m' = journal_record (journal m) k (Some v)"
    by auto
  with tr en show ?thesis by (simp add: journal_record_apply)
next
  case (Remove k)
  with map_remove_step [OF wf, of k c] run have *:
    "map_content m' = (map_content m)(k := None)"
    "journal m' = (if map_content m k = None then journal m else journal_record (journal m) k None)"
    by auto
  show ?thesis
  proof (cases "map_content m k")
    case None
    with * tr show ?thesis by (simp add: fun_upd_idem)
  next
    case (Some v)
    with * tr en show ?thesis by (simp add: journal_record_apply)
  qed
next
  case Clear
  with run have "map_clear m c = (m', c')" by simp
  note cl = map_clear_step [OF wf this]
  show ?thesis unfolding cl using en by (simp add: journal_apply_def)
qed

text \<open>A whole history keeps the map well formed and never panics.\<close>

lemma run_map_ops:
  assumes "map_wf m"
  shows "\<exists>m'. fold_opt run_map_op (m, c) ops =
        Some (m', if sink m then c @ map (op_change (map_name m)) ops else c) \<and>
      map_wf m' \<and> map_content m' = foldl op_effect (map_content m) ops \<and>
      map_name m' = map_name m \<and> enabled (journal m') = enabled (journal m)"
  using assms
proof (induction ops arbitrary: m c)
  case (Cons opn ops)
  from run_map_op_step [OF Cons.prems, of c opn] obtain m1 c1 where
    1: "run_map_op (m, c) opn = Some (m1, c1)"
       "c1 = (if sink m then c @ [op_change (map_name m) opn] else c)"
       "map_wf m1" "map_content m1 = op_effect (map_content m) opn" "map_name m1 = map_name m"
       "sink m1 = sink m" "enabled (journal m1) = enabled (journal m)"
    by blast
  from Cons.IH [OF 1(3), of c1] 1 show ?case by auto
qed auto

lemma run_map_ops_tracks:
  assumes "map_wf m" "enabled (journal m)" "map_content m = journal_apply (journal m) base"
    "fold_opt run_map_op (m, c) ops = Some (m', c')"
  shows "map_content m' = journal_apply (journal m') base"
  using assms
proof (induction ops arbitrary: m c)
  case (Cons opn ops)
  from run_map_op_step [OF Cons.prems(1), of c opn] obtain m1 c1 where
    1: "run_map_op (m, c) opn = Some (m1, c1)" "map_wf m1" "enabled (journal m1)"
    using Cons.prems(2) by blast
  from run_map_op_tracks [OF Cons.prems(1,2,3) 1(1)] 1 Cons show ?case by simp
qed simp

section \<open>Journals\<close>

lemma hm_extend_lookup:
  "distinct (map fst new) \<Longrightarrow> map_of (hm_extend m new) k = (case map_of new k of None \<Rightarrow> map_of m k | r \<Rightarrow> r)"
proof (induction new arbitrary: m)
  case (Cons p new)
  obtain a b where p: "p = (a, b)" by force
  with Cons.prems have "map_of new a = None" by (auto simp: map_of_eq_None_iff)
  with Cons p show ?case by (auto simp: hm_extend_def split: option.splits)
qed (simp add: hm_extend_def)

lemma hm_or_insert_lookup:
  "map_of (fold hm_or_insert old m) k = (case map_of m k of None \<Rightarrow> map_of old k | r \<Rightarrow> r)"
proof (induction old arbitrary: m)
  case (Cons p old)
  obtain a b where p: "p = (a, b)" by force
  show ?case
    unfolding p fold_simps comp_apply Cons.IH
    by (auto simp: hm_or_insert_def hm_contains_def split: option.splits)
qed (simp split: option.split)

lemma hm_extend_keys: "distinct (map fst m) \<Longrightarrow> distinct (map fst (hm_extend m new))"
  unfolding hm_extend_def by (induction new arbitrary: m) (auto simp: distinct_update)

lemma hm_or_insert_keys: "distinct (map fst m) \<Longrightarrow> distinct (map fst (fold hm_or_insert old m))"
  by (induction old arbitrary: m) (auto simp: hm_or_insert_def distinct_update)

lemma restore_journal_wf:
  "map_wf m \<Longrightarrow> distinct (map fst (changes old)) \<Longrightarrow> map_wf (restore_journal m old)"
  by (simp add: restore_journal_def map_wf_def Let_def hm_extend_keys hm_or_insert_keys)

lemma restore_journal_content [simp]: "map_content (restore_journal m old) = map_content m"
  by (simp add: restore_journal_def map_content_def Let_def)

lemma restore_journal_apply:
  assumes "distinct (map fst (changes (journal m)))"
  shows "journal_apply (journal (restore_journal m old)) base =
         journal_apply (journal m) (journal_apply old base)"
  by (rule ext)
    (simp add: restore_journal_def journal_apply_def Let_def hm_extend_lookup [OF assms]
      hm_or_insert_lookup split: option.split)

lemma take_journal_apply:
  assumes "take_journal m = (j, m')"
  shows "j = journal m" "journal_apply (journal m') base = base" "map_content m' = map_content m"
    "enabled (journal m') = enabled (journal m)" "map_wf m \<Longrightarrow> map_wf m'" "map_name m' = map_name m"
    "sink m' = sink m"
  using assms
  by (auto simp: take_journal_def journal_apply_def journal_default_def map_content_def map_wf_def)

section \<open>The cache of the serialized root\<close>

datatype cache_op = Mutate map_op | Serialize

fun run_cache_op :: "(page \<Rightarrow> bytes h2_result) \<Rightarrow> mvmap \<times> collector \<Rightarrow> cache_op \<Rightarrow> (mvmap \<times> collector) option" where
  "run_cache_op ser_page mc (Mutate opn) = run_map_op mc opn"
| "run_cache_op ser_page (m, c) Serialize = Some (snd (get_serialized_root ser_page m), c)"

fun mutations :: "cache_op list \<Rightarrow> nat" where
  "mutations [] = 0"
| "mutations (Mutate _ # ops) = Suc (mutations ops)"
| "mutations (Serialize # ops) = mutations ops"

text \<open>The cached bytes are \<open>d\<close> mutations old for some \<open>d \<le> n\<close>, and right when \<open>d\<close> is 0.\<close>

definition cache_age :: "(page \<Rightarrow> bytes h2_result) \<Rightarrow> nat \<Rightarrow> mvmap \<Rightarrow> bool" where
  "cache_age ser_page n m \<longleftrightarrow>
     (\<forall>c bs. cached_root m = Some (c, bs) \<longrightarrow>
        (\<exists>d \<le> n. mod_count m = c + word_of_nat d \<and> (d = 0 \<longrightarrow> ser_page (root (tree m)) = Inr bs)))"

lemma cache_hit_fresh:
  assumes "cache_age ser_page n m" "n < 2 ^ 64" "cached_root m = Some (mod_count m, bs)"
  shows "ser_page (root (tree m)) = Inr bs"
proof -
  from assms obtain d where d: "d \<le> n" "mod_count m = mod_count m + word_of_nat d"
    "d = 0 \<longrightarrow> ser_page (root (tree m)) = Inr bs"
    by (auto simp: cache_age_def)
  from d(2) have "(word_of_nat d :: u64) = 0" by simp
  then have "unat (word_of_nat d :: u64) = 0" by simp
  with d(1) assms(2) have "d = 0" by (simp add: unat_of_nat)
  with d(3) show ?thesis by simp
qed

lemma get_serialized_root_fresh:
  assumes "cache_age ser_page n m" "n < 2 ^ 64"
  shows "fst (get_serialized_root ser_page m) = ser_page (root (tree m))"
  using cache_hit_fresh [OF assms]
  by (auto simp: get_serialized_root_def Let_def split: option.splits sum.splits)

lemma get_serialized_root_age:
  assumes "cache_age ser_page n m" "get_serialized_root ser_page m = (r, m')"
  shows "cache_age ser_page n m'" "tree m' = tree m" "map_wf m' = map_wf m"
proof -
  have "m' = m \<or> (\<exists>bs. ser_page (root (tree m)) = Inr bs \<and> m' = m\<lparr>cached_root := Some (mod_count m, bs)\<rparr>)"
    using assms(2)
    by (cases "ser_page (root (tree m))")
      (auto simp: get_serialized_root_def Let_def split: option.splits if_splits)
  moreover have "cache_age ser_page n (m\<lparr>cached_root := Some (mod_count m, bs)\<rparr>)"
    if "ser_page (root (tree m)) = Inr bs" for bs
    unfolding cache_age_def by (intro allI impI exI [of _ 0]) (use that in auto)
  ultimately show "cache_age ser_page n m'" "tree m' = tree m" "map_wf m' = map_wf m"
    using assms(1) by (auto simp: map_wf_def)
qed

lemma run_map_op_age:
  assumes "map_wf m" "cache_age ser_page n m" "run_map_op (m, c) opn = Some (m', c')"
  shows "cache_age ser_page (Suc n) m'"
proof -
  from run_map_op_step [OF assms(1), of c opn] assms(3) have
    m': "mod_count m' = mod_count m + 1" "cached_root m' = cached_root m" by auto
  show ?thesis
    unfolding cache_age_def
  proof (intro allI impI)
    fix a bs assume "cached_root m' = Some (a, bs)"
    with m' have "cached_root m = Some (a, bs)" by simp
    with assms(2) obtain d where "d \<le> n" "mod_count m = a + word_of_nat d"
      unfolding cache_age_def by blast
    with m' show "\<exists>d \<le> Suc n. mod_count m' = a + word_of_nat d \<and> (d = 0 \<longrightarrow> ser_page (root (tree m')) = Inr bs)"
      by (intro exI [of _ "Suc d"]) (simp add: algebra_simps)
  qed
qed

lemma run_cache_ops:
  assumes "map_wf m" "cache_age ser_page n m"
  shows "\<exists>m' c'. fold_opt (run_cache_op ser_page) (m, c) ops = Some (m', c') \<and> map_wf m' \<and>
           cache_age ser_page (n + mutations ops) m'"
  using assms
proof (induction ops arbitrary: m c n)
  case (Cons opn ops)
  show ?case
  proof (cases opn)
    case (Mutate mop)
    from run_map_op_step [OF Cons.prems(1), of c mop] obtain m1 c1 where
      1: "run_map_op (m, c) mop = Some (m1, c1)" "map_wf m1" by blast
    from run_map_op_age [OF Cons.prems 1(1)] have "cache_age ser_page (Suc n) m1" .
    from Cons.IH [OF 1(2) this, of c1] 1 Mutate show ?thesis by simp
  next
    case Serialize
    obtain r m1 where 1: "get_serialized_root ser_page m = (r, m1)" by force
    note age = get_serialized_root_age [OF Cons.prems(2) 1]
    from age(3) Cons.prems(1) have "map_wf m1" by simp
    from Cons.IH [OF this age(1), of c] Serialize 1 show ?thesis by simp
  qed
qed simp

section \<open>Applying a change list to a map\<close>

text \<open>
  The loop body shared by recovery, delta checkpoints and compaction: put a value or remove a key.
\<close>

definition apply_kv_change :: "mvmap \<Rightarrow> bytes \<times> bytes option \<Rightarrow> mvmap option" where
  "apply_kv_change m c =
     (case snd c of
        Some v \<Rightarrow> map_option fst (map_put m (fst c) v [])
      | None \<Rightarrow> map_option fst (map_remove m (fst c) []))"

interpretation mapr: replayable apply_kv_change map_wf map_content
proof unfold_locales
  fix m :: mvmap and c :: "bytes \<times> bytes option"
  assume "map_wf m"
  then show "\<exists>m'. apply_kv_change m c = Some m' \<and> map_wf m' \<and>
               map_content m' = (map_content m)(fst c := snd c)"
    using map_put_step [of m "fst c" _ "[]"] map_remove_step [of m "fst c" "[]"]
    by (cases "snd c") (fastforce simp: apply_kv_change_def)+
qed

section \<open>Properties\<close>

text \<open>Over any sequence of put, remove and clear calls a journaling map never panics, holds what the
  calls in order make of its old content, and its journal applied to the content at the last
  checkpoint gives exactly the current content.\<close>

theorem map_history_journalled:
  assumes "map_wf m" "enabled (journal m)" "map_content m = journal_apply (journal m) base"
  shows "\<exists>m' c'. fold_opt run_map_op (m, c) ops = Some (m', c') \<and> map_wf m' \<and>
           map_content m' = foldl op_effect (map_content m) ops \<and>
           map_content m' = journal_apply (journal m') base"
  using run_map_ops [OF assms(1), of c ops] run_map_ops_tracks [OF assms] by blast

theorem map_history_journalled_witness:
  "\<exists>m' c'. fold_opt run_map_op (set_journaling (map_new ''t'' mvtree_default) True, [])
             [Put [1] [10], Put [2] [20], Clear, Put [3] [30], Remove [3]] = Some (m', c') \<and>
           map_content m' = Map.empty \<and> map_content m' = journal_apply (journal m') Map.empty"
  using map_history_journalled [of "set_journaling (map_new ''t'' mvtree_default) True" Map.empty "[]"
      "[Put [1] [10], Put [2] [20], Clear, Put [3] [30], Remove [3]]"]
  by (auto simp: map_wf_def set_journaling_def map_new_def tree_wf_default journal_default_def
      map_content_def journal_apply_def)

text \<open>When a checkpoint takes a map's journal and fails, the changes made meanwhile and the journal
  put back by \<^verbatim>\<open>restore_journal\<close> together still describe the difference to the last successful
  checkpoint: nothing is lost, whatever mixture of clears, overwrites and deletions both contain.\<close>

theorem failed_checkpoint_keeps_changes:
  assumes "map_wf m" "enabled (journal m)" "map_content m = journal_apply (journal m) base"
    and take: "take_journal m = (old, m1)"
    and run: "fold_opt run_map_op (m1, c) ops = Some (m2, c')"
  shows "map_content (restore_journal m2 old) = journal_apply (journal (restore_journal m2 old)) base"
proof -
  note tj = take_journal_apply [OF take]
  have m1: "map_wf m1" "enabled (journal m1)" "map_content m1 = journal_apply (journal m1) (map_content m1)"
    using tj assms by simp_all
  from run_map_ops [OF m1(1), of c ops] run have "map_wf m2" by auto
  then have d: "distinct (map fst (changes (journal m2)))" by (simp add: map_wf_def)
  from run_map_ops_tracks [OF m1 run] tj(1,3) assms(3) show ?thesis
    by (simp add: restore_journal_apply [OF d])
qed

theorem failed_checkpoint_keeps_changes_witness:
  "let m = set_journaling (map_new ''t'' mvtree_default) True;
       m0 = fst (the (map_put m [1] [10] []));
       (old, m1) = take_journal m0;
       m2 = fst (the (fold_opt run_map_op (m1, []) [Remove [1], Put [2] [5]]))
   in map_content (restore_journal m2 old) [2] = Some [5] \<and>
      map_content (restore_journal m2 old) = journal_apply (journal (restore_journal m2 old)) Map.empty"
proof -
  define m where "m = set_journaling (map_new ''t'' mvtree_default) True"
  have m: "map_wf m" "enabled (journal m)" "map_content m = Map.empty" "journal_apply (journal m) Map.empty = Map.empty"
    by (auto simp: m_def map_wf_def set_journaling_def map_new_def tree_wf_default journal_default_def
      map_content_def journal_apply_def)
  from map_put_step [OF m(1), of "[1]" "[10]" "[]"] obtain m0 c0 where
    m0: "map_put m [1] [10] [] = Some (m0, c0)" "map_wf m0" "map_content m0 = [[1] \<mapsto> [10]]"
      "journal m0 = journal_record (journal m) [1] (Some [10])" using m by auto
  obtain old m1 where tk: "take_journal m0 = (old, m1)" by force
  note tj = take_journal_apply [OF tk]
  from run_map_ops [of m1 "[]" "[Remove [1], Put [2] [5]]"] tj m0 obtain m2 c2 where
    m2: "fold_opt run_map_op (m1, []) [Remove [1], Put [2] [5]] = Some (m2, c2)"
      "map_content m2 = foldl op_effect (map_content m1) [Remove [1], Put [2] [5]]" by blast
  have "map_content (restore_journal m2 old) =
      journal_apply (journal (restore_journal m2 old)) Map.empty"
    by (rule failed_checkpoint_keeps_changes [OF m0(2) _ _ tk m2(1)])
      (use m m0 in \<open>auto simp: journal_record_apply\<close>)
  moreover have "map_content (restore_journal m2 old) [2] = Some [5]" using m2(2) by simp
  ultimately show ?thesis
    unfolding m_def [symmetric] Let_def by (simp add: m0(1) tk m2(1) del: fold_opt.simps)
qed

text \<open>\<^verbatim>\<open>get_serialized_root\<close> never returns stale bytes: as long as fewer than \<open>2^64\<close> mutations happened
  (the modification counter has not wrapped around), whatever calls went before, it returns the
  serialization of the current root.\<close>

theorem serialized_root_not_stale:
  assumes "map_wf m" "cached_root m = None" "mutations ops < 2 ^ 64"
  shows "\<exists>m' c'. fold_opt (run_cache_op ser_page) (m, c) ops = Some (m', c') \<and>
           fst (get_serialized_root ser_page m') = ser_page (root (tree m'))"
proof -
  have "cache_age ser_page 0 m" using assms(2) by (simp add: cache_age_def)
  from run_cache_ops [OF assms(1) this, of c ops] assms(3) show ?thesis
    using get_serialized_root_fresh by fastforce
qed

theorem serialized_root_not_stale_witness:
  "\<exists>m' c'. fold_opt (run_cache_op (\<lambda>p. Inr [word_of_nat (entry_count p)]))
             (map_new ''t'' mvtree_default, []) [Serialize, Mutate (Put [7] [8]), Serialize, Mutate Clear] = Some (m', c') \<and>
           fst (get_serialized_root (\<lambda>p. Inr [word_of_nat (entry_count p)]) m') =
             Inr [word_of_nat (entry_count (root (tree m')))]"
  by (rule serialized_root_not_stale) (simp_all add: tree_wf_default map_new_def map_wf_def journal_default_def)

end
