(* ===== verification/Wal.thy ===== *)
theory Wal
  imports H2_Prelude "HOL-Library.Multiset"
begin

text \<open>
  The write-ahead log (\<^verbatim>\<open>wal.rs\<close>): records framed with length and checksum, appended to a file whose
  content is the model's byte list, and read back by a loop that stops at the first frame that is
  torn, fails its checksum or does not decode, and cuts the file there.  \<open>ser_rec\<close>, \<open>de_rec\<close> and \<open>crc\<close>
  stand for \<^verbatim>\<open>bincode\<close> and \<^verbatim>\<open>crc32fast\<close>.  An \<open>io_faults\<close> argument says what the operating system does to an
  operation: how many bytes of a failed write reached the file, and whether a sync fails.
\<close>

section \<open>Records\<close>

record wal_change =
  wc_map :: string
  wc_key :: bytes
  wc_value :: "bytes option"

record wal_record =
  wr_tx :: u64
  wr_version :: u64
  wr_changes :: "wal_change list"
  wr_nanos :: "64 word"

record io_faults =
  write_fault :: "nat option"
  sync_fault :: bool

definition no_faults :: io_faults where
  "no_faults = \<lparr>write_fault = None, sync_fault = False\<rparr>"

type_synonym rec_ser = "wal_record \<Rightarrow> bytes h2_result"
type_synonym rec_de = "bytes \<Rightarrow> wal_record h2_result"
type_synonym checksum = "bytes \<Rightarrow> u32"

text \<open>
  \<^verbatim>\<open>path\<close> is left out; \<open>wal_file = None\<close> is the in-memory manager.  \<open>wal_durable\<close> is the part of the file that
  the operating system has promised to keep: the number of leading bytes covered by the last sync.
  A crash keeps at least those bytes and loses any part of what follows them.
\<close>

record wal_manager =
  wal_file :: "bytes option"
  wal_sync_on_commit :: bool
  wal_durable :: nat

definition wal_open :: "bytes option \<Rightarrow> bool \<Rightarrow> wal_manager" where
  "wal_open disk sync =
     \<lparr>wal_file = Some (case disk of None \<Rightarrow> [] | Some bs \<Rightarrow> bs), wal_sync_on_commit = sync,
      wal_durable = 0\<rparr>"

definition wal_open_in_memory :: wal_manager where
  "wal_open_in_memory = \<lparr>wal_file = None, wal_sync_on_commit = False, wal_durable = 0\<rparr>"

definition wal_is_in_memory :: "wal_manager \<Rightarrow> bool" where
  "wal_is_in_memory wm = (wal_file wm = None)"

section \<open>Appending\<close>

definition wal_frame :: "checksum \<Rightarrow> bytes \<Rightarrow> bytes" where
  "wal_frame crc payload =
     u32_to_le_bytes (word_of_nat (length payload)) @ u32_to_le_bytes (crc payload) @ payload"

text \<open>\<^verbatim>\<open>seek(End)\<close> and \<^verbatim>\<open>write_all\<close>: on a fault only a prefix of the buffer is in the file.\<close>

definition write_at_end :: "io_faults \<Rightarrow> bytes \<Rightarrow> bytes \<Rightarrow> unit h2_result \<times> bytes" where
  "write_at_end flt file buf =
     (case write_fault flt of
        None \<Rightarrow> (Inr (), file @ buf)
      | Some n \<Rightarrow> (Inl (Io ''write''), file @ take n buf))"

definition append_unsynced ::
    "rec_ser \<Rightarrow> checksum \<Rightarrow> io_faults \<Rightarrow> wal_manager \<Rightarrow> wal_record \<Rightarrow> unit h2_result \<times> wal_manager" where
  "append_unsynced ser_rec crc flt wm rec =
     (case wal_file wm of
        None \<Rightarrow> (Inr (), wm)
      | Some file \<Rightarrow>
          (case ser_rec rec of
             Inl e \<Rightarrow> (Inl e, wm)
           | Inr payload \<Rightarrow>
               (let (res, file') = write_at_end flt file (wal_frame crc payload) in
                (res, wm\<lparr>wal_file := Some file'\<rparr>))))"

definition sync_for_commit :: "io_faults \<Rightarrow> wal_manager \<Rightarrow> unit h2_result \<times> wal_manager" where
  "sync_for_commit flt wm =
     (if wal_sync_on_commit wm then
        (case wal_file wm of
           None \<Rightarrow> (Inr (), wm)
         | Some file \<Rightarrow>
             if sync_fault flt then (Inl (Io ''sync''), wm) else (Inr (), wm\<lparr>wal_durable := length file\<rparr>))
      else (Inr (), wm))"

definition wal_append ::
    "rec_ser \<Rightarrow> checksum \<Rightarrow> io_faults \<Rightarrow> wal_manager \<Rightarrow> wal_record \<Rightarrow> unit h2_result \<times> wal_manager" where
  "wal_append ser_rec crc flt wm rec =
     (case append_unsynced ser_rec crc flt wm rec of
        (Inl e, wm') \<Rightarrow> (Inl e, wm')
      | (Inr _, wm') \<Rightarrow> (if wal_sync_on_commit wm' then sync_for_commit flt wm' else (Inr (), wm')))"

text \<open>\<^verbatim>\<open>set_len\<close> cuts the file or extends it with zero bytes.\<close>

definition set_len :: "bytes \<Rightarrow> nat \<Rightarrow> bytes" where
  "set_len file n = take n file @ replicate (n - length file) 0"

definition wal_truncate_to :: "wal_manager \<Rightarrow> nat \<Rightarrow> wal_manager" where
  "wal_truncate_to wm n =
     (case wal_file wm of None \<Rightarrow> wm | Some file \<Rightarrow> wm\<lparr>wal_file := Some (set_len file n), wal_durable := min (wal_durable wm) n\<rparr>)"

definition wal_clear :: "wal_manager \<Rightarrow> wal_manager" where
  "wal_clear wm = (case wal_file wm of None \<Rightarrow> wm | Some file \<Rightarrow> wm\<lparr>wal_file := Some (set_len file 0), wal_durable := 0\<rparr>)"

definition wal_sync :: "wal_manager \<Rightarrow> wal_manager" where
  "wal_sync wm = (case wal_file wm of None \<Rightarrow> wm | Some file \<Rightarrow> wm\<lparr>wal_durable := length file\<rparr>)"

definition wal_set_sync_on_commit :: "wal_manager \<Rightarrow> bool \<Rightarrow> wal_manager" where
  "wal_set_sync_on_commit wm sync = wm\<lparr>wal_sync_on_commit := sync\<rparr>"

definition wal_len :: "wal_manager \<Rightarrow> nat" where
  "wal_len wm = (case wal_file wm of None \<Rightarrow> 0 | Some file \<Rightarrow> length file)"

section \<open>Reading\<close>

text \<open>One turn of the reading loop on the rest of the file: the record and the bytes it took.\<close>

definition next_frame :: "checksum \<Rightarrow> rec_de \<Rightarrow> bytes \<Rightarrow> (wal_record \<times> nat) option" where
  "next_frame crc de_rec rest =
     (if length rest < 8 then None
      else
        let len = unat (u32_from_le_bytes (take 4 rest));
            expected_crc = u32_from_le_bytes (take 4 (drop 4 rest)) in
        if len > length rest - 8 then None
        else
          let payload = take len (drop 8 rest) in
          if crc payload \<noteq> expected_crc then None
          else case de_rec payload of Inl _ \<Rightarrow> None | Inr rec \<Rightarrow> Some (rec, 8 + len))"

lemma next_frame_size:
  "next_frame crc de_rec rest = Some (r, n) \<Longrightarrow> 0 < n \<and> n \<le> length rest"
  by (auto simp: next_frame_def Let_def split: if_splits sum.splits)

function read_frames :: "checksum \<Rightarrow> rec_de \<Rightarrow> bytes \<Rightarrow> nat \<Rightarrow> wal_record list \<times> nat" where
  "read_frames crc de_rec file pos =
     (case next_frame crc de_rec (drop pos file) of
        None \<Rightarrow> ([], pos)
      | Some (r, n) \<Rightarrow> (let (rs, valid_end) = read_frames crc de_rec file (pos + n) in (r # rs, valid_end)))"
  by pat_completeness auto
termination
  by (relation "measure (\<lambda>(crc, de_rec, file, pos). length file - pos)") (auto dest!: next_frame_size)

declare read_frames.simps [simp del]

definition read_all_records ::
    "checksum \<Rightarrow> rec_de \<Rightarrow> wal_manager \<Rightarrow> wal_record list \<times> wal_manager" where
  "read_all_records crc de_rec wm =
     (case wal_file wm of
        None \<Rightarrow> ([], wm)
      | Some file \<Rightarrow>
          (let (records, valid_end) = read_frames crc de_rec file 0 in
           (records,
            if length file > valid_end
            then wm\<lparr>wal_file := Some (set_len file valid_end), wal_durable := valid_end\<rparr> else wm)))"

section \<open>Logs\<close>

text \<open>\<open>is_log\<close>: the bytes are exactly the frames of the records.\<close>

fun is_log :: "checksum \<Rightarrow> rec_de \<Rightarrow> wal_record list \<Rightarrow> bytes \<Rightarrow> bool" where
  "is_log crc de_rec [] bs \<longleftrightarrow> bs = []"
| "is_log crc de_rec (r # rs) bs \<longleftrightarrow>
     (case next_frame crc de_rec bs of
        None \<Rightarrow> False
      | Some (r', n) \<Rightarrow> r' = r \<and> is_log crc de_rec rs (drop n bs))"

lemma next_frame_append:
  assumes "next_frame crc de_rec bs = Some (r, n)"
  shows "next_frame crc de_rec (bs @ t) = Some (r, n)"
  using assms by (auto simp: next_frame_def Let_def split: if_splits sum.splits)

lemma next_frame_take:
  assumes "next_frame crc de_rec bs = Some (r, n)" "n \<le> m"
  shows "next_frame crc de_rec (take m bs) = Some (r, n)"
proof -
  from assms(1) have len: "8 \<le> length bs" and n: "n = 8 + unat (u32_from_le_bytes (take 4 bs))"
    "n \<le> length bs"
    by (auto simp: next_frame_def Let_def split: if_splits sum.splits)
  from n assms(2) have m: "8 \<le> m" by simp
  then have "take 4 (take m bs) = take 4 bs" "take 4 (drop 4 (take m bs)) = take 4 (drop 4 bs)"
    "take (n - 8) (drop 8 (take m bs)) = take (n - 8) (drop 8 bs)"
    using assms(2) by (simp_all add: drop_take min_def)
  with assms len n m show ?thesis
    by (auto simp: next_frame_def Let_def split: if_splits sum.splits)
qed

lemma is_log_append:
  "is_log crc de_rec rs bs \<Longrightarrow> is_log crc de_rec rs' bs' \<Longrightarrow> is_log crc de_rec (rs @ rs') (bs @ bs')"
proof (induction rs arbitrary: bs)
  case (Cons r rs)
  then obtain n where n: "next_frame crc de_rec bs = Some (r, n)" "is_log crc de_rec rs (drop n bs)"
    by (auto split: option.splits)
  with Cons next_frame_size [OF n(1)] show ?case by (simp add: next_frame_append)
qed simp

lemma read_frames_log:
  assumes "is_log crc de_rec rs bs"
  shows "read_frames crc de_rec (pre @ bs @ t) (length pre) =
    (case read_frames crc de_rec (pre @ bs @ t) (length pre + length bs) of (rs', e) \<Rightarrow> (rs @ rs', e))"
  using assms
proof (induction rs arbitrary: pre bs)
  case (Cons r rs)
  then obtain n where n: "next_frame crc de_rec bs = Some (r, n)" "is_log crc de_rec rs (drop n bs)"
    by (auto split: option.splits)
  from next_frame_size [OF n(1)] have sz: "n \<le> length bs" by simp
  have split: "take n bs @ drop n bs @ t = bs @ t" by (metis append.assoc append_take_drop_id)
  have "read_frames crc de_rec (pre @ bs @ t) (length pre + n) =
      (case read_frames crc de_rec (pre @ bs @ t) (length pre + length bs) of (rs', e) \<Rightarrow> (rs @ rs', e))"
    using Cons.IH [OF n(2), of "pre @ take n bs"] sz by (simp add: split min_absorb2)
  with n(1) show ?case
    by (subst read_frames.simps) (simp add: next_frame_append split: prod.splits)
qed simp

lemma read_frames_sound:
  assumes "read_frames crc de_rec fl pos = (rs, e)" "pos \<le> length fl"
  shows "pos \<le> e" "e \<le> length fl" "is_log crc de_rec rs (take (e - pos) (drop pos fl))"
    "next_frame crc de_rec (drop e fl) = None"
proof -
  have "pos \<le> e \<and> e \<le> length fl \<and> is_log crc de_rec rs (take (e - pos) (drop pos fl)) \<and>
    next_frame crc de_rec (drop e fl) = None"
    using assms
  proof (induction crc de_rec fl pos arbitrary: rs rule: read_frames.induct)
    case (1 crc de_rec fl pos)
    show ?case
    proof (cases "next_frame crc de_rec (drop pos fl)")
      case None
      with 1 show ?thesis by (subst (asm) (2) read_frames.simps) simp
    next
      case (Some rn)
      obtain r n where rn: "rn = (r, n)" by force
      from next_frame_size [of crc de_rec "drop pos fl" r n] Some rn
      have n: "0 < n" "pos + n \<le> length fl" using "1.prems"(2) by auto
      obtain rs' e' where rec: "read_frames crc de_rec fl (pos + n) = (rs', e')" by force
      with "1.prems"(1) Some rn have rs: "rs = r # rs'" "e' = e"
        by (subst (asm) read_frames.simps; simp)+
      from "1.IH" [OF Some rn [symmetric] _ n(2), of rs'] rec rs have IH:
        "pos + n \<le> e" "e \<le> length fl" "is_log crc de_rec rs' (take (e - (pos + n)) (drop (pos + n) fl))"
        "next_frame crc de_rec (drop e fl) = None" by auto
      have "next_frame crc de_rec (take (e - pos) (drop pos fl)) = Some (r, n)"
        using Some rn IH(1) by (intro next_frame_take) auto
      moreover have "drop n (take (e - pos) (drop pos fl)) = take (e - (pos + n)) (drop (pos + n) fl)"
        by (simp add: drop_take add.commute)
      ultimately show ?thesis using IH rs by simp
    qed
  qed
  then show "pos \<le> e" "e \<le> length fl" "is_log crc de_rec rs (take (e - pos) (drop pos fl))"
    "next_frame crc de_rec (drop e fl) = None" by auto
qed

text \<open>A log followed by bytes that are no frame is read back exactly.\<close>

lemma read_frames_exact:
  assumes "is_log crc de_rec rs bs" "next_frame crc de_rec t = None"
  shows "read_frames crc de_rec (bs @ t) 0 = (rs, length bs)"
proof -
  have "read_frames crc de_rec (bs @ t) (length bs) = ([], length bs)"
    using assms(2) by (subst read_frames.simps) simp
  with read_frames_log [OF assms(1), of "[]" t] show ?thesis by simp
qed

lemma set_len_prefix [simp]: "set_len (bs @ t) (length bs) = bs"
  by (simp add: set_len_def)

lemma set_len_take: "n \<le> length bs \<Longrightarrow> set_len bs n = take n bs"
  by (simp add: set_len_def)

section \<open>Frames of records\<close>

text \<open>What is relied on of \<^verbatim>\<open>bincode\<close>: decoding inverts encoding.\<close>

definition rec_codec :: "rec_ser \<Rightarrow> rec_de \<Rightarrow> bool" where
  "rec_codec ser_rec de_rec \<longleftrightarrow> (\<forall>r bs. ser_rec r = Inr bs \<longrightarrow> de_rec bs = Inr r)"

lemma next_frame_nil [simp]: "next_frame crc de_rec [] = None"
  by (simp add: next_frame_def)

lemma next_frame_frame:
  assumes "de_rec payload = Inr r" "length payload < 2 ^ 32"
  shows "next_frame crc de_rec (wal_frame crc payload) = Some (r, length (wal_frame crc payload))"
proof -
  have "unat (word_of_nat (length payload) :: u32) = length payload" using assms(2) by (simp add: unat_of_nat)
  with assms(1) show ?thesis by (simp add: next_frame_def wal_frame_def)
qed

text \<open>A torn frame, as a crash or a failed write leaves it, is never read as a record.\<close>

lemma next_frame_torn:
  assumes "length payload < 2 ^ 32" "n < length (wal_frame crc payload)"
  shows "next_frame crc de_rec (take n (wal_frame crc payload)) = None"
proof (cases "n < 8")
  case False
  have "unat (word_of_nat (length payload) :: u32) = length payload" using assms(1) by (simp add: unat_of_nat)
  moreover have "take 4 (take n (wal_frame crc payload)) = u32_to_le_bytes (word_of_nat (length payload))"
    using False by (simp add: wal_frame_def min_def)
  moreover have "n - 8 < length payload" using assms(2) False by (simp add: wal_frame_def)
  ultimately show ?thesis using assms(2) False by (simp add: next_frame_def wal_frame_def Let_def)
qed (auto simp: next_frame_def min_def)

lemma is_log_frame:
  "de_rec payload = Inr r \<Longrightarrow> length payload < 2 ^ 32 \<Longrightarrow> is_log crc de_rec [r] (wal_frame crc payload)"
  by (simp add: next_frame_frame)

text \<open>Logs on the same bytes: what follows a log is a log of the rest, and a crash that keeps part of a
  log keeps some of its records and a part of one frame that is never read as a record.\<close>

lemma is_log_cancel:
  assumes "is_log crc de_rec rs b" "is_log crc de_rec (rs @ rs') (b @ g)"
  shows "is_log crc de_rec rs' g"
  using assms
proof (induction rs arbitrary: b)
  case (Cons r rs)
  from Cons.prems(1) obtain n where n: "next_frame crc de_rec b = Some (r, n)" "is_log crc de_rec rs (drop n b)"
    by (auto split: option.splits)
  with next_frame_size [OF n(1)] Cons.prems(2) Cons.IH [OF n(2)] show ?case
    by (simp add: next_frame_append)
qed simp

lemma is_log_prefix:
  assumes "is_log crc de_rec rs b0" "is_log crc de_rec (rs @ rs') b" "b0 @ t = b @ q"
  shows "length b0 \<le> length b"
  using assms
proof (induction rs arbitrary: b0 b)
  case (Cons r rs)
  obtain n m where n: "next_frame crc de_rec b0 = Some (r, n)" "is_log crc de_rec rs (drop n b0)"
    and m: "next_frame crc de_rec b = Some (r, m)" "is_log crc de_rec (rs @ rs') (drop m b)"
    using Cons.prems by (auto split: option.splits)
  have "n = m" using next_frame_append [OF n(1), of t] next_frame_append [OF m(1), of q] Cons.prems(3) by simp
  moreover have "drop n b0 @ t = drop m b @ q"
    using arg_cong [OF Cons.prems(3), of "drop n"] next_frame_size [OF n(1)] next_frame_size [OF m(1)] \<open>n = m\<close> by simp
  ultimately have "length b0 - n \<le> length b - n" using Cons.IH [OF n(2) m(2)] by simp
  with \<open>n = m\<close> next_frame_size [OF n(1)] next_frame_size [OF m(1)] show ?case by linarith
qed simp

lemma next_frame_cut:
  assumes "next_frame crc de_rec bs = Some (r, m)" "n < m"
  shows "next_frame crc de_rec (take n bs) = None"
proof (cases "n < 8")
  case False
  from assms have m: "m = 8 + unat (u32_from_le_bytes (take 4 bs))" "m \<le> length bs"
    by (auto simp: next_frame_def Let_def split: if_splits sum.splits)
  with False assms(2) have "take 4 (take n bs) = take 4 bs" "length (take n bs) - 8 < unat (u32_from_le_bytes (take 4 bs))"
    by (auto simp: min_def)
  then show ?thesis by (simp add: next_frame_def Let_def)
qed (auto simp: next_frame_def min_def)

lemma is_log_cut:
  assumes "is_log crc de_rec rs bs"
  shows "\<exists>k b t. take n bs = b @ t \<and> is_log crc de_rec (take k rs) b \<and> next_frame crc de_rec t = None"
  using assms
proof (induction rs arbitrary: bs n)
  case Nil
  then show ?case by (intro exI [of _ 0] exI [of _ "[]"]) simp
next
  case (Cons r rs)
  then obtain m where m: "next_frame crc de_rec bs = Some (r, m)" "is_log crc de_rec rs (drop m bs)"
    by (auto split: option.splits)
  show ?case
  proof (cases "m \<le> n")
    case False
    with next_frame_cut [OF m(1)] show ?thesis
      by (intro exI [of _ 0] exI [of _ "[]"] exI [of _ "take n bs"]) simp
  next
    case True
    from Cons.IH [OF m(2), of "n - m"] obtain k b t where
      k: "take (n - m) (drop m bs) = b @ t" "is_log crc de_rec (take k rs) b" "next_frame crc de_rec t = None" by blast
    have "take n bs = take m bs @ take (n - m) (drop m bs)" using True by (metis add_diff_inverse_nat linorder_not_le take_add)
    moreover have "is_log crc de_rec (take (Suc k) (r # rs)) (take m bs @ b)"
      using next_frame_append [OF next_frame_take [OF m(1) order.refl], of b] k(2) next_frame_size [OF m(1)] by simp
    ultimately show ?thesis using k by (intro exI [of _ "Suc k"] exI [of _ "take m bs @ b"] exI [of _ t]) simp
  qed
qed

lemma append_unsynced_log:
  assumes "rec_codec ser_rec de_rec" "ser_rec r = Inr payload" "length payload < 2 ^ 32"
    and "wal_file wm = Some bs" "is_log crc de_rec rs bs"
    and "append_unsynced ser_rec crc flt wm r = (res, wm')"
  shows "res = Inr () \<Longrightarrow> write_fault flt = None"
    and "\<exists>t. wal_file wm' = Some (bs @ t) \<and>
      (if write_fault flt = None then is_log crc de_rec (rs @ [r]) (bs @ t)
       else (\<exists>n. t = take n (wal_frame crc payload)))"
proof -
  have de: "de_rec payload = Inr r" using assms(1,2) by (simp add: rec_codec_def)
  show "res = Inr () \<Longrightarrow> write_fault flt = None"
    using assms by (auto simp: append_unsynced_def write_at_end_def split: option.splits)
  show "\<exists>t. wal_file wm' = Some (bs @ t) \<and>
      (if write_fault flt = None then is_log crc de_rec (rs @ [r]) (bs @ t)
       else (\<exists>n. t = take n (wal_frame crc payload)))"
    using assms(6) is_log_append [OF assms(5) is_log_frame [of de_rec, OF de assms(3)]]
    by (auto simp: append_unsynced_def write_at_end_def assms split: option.splits)
qed

section \<open>The archiver\<close>

text \<open>
  The archive directory is an association list from file names to contents.  File names follow
  \<^verbatim>\<open>wal_{:016}.wal\<close>, and \<open>None\<close> for the writer means that no segment is open.
\<close>

type_synonym directory = "(string, bytes) hashmap"

record wal_archiver =
  segment_writer :: "string option"
  segment_bytes :: u64
  segment_size_limit :: u64
  segment_id :: u64
  min_version :: u64
  max_version :: u64
  total_records :: u64

definition DEFAULT_SEGMENT_SIZE_LIMIT :: u64 where
  "DEFAULT_SEGMENT_SIZE_LIMIT = 16 * 1024 * 1024"

definition digit :: "nat \<Rightarrow> char" where
  "digit d = char_of (48 + d)"

fun dec_digits :: "nat \<Rightarrow> string" where
  "dec_digits n = (if n < 10 then [digit n] else dec_digits (n div 10) @ [digit (n mod 10)])"

declare dec_digits.simps [simp del]

definition pad16 :: "nat \<Rightarrow> string" where
  "pad16 n = (let d = dec_digits n in replicate (16 - length d) (digit 0) @ d)"

definition segment_name :: "u64 \<Rightarrow> string" where
  "segment_name i = ''wal_'' @ pad16 (unat i) @ ''.wal''"

text \<open>\<^verbatim>\<open>str::parse::<u64>\<close>: an optional plus sign, then at least one digit, and no overflow.\<close>

definition is_digit :: "char \<Rightarrow> bool" where
  "is_digit c \<longleftrightarrow> 48 \<le> (of_char c :: nat) \<and> (of_char c :: nat) \<le> 57"

definition digits_value :: "string \<Rightarrow> nat" where
  "digits_value ds = foldl (\<lambda>acc c. 10 * acc + ((of_char c :: nat) - 48)) 0 ds"

definition parse_u64 :: "string \<Rightarrow> u64 option" where
  "parse_u64 str =
     (let ds = (if str \<noteq> [] \<and> hd str = CHR ''+'' then tl str else str) in
      if ds \<noteq> [] \<and> list_all is_digit ds \<and> digits_value ds < 2 ^ 64
      then Some (word_of_nat (digits_value ds)) else None)"

definition segment_number :: "string \<Rightarrow> u64 option" where
  "segment_number name =
     (if prefix ''wal_'' name \<and> suffix ''.wal'' name
      then parse_u64 (take (length name - 8) (drop 4 name)) else None)"

definition archiver_with_segment_size :: "directory \<Rightarrow> u64 \<Rightarrow> wal_archiver" where
  "archiver_with_segment_size dir limit =
     (let max_segment_id =
        fold (\<lambda>(name, _) m. case segment_number name of Some i \<Rightarrow> if i > m then i else m | None \<Rightarrow> m) dir 0 in
      \<lparr>segment_writer = None, segment_bytes = 0, segment_size_limit = limit,
       segment_id = (if max_segment_id = - 1 then - 1 else max_segment_id + 1),
       min_version = 0, max_version = 0, total_records = 0\<rparr>)"

definition archiver_new :: "directory \<Rightarrow> wal_archiver" where
  "archiver_new dir = archiver_with_segment_size dir DEFAULT_SEGMENT_SIZE_LIMIT"

definition dir_append :: "directory \<Rightarrow> string \<Rightarrow> bytes \<Rightarrow> directory" where
  "dir_append dir name buf =
     AList.update name ((case map_of dir name of None \<Rightarrow> [] | Some bs \<Rightarrow> bs) @ buf) dir"

definition archive_rotate :: "wal_archiver \<Rightarrow> nat \<Rightarrow> wal_archiver" where
  "archive_rotate ar buf_len =
     (if segment_writer ar = None \<or> segment_bytes ar + word_of_nat buf_len > segment_size_limit ar
      then ar\<lparr>segment_writer := Some (segment_name (segment_id ar)), segment_bytes := 0,
              segment_id := segment_id ar + 1\<rparr>
      else ar)"

definition archive_record ::
    "rec_ser \<Rightarrow> checksum \<Rightarrow> io_faults \<Rightarrow> wal_archiver \<times> directory \<Rightarrow> wal_record \<Rightarrow>
     unit h2_result \<times> wal_archiver \<times> directory" where
  "archive_record ser_rec crc flt s rec =
     (case s of (ar, dir) \<Rightarrow>
      case ser_rec rec of
        Inl e \<Rightarrow> (Inl e, ar, dir)
      | Inr payload \<Rightarrow>
          (let buf = wal_frame crc payload;
               ar1 = archive_rotate ar (length buf) in
           case segment_writer ar1 of
             None \<Rightarrow> (Inr (), ar1, dir)
           | Some name \<Rightarrow>
               (case write_fault flt of
                  Some n \<Rightarrow> (Inl (Io ''write''), ar1, dir_append dir name (take n buf))
                | None \<Rightarrow>
                    if sync_fault flt then (Inl (Io ''sync''), ar1, dir_append dir name buf)
                    else
                      (Inr (),
                       ar1\<lparr>segment_bytes := segment_bytes ar1 + word_of_nat (length buf),
                           min_version := (if min_version ar1 = 0 \<or> wr_version rec < min_version ar1
                                           then wr_version rec else min_version ar1),
                           max_version := (if wr_version rec > max_version ar1
                                           then wr_version rec else max_version ar1),
                           total_records := total_records ar1 + 1\<rparr>,
                       dir_append dir name buf))))"

text \<open>
  \<^verbatim>\<open>read_archive_records\<close>: the files with extension \<^verbatim>\<open>wal\<close> in name order, each read to its first bad
  frame, then a stable sort by version.
\<close>

definition read_archive_records :: "checksum \<Rightarrow> rec_de \<Rightarrow> directory \<Rightarrow> u64 \<Rightarrow> wal_record list" where
  "read_archive_records crc de_rec dir from_version =
     (let files = sort_key (\<lambda>(name, _). map (of_char :: char \<Rightarrow> nat) name)
                    (filter (\<lambda>(name, _). suffix ''.wal'' name \<and> name \<noteq> ''.wal'') dir);
          records = concat (map (\<lambda>(_, bs).
            filter (\<lambda>r. wr_version r > from_version) (fst (read_frames crc de_rec bs 0))) files) in
      sort_key wr_version records)"

text \<open>The loop that archives a list of records.\<close>

definition archive_step ::
    "rec_ser \<Rightarrow> checksum \<Rightarrow> wal_archiver \<times> directory \<Rightarrow> wal_record \<Rightarrow> (wal_archiver \<times> directory) h2_result" where
  "archive_step ser_rec crc s r =
     (case archive_record ser_rec crc no_faults s r of (Inl e, _) \<Rightarrow> Inl e | (Inr _, s') \<Rightarrow> Inr s')"

text \<open>Moving a whole log into the archive.\<close>

definition archive_wal_file ::
    "rec_ser \<Rightarrow> rec_de \<Rightarrow> checksum \<Rightarrow> bytes option \<Rightarrow> directory \<Rightarrow> (nat \<times> directory) h2_result" where
  "archive_wal_file ser_rec de_rec crc wal_disk dir =
     (case wal_disk of
        None \<Rightarrow> Inr (0, dir)
      | Some bs \<Rightarrow>
          (let (records, _) = read_all_records crc de_rec (wal_open (Some bs) False) in
           res_bind (fold_res (archive_step ser_rec crc) (archiver_new dir, dir) records)
             (\<lambda>(_, dir'). Inr (length records, dir'))))"

section \<open>Recovery targets\<close>

datatype recovery_target = TimestampNanos "64 word" | TargetVersion u64 | TransactionId u64 | Latest

record restore_report =
  base_snapshot_version :: u64
  final_recovered_version :: u64
  records_replayed :: nat
  target_reached :: bool
  is_replica_backup :: bool

section \<open>What the archive holds\<close>

definition is_wal_name :: "string \<Rightarrow> bool" where
  "is_wal_name name \<longleftrightarrow> suffix ''.wal'' name \<and> name \<noteq> ''.wal''"

definition dir_ok :: "checksum \<Rightarrow> rec_de \<Rightarrow> directory \<Rightarrow> bool" where
  "dir_ok crc de_rec dir \<longleftrightarrow> distinct (map fst dir) \<and>
     (\<forall>(name, bs) \<in> set dir. is_wal_name name \<longrightarrow> (\<exists>rs. is_log crc de_rec rs bs))"

definition file_records :: "checksum \<Rightarrow> rec_de \<Rightarrow> string \<times> bytes \<Rightarrow> wal_record list" where
  "file_records crc de_rec f = (if is_wal_name (fst f) then fst (read_frames crc de_rec (snd f) 0) else [])"

definition dir_records :: "checksum \<Rightarrow> rec_de \<Rightarrow> directory \<Rightarrow> wal_record list" where
  "dir_records crc de_rec dir = concat (map (file_records crc de_rec) dir)"

lemma segment_name_wal [simp]: "is_wal_name (segment_name i)"
  by (auto simp: is_wal_name_def segment_name_def suffix_def)

lemma read_log: "is_log crc de_rec rs bs \<Longrightarrow> fst (read_frames crc de_rec bs 0) = rs"
  using read_frames_exact [of crc de_rec rs bs "[]"] by simp

lemma dir_append_Cons:
  "dir_append ((n, bs) # dir) name buf =
     (if n = name then (n, bs @ buf) # dir else (n, bs) # dir_append dir name buf)"
  by (simp add: dir_append_def)

lemma dir_append_records:
  assumes "is_wal_name name" "is_log crc de_rec [r] buf" "dir_ok crc de_rec dir"
  shows "dir_ok crc de_rec (dir_append dir name buf) \<and>
    mset (dir_records crc de_rec (dir_append dir name buf)) = mset (dir_records crc de_rec dir) + {#r#}"
  using assms(3)
proof (induction dir)
  case Nil
  with assms(1) read_log [OF assms(2)] show ?case
    by (auto simp: dir_append_def dir_ok_def dir_records_def file_records_def intro: assms(2))
next
  case (Cons f dir)
  obtain n bs where f: "f = (n, bs)" by force
  have ok: "dir_ok crc de_rec dir" and bs: "is_wal_name n \<longrightarrow> (\<exists>rs. is_log crc de_rec rs bs)"
    and n: "n \<notin> fst ` set dir"
    using Cons.prems f by (auto simp: dir_ok_def)
  show ?case
  proof (cases "n = name")
    case True
    with bs assms(1) obtain rs where rs: "is_log crc de_rec rs bs" by blast
    note log = is_log_append [OF rs assms(2)]
    have "dir_ok crc de_rec ((n, bs @ buf) # dir)"
      using ok n log by (auto simp: dir_ok_def)
    with True f read_log [OF rs] read_log [OF log] show ?thesis
      by (simp add: dir_append_Cons dir_records_def file_records_def assms(1))
  next
    case False
    have "fst ` set (dir_append dir name buf) = insert name (fst ` set dir)"
      by (simp add: dir_append_def dom_update flip: dom_map_of_conv_image_fst)
    with False n have "n \<notin> fst ` set (dir_append dir name buf)" by simp
    with Cons.IH [OF ok] bs False show ?thesis
      by (auto simp: f dir_append_Cons dir_ok_def dir_records_def)
  qed
qed

lemma archive_record_ok:
  assumes "rec_codec ser_rec de_rec" "ser_rec r = Inr payload" "length payload < 2 ^ 32"
    and "dir_ok crc de_rec dir"
    and wr: "\<forall>n. segment_writer ar = Some n \<longrightarrow> is_wal_name n"
  shows "\<exists>ar' dir'. archive_record ser_rec crc no_faults (ar, dir) r = (Inr (), ar', dir') \<and>
    dir_ok crc de_rec dir' \<and> (\<forall>n. segment_writer ar' = Some n \<longrightarrow> is_wal_name n) \<and>
    mset (dir_records crc de_rec dir') = mset (dir_records crc de_rec dir) + {#r#}"
proof -
  have de: "de_rec payload = Inr r" using assms(1,2) by (simp add: rec_codec_def)
  let ?ar = "archive_rotate ar (length (wal_frame crc payload))"
  obtain name where name: "segment_writer ?ar = Some name" "is_wal_name name"
  proof -
    have "\<exists>n. segment_writer ?ar = Some n \<and> is_wal_name n"
      using wr by (cases "segment_writer ar") (auto simp: archive_rotate_def)
    with that show ?thesis by blast
  qed
  from dir_append_records [OF name(2) is_log_frame [of de_rec, OF de assms(3)] assms(4)] name show ?thesis
    by (simp add: archive_record_def assms(2) Let_def no_faults_def)
qed

definition storable :: "rec_ser \<Rightarrow> wal_record \<Rightarrow> bool" where
  "storable ser_rec r \<longleftrightarrow> (case ser_rec r of Inl _ \<Rightarrow> False | Inr payload \<Rightarrow> length payload < 2 ^ 32)"

lemma storableE:
  assumes "storable ser_rec r" obtains payload where "ser_rec r = Inr payload" "length payload < 2 ^ 32"
  using assms by (auto simp: storable_def split: sum.splits)

lemma archive_steps_ok:
  assumes "rec_codec ser_rec de_rec" "list_all (storable ser_rec) rs" "dir_ok crc de_rec dir"
    and "\<forall>n. segment_writer ar = Some n \<longrightarrow> is_wal_name n"
  shows "\<exists>ar' dir'. fold_res (archive_step ser_rec crc) (ar, dir) rs = Inr (ar', dir') \<and>
    dir_ok crc de_rec dir' \<and>
    mset (dir_records crc de_rec dir') = mset (dir_records crc de_rec dir) + mset rs"
  using assms(2-)
proof (induction rs arbitrary: ar dir)
  case (Cons r rs)
  then obtain payload where "ser_rec r = Inr payload" "length payload < 2 ^ 32" by (auto elim: storableE)
  from archive_record_ok [OF assms(1) this Cons.prems(2,3)] obtain ar1 dir1 where
    1: "archive_record ser_rec crc no_faults (ar, dir) r = (Inr (), ar1, dir1)"
      "dir_ok crc de_rec dir1" "\<forall>n. segment_writer ar1 = Some n \<longrightarrow> is_wal_name n"
      "mset (dir_records crc de_rec dir1) = mset (dir_records crc de_rec dir) + {#r#}" by blast
  from Cons.IH [OF _ 1(2,3)] Cons.prems(1) 1(1,4) show ?case
    by (auto simp: archive_step_def)
qed simp

lemma read_archive_mset:
  "mset (read_archive_records crc de_rec dir v) =
   mset (filter (\<lambda>r. v < wr_version r) (dir_records crc de_rec dir))"
proof -
  define visible where "visible rs = filter (\<lambda>r. v < wr_version r) rs" for rs :: "wal_record list"
  define F where "F f = mset (visible (fst (read_frames crc de_rec (snd f) 0)))" for f :: "string \<times> bytes"
  have "mset (concat (map (\<lambda>(_, bs). visible (fst (read_frames crc de_rec bs 0))) fs)) = sum_mset (image_mset F (mset fs))"
    for fs by (induction fs) (auto simp: F_def)
  moreover have "mset (visible (dir_records crc de_rec dir)) =
      sum_mset (image_mset F (mset (filter (\<lambda>(name, _). suffix ''.wal'' name \<and> name \<noteq> ''.wal'') dir)))"
    by (induction dir) (auto simp: F_def visible_def dir_records_def file_records_def is_wal_name_def)
  ultimately show ?thesis
    unfolding read_archive_records_def Let_def visible_def [symmetric] by (simp only: mset_sort)
qed

section \<open>Appending a history\<close>

definition append_step ::
    "rec_ser \<Rightarrow> checksum \<Rightarrow> wal_manager \<Rightarrow> wal_record \<Rightarrow> wal_manager h2_result" where
  "append_step ser_rec crc wm r =
     (case wal_append ser_rec crc no_faults wm r of (Inl e, _) \<Rightarrow> Inl e | (Inr _, wm') \<Rightarrow> Inr wm')"

lemma append_step_log:
  assumes "rec_codec ser_rec de_rec" "storable ser_rec r" "wal_file wm = Some bs" "is_log crc de_rec rs bs"
  shows "\<exists>wm' bs'. append_step ser_rec crc wm r = Inr wm' \<and> wal_file wm' = Some bs' \<and>
           is_log crc de_rec (rs @ [r]) bs'"
proof -
  from assms(2) obtain payload where p: "ser_rec r = Inr payload" "length payload < 2 ^ 32"
    by (rule storableE)
  with assms(1) have de: "de_rec payload = Inr r" by (simp add: rec_codec_def)
  from is_log_append [OF assms(4) is_log_frame [of de_rec, OF de p(2)]] p(1) assms(3) show ?thesis
    by (simp add: append_step_def wal_append_def append_unsynced_def write_at_end_def no_faults_def
        sync_for_commit_def)
qed

lemma append_steps_log:
  assumes "rec_codec ser_rec de_rec" "list_all (storable ser_rec) rs'" "wal_file wm = Some bs"
    "is_log crc de_rec rs bs"
  shows "\<exists>wm' bs'. fold_res (append_step ser_rec crc) wm rs' = Inr wm' \<and> wal_file wm' = Some bs' \<and>
           is_log crc de_rec (rs @ rs') bs'"
  using assms(2-)
proof (induction rs' arbitrary: wm bs rs)
  case (Cons r rs')
  then have "storable ser_rec r" by simp
  from append_step_log [OF assms(1) this Cons.prems(2,3)] obtain wm1 bs1 where
    "append_step ser_rec crc wm r = Inr wm1" "wal_file wm1 = Some bs1" "is_log crc de_rec (rs @ [r]) bs1"
    by blast
  with Cons.IH [of wm1 bs1 "rs @ [r]"] Cons.prems(1) show ?case by simp
qed simp

text \<open>
  A concrete codec and checksum for the examples: records with at most one change, to a map, a key and
  a value of one byte each.
\<close>

definition toy_change :: "wal_change list \<Rightarrow> bytes option" where
  "toy_change cs =
     (case cs of
        [] \<Rightarrow> Some []
      | [c] \<Rightarrow> (case (wc_map c, wc_key c, wc_value c) of
                  ([n], [k], Some [v]) \<Rightarrow> Some [word_of_nat (of_char n), k, v] | _ \<Rightarrow> None)
      | _ \<Rightarrow> None)"

definition toy_ser :: rec_ser where
  "toy_ser r =
     (case toy_change (wr_changes r) of
        Some bs \<Rightarrow>
          if wr_nanos r = 0 then Inr (u64_to_le_bytes (wr_tx r) @ u64_to_le_bytes (wr_version r) @ bs)
          else Inl (Serialization ''toy'')
      | None \<Rightarrow> Inl (Serialization ''toy''))"

definition toy_de :: rec_de where
  "toy_de bs =
     (let r = (\<lambda>cs. \<lparr>wr_tx = u64_from_le_bytes (take 8 bs), wr_version = u64_from_le_bytes (take 8 (drop 8 bs)),
                     wr_changes = cs, wr_nanos = 0\<rparr>) in
      case drop 16 bs of
        [] \<Rightarrow> if length bs = 16 then Inr (r []) else Inl (Serialization ''toy'')
      | [n, k, v] \<Rightarrow> Inr (r [\<lparr>wc_map = [char_of (unat n)], wc_key = [k], wc_value = Some [v]\<rparr>])
      | _ \<Rightarrow> Inl (Serialization ''toy''))"

definition toy_rec :: "u64 \<Rightarrow> u64 \<Rightarrow> wal_record" where
  "toy_rec t v = \<lparr>wr_tx = t, wr_version = v, wr_changes = [], wr_nanos = 0\<rparr>"

definition toy_crc :: checksum where
  "toy_crc bs = fold (\<lambda>b acc. 31 * acc + ucast b) bs 7"

lemma toy_change_cases:
  assumes "toy_change cs = Some bs"
  shows "cs = [] \<and> bs = [] \<or>
    (\<exists>n k v. cs = [\<lparr>wc_map = [n], wc_key = [k], wc_value = Some [v]\<rparr>] \<and> bs = [word_of_nat (of_char n), k, v])"
proof (cases cs)
  case (Cons c cs')
  with assms obtain n k v where "cs' = []" "wc_map c = [n]" "wc_key c = [k]" "wc_value c = Some [v]"
    "bs = [word_of_nat (of_char n), k, v]"
    by (auto simp: toy_change_def split: list.splits option.splits)
  moreover from this have "c = \<lparr>wc_map = [n], wc_key = [k], wc_value = Some [v]\<rparr>" by (cases c) simp
  ultimately show ?thesis using Cons by blast
qed (use assms in \<open>simp add: toy_change_def\<close>)

lemma toy_codec: "rec_codec toy_ser toy_de"
proof -
  have "(of_char n :: nat) < 256" for n :: char by simp
  then have "char_of (unat (word_of_nat (of_char n) :: byte)) = n" for n :: char by (simp add: unat_of_nat)
  then show ?thesis
    by (auto simp: rec_codec_def toy_ser_def toy_de_def dest!: toy_change_cases split: if_splits option.splits)
qed

lemma toy_size: "toy_ser r = Inr bs \<Longrightarrow> length bs < 2 ^ 32"
  by (auto simp: toy_ser_def dest!: toy_change_cases split: if_splits option.splits)

lemma toy_storable [simp]: "storable toy_ser (toy_rec t v)"
  by (simp add: storable_def toy_ser_def toy_rec_def toy_change_def)

section \<open>Properties\<close>

text \<open>C15: Whatever bytes the log file holds, reading it ends, returns the records of the longest prefix made
  of intact frames and cuts the file to exactly that prefix; reading again returns the same records
  and leaves the file alone.\<close>

theorem wal_recovery_idempotent:
  assumes "wal_file wm = Some bs" "read_all_records crc de_rec wm = (rs, wm')"
  shows "\<exists>n \<le> length bs. wal_file wm' = Some (take n bs) \<and> is_log crc de_rec rs (take n bs) \<and>
           next_frame crc de_rec (drop n bs) = None \<and> read_all_records crc de_rec wm' = (rs, wm')"
proof -
  obtain n where rd: "read_frames crc de_rec bs 0 = (rs, n)"
    using assms by (auto simp: read_all_records_def split: prod.splits)
  note snd = read_frames_sound(2-4) [OF rd le0]
  have wm': "wal_file wm' = Some (take n bs)"
    using assms rd snd(1) by (auto simp: read_all_records_def set_len_take split: if_splits)
  have "read_frames crc de_rec (take n bs) 0 = (rs, n)"
    using read_frames_exact [OF snd(2), of "[]"] snd(1) by (simp add: min_def)
  then have "read_all_records crc de_rec wm' = (rs, wm')" by (simp add: read_all_records_def wm' snd(1))
  with snd wm' show ?thesis by (intro exI [of _ n]) simp
qed

theorem wal_recovery_idempotent_witness:
  "let bs = wal_frame toy_crc (u64_to_le_bytes 1 @ u64_to_le_bytes 2) @ [9, 9, 9];
       (rs, wm') = read_all_records toy_crc toy_de (wal_open (Some bs) True) in
   rs = [toy_rec 1 2] \<and> (\<exists>n \<le> length bs. wal_file wm' = Some (take n bs))"
proof -
  let ?f = "wal_frame toy_crc (u64_to_le_bytes 1 @ u64_to_le_bytes 2)"
  obtain rs wm' where rd: "read_all_records toy_crc toy_de (wal_open (Some (?f @ [9, 9, 9])) True) = (rs, wm')"
    by force
  have "is_log toy_crc toy_de [toy_rec 1 2] ?f" by (rule is_log_frame) (simp_all add: toy_de_def toy_rec_def)
  then have "read_frames toy_crc toy_de (?f @ [9, 9, 9]) 0 = ([toy_rec 1 2], length ?f)"
    by (rule read_frames_exact) (simp add: next_frame_def)
  with rd have "rs = [toy_rec 1 2]" by (simp add: read_all_records_def wal_open_def)
  with wal_recovery_idempotent [OF _ rd] rd show ?thesis by (auto simp: wal_open_def)
qed

text \<open>C14: Crash safety of the log: after any number of acknowledged appends, a crash in the middle of
  writing one more record (any proper part of its frame) leaves a file from which exactly the
  acknowledged records are recovered, cut so that later appends are recovered too.\<close>

theorem wal_crash_safe:
  assumes codec: "rec_codec ser_rec de_rec" and rs: "list_all (storable ser_rec) (rs @ [r'])"
    and torn: "ser_rec r = Inr payload" "length payload < 2 ^ 32" "n < length (wal_frame crc payload)"
  shows "\<exists>wm bs wm'. fold_res (append_step ser_rec crc) (wal_open None sync) rs = Inr wm \<and>
     wal_file wm = Some bs \<and>
     read_all_records crc de_rec (wal_open (Some (bs @ take n (wal_frame crc payload))) sync) = (rs, wm') \<and>
     (\<exists>wm''. append_step ser_rec crc wm' r' = Inr wm'' \<and> fst (read_all_records crc de_rec wm'') = rs @ [r'])"
proof -
  have open_log: "wal_file (wal_open None sync) = Some []" "is_log crc de_rec [] []"
    by (simp_all add: wal_open_def)
  from rs have rs': "list_all (storable ser_rec) rs" "storable ser_rec r'" by auto
  from append_steps_log [OF codec rs'(1) open_log] obtain wm bs where
    wm: "fold_res (append_step ser_rec crc) (wal_open None sync) rs = Inr wm" "wal_file wm = Some bs"
      "is_log crc de_rec rs bs" by auto
  define wm0 where "wm0 = wal_open (Some (bs @ take n (wal_frame crc payload))) sync"
  define wm' where "wm' = snd (read_all_records crc de_rec wm0)"
  note exact = read_frames_exact [OF wm(3) next_frame_torn [OF torn(2,3)]]
  have file': "wal_file wm' = Some bs"
    using exact by (auto simp: read_all_records_def wm0_def wm'_def wal_open_def)
  have "read_all_records crc de_rec wm0 = (rs, wm')"
    using exact by (auto simp: read_all_records_def wm0_def wm'_def wal_open_def)
  moreover obtain wm'' bs'' where "append_step ser_rec crc wm' r' = Inr wm''" "wal_file wm'' = Some bs''"
      "is_log crc de_rec (rs @ [r']) bs''"
    using append_step_log [OF codec rs'(2) file' wm(3)] by blast
  moreover have "fst (read_all_records crc de_rec wm'') = rs @ [r']"
    using calculation read_frames_exact [of crc de_rec "rs @ [r']" bs'' "[]"]
    by (simp add: read_all_records_def)
  ultimately show ?thesis using wm unfolding wm0_def by blast
qed

theorem wal_crash_safe_witness:
  "\<exists>wm bs wm'. fold_res (append_step toy_ser toy_crc) (wal_open None True) [toy_rec 1 2, toy_rec 2 3] = Inr wm \<and>
     wal_file wm = Some bs \<and>
     read_all_records toy_crc toy_de (wal_open (Some (bs @ take 20 (wal_frame toy_crc (u64_to_le_bytes 0 @ u64_to_le_bytes 0)))) True) =
       ([toy_rec 1 2, toy_rec 2 3], wm') \<and>
     (\<exists>wm''. append_step toy_ser toy_crc wm' (toy_rec 4 4) = Inr wm'' \<and>
        fst (read_all_records toy_crc toy_de wm'') = [toy_rec 1 2, toy_rec 2 3] @ [toy_rec 4 4])"
  by (rule wal_crash_safe [OF toy_codec, where r = "toy_rec 0 0"])
    (simp_all, simp_all add: toy_ser_def toy_rec_def wal_frame_def toy_change_def)

text \<open>The archive loses and reorders nothing: records archived in ascending version order, over
  however many segment files the size limit makes, are returned by \<^verbatim>\<open>read_archive_records\<close> in that
  order, exactly those above the requested version.\<close>

theorem archive_roundtrip:
  assumes codec: "rec_codec ser_rec de_rec" and rs: "list_all (storable ser_rec) rs"
    and asc: "sorted_keys wr_version rs"
  shows "\<exists>ar dir. fold_res (archive_step ser_rec crc) (archiver_with_segment_size [] limit, []) rs = Inr (ar, dir) \<and>
    read_archive_records crc de_rec dir v = filter (\<lambda>r. v < wr_version r) rs"
proof -
  have ok: "dir_ok crc de_rec []" "\<forall>n. segment_writer (archiver_with_segment_size [] limit) = Some n \<longrightarrow> is_wal_name n"
    by (simp_all add: dir_ok_def archiver_with_segment_size_def)
  from archive_steps_ok [OF codec rs ok] obtain ar dir where
    d: "fold_res (archive_step ser_rec crc) (archiver_with_segment_size [] limit, []) rs = Inr (ar, dir)"
      "mset (dir_records crc de_rec dir) = mset rs"
    by (auto simp: dir_records_def)
  let ?out = "read_archive_records crc de_rec dir v" and ?exp = "filter (\<lambda>r. v < wr_version r) rs"
  have m: "mset ?out = mset ?exp" by (simp add: read_archive_mset mset_filter d(2))
  have dist: "distinct (map wr_version rs)" "sorted (map wr_version rs)"
    using asc by (simp_all add: strict_sorted_iff)
  have exp: "sorted (map wr_version ?exp)" "distinct (map wr_version ?exp)"
    using dist by (auto simp: sorted_filter distinct_map_filter)
  have "mset (map wr_version ?out) = mset (map wr_version ?exp)" using m by (simp only: mset_map)
  then have "distinct (map wr_version ?out)" using exp(2) by (metis mset_eq_imp_distinct_iff)
  moreover have "sorted (map wr_version ?out)" by (simp add: read_archive_records_def Let_def)
  moreover have "inj_on wr_version (set ?out \<union> set ?exp)"
    using exp(2) mset_eq_setD [OF m] by (simp add: distinct_map)
  ultimately have "?out = ?exp"
    using exp mset_eq_setD [OF m] by (intro map_sorted_distinct_set_unique)
  with d(1) show ?thesis by blast
qed

theorem archive_roundtrip_witness:
  "\<exists>ar dir. fold_res (archive_step toy_ser toy_crc) (archiver_with_segment_size [] 30, [])
      [toy_rec 1 2, toy_rec 2 3, toy_rec 3 5] = Inr (ar, dir) \<and>
    read_archive_records toy_crc toy_de dir 2 = filter (\<lambda>r. 2 < wr_version r) [toy_rec 1 2, toy_rec 2 3, toy_rec 3 5]"
  by (rule archive_roundtrip [OF toy_codec]) (simp_all, simp_all add: toy_rec_def)

end
