(* ===== verification/Checkpoint_File.thy ===== *)
theory Checkpoint_File
  imports MV_Tree
begin

text \<open>
  The database file (\<^verbatim>\<open>chunk.rs\<close>, \<^verbatim>\<open>delta.rs\<close>, \<^verbatim>\<open>file_store.rs\<close>): full chunks and delta checkpoints appended
  after a 4096-byte header area that holds two header slots.  \<^verbatim>\<open>bincode\<close> and \<^verbatim>\<open>crc32fast\<close> are the
  parameters \<open>ser_chunk\<close>, \<open>de_chunk\<close>, \<open>ser_delta\<close>, \<open>de_delta\<close> and \<open>crc\<close>.  A \<open>disk\<close> holds the database file,
  the two files compaction uses, and a script that says which of the coming writes, syncs and renames
  fail; a failed write leaves a prefix of its bytes, so that the disk after a failure is also the disk a
  crash at that point leaves.  Reads do not fail.
\<close>

section \<open>Chunks (chunk.rs)\<close>

record chunk_meta =
  cm_id :: u32
  cm_version :: u64
  cm_page_count :: u32
  cm_data_size :: u64

record chunk_payload =
  cp_meta :: chunk_meta
  cp_root :: page

definition chunk_new :: "u32 \<Rightarrow> u64 \<Rightarrow> page \<Rightarrow> chunk_payload" where
  "chunk_new i v r =
     \<lparr>cp_meta = \<lparr>cm_id = i, cm_version = v, cm_page_count = 1, cm_data_size = 0\<rparr>, cp_root = r\<rparr>"

type_synonym 'a ser = "'a \<Rightarrow> bytes h2_result"
type_synonym 'a de = "bytes \<Rightarrow> 'a h2_result"
type_synonym crc32 = "bytes \<Rightarrow> u32"

definition chunk_serialize :: "chunk_payload ser \<Rightarrow> crc32 \<Rightarrow> chunk_payload \<Rightarrow> bytes h2_result" where
  "chunk_serialize ser_chunk crc c =
     res_bind (ser_chunk c) (\<lambda>serialized.
       Inr (u32_to_le_bytes (word_of_nat (length serialized)) @ serialized @ u32_to_le_bytes (crc serialized)))"

definition chunk_deserialize :: "chunk_payload de \<Rightarrow> crc32 \<Rightarrow> bytes \<Rightarrow> chunk_payload h2_result" where
  "chunk_deserialize de_chunk crc data =
     (if length data < 8 then Inl (Corrupted ''Chunk data too short'')
      else
        let len = unat (u32_from_le_bytes (take 4 data)) in
        if length data < 4 + len + 4 then Inl (Corrupted ''Chunk buffer size mismatch'')
        else
          let payload = take len (drop 4 data);
              expected = u32_from_le_bytes (take 4 (drop (4 + len) data)) in
          if expected \<noteq> crc payload then Inl (Corrupted ''CRC32 mismatch'') else de_chunk payload)"

section \<open>Deltas (delta.rs)\<close>

record map_delta =
  md_name :: string
  md_replace_root :: "bytes option"
  md_clear :: bool
  md_changes :: "(bytes \<times> bytes option) list"

record delta_payload =
  dp_version :: u64
  dp_previous_offset :: u64
  dp_previous_length :: u32
  dp_removed_maps :: "string list"
  dp_maps :: "map_delta list"

text \<open>\<^verbatim>\<open>b"H2D1"\<close>\<close>

definition DELTA_MAGIC :: bytes where
  "DELTA_MAGIC = [0x48, 0x32, 0x44, 0x31]"

definition is_delta :: "bytes \<Rightarrow> bool" where
  "is_delta data \<longleftrightarrow> prefix DELTA_MAGIC data"

definition delta_serialize :: "delta_payload ser \<Rightarrow> crc32 \<Rightarrow> delta_payload \<Rightarrow> bytes h2_result" where
  "delta_serialize ser_delta crc d =
     res_bind (ser_delta d) (\<lambda>payload.
       Inr (DELTA_MAGIC @ u32_to_le_bytes (word_of_nat (length payload)) @ payload @
            u32_to_le_bytes (crc payload)))"

definition delta_deserialize :: "delta_payload de \<Rightarrow> crc32 \<Rightarrow> bytes \<Rightarrow> delta_payload h2_result" where
  "delta_deserialize de_delta crc data =
     (if length data < 12 \<or> \<not> is_delta data then Inl (Corrupted ''Invalid delta checkpoint'')
      else
        let len = unat (u32_from_le_bytes (take 4 (drop 4 data))) in
        if length data \<noteq> len + 12 then Inl (Corrupted ''Delta checkpoint size mismatch'')
        else
          let payload = take len (drop 8 data);
              expected = u32_from_le_bytes (drop (8 + len) data) in
          if crc payload \<noteq> expected then Inl (Corrupted ''Delta checkpoint checksum mismatch'')
          else de_delta payload)"

section \<open>Headers (file\_store.rs)\<close>

text \<open>\<^verbatim>\<open>b"H2RS"\<close>\<close>

definition HEADER_MAGIC :: bytes where
  "HEADER_MAGIC = [0x48, 0x32, 0x52, 0x53]"

definition HEADER_SIZE :: nat where "HEADER_SIZE = 4096"
definition SHADOW_HEADER_OFFSET :: nat where "SHADOW_HEADER_OFFSET = 2048"
definition HEADER_RECORD_SIZE :: nat where "HEADER_RECORD_SIZE = 28"

record header =
  h_version :: u64
  h_last_chunk_offset :: u64
  h_last_chunk_length :: u32

definition header_fields :: "header \<Rightarrow> bytes" where
  "header_fields h = HEADER_MAGIC @ u64_to_le_bytes (h_version h) @
     u64_to_le_bytes (h_last_chunk_offset h) @ u32_to_le_bytes (h_last_chunk_length h)"

definition header_serialize :: "crc32 \<Rightarrow> header \<Rightarrow> bytes" where
  "header_serialize crc h =
     header_fields h @ u32_to_le_bytes (crc (header_fields h)) @ replicate (4096 - 28) 0"

definition header_deserialize :: "crc32 \<Rightarrow> bytes \<Rightarrow> header h2_result" where
  "header_deserialize crc buf =
     (if take 4 buf \<noteq> HEADER_MAGIC then Inl (Corrupted ''Invalid header magic bytes'')
      else if crc (take 24 buf) \<noteq> u32_from_le_bytes (take 4 (drop 24 buf))
      then Inl (Corrupted ''Header checksum mismatch'')
      else Inr \<lparr>h_version = u64_from_le_bytes (take 8 (drop 4 buf)),
                h_last_chunk_offset = u64_from_le_bytes (take 8 (drop 12 buf)),
                h_last_chunk_length = u32_from_le_bytes (take 4 (drop 20 buf))\<rparr>)"

section \<open>The disk\<close>

record disk =
  main_f :: "bytes option"
  tmp_f :: "bytes option"
  bak_f :: "bytes option"
  script :: "nat option list"

definition next_fault :: "disk \<Rightarrow> nat option \<times> disk" where
  "next_fault d = (case script d of [] \<Rightarrow> (None, d) | f # fs \<Rightarrow> (f, d\<lparr>script := fs\<rparr>))"

text \<open>Writing past the end extends a file with zero bytes.\<close>

definition write_at :: "bytes \<Rightarrow> nat \<Rightarrow> bytes \<Rightarrow> bytes" where
  "write_at f off buf =
     take off f @ replicate (off - length f) 0 @ buf @ drop (off + length buf) f"

definition content :: "bytes option \<Rightarrow> bytes" where
  "content f = (case f of None \<Rightarrow> [] | Some bs \<Rightarrow> bs)"

text \<open>The handle a write goes to: the database file or the temporary file of a compaction.\<close>

datatype handle = MainF | TmpF

definition file_of :: "handle \<Rightarrow> disk \<Rightarrow> bytes" where
  "file_of h d = (case h of MainF \<Rightarrow> content (main_f d) | TmpF \<Rightarrow> content (tmp_f d))"

definition set_file :: "handle \<Rightarrow> bytes \<Rightarrow> disk \<Rightarrow> disk" where
  "set_file h bs d = (case h of MainF \<Rightarrow> d\<lparr>main_f := Some bs\<rparr> | TmpF \<Rightarrow> d\<lparr>tmp_f := Some bs\<rparr>)"

definition disk_write :: "handle \<Rightarrow> nat \<Rightarrow> bytes \<Rightarrow> disk \<Rightarrow> unit h2_result \<times> disk" where
  "disk_write h off buf d =
     (case next_fault d of
        (None, d1) \<Rightarrow> (Inr (), set_file h (write_at (file_of h d1) off buf) d1)
      | (Some n, d1) \<Rightarrow> (Inl (Io ''write''), set_file h (write_at (file_of h d1) off (take n buf)) d1))"

definition disk_sync :: "disk \<Rightarrow> unit h2_result \<times> disk" where
  "disk_sync d = (case next_fault d of (None, d1) \<Rightarrow> (Inr (), d1) | (Some _, d1) \<Rightarrow> (Inl (Io ''sync''), d1))"

definition disk_open :: "disk \<Rightarrow> unit h2_result \<times> disk" where
  "disk_open d = (case next_fault d of (None, d1) \<Rightarrow> (Inr (), d1) | (Some _, d1) \<Rightarrow> (Inl (Io ''open''), d1))"

definition io_then :: "unit h2_result \<times> disk \<Rightarrow> (disk \<Rightarrow> 'a h2_result \<times> disk) \<Rightarrow> 'a h2_result \<times> disk" where
  "io_then m k = (case m of (Inl e, d) \<Rightarrow> (Inl e, d) | (Inr _, d) \<Rightarrow> k d)"

definition sync_if :: "bool \<Rightarrow> disk \<Rightarrow> unit h2_result \<times> disk" where
  "sync_if b d = (if b then disk_sync d else (Inr (), d))"

definition write_header_slots :: "crc32 \<Rightarrow> handle \<Rightarrow> header \<Rightarrow> bool \<Rightarrow> disk \<Rightarrow> unit h2_result \<times> disk" where
  "write_header_slots crc fh h sync d =
     (let bs = take HEADER_RECORD_SIZE (header_serialize crc h) in
      io_then (disk_write fh SHADOW_HEADER_OFFSET bs d) (\<lambda>d1.
      io_then (sync_if sync d1) (\<lambda>d2.
      io_then (disk_write fh 0 bs d2) (\<lambda>d3.
      sync_if sync d3))))"

section \<open>The file store\<close>

text \<open>\<open>fs_handle\<close> says whether the store has its file open; \<open>fs_on_disk\<close> whether it has a path.\<close>

record file_store =
  fs_on_disk :: bool
  fs_handle :: bool
  fs_header :: header
  fs_sync :: bool

definition header_zero :: header where
  "header_zero = \<lparr>h_version = 0, h_last_chunk_offset = 0, h_last_chunk_length = 0\<rparr>"

text \<open>Choosing between the primary and the shadow slot.\<close>

definition choose_header :: "header h2_result \<Rightarrow> header h2_result \<Rightarrow> header h2_result" where
  "choose_header primary shadow =
     (case (primary, shadow) of
        (Inr first, Inr second) \<Rightarrow> if h_version second > h_version first then Inr second else Inr first
      | (Inr first, Inl _) \<Rightarrow> Inr first
      | (Inl _, Inr second) \<Rightarrow> Inr second
      | (Inl e, Inl _) \<Rightarrow> Inl e)"

definition read_header :: "crc32 \<Rightarrow> bytes \<Rightarrow> header h2_result" where
  "read_header crc f =
     (let buf = take 4096 f;
          shadow_buf = take HEADER_RECORD_SIZE (drop SHADOW_HEADER_OFFSET buf) @
                       replicate (4096 - HEADER_RECORD_SIZE) 0 in
      choose_header (header_deserialize crc buf) (header_deserialize crc shadow_buf))"

definition restore_backup :: "disk \<Rightarrow> unit h2_result \<times> disk" where
  "restore_backup d =
     (if main_f d = None \<and> bak_f d \<noteq> None then
        (case next_fault d of
           (None, d1) \<Rightarrow> (Inr (), d1\<lparr>main_f := bak_f d1, bak_f := None\<rparr>)
         | (Some _, d1) \<Rightarrow> (Inl (Io ''rename''), d1))
      else (Inr (), d))"

definition fs_open :: "crc32 \<Rightarrow> bool \<Rightarrow> disk \<Rightarrow> file_store h2_result \<times> disk" where
  "fs_open crc sync d =
     io_then (restore_backup d) (\<lambda>d0.
     io_then (disk_open d0) (\<lambda>d1.
       let d2 = d1\<lparr>main_f := Some (content (main_f d1))\<rparr> in
       if main_f d1 = None \<or> length (content (main_f d2)) < HEADER_SIZE then
         io_then (disk_write MainF 0 (header_serialize crc header_zero) d2) (\<lambda>d3.
         io_then (disk_sync d3) (\<lambda>d4.
           (Inr \<lparr>fs_on_disk = True, fs_handle = True, fs_header = header_zero, fs_sync = sync\<rparr>, d4)))
       else
         (case read_header crc (content (main_f d2)) of
            Inl e \<Rightarrow> (Inl e, d2)
          | Inr h \<Rightarrow> (Inr \<lparr>fs_on_disk = True, fs_handle = True, fs_header = h, fs_sync = sync\<rparr>, d2))))"

definition fs_open_in_memory :: file_store where
  "fs_open_in_memory =
     \<lparr>fs_on_disk = False, fs_handle = False, fs_header = header_zero, fs_sync = False\<rparr>"

definition fs_is_in_memory :: "file_store \<Rightarrow> bool" where
  "fs_is_in_memory fs = (\<not> fs_handle fs)"

text \<open>Append the bytes of a checkpoint, then switch the header to it.\<close>

definition append_bytes ::
    "crc32 \<Rightarrow> file_store \<Rightarrow> u64 \<Rightarrow> bytes \<Rightarrow> disk \<Rightarrow> file_store h2_result \<times> disk" where
  "append_bytes crc fs version bs d =
     (let end_offset = length (file_of MainF d);
          new_header = \<lparr>h_version = version, h_last_chunk_offset = word_of_nat end_offset,
                        h_last_chunk_length = word_of_nat (length bs)\<rparr> in
      io_then (disk_write MainF end_offset bs d) (\<lambda>d1.
      io_then (sync_if (fs_sync fs) d1) (\<lambda>d2.
      io_then (write_header_slots crc MainF new_header (fs_sync fs) d2) (\<lambda>d3.
        (Inr (fs\<lparr>fs_header := new_header\<rparr>), d3)))))"

definition append_and_commit ::
    "chunk_payload ser \<Rightarrow> crc32 \<Rightarrow> file_store \<Rightarrow> chunk_payload \<Rightarrow> disk \<Rightarrow> file_store h2_result \<times> disk" where
  "append_and_commit ser_chunk crc fs chunk d =
     (if \<not> fs_handle fs
      then (Inr (fs\<lparr>fs_header := (fs_header fs)\<lparr>h_version := cm_version (cp_meta chunk)\<rparr>\<rparr>), d)
      else case chunk_serialize ser_chunk crc chunk of
             Inl e \<Rightarrow> (Inl e, d)
           | Inr bs \<Rightarrow> append_bytes crc fs (cm_version (cp_meta chunk)) bs d)"

definition append_delta_and_commit ::
    "delta_payload ser \<Rightarrow> crc32 \<Rightarrow> file_store \<Rightarrow> delta_payload \<Rightarrow> disk \<Rightarrow> file_store h2_result \<times> disk" where
  "append_delta_and_commit ser_delta crc fs delta d =
     (if \<not> fs_handle fs
      then (Inr (fs\<lparr>fs_header := (fs_header fs)\<lparr>h_version := dp_version delta\<rparr>\<rparr>), d)
      else
        let delta' = delta\<lparr>dp_previous_offset := h_last_chunk_offset (fs_header fs),
                           dp_previous_length := h_last_chunk_length (fs_header fs)\<rparr> in
        case delta_serialize ser_delta crc delta' of
          Inl e \<Rightarrow> (Inl e, d)
        | Inr bs \<Rightarrow> append_bytes crc fs (dp_version delta') bs d)"

text \<open>
  The loop of \<^verbatim>\<open>read_checkpoint_chain\<close>; the deltas are pushed newest first and reversed at the end.
\<close>

function chain_loop ::
    "chunk_payload de \<Rightarrow> delta_payload de \<Rightarrow> crc32 \<Rightarrow> bytes \<Rightarrow> u64 \<Rightarrow> u32 \<Rightarrow> u64 list \<Rightarrow> delta_payload list \<Rightarrow>
     (chunk_payload option \<times> delta_payload list) h2_result" where
  "chain_loop de_chunk de_delta crc f offset len visited deltas =
     (if len = 0 then Inr (None, rev deltas)
      else if offset \<in> set visited \<or> unat offset < HEADER_SIZE \<or>
              unat offset + unat len \<ge> 2 ^ 64 \<or> unat offset + unat len > length f
      then Inl (Corrupted ''Invalid checkpoint chain offset'')
      else
        let bs = take (unat len) (drop (unat offset) f) in
        if is_delta bs then
          (case delta_deserialize de_delta crc bs of
             Inl e \<Rightarrow> Inl e
           | Inr delta \<Rightarrow>
               chain_loop de_chunk de_delta crc f (dp_previous_offset delta) (dp_previous_length delta)
                 (offset # visited) (deltas @ [delta]))
        else
          (case chunk_deserialize de_chunk crc bs of
             Inl e \<Rightarrow> Inl e
           | Inr base \<Rightarrow> Inr (Some base, rev deltas)))"
  by pat_completeness auto
termination
proof (relation "measure (\<lambda>(a, b, c, f, offset, len, visited, deltas). card (- set visited))")
  fix de_chunk de_delta crc f and offset :: u64 and len :: u32 and visited :: "u64 list" and deltas bs delta
  assume "\<not> (offset \<in> set visited \<or> unat offset < HEADER_SIZE \<or>
              unat offset + unat len \<ge> 2 ^ 64 \<or> unat offset + unat len > length (f :: bytes))"
  then have "- set (offset # visited) \<subset> - set visited" by auto
  then have "card (- set (offset # visited)) < card (- set visited)" by (intro psubset_card_mono) auto
  then show "((de_chunk, de_delta, crc, f, dp_previous_offset delta, dp_previous_length delta,
       offset # visited, deltas @ [delta]), de_chunk, de_delta, crc, f, offset, len, visited, deltas)
       \<in> measure (\<lambda>(a, b, c, f, offset, len, visited, deltas). card (- set visited))" by simp
qed simp

declare chain_loop.simps [simp del]

definition read_checkpoint_chain ::
    "chunk_payload de \<Rightarrow> delta_payload de \<Rightarrow> crc32 \<Rightarrow> file_store \<Rightarrow> disk \<Rightarrow>
     (chunk_payload option \<times> delta_payload list) h2_result" where
  "read_checkpoint_chain de_chunk de_delta crc fs d =
     (if \<not> fs_handle fs then Inr (None, [])
      else chain_loop de_chunk de_delta crc (file_of MainF d)
             (h_last_chunk_offset (fs_header fs)) (h_last_chunk_length (fs_header fs)) [] [])"

definition read_last_chunk ::
    "chunk_payload de \<Rightarrow> crc32 \<Rightarrow> file_store \<Rightarrow> disk \<Rightarrow> chunk_payload option h2_result" where
  "read_last_chunk de_chunk crc fs d =
     (if \<not> fs_handle fs then Inr None
      else if h_last_chunk_offset (fs_header fs) = 0 \<and> h_last_chunk_length (fs_header fs) = 0 then Inr None
      else
        let off = unat (h_last_chunk_offset (fs_header fs));
            len = unat (h_last_chunk_length (fs_header fs)) in
        if off + len > length (file_of MainF d) then Inl (Io ''unexpected end of file'')
        else res_bind (chunk_deserialize de_chunk crc (take len (drop off (file_of MainF d)))) (\<lambda>c. Inr (Some c)))"

definition fs_set_sync_on_commit :: "file_store \<Rightarrow> bool \<Rightarrow> file_store" where
  "fs_set_sync_on_commit fs b = fs\<lparr>fs_sync := b\<rparr>"

definition fs_len :: "file_store \<Rightarrow> disk \<Rightarrow> nat" where
  "fs_len fs d = (if fs_handle fs then length (file_of MainF d) else 0)"

section \<open>Compaction\<close>

definition rename_main_bak :: "disk \<Rightarrow> bool \<times> disk" where
  "rename_main_bak d =
     (case next_fault d of
        (None, d1) \<Rightarrow> if main_f d1 = None then (False, d1) else (True, d1\<lparr>bak_f := main_f d1, main_f := None\<rparr>)
      | (Some _, d1) \<Rightarrow> (False, d1))"

definition rename_tmp_main :: "disk \<Rightarrow> bool \<times> disk" where
  "rename_tmp_main d =
     (case next_fault d of
        (None, d1) \<Rightarrow> if tmp_f d1 = None then (False, d1) else (True, d1\<lparr>main_f := tmp_f d1, tmp_f := None\<rparr>)
      | (Some _, d1) \<Rightarrow> (False, d1))"

definition rename_bak_main :: "disk \<Rightarrow> bool \<times> disk" where
  "rename_bak_main d =
     (case next_fault d of
        (None, d1) \<Rightarrow> if bak_f d1 = None then (False, d1) else (True, d1\<lparr>main_f := bak_f d1, bak_f := None\<rparr>)
      | (Some _, d1) \<Rightarrow> (False, d1))"

definition remove_bak :: "disk \<Rightarrow> disk" where
  "remove_bak d = (case next_fault d of (None, d1) \<Rightarrow> d1\<lparr>bak_f := None\<rparr> | (Some _, d1) \<Rightarrow> d1)"

fun replace_loop :: "nat \<Rightarrow> disk \<Rightarrow> bool \<times> disk" where
  "replace_loop 0 d = (False, d)"
| "replace_loop (Suc n) d =
     (case rename_main_bak d of
        (True, d1) \<Rightarrow>
          (case rename_tmp_main d1 of
             (True, d2) \<Rightarrow> (True, remove_bak d2)
           | (False, d2) \<Rightarrow> replace_loop n (snd (rename_bak_main d2)))
      | (False, d1) \<Rightarrow>
          (case rename_tmp_main d1 of
             (True, d2) \<Rightarrow> (True, d2)
           | (False, d2) \<Rightarrow> replace_loop n d2))"

text \<open>The result carries the store as well, since an error leaves it changed.\<close>

definition write_compacted ::
    "chunk_payload ser \<Rightarrow> crc32 \<Rightarrow> chunk_payload \<Rightarrow> disk \<Rightarrow> header h2_result \<times> disk" where
  "write_compacted ser_chunk crc payload d =
     (let v = cm_version (cp_meta payload);
          dummy = \<lparr>h_version = v, h_last_chunk_offset = 0, h_last_chunk_length = 0\<rparr> in
      io_then (disk_open d) (\<lambda>d0.
      io_then (disk_write TmpF 0 (header_serialize crc dummy) (d0\<lparr>tmp_f := Some []\<rparr>)) (\<lambda>d1.
        case chunk_serialize ser_chunk crc payload of
          Inl e \<Rightarrow> (Inl e, d1)
        | Inr bs \<Rightarrow>
            (let off = length (file_of TmpF d1);
                 final = \<lparr>h_version = v, h_last_chunk_offset = word_of_nat off,
                          h_last_chunk_length = word_of_nat (length bs)\<rparr> in
             io_then (disk_write TmpF off bs d1) (\<lambda>d2.
             io_then (disk_sync d2) (\<lambda>d3.
             io_then (write_header_slots crc TmpF final True d3) (\<lambda>d4. (Inr final, d4))))))))"

definition compact_and_rewrite ::
    "chunk_payload ser \<Rightarrow> crc32 \<Rightarrow> file_store \<Rightarrow> chunk_payload \<Rightarrow> disk \<Rightarrow> unit h2_result \<times> file_store \<times> disk" where
  "compact_and_rewrite ser_chunk crc fs payload d =
     (if \<not> fs_on_disk fs then (Inr (), fs, d)
      else
        case write_compacted ser_chunk crc payload d of
          (Inl e, d1) \<Rightarrow> (Inl e, fs, d1)
        | (Inr final, d1) \<Rightarrow>
            (let d2 = (if bak_f d1 \<noteq> None then remove_bak d1 else d1) in
             case replace_loop 10 d2 of
               (False, d3) \<Rightarrow>
                 (Inl (Storage ''Failed to replace storage file during compaction''),
                  fs\<lparr>fs_handle := False\<rparr>, d3)
             | (True, d3) \<Rightarrow>
                 (case disk_open d3 of
                    (Inl e, d4) \<Rightarrow> (Inl e, fs\<lparr>fs_handle := False\<rparr>, d4)
                  | (Inr _, d4) \<Rightarrow> (Inr (), fs\<lparr>fs_handle := True, fs_header := final\<rparr>, d4))))"

section \<open>Codecs\<close>

definition codec :: "'a ser \<Rightarrow> 'a de \<Rightarrow> bool" where
  "codec ser de \<longleftrightarrow> (\<forall>x bs. ser x = Inr bs \<longrightarrow> de bs = Inr x)"

lemma unat_u32_of_nat: "n < 2 ^ 32 \<Longrightarrow> unat (word_of_nat n :: u32) = n"
  by (simp add: unat_of_nat)

lemma chunk_roundtrip:
  assumes "codec ser_chunk de_chunk" "ser_chunk c = Inr p" "length p < 2 ^ 32"
    "chunk_serialize ser_chunk crc c = Inr bs"
  shows "chunk_deserialize de_chunk crc bs = Inr c"
  using assms unat_u32_of_nat [OF assms(3)]
  by (auto simp: chunk_serialize_def chunk_deserialize_def codec_def)

lemma length_DELTA_MAGIC [simp]: "length DELTA_MAGIC = 4"
  by (simp add: DELTA_MAGIC_def)

lemma delta_roundtrip:
  assumes "codec ser_delta de_delta" "ser_delta c = Inr p" "length p < 2 ^ 32"
    "delta_serialize ser_delta crc c = Inr bs"
  shows "delta_deserialize de_delta crc bs = Inr c" "is_delta bs"
  using assms unat_u32_of_nat [OF assms(3)]
  by (auto simp: delta_serialize_def delta_deserialize_def codec_def is_delta_def)

lemma length_header_fields [simp]: "length (header_fields h) = 24"
  by (simp add: header_fields_def HEADER_MAGIC_def)

definition header_record :: "crc32 \<Rightarrow> header \<Rightarrow> bytes" where
  "header_record crc h = header_fields h @ u32_to_le_bytes (crc (header_fields h))"

lemma length_header_record [simp]: "length (header_record crc h) = 28"
  by (simp add: header_record_def)

lemma header_serialize_record: "header_serialize crc h = header_record crc h @ replicate (4096 - 28) 0"
  by (simp add: header_serialize_def header_record_def)

lemma length_header_serialize [simp]: "length (header_serialize crc h) = 4096"
  by (simp add: header_serialize_record)

lemma take_header_serialize [simp]: "take HEADER_RECORD_SIZE (header_serialize crc h) = header_record crc h"
  by (simp add: header_serialize_record HEADER_RECORD_SIZE_def)

text \<open>Only the first 28 bytes of a slot matter.\<close>

lemma header_deserialize_28:
  "28 \<le> length buf \<Longrightarrow> header_deserialize crc buf = header_deserialize crc (take 28 buf)"
  by (simp add: header_deserialize_def drop_take min_def)

lemma header_roundtrip: "header_deserialize crc (header_record crc h @ t) = Inr h"
  by (simp add: header_deserialize_def header_record_def header_fields_def HEADER_MAGIC_def)

lemma header_record_deserialize [simp]: "header_deserialize crc (header_record crc h) = Inr h"
  using header_roundtrip [of crc h "[]"] by simp

section \<open>Slots\<close>

text \<open>The two header slots of a file.\<close>

definition primary_slot :: "bytes \<Rightarrow> bytes" where "primary_slot f = take 28 f"
definition shadow_slot :: "bytes \<Rightarrow> bytes" where "shadow_slot f = take 28 (drop 2048 f)"

lemma read_header_slots:
  assumes "4096 \<le> length f"
  shows "read_header crc f =
    choose_header (header_deserialize crc (primary_slot f)) (header_deserialize crc (shadow_slot f))"
proof -
  have "header_deserialize crc (take 4096 f) = header_deserialize crc (primary_slot f)"
    using header_deserialize_28 [of "take 4096 f" crc] assms by (simp add: primary_slot_def min_def)
  moreover have "take 28 (drop 2048 (take 4096 f)) = shadow_slot f"
    using assms by (simp add: shadow_slot_def drop_take min_def)
  moreover have "header_deserialize crc (shadow_slot f @ t) = header_deserialize crc (shadow_slot f)" for t
    using header_deserialize_28 [of "shadow_slot f @ t" crc] assms by (simp add: shadow_slot_def)
  ultimately show ?thesis
    by (simp add: read_header_def Let_def HEADER_RECORD_SIZE_def SHADOW_HEADER_OFFSET_def)
qed

text \<open>A slot after a write of which only \<open>n\<close> bytes arrived.\<close>

definition torn :: "nat \<Rightarrow> bytes \<Rightarrow> bytes \<Rightarrow> bytes" where
  "torn n old new = take n new @ drop n old"

lemma torn_full [simp]: "length new \<le> n \<Longrightarrow> length old = length new \<Longrightarrow> torn n old new = new"
  by (simp add: torn_def)

lemma write_primary:
  assumes "4096 \<le> length f" "length rec = 28"
  shows "primary_slot (write_at f 0 (take n rec)) = torn n (primary_slot f) rec"
    "shadow_slot (write_at f 0 (take n rec)) = shadow_slot f"
    "drop 4096 (write_at f 0 (take n rec)) = drop 4096 f"
    "length (write_at f 0 (take n rec)) = length f"
  using assms
  by (auto simp: write_at_def primary_slot_def shadow_slot_def torn_def min_def drop_take)

lemma write_shadow:
  assumes "4096 \<le> length f" "length rec = 28"
  shows "shadow_slot (write_at f 2048 (take n rec)) = torn n (shadow_slot f) rec"
    "primary_slot (write_at f 2048 (take n rec)) = primary_slot f"
    "drop 4096 (write_at f 2048 (take n rec)) = drop 4096 f"
    "length (write_at f 2048 (take n rec)) = length f"
  using assms
  by (auto simp: write_at_def primary_slot_def shadow_slot_def torn_def min_def drop_take add.commute)

lemma next_fault_files [simp]:
  "next_fault d = (r, d') \<Longrightarrow> main_f d' = main_f d"
  "next_fault d = (r, d') \<Longrightarrow> tmp_f d' = tmp_f d"
  "next_fault d = (r, d') \<Longrightarrow> bak_f d' = bak_f d"
  by (auto simp: next_fault_def split: list.splits)

lemma file_of_set [simp]: "file_of h (set_file h bs d) = bs"
  by (cases h) (simp_all add: file_of_def set_file_def content_def)

text \<open>The outcome of a write: what arrived, and that success means everything arrived.\<close>

lemma disk_write_cases:
  assumes "disk_write h off buf d = (r, d')"
  obtains n where "file_of h d' = write_at (file_of h d) off (take n buf)" "r = Inr () \<longrightarrow> take n buf = buf"
    "h = MainF \<longrightarrow> tmp_f d' = tmp_f d" "h = TmpF \<longrightarrow> main_f d' = main_f d" "bak_f d' = bak_f d"
proof -
  obtain fl d1 where nf: "next_fault d = (fl, d1)" by force
  from nf have "file_of h d1 = file_of h d" by (cases h) (simp_all add: file_of_def)
  with assms nf that [of "case fl of None \<Rightarrow> length buf | Some n \<Rightarrow> n"] show thesis
    by (cases h; cases fl) (auto simp: disk_write_def set_file_def file_of_def content_def)
qed

lemma sync_if_files:
  assumes "sync_if b d = (r, d')"
  shows "main_f d' = main_f d" "tmp_f d' = tmp_f d" "bak_f d' = bak_f d" "file_of h d' = file_of h d"
  using assms
  by (cases h; auto simp: sync_if_def disk_sync_def file_of_def split: if_splits prod.splits option.splits)+

text \<open>
  Every way the two-slot update can end: \<open>slots_after\<close> lists the slots and whether it reported success.
\<close>

inductive slots_after :: "bytes \<Rightarrow> bytes \<Rightarrow> bytes \<Rightarrow> bytes \<Rightarrow> bytes \<Rightarrow> bool \<Rightarrow> bool" for p sh new where
  torn_shadow: "slots_after p sh new p (torn n sh new) False"
| torn_primary: "slots_after p sh new (torn n p new) new False"
| both_new: "slots_after p sh new new new b"

lemma write_header_slots_outcome:
  assumes f: "4096 \<le> length (file_of fh d)"
    and w: "write_header_slots crc fh h sync d = (r, d')"
  shows "length (file_of fh d') = length (file_of fh d) \<and> drop 4096 (file_of fh d') = drop 4096 (file_of fh d) \<and>
    slots_after (primary_slot (file_of fh d)) (shadow_slot (file_of fh d)) (header_record crc h)
      (primary_slot (file_of fh d')) (shadow_slot (file_of fh d')) (r = Inr ())"
proof -
  let ?new = "header_record crc h" and ?f = "file_of fh d"
  have len: "length ?new = 28" by simp
  obtain r1 d1 where 1: "disk_write fh SHADOW_HEADER_OFFSET ?new d = (r1, d1)" by force
  obtain n where n: "file_of fh d1 = write_at ?f 2048 (take n ?new)" "r1 = Inr () \<longrightarrow> take n ?new = ?new"
    using disk_write_cases [OF 1] by (auto simp: SHADOW_HEADER_OFFSET_def)
  note s1 = write_shadow [OF f len, of n, folded n(1)]
  show ?thesis
  proof (cases r1)
    case (Inl e)
    with w 1 have "d' = d1" "r \<noteq> Inr ()" by (auto simp: write_header_slots_def Let_def io_then_def)
    with s1 torn_shadow [of "primary_slot ?f" "shadow_slot ?f" ?new n] show ?thesis by auto
  next
    case (Inr u)
    with n(2) have "take n ?new = ?new" by simp
    then have tn: "torn n (shadow_slot ?f) ?new = ?new"
      using f by (auto simp: torn_def shadow_slot_def take_all_iff)
    obtain r2 d2 where 2: "sync_if sync d1 = (r2, d2)" by force
    note f2 = sync_if_files(4) [OF 2, of fh]
    show ?thesis
    proof (cases r2)
      case (Inl e)
      with w 1 2 \<open>r1 = Inr u\<close> have "d' = d2" "r \<noteq> Inr ()"
        by (auto simp: write_header_slots_def Let_def io_then_def)
      with s1 tn f2 torn_primary [of "primary_slot ?f" "shadow_slot ?f" ?new 0] show ?thesis
        by (auto simp: torn_def)
    next
      case (Inr u2)
      obtain r3 d3 where 3: "disk_write fh 0 ?new d2 = (r3, d3)" by force
      obtain m where m: "file_of fh d3 = write_at (file_of fh d2) 0 (take m ?new)"
          "r3 = Inr () \<longrightarrow> take m ?new = ?new"
        using disk_write_cases [OF 3] by auto
      have len2: "4096 \<le> length (file_of fh d2)" using f2 s1 f by simp
      note s3 = write_primary [OF len2 len, of m, folded m(1)]
      show ?thesis
      proof (cases r3)
        case (Inl e)
        with w 1 2 3 \<open>r1 = Inr u\<close> \<open>r2 = Inr u2\<close> have "d' = d3" "r \<noteq> Inr ()"
          by (auto simp: write_header_slots_def Let_def io_then_def)
        with s1 s3 tn f2 torn_primary [of "primary_slot ?f" "shadow_slot ?f" ?new m] show ?thesis by auto
      next
        case (Inr u3)
        with m(2) have "take m ?new = ?new" by simp
        then have "torn m (primary_slot ?f) ?new = ?new"
          using f by (auto simp: torn_def primary_slot_def take_all_iff)
        moreover have "sync_if sync d3 = (r, d')"
          using w 1 2 3 \<open>r1 = Inr u\<close> \<open>r2 = Inr u2\<close> Inr by (simp add: write_header_slots_def Let_def io_then_def)
        ultimately show ?thesis
          using s1 s3 tn f2 sync_if_files(4) [of sync d3 r d' fh]
            both_new [of "primary_slot ?f" "shadow_slot ?f" ?new "r = Inr ()"] by simp
      qed
    qed
  qed
qed

section \<open>Crashes during a checkpoint\<close>

text \<open>
  A file whose current header is in the primary slot: the shadow slot is not newer.  New files,
  completed checkpoints and compactions leave such files, and so does a crash before the shadow slot
  is complete; a crash after that and before the primary slot is complete does not.
\<close>

definition clean :: "crc32 \<Rightarrow> header \<Rightarrow> bytes \<Rightarrow> bool" where
  "clean crc h f \<longleftrightarrow> 4096 \<le> length f \<and> header_deserialize crc (primary_slot f) = Inr h \<and>
     (case header_deserialize crc (shadow_slot f) of Inl _ \<Rightarrow> True | Inr h' \<Rightarrow> h_version h' \<le> h_version h)"

text \<open>What is relied on of the checksum: a half-written slot is never taken for a third header.\<close>

definition torn_detected :: "crc32 \<Rightarrow> bytes \<Rightarrow> header \<Rightarrow> bool" where
  "torn_detected crc old new \<longleftrightarrow>
     list_all (\<lambda>n. case header_deserialize crc (torn n old (header_record crc new)) of
             Inl _ \<Rightarrow> True
           | Inr h \<Rightarrow> h = new \<or> header_deserialize crc old = Inr h) [0..<29]"

lemma torn_detectedD:
  assumes "torn_detected crc old new" "length old = 28"
    "header_deserialize crc (torn n old (header_record crc new)) = Inr h"
  shows "h = new \<or> header_deserialize crc old = Inr h"
proof (cases "n \<le> 28")
  case True
  then have "n \<in> set [0..<29]" by simp
  with assms(1,3) show ?thesis unfolding torn_detected_def list_all_iff by fastforce
next
  case False
  with assms(2,3) show ?thesis by simp
qed

lemma clean_after:
  assumes "slots_after p sh (header_record crc new) (primary_slot f) (shadow_slot f) True" "4096 \<le> length f"
  shows "clean crc new f"
  using assms by cases (simp_all add: clean_def)

lemma clean_lengths:
  "clean crc h f \<Longrightarrow> length (primary_slot f) = 28" "clean crc h f \<Longrightarrow> length (shadow_slot f) = 28"
  by (auto simp: clean_def primary_slot_def shadow_slot_def)

lemma slots_after_header:
  assumes "slots_after (primary_slot f) (shadow_slot f) (header_record crc new) p' sh' ok"
    and "clean crc h f" "torn_detected crc (primary_slot f) new" "torn_detected crc (shadow_slot f) new"
  shows "choose_header (header_deserialize crc p') (header_deserialize crc sh') \<in> {Inr h, Inr new} \<and>
    (ok \<longrightarrow> choose_header (header_deserialize crc p') (header_deserialize crc sh') = Inr new)"
  using assms(1)
proof cases
  case (torn_shadow n)
  with assms(2) torn_detectedD [OF assms(4) clean_lengths(2) [OF assms(2)], of n] show ?thesis
    by (auto simp: clean_def choose_header_def split: sum.splits)
next
  case (torn_primary n)
  with assms(2) torn_detectedD [OF assms(3) clean_lengths(1) [OF assms(2)], of n] show ?thesis
    by (auto simp: clean_def choose_header_def split: sum.splits)
next
  case both_new
  then show ?thesis by (simp add: choose_header_def)
qed

lemma write_at_end [simp]: "write_at f (length f) b = f @ b"
  by (simp add: write_at_def)

abbreviation next_header :: "u64 \<Rightarrow> bytes \<Rightarrow> bytes \<Rightarrow> header" where
  "next_header v bs f \<equiv> \<lparr>h_version = v, h_last_chunk_offset = word_of_nat (length f),
                         h_last_chunk_length = word_of_nat (length bs)\<rparr>"

lemma append_bytes_outcome:
  fixes d :: disk and f
  defines "f \<equiv> file_of MainF d"
  assumes len: "4096 \<le> length f" and run: "append_bytes crc fs v bs d = (r, d')"
  shows "\<exists>n. drop 4096 (file_of MainF d') = drop 4096 f @ take n bs \<and>
    length (file_of MainF d') = length f + length (take n bs) \<and>
    slots_after (primary_slot f) (shadow_slot f) (header_record crc (next_header v bs f))
      (primary_slot (file_of MainF d')) (shadow_slot (file_of MainF d')) (\<exists>fs'. r = Inr fs') \<and>
    (take n bs = bs \<or> primary_slot (file_of MainF d') = primary_slot f \<and>
                      shadow_slot (file_of MainF d') = shadow_slot f) \<and>
    (\<forall>fs'. r = Inr fs' \<longrightarrow> take n bs = bs \<and> fs' = fs\<lparr>fs_header := next_header v bs f\<rparr>)"
proof -
  let ?new = "header_record crc (next_header v bs f)"
  obtain r1 d1 where 1: "disk_write MainF (length f) bs d = (r1, d1)" by force
  obtain n where n: "file_of MainF d1 = f @ take n bs" "r1 = Inr () \<longrightarrow> take n bs = bs"
    using disk_write_cases [OF 1] by (auto simp: f_def [symmetric])
  have slots: "primary_slot (f @ t) = primary_slot f" "shadow_slot (f @ t) = shadow_slot f" for t
    using len by (simp_all add: primary_slot_def shadow_slot_def)
  have unchanged: "slots_after (primary_slot f) (shadow_slot f) ?new (primary_slot f) (shadow_slot f) False"
    using torn_shadow [of "primary_slot f" "shadow_slot f" ?new 0] by (simp add: torn_def)
  obtain r2 d2 where 2: "sync_if (fs_sync fs) d1 = (r2, d2)" by force
  note f2 = sync_if_files(4) [OF 2, of MainF]
  show ?thesis
  proof (cases "r1 = Inr () \<and> r2 = Inr ()")
    case False
    then have "(\<exists>e. r = Inl e) \<and> file_of MainF d' = f @ take n bs"
      using run 1 2 n f2
      by (cases r1; cases r2) (auto simp: append_bytes_def Let_def io_then_def f_def [symmetric])
    with len slots unchanged show ?thesis by (intro exI [of _ n]) auto
  next
    case True
    obtain r3 d3 where 3: "write_header_slots crc MainF (next_header v bs f) (fs_sync fs) d2 = (r3, d3)" by force
    have d': "d' = d3" "r = (case r3 of Inl e \<Rightarrow> Inl e | Inr _ \<Rightarrow> Inr (fs\<lparr>fs_header := next_header v bs f\<rparr>))"
      using run 1 2 3 True
      by (auto simp: append_bytes_def Let_def io_then_def f_def [symmetric] split: sum.splits)
    then have ok: "(\<exists>fs'. r = Inr fs') \<longleftrightarrow> r3 = Inr ()" by (auto split: sum.splits)
    have len2: "4096 \<le> length (file_of MainF d2)" using f2 n(1) len by simp
    from write_header_slots_outcome [OF len2 3] f2 n True len slots d' ok show ?thesis
      by (intro exI [of _ n]) (auto split: sum.splits)
  qed
qed

section \<open>Chains\<close>

text \<open>Reading a chain looks only at bytes behind the header area and inside the old file.\<close>

lemma drop_take_extend:
  assumes "drop 4096 f' = drop 4096 f @ t" "4096 \<le> off" "off + len \<le> length f"
  shows "take len (drop off f') = take len (drop off f)"
proof -
  have "drop off f' = drop (off - 4096) (drop 4096 f')" "drop off f = drop (off - 4096) (drop 4096 f)"
    using assms(2) by simp_all
  then have "take len (drop off f') = take len (drop (off - 4096) (drop 4096 f @ t))"
    using assms(1) by simp
  also have "\<dots> = take len (drop (off - 4096) (drop 4096 f))" using assms(2,3) by simp
  also have "\<dots> = take len (drop off f)" using assms(2) by simp
  finally show ?thesis .
qed

lemma chain_loop_extend:
  assumes "chain_loop de_chunk de_delta crc f off len vis ds = Inr (b, l)"
    and "drop 4096 f' = drop 4096 f @ t" "length f' = length f + length t"
    and "set vis' \<subseteq> set vis \<union> {x. length f \<le> unat x}"
  shows "chain_loop de_chunk de_delta crc f' off len vis' (ds0 @ ds) = Inr (b, l @ rev ds0)"
  using assms
proof (induction de_chunk de_delta crc f off len vis ds arbitrary: vis' rule: chain_loop.induct)
  case (1 de_chunk de_delta crc f off len vis ds)
  note eq = chain_loop.simps [of de_chunk de_delta crc f off len vis ds]
  show ?case
  proof (cases "len = 0")
    case True
    with "1.prems"(1) [unfolded eq] show ?thesis by (subst chain_loop.simps) simp
  next
    case False
    with "1.prems"(1) have ok: "off \<notin> set vis" "4096 \<le> unat off" "unat off + unat len < 2 ^ 64"
        "unat off + unat len \<le> length f"
      by (auto simp: eq HEADER_SIZE_def split: if_splits)
    let ?bs = "take (unat len) (drop (unat off) f)"
    have bs: "take (unat len) (drop (unat off) f') = ?bs"
      by (rule drop_take_extend [OF "1.prems"(2) ok(2,4)])
    have "0 < unat len" using False by (simp add: unat_gt_0)
    with ok "1.prems"(4) have nv: "off \<notin> set vis'" by auto
    have guard: "\<not> (off \<in> set vis \<or> unat off < HEADER_SIZE \<or> unat off + unat len \<ge> 2 ^ 64 \<or>
        unat off + unat len > length f)" using ok by (simp add: HEADER_SIZE_def)
    have guard': "\<not> (off \<in> set vis' \<or> unat off < HEADER_SIZE \<or> unat off + unat len \<ge> 2 ^ 64 \<or>
        unat off + unat len > length f')" using ok nv "1.prems"(3) by (simp add: HEADER_SIZE_def)
    show ?thesis
    proof (cases "is_delta ?bs")
      case True
      with "1.prems"(1) False guard obtain dl where dl: "delta_deserialize de_delta crc ?bs = Inr dl"
        by (auto simp: eq Let_def split: if_splits sum.splits)
      have step: "chain_loop de_chunk de_delta crc f (dp_previous_offset dl) (dp_previous_length dl)
          (off # vis) (ds @ [dl]) = Inr (b, l)"
        using "1.prems"(1) False guard True dl by (simp add: eq Let_def)
      have "set (off # vis') \<subseteq> set (off # vis) \<union> {x. length f \<le> unat x}" using "1.prems"(4) by auto
      from "1.IH" [OF False guard refl True dl step "1.prems"(2,3) this]
      show ?thesis
        using False guard' True dl by (subst chain_loop.simps) (simp add: bs Let_def)
    next
      case nd: False
      with "1.prems"(1) False guard show ?thesis
        using guard' by (subst chain_loop.simps) (auto simp: eq bs Let_def split: sum.splits)
    qed
  qed
qed

section \<open>Reopening\<close>

abbreviation reopened :: "header \<Rightarrow> bool \<Rightarrow> file_store" where
  "reopened h sync \<equiv> \<lparr>fs_on_disk = True, fs_handle = True, fs_header = h, fs_sync = sync\<rparr>"

lemma fs_open_existing:
  assumes "main_f d = Some f" "4096 \<le> length f" "read_header crc f = Inr h" "script d = []"
  shows "fs_open crc sync d = (Inr (reopened h sync), d)"
  using assms
  by (cases d) (simp add: fs_open_def restore_backup_def disk_open_def next_fault_def io_then_def content_def HEADER_SIZE_def)

definition extends :: "bytes \<Rightarrow> bytes \<Rightarrow> bytes \<Rightarrow> bool" where
  "extends f' f t \<longleftrightarrow> drop 4096 f' = drop 4096 f @ t \<and> length f' = length f + length t"

lemma append_reopen:
  fixes d :: disk and f
  defines "f \<equiv> file_of MainF d"
  assumes cl: "clean crc (fs_header fs) f" and run: "append_bytes crc fs v bs d = (r, d')"
    and det: "torn_detected crc (primary_slot f) (next_header v bs f)"
      "torn_detected crc (shadow_slot f) (next_header v bs f)"
  shows "\<exists>h. fs_open crc sync (d'\<lparr>script := []\<rparr>) = (Inr (reopened h sync), d'\<lparr>script := []\<rparr>) \<and>
    (h = fs_header fs \<and> (\<exists>t. extends (file_of MainF d') f t) \<and> (\<forall>fs'. r \<noteq> Inr fs') \<or>
     h = next_header v bs f \<and> extends (file_of MainF d') f bs)"
proof -
  have len: "4096 \<le> length f" using cl by (simp add: clean_def)
  let ?f' = "file_of MainF d'"
  obtain n where n: "drop 4096 ?f' = drop 4096 f @ take n bs" "length ?f' = length f + length (take n bs)"
    and sl: "slots_after (primary_slot f) (shadow_slot f) (header_record crc (next_header v bs f))
      (primary_slot ?f') (shadow_slot ?f') (\<exists>fs'. r = Inr fs')"
    and tk: "take n bs = bs \<or> primary_slot ?f' = primary_slot f \<and> shadow_slot ?f' = shadow_slot f"
    and ok: "\<forall>fs'. r = Inr fs' \<longrightarrow> take n bs = bs"
    using append_bytes_outcome [of d crc fs v bs r d'] run len unfolding f_def by blast
  have len': "4096 \<le> length ?f'" using n(2) len by simp
  then obtain g where g: "main_f d' = Some g" "?f' = g"
    by (cases "main_f d'") (auto simp: file_of_def content_def)
  have rh: "read_header crc ?f' \<in> {Inr (fs_header fs), Inr (next_header v bs f)} \<and>
      ((\<exists>fs'. r = Inr fs') \<longrightarrow> read_header crc ?f' = Inr (next_header v bs f))"
    using slots_after_header [OF sl cl det] read_header_slots [OF len'] by simp
  have unch: "take n bs \<noteq> bs \<Longrightarrow> read_header crc ?f' = Inr (fs_header fs)"
    using tk read_header_slots [OF len'] cl by (auto simp: clean_def choose_header_def split: sum.splits)
  have op: "fs_open crc sync (d'\<lparr>script := []\<rparr>) = (Inr (reopened h sync), d'\<lparr>script := []\<rparr>)"
    if "read_header crc ?f' = Inr h" for h
    using fs_open_existing [of "d'\<lparr>script := []\<rparr>" g crc h sync] that g len' by simp
  show ?thesis
  proof (cases "read_header crc ?f' = Inr (fs_header fs) \<and> (\<forall>fs'. r \<noteq> Inr fs')")
    case True
    then have *: "read_header crc ?f' = Inr (fs_header fs)" by simp
    from True op [OF *] n show ?thesis by (auto simp: extends_def)
  next
    case False
    with rh have *: "read_header crc ?f' = Inr (next_header v bs f)" by auto
    from False unch ok have "take n bs = bs" by blast
    with op [OF *] n show ?thesis by (auto simp: extends_def)
  qed
qed

text \<open>The chain a reopened store reads, for both outcomes.\<close>

lemma chain_old:
  assumes "read_checkpoint_chain de_chunk de_delta crc fs d = Inr (b, l)" "fs_handle fs"
    and "extends (file_of MainF d') (file_of MainF d) t"
  shows "read_checkpoint_chain de_chunk de_delta crc (reopened (fs_header fs) sync) d' = Inr (b, l)"
  using assms chain_loop_extend [of de_chunk de_delta crc "file_of MainF d" _ _ "[]" "[]" b l
      "file_of MainF d'" t "[]" "[]"]
  by (simp add: read_checkpoint_chain_def extends_def)

lemma extends_region:
  assumes "extends f' f bs" "4096 \<le> length f"
  shows "take (length bs) (drop (length f) f') = bs" "length f' = length f + length bs"
proof -
  have "drop (length f) f' = drop (length f - 4096) (drop 4096 f')" using assms(2) by simp
  also have "\<dots> = bs" using assms by (simp add: extends_def)
  finally show "take (length bs) (drop (length f) f') = bs" by simp
qed (use assms in \<open>simp add: extends_def\<close>)

text \<open>The bounds under which offsets and lengths fit their fields.\<close>

definition fits :: "bytes \<Rightarrow> bytes \<Rightarrow> bool" where
  "fits f bs \<longleftrightarrow> 0 < length bs \<and> length bs < 2 ^ 32 \<and> length f + length bs < 2 ^ 64"

lemma fits_unat:
  assumes "fits f bs"
  shows "unat (word_of_nat (length f) :: u64) = length f" "unat (word_of_nat (length bs) :: u32) = length bs"
    "(word_of_nat (length bs) :: u32) \<noteq> 0"
proof -
  show 1: "unat (word_of_nat (length f) :: u64) = length f" "unat (word_of_nat (length bs) :: u32) = length bs"
    using assms by (simp_all add: fits_def unat_of_nat)
  from 1(2) assms show "(word_of_nat (length bs) :: u32) \<noteq> 0" unfolding fits_def by (metis less_irrefl unat_0)
qed

lemma chain_new:
  assumes "extends (file_of MainF d') (file_of MainF d) bs" "4096 \<le> length (file_of MainF d)"
    and "fits (file_of MainF d) bs"
  shows "read_checkpoint_chain de_chunk de_delta crc (reopened (next_header v bs (file_of MainF d)) sync) d' =
     (if is_delta bs then
        (case delta_deserialize de_delta crc bs of
           Inl e \<Rightarrow> Inl e
         | Inr dl \<Rightarrow> chain_loop de_chunk de_delta crc (file_of MainF d') (dp_previous_offset dl)
             (dp_previous_length dl) [word_of_nat (length (file_of MainF d))] [dl])
      else res_bind (chunk_deserialize de_chunk crc bs) (\<lambda>base. Inr (Some base, [])))"
  unfolding read_checkpoint_chain_def using assms(3) fits_unat [OF assms(3)] extends_region [OF assms(1,2)] assms(2)
  by (subst chain_loop.simps) (auto simp: fits_def HEADER_SIZE_def Let_def split: sum.splits)

section \<open>Compaction\<close>

lemma disk_open_files:
  "disk_open d = (r, d') \<Longrightarrow> main_f d' = main_f d" "disk_open d = (r, d') \<Longrightarrow> bak_f d' = bak_f d"
  "disk_open d = (r, d') \<Longrightarrow> tmp_f d' = tmp_f d"
  by (auto simp: disk_open_def split: prod.splits option.splits)

lemma disk_write_other:
  assumes "disk_write TmpF off buf d = (r, d')"
  shows "main_f d' = main_f d" "bak_f d' = bak_f d"
  using disk_write_cases [OF assms] by auto

lemma io_then_other:
  assumes "io_then m k = (r, d')" "main_f (snd m) = M \<and> bak_f (snd m) = B"
    "\<And>d. main_f d = M \<and> bak_f d = B \<Longrightarrow> main_f (snd (k d)) = M \<and> bak_f (snd (k d)) = B"
  shows "main_f d' = M \<and> bak_f d' = B"
  using assms(1,2) assms(3) [of "snd m"] by (cases m) (auto simp: io_then_def split: sum.splits)

lemma tmp_ops_other:
  "main_f d = M \<and> bak_f d = B \<Longrightarrow> main_f (snd (disk_write TmpF off buf d)) = M \<and> bak_f (snd (disk_write TmpF off buf d)) = B"
  "main_f d = M \<and> bak_f d = B \<Longrightarrow> main_f (snd (sync_if b d)) = M \<and> bak_f (snd (sync_if b d)) = B"
  "main_f d = M \<and> bak_f d = B \<Longrightarrow> main_f (snd (disk_sync d)) = M \<and> bak_f (snd (disk_sync d)) = B"
  "main_f d = M \<and> bak_f d = B \<Longrightarrow> main_f (snd (disk_open d)) = M \<and> bak_f (snd (disk_open d)) = B"
  using disk_write_other [of off buf d, OF prod.collapse [symmetric]]
    sync_if_files [of b d, OF prod.collapse [symmetric]] sync_if_files [of True d, OF prod.collapse [symmetric]]
    disk_open_files [of d, OF prod.collapse [symmetric]]
  by (auto simp: sync_if_def)

lemma write_header_slots_other:
  "main_f d = M \<and> bak_f d = B \<Longrightarrow>
   main_f (snd (write_header_slots crc TmpF h b d)) = M \<and> bak_f (snd (write_header_slots crc TmpF h b d)) = B"
  unfolding write_header_slots_def Let_def
  by (rule io_then_other [OF prod.collapse [symmetric]] tmp_ops_other | assumption)+

text \<open>Writing the compacted copy leaves the database and its backup alone.\<close>

lemma write_compacted_other:
  assumes "write_compacted ser_chunk crc payload d = (r, d')"
  shows "main_f d' = main_f d \<and> bak_f d' = bak_f d"
proof -
  have "main_f (snd (write_compacted ser_chunk crc payload d)) = main_f d \<and>
    bak_f (snd (write_compacted ser_chunk crc payload d)) = bak_f d"
    by (cases "chunk_serialize ser_chunk crc payload"; simp only: write_compacted_def Let_def sum.case)
      (rule io_then_other [OF prod.collapse [symmetric]] tmp_ops_other write_header_slots_other | simp)+
  with assms show ?thesis by simp
qed

text \<open>While files are swapped the old database is in one of two places, until the new one is in place.\<close>

definition old_kept :: "bytes \<Rightarrow> bytes \<Rightarrow> disk \<Rightarrow> bool" where
  "old_kept f g d \<longleftrightarrow> tmp_f d = Some g \<and> (main_f d = Some f \<or> main_f d = None \<and> bak_f d = Some f)"

lemma rename_steps:
  "old_kept f g d \<Longrightarrow> rename_main_bak d = (b, d') \<Longrightarrow> old_kept f g d'"
  "old_kept f g d \<Longrightarrow> rename_tmp_main d = (False, d') \<Longrightarrow> old_kept f g d'"
  "old_kept f g d \<Longrightarrow> rename_tmp_main d = (True, d') \<Longrightarrow> main_f d' = Some g"
  "old_kept f g d \<Longrightarrow> main_f d = None \<Longrightarrow> rename_bak_main d = (b, d') \<Longrightarrow> old_kept f g d'"
  "rename_main_bak d = (True, d') \<Longrightarrow> main_f d' = None"
  "rename_tmp_main d = (False, d') \<Longrightarrow> main_f d' = main_f d"
  "main_f (remove_bak d) = main_f d"
  by (auto simp: old_kept_def rename_main_bak_def rename_tmp_main_def rename_bak_main_def remove_bak_def
      split: prod.splits option.splits if_splits)

lemma replace_loop_keeps:
  assumes "old_kept f g d" "replace_loop n d = (ok, d')"
  shows "if ok then main_f d' = Some g else old_kept f g d'"
  using assms
proof (induction n d rule: replace_loop.induct)
  case (2 n d)
  obtain b1 d1 where 1: "rename_main_bak d = (b1, d1)" by force
  obtain b2 d2 where d2: "rename_tmp_main d1 = (b2, d2)" by force
  obtain b3 d3 where d3: "rename_bak_main d2 = (b3, d3)" by force
  note k1 = rename_steps(1) [OF "2.prems"(1) 1]
  show ?case
  proof (cases b2)
    case True
    with "2.prems"(2) 1 d2 rename_steps(3) [OF k1] rename_steps(7) [of d2] show ?thesis
      by (cases b1) auto
  next
    case False
    with d2 k1 have k2: "old_kept f g d2" "main_f d2 = main_f d1" by (auto dest: rename_steps(2,6))
    show ?thesis
    proof (cases b1)
      case True
      with 1 k2 have "main_f d2 = None" by (auto dest: rename_steps(5))
      from rename_steps(4) [OF k2(1) this d3] "2.IH"(1) "2.prems"(2) 1 d2 d3 True False
      show ?thesis by auto
    next
      case b1: False
      with k2 "2.IH"(2) "2.prems"(2) 1 d2 False show ?thesis by auto
    qed
  qed
qed (simp add: old_kept_def)

lemma replace_loop_all_fail:
  "script d = replicate (2 * n) (Some k) @ rest \<Longrightarrow> \<exists>d'. replace_loop n d = (False, d')"
  by (induction n arbitrary: d)
    (auto simp: rename_main_bak_def rename_tmp_main_def next_fault_def)

text \<open>The compacted copy is a complete database file.\<close>

lemma next_slots_new:
  assumes "4096 \<le> length (file_of fh d)" "write_header_slots crc fh h sync d = (Inr (), d')"
  shows "length (file_of fh d') = length (file_of fh d)" "drop 4096 (file_of fh d') = drop 4096 (file_of fh d)"
    "clean crc h (file_of fh d')"
proof -
  note o = write_header_slots_outcome [OF assms]
  then have "primary_slot (file_of fh d') = header_record crc h" "shadow_slot (file_of fh d') = header_record crc h"
    by (auto elim: slots_after.cases)
  with o assms(1) show "length (file_of fh d') = length (file_of fh d)"
    "drop 4096 (file_of fh d') = drop 4096 (file_of fh d)" "clean crc h (file_of fh d')"
    by (simp_all add: clean_def)
qed

lemma disk_write_ok:
  assumes "disk_write h off buf d = (Inr (), d')"
  shows "file_of h d' = write_at (file_of h d) off buf"
  using disk_write_cases [OF assms] by metis

lemma io_then_ok:
  assumes "io_then m k = (Inr x, d')"
  obtains d1 where "m = (Inr (), d1)" "k d1 = (Inr x, d')"
  using assms by (cases m) (auto simp: io_then_def split: sum.splits)

lemma write_compacted_ok:
  assumes "write_compacted ser_chunk crc payload d = (Inr h, d')"
  shows "\<exists>g bs. tmp_f d' = Some g \<and> chunk_serialize ser_chunk crc payload = Inr bs \<and>
    clean crc h g \<and> drop 4096 g = bs \<and> length g = 4096 + length bs \<and>
    h = \<lparr>h_version = cm_version (cp_meta payload), h_last_chunk_offset = 4096,
         h_last_chunk_length = word_of_nat (length bs)\<rparr>"
proof -
  let ?v = "cm_version (cp_meta payload)"
  define dummy where "dummy = \<lparr>h_version = ?v, h_last_chunk_offset = 0, h_last_chunk_length = 0\<rparr>"
  obtain d0 where "disk_open d = (Inr (), d0)" and
    0: "io_then (disk_write TmpF 0 (header_serialize crc dummy) (d0\<lparr>tmp_f := Some []\<rparr>)) (\<lambda>d1.
        case chunk_serialize ser_chunk crc payload of
          Inl e \<Rightarrow> (Inl e, d1)
        | Inr bs \<Rightarrow>
            io_then (disk_write TmpF (length (file_of TmpF d1)) bs d1) (\<lambda>d2.
             io_then (disk_sync d2) (\<lambda>d3.
             io_then (write_header_slots crc TmpF (next_header ?v bs (file_of TmpF d1)) True d3)
               (\<lambda>d4. (Inr (next_header ?v bs (file_of TmpF d1)), d4))))) = (Inr h, d')"
    using assms unfolding write_compacted_def Let_def dummy_def by (rule io_then_ok)
  obtain d1 where 1: "disk_write TmpF 0 (header_serialize crc dummy) (d0\<lparr>tmp_f := Some []\<rparr>) = (Inr (), d1)"
    and k1: "(case chunk_serialize ser_chunk crc payload of
          Inl e \<Rightarrow> (Inl e, d1)
        | Inr bs \<Rightarrow>
            io_then (disk_write TmpF (length (file_of TmpF d1)) bs d1) (\<lambda>d2.
             io_then (disk_sync d2) (\<lambda>d3.
             io_then (write_header_slots crc TmpF (next_header ?v bs (file_of TmpF d1)) True d3)
               (\<lambda>d4. (Inr (next_header ?v bs (file_of TmpF d1)), d4))))) = (Inr h, d')"
    using 0 by (rule io_then_ok)
  have f1: "file_of TmpF d1 = header_serialize crc dummy"
    using disk_write_ok [OF 1] by (simp add: file_of_def content_def write_at_def)
  from k1 obtain bs where bs: "chunk_serialize ser_chunk crc payload = Inr bs" by (auto split: sum.splits)
  define final where "final = \<lparr>h_version = ?v, h_last_chunk_offset = 4096, h_last_chunk_length = word_of_nat (length bs)\<rparr>"
  from k1 bs f1 have "io_then (disk_write TmpF 4096 bs d1) (\<lambda>d2. io_then (disk_sync d2) (\<lambda>d3.
      io_then (write_header_slots crc TmpF final True d3) (\<lambda>d4. (Inr final, d4)))) = (Inr h, d')"
    by (simp add: final_def)
  then obtain d2 where 2: "disk_write TmpF 4096 bs d1 = (Inr (), d2)" and
    k2: "io_then (disk_sync d2) (\<lambda>d3. io_then (write_header_slots crc TmpF final True d3) (\<lambda>d4. (Inr final, d4)))
       = (Inr h, d')" by (rule io_then_ok)
  from k2 obtain d3 where 3: "disk_sync d2 = (Inr (), d3)" and
    k3: "io_then (write_header_slots crc TmpF final True d3) (\<lambda>d4. (Inr final, d4)) = (Inr h, d')"
    by (rule io_then_ok)
  from k3 have 4: "write_header_slots crc TmpF final True d3 = (Inr (), d')" and h: "h = final"
    by (auto simp: io_then_def split: prod.splits sum.splits)
  have "file_of TmpF d3 = header_serialize crc dummy @ bs"
    using disk_write_ok [OF 2] f1 sync_if_files(4) [of True d2 "Inr ()" d3 TmpF] 3
      write_at_end [of "header_serialize crc dummy" bs] by (simp add: sync_if_def)
  then have "4096 \<le> length (file_of TmpF d3)" "drop 4096 (file_of TmpF d3) = bs"
    "length (file_of TmpF d3) = 4096 + length bs" by simp_all
  with next_slots_new [OF _ 4] have *: "clean crc final (file_of TmpF d')" "drop 4096 (file_of TmpF d') = bs"
    "length (file_of TmpF d') = 4096 + length bs" by simp_all
  then obtain g where "tmp_f d' = Some g" "file_of TmpF d' = g"
    by (cases "tmp_f d'") (auto simp: file_of_def content_def)
  with * bs h show ?thesis unfolding final_def by auto
qed

lemma single_chunk_chain:
  assumes "codec ser_chunk de_chunk" "ser_chunk payload = Inr p" "length p < 2 ^ 31"
    and bs: "chunk_serialize ser_chunk crc payload = Inr bs" "\<not> is_delta bs"
    and g: "drop 4096 g = bs" "length g = 4096 + length bs"
  shows "chain_loop de_chunk de_delta crc g 4096 (word_of_nat (length bs)) [] [] = Inr (Some payload, [])"
proof -
  have "length bs = 8 + length p" using assms(2) bs(1) by (auto simp: chunk_serialize_def)
  with assms(3) have lens: "0 < length bs" "length bs < 2 ^ 32" by auto
  have "length p < 2 ^ 32" using assms(3) by simp
  note rt = chunk_roundtrip [OF assms(1,2) this bs(1)]
  have u: "unat (word_of_nat (length bs) :: u32) = length bs" by (rule unat_u32_of_nat [OF lens(2)])
  with lens(1) have "(word_of_nat (length bs) :: u32) \<noteq> 0" by (metis less_irrefl unat_0)
  with u g rt bs(2) lens show ?thesis by (subst chain_loop.simps) (simp add: HEADER_SIZE_def)
qed

section \<open>A concrete database file\<close>

text \<open>
  A small codec for deltas without maps and chunks with an empty leaf, and a simple checksum: the
  instance the examples run on.
\<close>

definition toy_sum :: crc32 where
  "toy_sum bs = word_of_nat (sum_list (map unat bs))"

definition toy_ser_delta :: "delta_payload ser" where
  "toy_ser_delta dl = (if dp_removed_maps dl = [] \<and> dp_maps dl = []
     then Inr (u64_to_le_bytes (dp_version dl) @ u64_to_le_bytes (dp_previous_offset dl) @
               u32_to_le_bytes (dp_previous_length dl))
     else Inl (Serialization ''toy''))"

definition toy_de_delta :: "delta_payload de" where
  "toy_de_delta bs = (if length bs = 20 then
     Inr \<lparr>dp_version = u64_from_le_bytes (take 8 bs), dp_previous_offset = u64_from_le_bytes (take 8 (drop 8 bs)),
          dp_previous_length = u32_from_le_bytes (drop 16 bs), dp_removed_maps = [], dp_maps = []\<rparr>
     else Inl (Serialization ''toy''))"

lemma toy_delta_codec: "codec toy_ser_delta toy_de_delta"
  by (auto simp: codec_def toy_ser_delta_def toy_de_delta_def split: if_splits)

definition toy_ser_chunk :: "chunk_payload ser" where
  "toy_ser_chunk c = (if c = chunk_new (cm_id (cp_meta c)) (cm_version (cp_meta c)) (Leaf [])
     then Inr (u32_to_le_bytes (cm_id (cp_meta c)) @ u64_to_le_bytes (cm_version (cp_meta c)))
     else Inl (Serialization ''toy''))"

definition toy_de_chunk :: "chunk_payload de" where
  "toy_de_chunk bs = (if length bs = 12 then
     Inr (chunk_new (u32_from_le_bytes (take 4 bs)) (u64_from_le_bytes (drop 4 bs)) (Leaf []))
     else Inl (Serialization ''toy''))"

lemma toy_chunk_codec: "codec toy_ser_chunk toy_de_chunk"
  by (auto simp: codec_def toy_ser_chunk_def toy_de_chunk_def split: if_splits)

definition new_disk :: "nat option list \<Rightarrow> disk" where
  "new_disk sc = \<lparr>main_f = Some (header_serialize toy_sum header_zero), tmp_f = None, bak_f = None, script = sc\<rparr>"

lemma new_disk_slots:
  "primary_slot (header_serialize toy_sum header_zero) = header_record toy_sum header_zero"
  "shadow_slot (header_serialize toy_sum header_zero) = replicate 28 0"
  "file_of MainF (new_disk sc) = header_serialize toy_sum header_zero"
  by (simp_all add: primary_slot_def shadow_slot_def header_serialize_record new_disk_def file_of_def content_def)

lemma new_disk_clean: "clean toy_sum header_zero (file_of MainF (new_disk sc))"
proof -
  have "hd (replicate 4 0) \<noteq> hd HEADER_MAGIC" by (simp add: HEADER_MAGIC_def)
  then have "replicate 4 0 \<noteq> HEADER_MAGIC" by metis
  then show ?thesis by (simp add: clean_def new_disk_slots) (simp add: header_deserialize_def)
qed

lemma le_enc_unroll:
  "le_enc 4 x = [word_of_nat (x mod 256), word_of_nat (x div 256 mod 256),
     word_of_nat (x div 256 div 256 mod 256), word_of_nat (x div 256 div 256 div 256 mod 256)]"
  "le_enc 8 x = le_enc 4 x @ le_enc 4 (x div 256 div 256 div 256 div 256)"
proof -
  have 4: "(4::nat) = Suc (Suc (Suc (Suc 0)))" "(8::nat) = Suc (Suc (Suc (Suc 4)))" by simp_all
  show "le_enc 4 x = [word_of_nat (x mod 256), word_of_nat (x div 256 mod 256),
     word_of_nat (x div 256 div 256 mod 256), word_of_nat (x div 256 div 256 div 256 mod 256)]"
    by (simp only: 4(1) le_enc.simps)
  then show "le_enc 8 x = le_enc 4 x @ le_enc 4 (x div 256 div 256 div 256 div 256)"
    by (simp only: 4(2) le_enc.simps append.simps)
qed

lemma le_nat_unroll: "u32_from_le_bytes [a, b, c, d] =
    word_of_nat (unat a + 256 * (unat b + 256 * (unat c + 256 * unat d)))"
  by (simp add: u32_from_le_bytes_def)

lemmas toy_eval = header_fields_def HEADER_MAGIC_def u64_to_le_bytes_def u32_to_le_bytes_def
  le_enc_unroll header_zero_def toy_sum_def upt_rec torn_def header_deserialize_def le_nat_unroll
  u64_from_le_bytes_def

lemma toy_records:
  "header_record toy_sum header_zero =
     [72, 50, 82, 83, 0, 0, 0, 0, 0, 0, 0, 0, 0, 0, 0, 0, 0, 0, 0, 0, 0, 0, 0, 0, 31, 1, 0, 0]"
  "header_record toy_sum \<lparr>h_version = 1, h_last_chunk_offset = 4096, h_last_chunk_length = 32\<rparr> =
     [72, 50, 82, 83, 1, 0, 0, 0, 0, 0, 0, 0, 0, 16, 0, 0, 0, 0, 0, 0, 32, 0, 0, 0, 80, 1, 0, 0]"
  "header_record toy_sum \<lparr>h_version = 1, h_last_chunk_offset = 4096, h_last_chunk_length = 20\<rparr> =
     [72, 50, 82, 83, 1, 0, 0, 0, 0, 0, 0, 0, 0, 16, 0, 0, 0, 0, 0, 0, 20, 0, 0, 0, 68, 1, 0, 0]"
  "replicate 28 (0::byte) = [0, 0, 0, 0, 0, 0, 0, 0, 0, 0, 0, 0, 0, 0, 0, 0, 0, 0, 0, 0, 0, 0, 0, 0, 0, 0, 0, 0]"
  by (simp_all add: header_record_def toy_eval) (simp add: numeral_eq_Suc)

lemma toy_chunk:
  defines "p \<equiv> u32_to_le_bytes 1 @ u64_to_le_bytes 1"
  shows "toy_ser_chunk (chunk_new 1 1 (Leaf [])) = Inr p"
    "chunk_serialize toy_ser_chunk toy_sum (chunk_new 1 1 (Leaf [])) =
       Inr (u32_to_le_bytes 12 @ p @ u32_to_le_bytes (toy_sum p))"
    "\<not> is_delta (u32_to_le_bytes 12 @ p @ u32_to_le_bytes (toy_sum p))"
proof -
  show ser: "toy_ser_chunk (chunk_new 1 1 (Leaf [])) = Inr p"
    by (simp add: toy_ser_chunk_def chunk_new_def p_def)
  have "length p = 12" by (simp add: p_def)
  with ser show "chunk_serialize toy_ser_chunk toy_sum (chunk_new 1 1 (Leaf [])) =
       Inr (u32_to_le_bytes 12 @ p @ u32_to_le_bytes (toy_sum p))"
    by (simp add: chunk_serialize_def)
  show "\<not> is_delta (u32_to_le_bytes 12 @ p @ u32_to_le_bytes (toy_sum p))"
    by (simp add: is_delta_def DELTA_MAGIC_def u32_to_le_bytes_def le_enc_unroll)
qed

lemma toy_torn:
  "torn_detected toy_sum (header_record toy_sum header_zero)
     \<lparr>h_version = 1, h_last_chunk_offset = 4096, h_last_chunk_length = 32\<rparr>"
  "torn_detected toy_sum (replicate 28 0) \<lparr>h_version = 1, h_last_chunk_offset = 4096, h_last_chunk_length = 32\<rparr>"
  "torn_detected toy_sum (header_record toy_sum header_zero)
     \<lparr>h_version = 1, h_last_chunk_offset = 4096, h_last_chunk_length = 20\<rparr>"
  "torn_detected toy_sum (replicate 28 0) \<lparr>h_version = 1, h_last_chunk_offset = 4096, h_last_chunk_length = 20\<rparr>"
  unfolding torn_detected_def toy_records by (simp_all add: toy_eval)

lemma header_zero_simps [simp]:
  "h_version header_zero = 0" "h_last_chunk_offset header_zero = 0" "h_last_chunk_length header_zero = 0"
  by (simp_all add: header_zero_def)

lemma new_disk_chain:
  "read_checkpoint_chain de_chunk de_delta toy_sum (reopened header_zero sync) (new_disk sc) = Inr (None, [])"
  by (simp add: read_checkpoint_chain_def header_zero_def chain_loop.simps)

section \<open>Properties\<close>


definition toy_delta :: delta_payload where
  "toy_delta = \<lparr>dp_version = 1, dp_previous_offset = 0, dp_previous_length = 0, dp_removed_maps = [], dp_maps = []\<rparr>"


text \<open>A full checkpoint is atomic in the same sense: after a stop at any point the reopened file reads
  back the old chain or just the new chunk, and the new chunk when the call reported success.\<close>

theorem chunk_checkpoint_atomic:
  fixes d :: disk
  defines "f \<equiv> file_of MainF d"
  assumes fs: "fs_handle fs" "clean crc (fs_header fs) f"
    and old: "read_checkpoint_chain de_chunk de_delta crc fs d = Inr (b, l)"
    and codec: "codec ser_chunk de_chunk"
    and chunk: "ser_chunk chunk = Inr p" "chunk_serialize ser_chunk crc chunk = Inr bs" "fits f bs" "\<not> is_delta bs"
    and det: "torn_detected crc (primary_slot f) (next_header (cm_version (cp_meta chunk)) bs f)"
      "torn_detected crc (shadow_slot f) (next_header (cm_version (cp_meta chunk)) bs f)"
    and run: "append_and_commit ser_chunk crc fs chunk d = (r, d')"
  shows "\<exists>fs' d''. fs_open crc sync (d'\<lparr>script := []\<rparr>) = (Inr fs', d'') \<and>
    (read_checkpoint_chain de_chunk de_delta crc fs' d'' = Inr (Some chunk, []) \<or>
     read_checkpoint_chain de_chunk de_delta crc fs' d'' = Inr (b, l) \<and> (\<forall>x. r \<noteq> Inr x))"
proof -
  let ?v = "cm_version (cp_meta chunk)"
  have run': "append_bytes crc fs ?v bs d = (r, d')"
    using run fs(1) chunk(2) by (simp add: append_and_commit_def)
  have "length p < 2 ^ 32" using chunk(1-3) by (auto simp: chunk_serialize_def fits_def)
  note rt = chunk_roundtrip [OF codec chunk(1) this chunk(2)]
  have len: "4096 \<le> length f" using fs(2) by (simp add: clean_def)
  have new: "read_checkpoint_chain de_chunk de_delta crc (reopened (next_header ?v bs f) sync) d'' = Inr (Some chunk, [])"
    if "extends (file_of MainF d'') f bs" for d''
    using chain_new [OF that [unfolded f_def] len [unfolded f_def] chunk(3) [unfolded f_def]] rt chunk(4)
    by (simp add: f_def)
  from append_reopen [OF fs(2) [unfolded f_def] run' det [unfolded f_def], of sync] obtain h where
    op: "fs_open crc sync (d'\<lparr>script := []\<rparr>) = (Inr (reopened h sync), d'\<lparr>script := []\<rparr>)" and
    h: "h = fs_header fs \<and> (\<exists>t. extends (file_of MainF d') f t) \<and> (\<forall>fs'. r \<noteq> Inr fs') \<or>
        h = next_header ?v bs f \<and> extends (file_of MainF d') f bs"
    unfolding f_def by blast
  from h show ?thesis
  proof (elim disjE conjE exE)
    fix t assume "h = fs_header fs" "extends (file_of MainF d') f t" "\<forall>fs'. r \<noteq> Inr fs'"
    with op chain_old [OF old fs(1), of "d'\<lparr>script := []\<rparr>" t sync] show ?thesis
      by (auto simp: f_def file_of_def)
  next
    assume "h = next_header ?v bs f" "extends (file_of MainF d') f bs"
    with op new [of "d'\<lparr>script := []\<rparr>"] show ?thesis by (auto simp: file_of_def)
  qed
qed

theorem chunk_checkpoint_atomic_witness:
  "\<exists>fs' d''. fs_open toy_sum True ((snd (append_and_commit toy_ser_chunk toy_sum (reopened header_zero True)
        (chunk_new 1 1 (Leaf [])) (new_disk [None, None, None, None, Some 3])))\<lparr>script := []\<rparr>) = (Inr fs', d'') \<and>
    read_checkpoint_chain toy_de_chunk toy_de_delta toy_sum fs' d'' \<in>
      {Inr (Some (chunk_new 1 1 (Leaf [])), []), Inr (None, [])}"
proof -
  let ?c = "chunk_new 1 1 (Leaf [])"
  obtain r d' where run: "append_and_commit toy_ser_chunk toy_sum (reopened header_zero True) ?c
      (new_disk [None, None, None, None, Some 3]) = (r, d')" by force
  have "\<exists>fs' d''. fs_open toy_sum True (d'\<lparr>script := []\<rparr>) = (Inr fs', d'') \<and>
    (read_checkpoint_chain toy_de_chunk toy_de_delta toy_sum fs' d'' = Inr (Some ?c, []) \<or>
     read_checkpoint_chain toy_de_chunk toy_de_delta toy_sum fs' d'' = Inr (None, []) \<and> (\<forall>x. r \<noteq> Inr x))"
    by (rule chunk_checkpoint_atomic [OF _ _ new_disk_chain toy_chunk_codec toy_chunk(1,2) _ toy_chunk(3) _ _ run])
      (use new_disk_clean toy_torn in \<open>simp_all add: new_disk_slots fits_def chunk_new_def\<close>)
  with run show ?thesis by auto
qed

text \<open>
  What a crash in the primary slot leaves is not repaired: the file opens through its shadow slot, but
  the next checkpoint overwrites that slot first, and a crash in this write leaves no valid header.
\<close>

theorem torn_header_not_repaired:
  assumes "main_f d = Some f" "4096 \<le> length f" "header_deserialize crc (primary_slot f) = Inl e"
    and "header_deserialize crc (shadow_slot f) = Inr h" "script d = []"
    and "header_deserialize crc (torn n (shadow_slot f) (header_record crc new)) = Inl e'"
  shows "fs_open crc sync d = (Inr (reopened h sync), d)"
    "\<exists>d'. write_header_slots crc MainF new sync (d\<lparr>script := [Some n]\<rparr>) = (Inl (Io ''write''), d') \<and>
       fs_open crc sync d' = (Inl e, d')"
proof -
  show "fs_open crc sync d = (Inr (reopened h sync), d)"
    by (rule fs_open_existing) (use assms read_header_slots [OF assms(2), of crc] in \<open>simp_all add: choose_header_def\<close>)
  let ?g = "write_at f 2048 (take n (header_record crc new))"
  have w: "write_header_slots crc MainF new sync (d\<lparr>script := [Some n]\<rparr>) =
      (Inl (Io ''write''), d\<lparr>script := [], main_f := Some ?g\<rparr>)"
    using assms(1) by (simp add: write_header_slots_def Let_def io_then_def disk_write_def next_fault_def
        SHADOW_HEADER_OFFSET_def file_of_def set_file_def content_def)
  have len: "length (header_record crc new) = 28" by simp
  note sh = write_shadow [OF assms(2) len, of n]
  have "read_header crc ?g = Inl e"
    using sh assms(2,3,6) read_header_slots [of ?g crc] by (simp add: choose_header_def)
  then have "fs_open crc sync (d\<lparr>script := [], main_f := Some ?g\<rparr>) = (Inl e, d\<lparr>script := [], main_f := Some ?g\<rparr>)"
    using sh assms(2) by (simp add: fs_open_def restore_backup_def io_then_def disk_open_def next_fault_def content_def Let_def HEADER_SIZE_def)
  with w show "\<exists>d'. write_header_slots crc MainF new sync (d\<lparr>script := [Some n]\<rparr>) = (Inl (Io ''write''), d') \<and>
       fs_open crc sync d' = (Inl e, d')" by blast
qed

text \<open>C13: Compaction never loses the database: wherever one of its writes, syncs or renames stops, the file
  the next open uses is the untouched old file or a complete new file that holds exactly the
  compacted chunk; and the new one when the call reported success.  (The chunk is below 2^31 bytes and
  its first four bytes, its length, do not happen to read as the mark of a delta.)\<close>

theorem compaction_crash_safe:
  assumes "fs_on_disk fs" "main_f d = Some f" "codec ser_chunk de_chunk"
    and "ser_chunk payload = Inr p" "length p < 2 ^ 31"
    and "chunk_serialize ser_chunk crc payload = Inr bs" "\<not> is_delta bs"
    and run: "compact_and_rewrite ser_chunk crc fs payload d = (r, fs', d')"
  shows "\<exists>d''. restore_backup (d'\<lparr>script := []\<rparr>) = (Inr (), d'') \<and>
    (main_f d'' = Some f \<and> r \<noteq> Inr () \<or>
     (\<exists>h. fs_open crc sync (d'\<lparr>script := []\<rparr>) = (Inr (reopened h sync), d'\<lparr>script := []\<rparr>) \<and>
       read_checkpoint_chain de_chunk de_delta crc (reopened h sync) (d'\<lparr>script := []\<rparr>) = Inr (Some payload, [])))"
proof -
  obtain wr d1 where wr: "write_compacted ser_chunk crc payload d = (wr, d1)" by force
  note other = write_compacted_other [OF wr]
  have kept: "\<exists>d''. restore_backup (d'\<lparr>script := []\<rparr>) = (Inr (), d'') \<and> main_f d'' = Some f"
    if "main_f d' = Some f \<or> main_f d' = None \<and> bak_f d' = Some f" for d'
    using that by (auto simp: restore_backup_def next_fault_def)
  show ?thesis
  proof (cases wr)
    case (Inl e)
    with run wr assms(1) have "d' = d1" "r = Inl e" by (auto simp: compact_and_rewrite_def)
    with kept [of d1] other assms(2) show ?thesis by auto
  next
    case (Inr h)
    from write_compacted_ok [OF wr [unfolded Inr]] assms(6) obtain g where
      g: "tmp_f d1 = Some g" "clean crc h g" "drop 4096 g = bs" "length g = 4096 + length bs"
      and h: "h = \<lparr>h_version = cm_version (cp_meta payload), h_last_chunk_offset = 4096,
         h_last_chunk_length = word_of_nat (length bs)\<rparr>" by auto
    define d2 where "d2 = (if bak_f d1 \<noteq> None then remove_bak d1 else d1)"
    have "tmp_f (remove_bak d1) = tmp_f d1" by (auto simp: remove_bak_def split: prod.splits option.splits)
    with g(1) other assms(2) rename_steps(7) [of d1] have k2: "old_kept f g d2"
      by (auto simp: old_kept_def d2_def)
    obtain ok d3 where loop: "replace_loop 10 d2 = (ok, d3)" by force
    note kl = replace_loop_keeps [OF k2 loop]
    show ?thesis
    proof (cases ok)
      case False
      with run wr Inr loop assms(1) have "d' = d3" "r \<noteq> Inr ()"
        by (auto simp: compact_and_rewrite_def d2_def Let_def)
      with kept [of d3] kl False show ?thesis by (auto simp: old_kept_def)
    next
      case True
      with run wr Inr loop assms(1) have "main_f d' = main_f d3"
        by (auto simp: compact_and_rewrite_def d2_def Let_def disk_open_files split: prod.splits sum.splits)
      with kl True have m: "main_f d' = Some g" by simp
      have rh: "read_header crc g = Inr h"
        using g(2) read_header_slots [of g crc] by (auto simp: clean_def choose_header_def split: sum.splits)
      have "fs_open crc sync (d'\<lparr>script := []\<rparr>) = (Inr (reopened h sync), d'\<lparr>script := []\<rparr>)"
        by (rule fs_open_existing) (use m g rh in simp_all)
      moreover have "read_checkpoint_chain de_chunk de_delta crc (reopened h sync) (d'\<lparr>script := []\<rparr>) = Inr (Some payload, [])"
        using single_chunk_chain [OF assms(3-7) g(3,4)] m h
        by (simp add: read_checkpoint_chain_def file_of_def content_def)
      moreover have "restore_backup (d'\<lparr>script := []\<rparr>) = (Inr (), d'\<lparr>script := []\<rparr>)"
        using m by (simp add: restore_backup_def)
      ultimately show ?thesis by blast
    qed
  qed
qed

theorem compaction_crash_safe_witness:
  "let (r, fs', d') = compact_and_rewrite toy_ser_chunk toy_sum (reopened header_zero True)
         (chunk_new 1 1 (Leaf [])) (new_disk (replicate 8 None @ [Some 0])) in
   \<exists>d''. restore_backup (d'\<lparr>script := []\<rparr>) = (Inr (), d'') \<and>
    (main_f d'' = main_f (new_disk []) \<and> r \<noteq> Inr () \<or>
     (\<exists>h. fs_open toy_sum True (d'\<lparr>script := []\<rparr>) = (Inr (reopened h True), d'\<lparr>script := []\<rparr>) \<and>
       read_checkpoint_chain toy_de_chunk toy_de_delta toy_sum (reopened h True) (d'\<lparr>script := []\<rparr>) =
         Inr (Some (chunk_new 1 1 (Leaf [])), [])))"
proof -
  let ?c = "chunk_new 1 1 (Leaf [])"
  obtain r fs' d' where run: "compact_and_rewrite toy_ser_chunk toy_sum (reopened header_zero True) ?c
      (new_disk (replicate 8 None @ [Some 0])) = (r, fs', d')" using prod_cases3 by blast
  have "\<exists>d''. restore_backup (d'\<lparr>script := []\<rparr>) = (Inr (), d'') \<and>
    (main_f d'' = Some (header_serialize toy_sum header_zero) \<and> r \<noteq> Inr () \<or>
     (\<exists>h. fs_open toy_sum True (d'\<lparr>script := []\<rparr>) = (Inr (reopened h True), d'\<lparr>script := []\<rparr>) \<and>
       read_checkpoint_chain toy_de_chunk toy_de_delta toy_sum (reopened h True) (d'\<lparr>script := []\<rparr>) = Inr (Some ?c, [])))"
    by (rule compaction_crash_safe [OF _ _ toy_chunk_codec toy_chunk(1) _ toy_chunk(2,3) run])
      (simp_all add: new_disk_def)
  with run show ?thesis by (simp add: new_disk_def)
qed

text \<open>When compaction cannot put the new file in place it returns an error but leaves the store without
  a file handle, and from then on a checkpoint reports success without writing a byte.\<close>

theorem failed_compaction_goes_silent:
  assumes "fs_on_disk fs" "write_compacted ser_chunk crc payload d = (Inr h, d1)"
    and "replace_loop 10 (if bak_f d1 \<noteq> None then remove_bak d1 else d1) = (False, d3)"
  shows "\<exists>e fs'. compact_and_rewrite ser_chunk crc fs payload d = (Inl e, fs', d3) \<and> fs_is_in_memory fs' \<and>
    append_and_commit ser_chunk crc fs' chunk d3 =
      (Inr (fs'\<lparr>fs_header := (fs_header fs')\<lparr>h_version := cm_version (cp_meta chunk)\<rparr>\<rparr>), d3)"
  using assms by (auto simp: compact_and_rewrite_def fs_is_in_memory_def append_and_commit_def Let_def)

theorem failed_compaction_goes_silent_witness:
  "\<exists>d3 e fs'. compact_and_rewrite toy_ser_chunk toy_sum (reopened header_zero True) (chunk_new 1 1 (Leaf []))
       (new_disk ([None, None, None, None, None, None, None, None] @ replicate 20 (Some 0))) = (Inl e, fs', d3) \<and> fs_is_in_memory fs' \<and>
     append_and_commit toy_ser_chunk toy_sum fs' (chunk_new 2 2 (Leaf [])) d3 =
       (Inr (fs'\<lparr>fs_header := (fs_header fs')\<lparr>h_version := 2\<rparr>\<rparr>), d3)"
proof -
  let ?d = "new_disk ([None, None, None, None, None, None, None, None] @ replicate 20 (Some 0))"
  obtain w d1 where w: "write_compacted toy_ser_chunk toy_sum (chunk_new 1 1 (Leaf [])) ?d = (w, d1)" by force
  then have 1: "script d1 = replicate 20 (Some 0)" "bak_f d1 = None" "\<exists>h. w = Inr h"
    by (auto simp: write_compacted_def toy_chunk(2) io_then_def disk_open_def disk_write_def disk_sync_def
        write_header_slots_def sync_if_def next_fault_def new_disk_def set_file_def Let_def
        simp del: write_at_end)
  obtain d3 where "replace_loop 10 d1 = (False, d3)"
    using replace_loop_all_fail [of d1 10 0 "[]"] 1 by auto
  with 1 w failed_compaction_goes_silent [of "reopened header_zero True" toy_ser_chunk toy_sum
      "chunk_new 1 1 (Leaf [])" ?d _ d1 d3 "chunk_new 2 2 (Leaf [])"] show ?thesis
    by (auto simp: chunk_new_def)
qed

text \<open>Chunks and deltas are told apart by their first four bytes, but a chunk starts with its payload
  length: a chunk is taken for a delta exactly when that length is 0x31443248 modulo \<open>2^32\<close>.\<close>

theorem chunk_taken_for_delta:
  assumes "ser_chunk c = Inr p" "chunk_serialize ser_chunk crc c = Inr bs"
  shows "is_delta bs \<longleftrightarrow> length p mod 2 ^ 32 = 0x31443248"
proof -
  let ?w = "word_of_nat (length p) :: u32"
  have magic: "u32_to_le_bytes 0x31443248 = DELTA_MAGIC"
    by (simp add: u32_to_le_bytes_def le_enc_unroll DELTA_MAGIC_def)
  have "bs = u32_to_le_bytes ?w @ p @ u32_to_le_bytes (crc p)"
    using assms by (simp add: chunk_serialize_def)
  then have "is_delta bs \<longleftrightarrow> u32_to_le_bytes ?w = u32_to_le_bytes 0x31443248"
    by (auto simp: is_delta_def prefix_def magic append_eq_append_conv)
  also have "\<dots> \<longleftrightarrow> ?w = 0x31443248" by (metis u32_le_roundtrip)
  also have "\<dots> \<longleftrightarrow> unat ?w = 0x31443248" by (simp add: word_unat_eq_iff)
  finally show ?thesis by (simp add: unat_of_nat)
qed

theorem chunk_taken_for_delta_witness:
  "\<exists>bs. chunk_serialize (\<lambda>c. Inr (replicate 0x31443248 0)) toy_sum (chunk_new 1 1 (Leaf [])) = Inr bs \<and> is_delta bs"
  using chunk_taken_for_delta [of "\<lambda>c. Inr (replicate 0x31443248 0)" "chunk_new 1 1 (Leaf [])"
      "replicate 0x31443248 0" toy_sum]
  by (simp add: chunk_serialize_def)

end
