(* ===== verification/Versioned.thy ===== *)
theory Versioned
  imports H2_Prelude
begin

text \<open>
  Multi-version values (\<^verbatim>\<open>tx/versioned_value.rs\<close>): one uncommitted record and a history of committed
  ones, newest first.  \<open>ser_vv\<close> and \<open>de_vv\<close> stand for \<^verbatim>\<open>bincode\<close> on \<^verbatim>\<open>VersionedValue\<close>; the format the
  fast path relies on is the hypothesis \<open>single_layout\<close>, and a concrete codec at the end of the theory
  meets it.  The lemmas: visibility, commit and rollback, and that pruning and dead-tuple removal are
  invisible to every snapshot at or above the horizon.
\<close>

section \<open>Data\<close>

record version_record =
  rec_value :: "bytes option"
  rec_version :: u64

record uncommitted_record =
  unc_tx :: u64
  unc_value :: "bytes option"

record versioned_value =
  uncommitted :: "uncommitted_record option"
  committed_history :: "version_record list"

definition new_committed :: "bytes \<Rightarrow> u64 \<Rightarrow> versioned_value" where
  "new_committed val v =
     \<lparr>uncommitted = None, committed_history = [\<lparr>rec_value = Some val, rec_version = v\<rparr>]\<rparr>"

definition new_uncommitted :: "u64 \<Rightarrow> bytes option \<Rightarrow> versioned_value" where
  "new_uncommitted tx val =
     \<lparr>uncommitted = Some \<lparr>unc_tx = tx, unc_value = val\<rparr>, committed_history = []\<rparr>"

type_synonym vv_ser = "versioned_value \<Rightarrow> bytes h2_result"
type_synonym vv_de = "bytes \<Rightarrow> versioned_value h2_result"

definition vv_to_bytes :: "vv_ser \<Rightarrow> versioned_value \<Rightarrow> bytes h2_result" where
  "vv_to_bytes ser_vv vv = ser_vv vv"

definition vv_from_bytes :: "vv_de \<Rightarrow> bytes \<Rightarrow> versioned_value h2_result" where
  "vv_from_bytes de_vv bs =
     (if bs = [] then Inl (Serialization ''Empty versioned value bytes'') else de_vv bs)"

section \<open>Operations\<close>

fun history_read :: "version_record list \<Rightarrow> u64 \<Rightarrow> bytes option" where
  "history_read [] snapshot = None"
| "history_read (r # rs) snapshot =
     (if rec_version r \<le> snapshot then rec_value r else history_read rs snapshot)"

definition read_visible :: "versioned_value \<Rightarrow> u64 \<Rightarrow> u64 \<Rightarrow> bytes option" where
  "read_visible vv reader_tx snapshot =
     (case uncommitted vv of
        Some u \<Rightarrow> if unc_tx u = reader_tx then unc_value u
                  else history_read (committed_history vv) snapshot
      | None \<Rightarrow> history_read (committed_history vv) snapshot)"

definition active_tx_id :: "versioned_value \<Rightarrow> u64 option" where
  "active_tx_id vv = map_option unc_tx (uncommitted vv)"

definition commit_uncommitted :: "versioned_value \<Rightarrow> u64 \<Rightarrow> versioned_value" where
  "commit_uncommitted vv commit_version =
     (case uncommitted vv of
        None \<Rightarrow> vv
      | Some u \<Rightarrow>
          (let h = \<lparr>rec_value = unc_value u, rec_version = commit_version\<rparr> # committed_history vv in
           \<lparr>uncommitted = None, committed_history = (if length h > 32 then take 32 h else h)\<rparr>))"

definition rollback_uncommitted :: "versioned_value \<Rightarrow> versioned_value" where
  "rollback_uncommitted vv = vv\<lparr>uncommitted := None\<rparr>"

definition is_dead :: "versioned_value \<Rightarrow> u64 \<Rightarrow> bool" where
  "is_dead vv horizon =
     (if uncommitted vv \<noteq> None then False
      else case committed_history vv of
             [] \<Rightarrow> True
           | first # _ \<Rightarrow> rec_version first \<le> horizon \<and> rec_value first = None)"

text \<open>The search loop of \<^verbatim>\<open>prune_old_versions\<close>, with the index it has reached.\<close>

fun prune_cutoff :: "version_record list \<Rightarrow> u64 \<Rightarrow> nat \<Rightarrow> nat option" where
  "prune_cutoff [] horizon i = None"
| "prune_cutoff (r # rs) horizon i =
     (if rec_version r \<le> horizon then Some (i + 1) else prune_cutoff rs horizon (i + 1))"

definition prune_old_versions :: "versioned_value \<Rightarrow> u64 \<Rightarrow> versioned_value \<times> bool" where
  "prune_old_versions vv horizon =
     (if length (committed_history vv) \<le> 1 then (vv, False)
      else case prune_cutoff (committed_history vv) horizon 0 of
             Some cutoff \<Rightarrow>
               if cutoff < length (committed_history vv)
               then (vv\<lparr>committed_history := take cutoff (committed_history vv)\<rparr>, True)
               else (vv, False)
           | None \<Rightarrow> (vv, False))"

text \<open>
  The zero-copy fast path over the serialized bytes.  \<^verbatim>\<open>usize\<close> arithmetic wraps at 64 bits; \<open>None\<close> at
  the outer level is a slice out of range.
\<close>

definition read_visible_raw :: "bytes \<Rightarrow> u64 \<Rightarrow> u64 \<Rightarrow> bytes option option" where
  "read_visible_raw bs reader_tx snapshot =
     (if length bs \<ge> 26 \<and> bs ! 0 = 0 then
        do { hist_len_bytes \<leftarrow> slice bs 1 9;
             tag \<leftarrow> vec_get bs 9;
             (if u64_from_le_bytes hist_len_bytes = 1 \<and> tag = 1 then
                do { val_len_bytes \<leftarrow> slice bs 10 18;
                     let val_len = u64_from_le_bytes val_len_bytes;
                     (if word_of_nat (length bs) = 18 + val_len + 8 then
                        do { commit_ver_bytes \<leftarrow> slice bs (unat (18 + val_len)) (unat (26 + val_len));
                             (if u64_from_le_bytes commit_ver_bytes \<le> snapshot
                              then map_option Some (slice bs 18 (unat (18 + val_len)))
                              else Some None) }
                      else Some None) }
              else Some None) }
      else Some None)"

section \<open>Visibility\<close>

lemma prune_cutoff_gt: "prune_cutoff h horizon i = Some n \<Longrightarrow> i < n"
  by (induction h horizon i rule: prune_cutoff.induct) (auto split: if_splits)

lemma history_read_take:
  assumes "prune_cutoff h horizon i = Some n" "horizon \<le> snapshot"
  shows "history_read (take (n - i) h) snapshot = history_read h snapshot"
  using assms(1)
proof (induction h arbitrary: i)
  case (Cons r rs)
  show ?case
  proof (cases "rec_version r \<le> horizon")
    case True
    with Cons.prems assms(2) have "n = Suc i" "rec_version r \<le> snapshot" by auto
    then show ?thesis by simp
  next
    case False
    with Cons.prems have p: "prune_cutoff rs horizon (Suc i) = Some n" by simp
    have "Suc i < n" by (rule prune_cutoff_gt [OF p])
    then have "n - i = Suc (n - Suc i)" by simp
    with Cons.IH [OF p] show ?thesis by simp
  qed
qed simp

lemma prune_keeps_reads:
  assumes "horizon \<le> snapshot"
  shows "read_visible (fst (prune_old_versions vv horizon)) tx snapshot = read_visible vv tx snapshot"
  using history_read_take [OF _ assms, where i = 0, simplified]
  by (auto simp: prune_old_versions_def read_visible_def split: option.splits)

lemma is_dead_reads:
  "is_dead vv horizon \<Longrightarrow> horizon \<le> snapshot \<Longrightarrow> read_visible vv tx snapshot = None"
  by (auto simp: is_dead_def read_visible_def split: if_splits list.splits)

lemma prune_keeps_uncommitted: "uncommitted (fst (prune_old_versions vv horizon)) = uncommitted vv"
  by (auto simp: prune_old_versions_def split: option.splits)

lemma rollback_reads [simp]:
  "read_visible (rollback_uncommitted vv) tx snapshot = history_read (committed_history vv) snapshot"
  by (simp add: rollback_uncommitted_def read_visible_def)

lemma other_tx_reads:
  "active_tx_id vv \<noteq> Some tx \<Longrightarrow> read_visible vv tx snapshot = history_read (committed_history vv) snapshot"
  by (auto simp: active_tx_id_def read_visible_def split: option.splits)

lemma history_read_take_visible:
  assumes "\<exists>r \<in> set (take n h). rec_version r \<le> snapshot"
  shows "history_read (take n h) snapshot = history_read h snapshot"
  using assms
proof (induction h arbitrary: n)
  case (Cons r rs)
  then show ?case by (cases n) auto
qed simp

lemma history_read_none: "\<forall>r \<in> set h. snapshot < rec_version r \<Longrightarrow> history_read h snapshot = None"
  by (induction h) auto

lemma history_read_skip:
  "\<forall>r \<in> set h. snapshot < rec_version r \<Longrightarrow> history_read (h @ h') snapshot = history_read h' snapshot"
  by (induction h) auto

lemma commit_history:
  assumes "uncommitted vv = Some u"
  shows "committed_history (commit_uncommitted vv cv) =
      \<lparr>rec_value = unc_value u, rec_version = cv\<rparr> # take 31 (committed_history vv)"
    and "uncommitted (commit_uncommitted vv cv) = None"
  using assms by (simp_all add: commit_uncommitted_def Let_def)

text \<open>Histories are kept strictly newest first.\<close>

definition vv_wf :: "versioned_value \<Rightarrow> bool" where
  "vv_wf vv \<longleftrightarrow> sorted_wrt (\<lambda>a b. b < a) (map rec_version (committed_history vv))"

lemma sorted_wrt_take: "sorted_wrt P xs \<Longrightarrow> sorted_wrt P (take n xs)"
  by (metis append_take_drop_id sorted_wrt_append)

lemma prune_wf: "vv_wf vv \<Longrightarrow> vv_wf (fst (prune_old_versions vv horizon))"
  by (auto simp: vv_wf_def prune_old_versions_def sorted_wrt_take take_map [symmetric] split: option.splits)

lemma rollback_wf: "vv_wf vv \<Longrightarrow> vv_wf (rollback_uncommitted vv)"
  by (simp add: vv_wf_def rollback_uncommitted_def)

lemma commit_wf:
  assumes "vv_wf vv" "\<forall>r \<in> set (committed_history vv). rec_version r < cv"
  shows "vv_wf (commit_uncommitted vv cv)"
proof (cases "uncommitted vv")
  case (Some u)
  with assms show ?thesis
    by (auto simp: vv_wf_def commit_history sorted_wrt_take take_map [symmetric] dest!: in_set_takeD)
qed (use assms in \<open>simp add: commit_uncommitted_def\<close>)

section \<open>The serialized form\<close>

text \<open>
  The documented \<^verbatim>\<open>bincode\<close> layout of a value with one committed version: option and sequence tags,
  little-endian 64-bit lengths, the payload and the version.
\<close>

definition single_bytes :: "bytes \<Rightarrow> u64 \<Rightarrow> bytes" where
  "single_bytes val v =
     [0] @ u64_to_le_bytes 1 @ [1] @ u64_to_le_bytes (word_of_nat (length val)) @ val @ u64_to_le_bytes v"

definition single_layout :: "vv_de \<Rightarrow> bool" where
  "single_layout de_vv \<longleftrightarrow>
     (\<forall>val v. length val < 2 ^ 64 \<longrightarrow> de_vv (single_bytes val v) = Inr (new_committed val v))"

lemma le_enc_le_nat: "le_enc (length bs) (le_nat bs) = bs"
proof (induction bs)
  case (Cons b bs)
  have b: "unat b < 256" using unsigned_less [of b] by simp
  then have "(unat b + 256 * le_nat bs) mod 256 = unat b" "(unat b + 256 * le_nat bs) div 256 = le_nat bs"
    by auto
  then have "le_enc (Suc (length bs)) (le_nat (b # bs)) = word_of_nat (unat b) # bs"
    by (simp only: le_enc.simps le_nat.simps Cons)
  then show ?case by simp
qed simp

lemma u64_le_bytes_inverse: "length bs = 8 \<Longrightarrow> u64_to_le_bytes (u64_from_le_bytes bs) = bs"
  using le_nat_bound [of bs] le_enc_le_nat [of bs]
  by (simp add: u64_to_le_bytes_def u64_from_le_bytes_def unat_of_nat)

text \<open>What the fast path accepts is exactly the layout of a single committed version.\<close>

lemma read_visible_raw_single:
  assumes "length val < 2 ^ 63"
  shows "read_visible_raw (single_bytes val v) tx snapshot =
           Some (if v \<le> snapshot then Some val else None)"
proof -
  define n :: u64 where "n = word_of_nat (length val)"
  have n: "unat n = length val" using assms by (simp add: n_def unat_of_nat)
  have sums: "unat (18 + n) = 18 + length val" "unat (26 + n) = 26 + length val"
    using assms n by (simp_all add: unat_word_ariths)
  define A where "A = u64_to_le_bytes 1"
  define B where "B = u64_to_le_bytes n"
  define C where "C = u64_to_le_bytes v"
  have len: "length A = 8" "length B = 8" "length C = 8" by (simp_all add: A_def B_def C_def)
  have bs: "single_bytes val v = 0 # A @ 1 # B @ val @ C"
    by (simp add: single_bytes_def A_def B_def C_def n_def)
  have total: "word_of_nat (length (single_bytes val v)) = 18 + n + 8"
    by (simp add: bs len n_def)
  have sl: "slice (single_bytes val v) 1 9 = Some A" "vec_get (single_bytes val v) 9 = Some 1"
    "slice (single_bytes val v) 10 18 = Some B"
    "slice (single_bytes val v) (18 + length val) (26 + length val) = Some C"
    "slice (single_bytes val v) 18 (18 + length val) = Some val"
    using len by (simp_all add: bs slice_def vec_get_def nth_append drop_Cons' nth_Cons')
  have dec: "u64_from_le_bytes A = 1" "u64_from_le_bytes B = n" "u64_from_le_bytes C = v"
    by (simp_all add: A_def B_def C_def)
  have "26 \<le> length (single_bytes val v)" "single_bytes val v ! 0 = 0" using len by (simp_all add: bs)
  with sl dec sums total show ?thesis by (simp add: read_visible_raw_def)
qed

lemma read_visible_raw_accepts:
  assumes raw: "read_visible_raw bs tx snapshot = Some (Some val)" and len: "length bs < 2 ^ 63"
  shows "\<exists>v. bs = single_bytes val v \<and> v \<le> snapshot \<and> length val < 2 ^ 63"
proof -
  from raw obtain hl vl where
    26: "26 \<le> length bs" "bs ! 0 = 0" and hl: "slice bs 1 9 = Some hl" "u64_from_le_bytes hl = 1"
    and tag: "vec_get bs 9 = Some 1" and vl: "slice bs 10 18 = Some vl"
    by (auto simp: read_visible_raw_def bind_eq_Some_conv split: if_splits)
  define n where "n = u64_from_le_bytes vl"
  with raw 26 hl tag vl obtain cb where
    n: "word_of_nat (length bs) = 18 + n + 8" and cb: "slice bs (unat (18 + n)) (unat (26 + n)) = Some cb"
    and ver: "u64_from_le_bytes cb \<le> snapshot" and val: "slice bs 18 (unat (18 + n)) = Some val"
    by (auto simp: read_visible_raw_def bind_eq_Some_conv Let_def split: if_splits)
  have "n = word_of_nat (length bs - 26)"
    using n 26(1) by (simp add: of_nat_diff algebra_simps)
  then have un: "unat n = length bs - 26" using len by (simp add: unat_of_nat)
  have u: "unat (18 + n) = length bs - 8" "unat (26 + n) = length bs"
    using un 26(1) len by (simp_all add: unat_word_ariths)
  have parts: "hl = take 8 (drop 1 bs)" "vl = take 8 (drop 10 bs)" "cb = drop (length bs - 8) bs"
    "val = take (length bs - 26) (drop 18 bs)" "bs ! 9 = 1"
    using hl(1) vl cb val tag 26 unfolding u by (auto simp: slice_def vec_get_def split: if_splits)
  have "bs = take 1 bs @ take 8 (drop 1 bs) @ take 1 (drop 9 bs) @ take 8 (drop 10 bs) @
             take (length bs - 26) (drop 18 bs) @ drop (length bs - 8) bs"
    (is "_ = ?a @ ?b @ ?c @ ?d @ ?e @ ?f")
  proof -
    have "drop 18 bs = ?e @ ?f"
      using append_take_drop_id [of "length bs - 26" "drop 18 bs"] 26(1) by simp
    moreover have "drop 10 bs = ?d @ drop 18 bs" "drop 9 bs = ?c @ drop 10 bs"
      "drop 1 bs = ?b @ drop 9 bs" "bs = ?a @ drop 1 bs"
      using append_take_drop_id [of 8 "drop 10 bs"] append_take_drop_id [of 1 "drop 9 bs"]
        append_take_drop_id [of 8 "drop 1 bs"] append_take_drop_id [of 1 "bs"]
      by (simp_all only: drop_drop) simp_all
    ultimately show ?thesis by simp
  qed
  moreover have "take 1 bs = [0]" "take 1 (drop 9 bs) = [1]"
    using 26 parts(5) by (cases bs; simp add: take_Suc_conv_app_nth)+
  moreover have "u64_to_le_bytes 1 = hl" "u64_to_le_bytes n = vl" "u64_to_le_bytes (u64_from_le_bytes cb) = cb"
    using hl(2) n_def 26(1) parts u64_le_bytes_inverse [of hl] u64_le_bytes_inverse [of vl]
      u64_le_bytes_inverse [of cb] by simp_all
  moreover have "length val = length bs - 26" using parts(4) 26(1) by simp
  ultimately show ?thesis
    using ver len \<open>n = word_of_nat (length bs - 26)\<close> parts
    by (intro exI [of _ "u64_from_le_bytes cb"]) (simp add: single_bytes_def)
qed

text \<open>The fast path never indexes out of range.\<close>

lemma read_visible_raw_total:
  assumes len: "length bs < 2 ^ 63"
  shows "\<exists>r. read_visible_raw bs tx snapshot = Some r"
proof (cases "length bs \<ge> 26 \<and> bs ! 0 = 0")
  case True
  then have 26: "26 \<le> length bs" by simp
  have sl: "\<exists>x. slice bs a b = Some x" if "a \<le> b" "b \<le> length bs" for a b
    using that by (simp add: slice_def)
  obtain hl vl where h: "slice bs 1 9 = Some hl" "slice bs 10 18 = Some vl"
    using sl [of 1 9] sl [of 10 18] 26 by auto
  define n where "n = u64_from_le_bytes vl"
  show ?thesis
  proof (cases "word_of_nat (length bs) = 18 + n + 8")
    case eq: True
    then have "n = word_of_nat (length bs - 26)" using 26 by (simp add: of_nat_diff algebra_simps)
    then have un: "unat n = length bs - 26" using len by (simp add: unat_of_nat)
    have u: "unat (18 + n) = length bs - 8" "unat (26 + n) = length bs"
      using un 26 len by (simp_all add: unat_word_ariths)
    obtain cb val where "slice bs (unat (18 + n)) (unat (26 + n)) = Some cb" "slice bs 18 (unat (18 + n)) = Some val"
      using sl [of "length bs - 8" "length bs"] sl [of 18 "length bs - 8"] 26 unfolding u by fastforce
    with True h show ?thesis
      by (simp add: read_visible_raw_def vec_get_def n_def [symmetric] Let_def)
  next
    case False
    with True h show ?thesis
      by (simp add: read_visible_raw_def vec_get_def n_def [symmetric] Let_def)
  qed
qed (auto simp: read_visible_raw_def)

lemma raw_read_sound:
  assumes "single_layout de_vv" "length bs < 2 ^ 63"
    and "read_visible_raw bs tx snapshot = Some (Some val)"
  shows "\<exists>vv. vv_from_bytes de_vv bs = Inr vv \<and> (\<forall>tx'. read_visible vv tx' snapshot = Some val)"
proof -
  from read_visible_raw_accepts [OF assms(3,2)] obtain v where
    "bs = single_bytes val v" "v \<le> snapshot" "length val < 2 ^ 63" by blast
  moreover from this(3) have "length val < 2 ^ 64" by simp
  ultimately show ?thesis
    using assms(1) by (intro exI [of _ "new_committed val v"])
      (simp add: single_layout_def vv_from_bytes_def single_bytes_def read_visible_def new_committed_def)
qed

section \<open>A concrete codec\<close>

text \<open>
  The fixed-width little-endian format, written out for \<^verbatim>\<open>VersionedValue\<close>: the codec the examples run on.
\<close>

definition enc_opt_bytes :: "bytes option \<Rightarrow> bytes" where
  "enc_opt_bytes vo = (case vo of None \<Rightarrow> [0]
     | Some v \<Rightarrow> 1 # u64_to_le_bytes (word_of_nat (length v)) @ v)"

definition enc_version :: "version_record \<Rightarrow> bytes" where
  "enc_version r = enc_opt_bytes (rec_value r) @ u64_to_le_bytes (rec_version r)"

definition enc_vv :: "versioned_value \<Rightarrow> bytes" where
  "enc_vv vv =
     (case uncommitted vv of None \<Rightarrow> [0]
      | Some u \<Rightarrow> 1 # u64_to_le_bytes (unc_tx u) @ enc_opt_bytes (unc_value u)) @
     u64_to_le_bytes (word_of_nat (length (committed_history vv))) @
     concat (map enc_version (committed_history vv))"

definition dec_u64 :: "bytes \<Rightarrow> (u64 \<times> bytes) option" where
  "dec_u64 bs = (if length bs < 8 then None else Some (u64_from_le_bytes (take 8 bs), drop 8 bs))"

fun dec_opt_bytes :: "bytes \<Rightarrow> (bytes option \<times> bytes) option" where
  "dec_opt_bytes [] = None"
| "dec_opt_bytes (b # bs) =
     (if b = 0 then Some (None, bs)
      else if b = 1 then
        do { (n, rest) \<leftarrow> dec_u64 bs;
             (if unat n \<le> length rest then Some (Some (take (unat n) rest), drop (unat n) rest) else None) }
      else None)"

fun dec_versions :: "nat \<Rightarrow> bytes \<Rightarrow> (version_record list \<times> bytes) option" where
  "dec_versions 0 bs = Some ([], bs)"
| "dec_versions (Suc n) bs =
     do { (vo, bs1) \<leftarrow> dec_opt_bytes bs;
          (v, bs2) \<leftarrow> dec_u64 bs1;
          (rs, bs3) \<leftarrow> dec_versions n bs2;
          Some (\<lparr>rec_value = vo, rec_version = v\<rparr> # rs, bs3) }"

definition dec_history :: "uncommitted_record option \<Rightarrow> bytes \<Rightarrow> versioned_value option" where
  "dec_history u bs =
     do { (n, bs1) \<leftarrow> dec_u64 bs;
          (if unat n \<le> length bs1 then
             do { (rs, _) \<leftarrow> dec_versions (unat n) bs1;
                  Some \<lparr>uncommitted = u, committed_history = rs\<rparr> }
           else None) }"

fun dec_vv_opt :: "bytes \<Rightarrow> versioned_value option" where
  "dec_vv_opt [] = None"
| "dec_vv_opt (b # bs) =
     (if b = 0 then dec_history None bs
      else if b = 1 then
        do { (tx, bs1) \<leftarrow> dec_u64 bs;
             (vo, bs2) \<leftarrow> dec_opt_bytes bs1;
             dec_history (Some \<lparr>unc_tx = tx, unc_value = vo\<rparr>) bs2 }
      else None)"

definition dec_vv :: vv_de where
  "dec_vv bs = (case dec_vv_opt bs of None \<Rightarrow> Inl (Serialization ''bincode'') | Some vv \<Rightarrow> Inr vv)"

definition opt_fits :: "bytes option \<Rightarrow> bool" where
  "opt_fits vo \<longleftrightarrow> (case vo of None \<Rightarrow> True | Some v \<Rightarrow> length v < 2 ^ 64)"

definition vv_fits :: "versioned_value \<Rightarrow> bool" where
  "vv_fits vv \<longleftrightarrow> length (committed_history vv) < 2 ^ 64 \<and>
     (\<forall>r \<in> set (committed_history vv). opt_fits (rec_value r)) \<and>
     (case uncommitted vv of None \<Rightarrow> True | Some u \<Rightarrow> opt_fits (unc_value u))"

lemma dec_u64_enc [simp]: "dec_u64 (u64_to_le_bytes w @ bs) = Some (w, bs)"
  by (simp add: dec_u64_def)

lemma dec_opt_bytes_enc [simp]: "opt_fits vo \<Longrightarrow> dec_opt_bytes (enc_opt_bytes vo @ bs) = Some (vo, bs)"
  by (auto simp: enc_opt_bytes_def opt_fits_def unat_of_nat split: option.splits)

lemma dec_versions_enc [simp]:
  "\<forall>r \<in> set rs. opt_fits (rec_value r) \<Longrightarrow>
   dec_versions (length rs) (concat (map enc_version rs) @ bs) = Some (rs, bs)"
  by (induction rs arbitrary: bs) (simp_all add: enc_version_def)

lemma length_enc_versions: "length rs \<le> length (concat (map enc_version rs))"
  by (induction rs) (auto simp: enc_version_def)

lemma dec_history_enc:
  assumes "\<forall>r \<in> set rs. opt_fits (rec_value r)" "length rs < 2 ^ 64"
  shows "dec_history u (u64_to_le_bytes (word_of_nat (length rs)) @ concat (map enc_version rs)) =
           Some \<lparr>uncommitted = u, committed_history = rs\<rparr>"
proof -
  have "unat (word_of_nat (length rs) :: u64) = length rs" using assms(2) by (simp add: unat_of_nat)
  with assms(1) length_enc_versions [of rs] dec_versions_enc [of rs "[]"] show ?thesis
    by (simp add: dec_history_def)
qed

lemma dec_enc_vv: "vv_fits vv \<Longrightarrow> dec_vv (enc_vv vv) = Inr vv"
  using dec_history_enc [of "committed_history vv"]
  by (auto simp: dec_vv_def enc_vv_def vv_fits_def split: option.splits)

lemma enc_vv_nonempty [simp]: "enc_vv vv \<noteq> []"
  by (auto simp: enc_vv_def split: option.splits)

lemma single_layout_dec_vv: "single_layout dec_vv"
proof -
  have "single_bytes val v = enc_vv (new_committed val v)" for val v
    by (simp add: single_bytes_def enc_vv_def new_committed_def enc_version_def enc_opt_bytes_def)
  then show ?thesis
    by (auto simp: single_layout_def new_committed_def vv_fits_def opt_fits_def intro!: dec_enc_vv)
qed

section \<open>Properties\<close>

text \<open>Vacuuming is invisible to every reader whose snapshot is at or above the horizon: pruning keeps
  every such read, and a value declared dead reads as absent for all of them.\<close>

theorem vacuum_invisible:
  assumes "horizon \<le> snapshot"
  shows "read_visible (fst (prune_old_versions vv horizon)) tx snapshot = read_visible vv tx snapshot \<and>
    (is_dead vv horizon \<longrightarrow> read_visible vv tx snapshot = None)"
  using prune_keeps_reads [OF assms] is_dead_reads [OF _ assms] by auto

theorem vacuum_invisible_witness:
  "(let vv = \<lparr>uncommitted = None, committed_history =
        [\<lparr>rec_value = Some [3], rec_version = 9\<rparr>, \<lparr>rec_value = Some [2], rec_version = 5\<rparr>,
         \<lparr>rec_value = Some [1], rec_version = 2\<rparr>]\<rparr> in
    length (committed_history (fst (prune_old_versions vv 6))) = 2 \<and>
    read_visible (fst (prune_old_versions vv 6)) 1 7 = read_visible vv 1 7) \<and>
   (6::u64) \<le> 7"
  using vacuum_invisible [of 6 7] by (simp add: prune_old_versions_def)

text \<open>The zero-copy read agrees with the ordinary one: when it returns a value, decoding the bytes
  succeeds and every transaction reads that value at that snapshot; and it never indexes out of
  range, whatever the bytes.\<close>

theorem raw_read_agrees:
  assumes "single_layout de_vv" "length bs < 2 ^ 63"
  shows "\<exists>r. read_visible_raw bs tx snapshot = Some r \<and>
    (\<forall>val. r = Some val \<longrightarrow>
       (\<exists>vv. vv_from_bytes de_vv bs = Inr vv \<and> (\<forall>tx'. read_visible vv tx' snapshot = Some val)))"
  using read_visible_raw_total [OF assms(2), of tx snapshot] raw_read_sound [OF assms, of tx snapshot] by auto

theorem raw_read_agrees_witness:
  "read_visible_raw (single_bytes [7, 8] 10) 1 12 = Some (Some [7, 8]) \<and>
   (\<exists>vv. vv_from_bytes dec_vv (single_bytes [7, 8] 10) = Inr vv \<and>
      (\<forall>tx'. read_visible vv tx' 12 = Some [7, 8]))"
proof -
  have raw: "read_visible_raw (single_bytes [7, 8] 10) 1 12 = Some (Some [7, 8])"
    by (simp add: read_visible_raw_single)
  show ?thesis
    using raw raw_read_agrees [OF single_layout_dec_vv, of "single_bytes [7, 8] 10" 1 12]
    by (auto simp: single_bytes_def)
qed

text \<open>A commit is atomic for readers: at the commit version and above every transaction reads the
  committed value; below it nothing changes for the other transactions, as long as the version they
  see is among the 31 newest.\<close>

theorem commit_visibility:
  assumes "uncommitted vv = Some u"
  shows "(cv \<le> snapshot \<longrightarrow> read_visible (commit_uncommitted vv cv) tx snapshot = unc_value u) \<and>
    (snapshot < cv \<and> tx \<noteq> unc_tx u \<and>
           (\<exists>r \<in> set (take 31 (committed_history vv)). rec_version r \<le> snapshot) \<longrightarrow>
         read_visible (commit_uncommitted vv cv) tx snapshot = read_visible vv tx snapshot)"
  using assms history_read_take_visible [of 31 "committed_history vv" snapshot]
  by (auto simp: read_visible_def commit_history)

theorem commit_visibility_witness:
  "(let vv = \<lparr>uncommitted = Some \<lparr>unc_tx = 4, unc_value = None\<rparr>,
              committed_history = [\<lparr>rec_value = Some [1], rec_version = 3\<rparr>]\<rparr> in
    read_visible (commit_uncommitted vv 8) 9 8 = None \<and>
    read_visible (commit_uncommitted vv 8) 9 7 = read_visible vv 9 7)"
proof -
  let ?vv = "\<lparr>uncommitted = Some \<lparr>unc_tx = 4, unc_value = None\<rparr>,
      committed_history = [\<lparr>rec_value = Some [1], rec_version = 3\<rparr>]\<rparr> :: versioned_value"
  show ?thesis
    using commit_visibility [of ?vv _ 8 8 9] commit_visibility [of ?vv _ 8 7 9] by simp
qed

text \<open>The history limit breaks snapshot reads: when a value has 32 committed versions and a snapshot
  sees only the oldest, one more commit makes the key vanish for that snapshot.\<close>

theorem history_limit_loses_snapshot:
  assumes "uncommitted vv = Some u" "length (committed_history vv) = 32" "snapshot < cv"
    and "\<forall>r \<in> set (butlast (committed_history vv)). snapshot < rec_version r"
  shows "read_visible (commit_uncommitted vv cv) tx snapshot = None"
proof -
  have "take 31 (committed_history vv) = butlast (committed_history vv)"
    using assms(2) by (simp add: butlast_conv_take)
  with assms show ?thesis
    by (auto simp: read_visible_def commit_history history_read_none)
qed

theorem history_limit_loses_snapshot_witness:
  "let vv = \<lparr>uncommitted = Some \<lparr>unc_tx = 4, unc_value = Some [2]\<rparr>,
             committed_history = replicate 31 \<lparr>rec_value = Some [1], rec_version = 9\<rparr> @
               [\<lparr>rec_value = Some [0], rec_version = 1\<rparr>]\<rparr> in
   read_visible vv 7 5 = Some [0] \<and> read_visible (commit_uncommitted vv 10) 7 5 = None"
proof -
  let ?vv = "\<lparr>uncommitted = Some \<lparr>unc_tx = 4, unc_value = Some [2]\<rparr>,
             committed_history = replicate 31 \<lparr>rec_value = Some [1], rec_version = 9\<rparr> @
               [\<lparr>rec_value = Some [0], rec_version = 1\<rparr>]\<rparr> :: versioned_value"
  have "read_visible (commit_uncommitted ?vv 10) 7 5 = None"
    by (rule history_limit_loses_snapshot) simp_all
  moreover have "read_visible ?vv 7 5 = Some [0]"
    by (simp add: read_visible_def history_read_skip)
  ultimately show ?thesis by simp
qed

end
