(* ===== verification/MV_Store.thy ===== *)
theory MV_Store
  imports MV_Map Wal Checkpoint_File Versioned
begin

text \<open>
  The store (\<^verbatim>\<open>store.rs\<close>): named maps over the checkpoint file and the write-ahead log.  Opening a store
  loads the checkpoint chain and replays the log; \<^verbatim>\<open>commit_with\<close> queues a record under the queue lock
  (\<open>commit_enqueue\<close>) and a leader makes the whole queue durable with one sync (\<open>commit_flush\<close>);
  \<^verbatim>\<open>checkpoint\<close> writes a full chunk first and deltas of the journals afterwards.  The record \<open>codecs\<close> bundles
  the serializers and the checksum, which are parameters.  A \<^verbatim>\<open>String\<close> is its byte sequence.  Locks are
  held for whole operations, so each operation is one step; the lock-free gap between queueing and
  flushing is why those are two.
\<close>

section \<open>State\<close>

record codecs =
  ser_page :: "page ser"
  de_page :: "page de"
  ser_chunk :: "chunk_payload ser"
  de_chunk :: "chunk_payload de"
  ser_delta :: "delta_payload ser"
  de_delta :: "delta_payload de"
  ser_rec :: rec_ser
  de_rec :: rec_de
  ser_vv :: vv_ser
  de_vv :: vv_de
  crc :: crc32

record mvstore =
  files :: file_store
  dsk :: disk
  wal :: wal_manager
  archiver :: "wal_archiver option"
  archive_dir :: directory
  maps :: "(string, mvmap) hashmap"
  version :: u64
  chunk_id_counter :: u32
  change_sink :: "collector option"
  checkpointed_maps :: "(string, u64) hashmap"
  has_checkpoint :: bool
  delta_depth :: u32
  pending :: "wal_record list"
  leader :: bool
  batch_start_offset :: "nat option"
  poisoned :: bool
  next_commit_version :: u64

type_synonym listener = "(u64 \<Rightarrow> replication_change list \<Rightarrow> unit h2_result) option"

definition name_bytes :: "string \<Rightarrow> bytes" where
  "name_bytes n = map (\<lambda>c. word_of_nat (of_char c)) n"

definition bytes_name :: "bytes \<Rightarrow> string" where
  "bytes_name bs = map (\<lambda>b. char_of (unat b)) bs"

section \<open>Opening a store\<close>

definition tree_of_page :: "page \<Rightarrow> u64 \<Rightarrow> mvtree" where
  "tree_of_page p v = \<lparr>root = p, max_entries_per_page = 32, tree_version = v\<rparr>"

definition load_base :: "codecs \<Rightarrow> chunk_payload option \<Rightarrow> (string, mvmap) hashmap" where
  "load_base C base =
     (case base of
        None \<Rightarrow> []
      | Some payload \<Rightarrow>
          fold (\<lambda>e ms. case de_page C (entry_value e) of
                         Inl _ \<Rightarrow> ms
                       | Inr p \<Rightarrow>
                           (let n = bytes_name (entry_key e) in
                            AList.update n (map_new n (tree_of_page p (cm_version (cp_meta payload)))) ms))
            (tree_scan_all (tree_of_page (cp_root payload) (cm_version (cp_meta payload)))) [])"

text \<open>The map changes of one \<^verbatim>\<open>MapDelta\<close>.\<close>

definition load_map_delta ::
    "codecs \<Rightarrow> u64 \<Rightarrow> (string, mvmap) hashmap \<Rightarrow> map_delta \<Rightarrow> (string, mvmap) hashmap h2_result" where
  "load_map_delta C v ms md =
     res_bind
       (case md_replace_root md of
          Some bs \<Rightarrow> res_bind (de_page C bs) (\<lambda>p. Inr (map_new (md_name md) (tree_of_page p v)))
        | None \<Rightarrow>
            (case map_of ms (md_name md) of
               Some m \<Rightarrow> Inr m
             | None \<Rightarrow> Inl (Corrupted ''Delta references missing map'')))
       (\<lambda>m. res_bind (or_panic (fold_opt apply_kv_change (if md_clear md then fst (map_clear m []) else m)
                                  (md_changes md)))
          (\<lambda>m'. Inr (AList.update (md_name md) m' ms)))"

definition load_delta ::
    "codecs \<Rightarrow> (string, mvmap) hashmap \<Rightarrow> delta_payload \<Rightarrow> (string, mvmap) hashmap h2_result" where
  "load_delta C ms delta =
     fold_res (load_map_delta C (dp_version delta)) (fold AList.delete (dp_removed_maps delta) ms) (dp_maps delta)"

definition load_chain ::
    "codecs \<Rightarrow> chunk_payload option \<Rightarrow> delta_payload list \<Rightarrow> (string, mvmap) hashmap h2_result" where
  "load_chain C base deltas = fold_res (load_delta C) (load_base C base) deltas"

text \<open>Replay of one logged change; a missing map is created with journaling on.\<close>

definition replay_change :: "(string, mvmap) hashmap \<Rightarrow> wal_change \<Rightarrow> (string, mvmap) hashmap option" where
  "replay_change ms c =
     (let m = (case map_of ms (wc_map c) of
                 Some m \<Rightarrow> m
               | None \<Rightarrow> set_journaling (map_new (wc_map c) mvtree_default) True) in
      do { m' \<leftarrow> apply_kv_change m (wc_key c, wc_value c);
           Some (AList.update (wc_map c) m' ms) })"

definition replay_records :: "wal_record list \<Rightarrow> (string, mvmap) hashmap \<Rightarrow> (string, mvmap) hashmap option" where
  "replay_records rs ms = fold_opt replay_change ms (concat (map wr_changes rs))"

definition max_record_version :: "wal_record list \<Rightarrow> u64 \<Rightarrow> u64" where
  "max_record_version rs v = fold (\<lambda>r m. if wr_version r > m then wr_version r else m) rs v"

definition store_open :: "codecs \<Rightarrow> bool \<Rightarrow> disk \<Rightarrow> bytes option \<Rightarrow> mvstore h2_result" where
  "store_open C sync d wal_disk =
     (case fs_open (crc C) sync d of
        (Inl e, _) \<Rightarrow> Inl e
      | (Inr fs, d1) \<Rightarrow>
          res_bind (read_checkpoint_chain (de_chunk C) (de_delta C) (crc C) fs d1) (\<lambda>(base, deltas).
          res_bind (load_chain C base deltas) (\<lambda>ms.
            let (records, wm) = read_all_records (crc C) (de_rec C) (wal_open wal_disk (fs_sync fs));
                v = max_record_version records (h_version (fs_header fs)) in
            res_bind (or_panic (replay_records records (map (\<lambda>(n, m). (n, set_journaling m True)) ms))) (\<lambda>ms'.
              Inr \<lparr>files = fs, dsk = d1, wal = wm, archiver = None, archive_dir = [], maps = ms', version = v,
                   chunk_id_counter = 1, change_sink = None,
                   checkpointed_maps = map (\<lambda>(n, m). (n, mod_count m)) ms,
                   has_checkpoint = (base \<noteq> None \<or> deltas \<noteq> []), delta_depth = word_of_nat (length deltas),
                   pending = [], leader = False, batch_start_offset = None, poisoned = False,
                   next_commit_version = v\<rparr>))))"

definition store_open_in_memory :: mvstore where
  "store_open_in_memory =
     \<lparr>files = fs_open_in_memory, dsk = \<lparr>main_f = None, tmp_f = None, bak_f = None, script = []\<rparr>,
      wal = wal_open_in_memory, archiver = None, archive_dir = [], maps = [], version = 0, chunk_id_counter = 1,
      change_sink = None, checkpointed_maps = [], has_checkpoint = False, delta_depth = 0, pending = [],
      leader = False, batch_start_offset = None, poisoned = False, next_commit_version = 0\<rparr>"

section \<open>Maps of a store\<close>

definition set_change_sink :: "mvstore \<Rightarrow> collector option \<Rightarrow> mvstore" where
  "set_change_sink st s =
     st\<lparr>maps := map (\<lambda>(n, m). (n, map_set_sink m (s \<noteq> None))) (maps st), change_sink := s\<rparr>"

definition open_map :: "mvstore \<Rightarrow> string \<Rightarrow> mvmap \<times> mvstore" where
  "open_map st name =
     (case map_of (maps st) name of
        Some m \<Rightarrow> (m, st)
      | None \<Rightarrow>
          (let m = map_set_sink (set_journaling (map_new name mvtree_default) (has_checkpoint st))
                     (change_sink st \<noteq> None) in
           (m, st\<lparr>maps := AList.update name m (maps st)\<rparr>)))"

definition sink_changes :: "mvstore \<Rightarrow> collector" where
  "sink_changes st = (case change_sink st of None \<Rightarrow> [] | Some c \<Rightarrow> c)"

definition set_map :: "mvstore \<Rightarrow> string \<Rightarrow> mvmap \<Rightarrow> collector \<Rightarrow> mvstore" where
  "set_map st name m c =
     st\<lparr>maps := AList.update name m (maps st), change_sink := map_option (\<lambda>_. c) (change_sink st)\<rparr>"

definition store_put :: "mvstore \<Rightarrow> string \<Rightarrow> bytes \<Rightarrow> bytes \<Rightarrow> mvstore option" where
  "store_put st name key val =
     (case open_map st name of (m, st1) \<Rightarrow>
        do { (m', c) \<leftarrow> map_put m key val (sink_changes st1); Some (set_map st1 name m' c) })"

definition store_remove :: "mvstore \<Rightarrow> string \<Rightarrow> bytes \<Rightarrow> mvstore option" where
  "store_remove st name key =
     (case open_map st name of (m, st1) \<Rightarrow>
        do { (m', _, c) \<leftarrow> map_remove m key (sink_changes st1); Some (set_map st1 name m' c) })"

definition store_apply :: "mvstore \<Rightarrow> (string \<times> bytes) \<times> bytes option \<Rightarrow> mvstore option" where
  "store_apply st ch =
     (case ch of ((name, key), Some val) \<Rightarrow> store_put st name key val
      | ((name, key), None) \<Rightarrow> store_remove st name key)"

definition rename_map :: "mvstore \<Rightarrow> string \<Rightarrow> string \<Rightarrow> mvstore h2_result" where
  "rename_map st old_name new_name =
     (case map_of (maps st) old_name of
        None \<Rightarrow> Inl (Storage ''Map not found'')
      | Some m \<Rightarrow>
          Inr (st\<lparr>maps := AList.update new_name (m\<lparr>map_name := new_name\<rparr>) (AList.delete old_name (maps st))\<rparr>))"

definition clear_map :: "mvstore \<Rightarrow> string \<Rightarrow> mvstore" where
  "clear_map st name =
     (case map_of (maps st) name of
        None \<Rightarrow> st
      | Some m \<Rightarrow> (case map_clear m (sink_changes st) of (m', c) \<Rightarrow> set_map st name m' c))"

definition remove_map :: "mvstore \<Rightarrow> string \<Rightarrow> bool \<times> mvstore" where
  "remove_map st name = (map_of (maps st) name \<noteq> None, st\<lparr>maps := AList.delete name (maps st)\<rparr>)"

definition get_map_names :: "mvstore \<Rightarrow> string list" where
  "get_map_names st = map fst (maps st)"

definition set_version :: "mvstore \<Rightarrow> u64 \<Rightarrow> mvstore" where
  "set_version st v = st\<lparr>version := v, next_commit_version := max (next_commit_version st) v\<rparr>"

section \<open>Commits\<close>

record commit_failure =
  cf_error :: h2_error
  cf_durable :: bool

text \<open>The first half of \<^verbatim>\<open>commit_with\<close>, under the queue lock; the boolean says whether the caller leads.\<close>

definition commit_enqueue ::
    "codecs \<Rightarrow> io_faults \<Rightarrow> bool \<Rightarrow> mvstore \<Rightarrow> u64 \<Rightarrow> (u64 \<Rightarrow> wal_change list h2_result) \<Rightarrow> 64 word \<Rightarrow>
     (commit_failure + bool) \<times> mvstore" where
  "commit_enqueue C flt trunc_fault st tx prepare now =
     (if poisoned st then (Inl \<lparr>cf_error = Storage ''WAL rollback failed'', cf_durable = False\<rparr>, st)
      else
        let commit_version = next_commit_version st + 1;
            st1 = st\<lparr>next_commit_version := commit_version\<rparr> in
        case prepare commit_version of
          Inl e \<Rightarrow> (Inl \<lparr>cf_error = e, cf_durable = False\<rparr>, st1)
        | Inr chs \<Rightarrow>
            (let r = \<lparr>wr_tx = tx, wr_version = commit_version, wr_changes = chs, wr_nanos = now\<rparr>;
                 before = wal_len (wal st1);
                 st2 = (if pending st1 = [] then st1\<lparr>batch_start_offset := Some before\<rparr> else st1) in
             case append_unsynced (ser_rec C) (crc C) flt (wal st2) r of
               (Inl e, wm) \<Rightarrow>
                 (Inl \<lparr>cf_error = e, cf_durable = False\<rparr>,
                  if trunc_fault then st2\<lparr>wal := wm, poisoned := True\<rparr>
                  else st2\<lparr>wal := wal_truncate_to wm before\<rparr>)
             | (Inr _, wm) \<Rightarrow>
                 (Inr (\<not> leader st2), st2\<lparr>wal := wm, pending := pending st2 @ [r], leader := True\<rparr>)))"

definition change_of :: "wal_change \<Rightarrow> (string \<times> bytes) \<times> bytes option" where
  "change_of c = ((wc_map c, wc_key c), wc_value c)"

definition record_changes :: "wal_record list \<Rightarrow> ((string \<times> bytes) \<times> bytes option) list" where
  "record_changes rs = map change_of (concat (map wr_changes rs))"

definition repl_change :: "wal_change \<Rightarrow> replication_change" where
  "repl_change c = (case wc_value c of
     Some v \<Rightarrow> change_put (wc_map c) (wc_key c) v | None \<Rightarrow> change_remove (wc_map c) (wc_key c))"

definition archive_all :: "codecs \<Rightarrow> mvstore \<Rightarrow> wal_record list \<Rightarrow> mvstore" where
  "archive_all C st rs =
     fold (\<lambda>r st. case archiver st of
                    None \<Rightarrow> st
                  | Some ar \<Rightarrow> (case archive_record (ser_rec C) (crc C) no_faults (ar, archive_dir st) r of
                                  (_, ar', dir') \<Rightarrow> st\<lparr>archiver := Some ar', archive_dir := dir'\<rparr>)) rs st"

text \<open>The leader's half: sync, publish every queued record, notify; one outcome per record.\<close>

definition commit_flush ::
    "codecs \<Rightarrow> io_faults \<Rightarrow> bool \<Rightarrow> listener \<Rightarrow> mvstore \<Rightarrow> ((commit_failure + unit) list \<times> mvstore) option" where
  "commit_flush C flt trunc_fault lst st =
     (let batch = pending st;
          start = (case batch_start_offset st of None \<Rightarrow> 0 | Some n \<Rightarrow> n);
          st1 = st\<lparr>pending := [], batch_start_offset := None, leader := False\<rparr> in
      case sync_for_commit flt (wal st1) of
        (Inl e, _) \<Rightarrow>
          Some (map (\<lambda>_. Inl \<lparr>cf_error = Storage (error_to_string e), cf_durable = False\<rparr>) batch,
                if trunc_fault then st1\<lparr>poisoned := True\<rparr> else st1\<lparr>wal := wal_sync (wal_truncate_to (wal st1) start)\<rparr>)
      | (Inr _, wm) \<Rightarrow>
          do { st2 \<leftarrow> fold_opt store_apply (st1\<lparr>wal := wm\<rparr>) (record_changes batch);
               let st3 = (if batch = [] then st2 else st2\<lparr>version := wr_version (last batch)\<rparr>);
               let st4 = archive_all C st3 batch;
               let st5 = st4\<lparr>change_sink := map_option (\<lambda>_. []) (change_sink st4)\<rparr>;
               Some (map (\<lambda>r. case lst of
                               None \<Rightarrow> Inr ()
                             | Some f \<Rightarrow> (case f (wr_version r) (map repl_change (wr_changes r)) of
                                            Inl e \<Rightarrow> Inl \<lparr>cf_error = Storage (error_to_string e), cf_durable = True\<rparr>
                                          | Inr _ \<Rightarrow> Inr ())) batch, st5) })"

section \<open>Checkpoints\<close>

text \<open>What the loop of \<^verbatim>\<open>checkpoint\<close> does with one map: the delta and metadata entry it contributes.\<close>

record map_snapshot =
  ms_name :: string
  ms_map :: mvmap
  ms_journal :: map_journal
  ms_root :: "bytes option"
  ms_delta :: "map_delta option"
  ms_count :: u64

definition checkpoint_map ::
    "codecs \<Rightarrow> bool \<Rightarrow> (string, u64) hashmap \<Rightarrow> string \<times> mvmap \<Rightarrow> (h2_error \<times> mvmap) + map_snapshot" where
  "checkpoint_map C first previous nm =
     (case nm of (name, m) \<Rightarrow>
      let m1 = (if first then set_journaling m True else m);
          count = mod_count m1;
          (j, m2) = take_journal m1;
          snap = \<lparr>ms_name = name, ms_map = m2, ms_journal = j, ms_root = None, ms_delta = None, ms_count = count\<rparr> in
      if first then
        (case get_serialized_root (ser_page C) m2 of
           (Inl e, m3) \<Rightarrow> Inl (e, restore_journal m3 j)
         | (Inr bs, m3) \<Rightarrow> Inr (snap\<lparr>ms_map := m3, ms_root := Some bs\<rparr>))
      else if \<not> hm_contains previous name then
        (case get_serialized_root (ser_page C) m2 of
           (Inl e, m3) \<Rightarrow> Inl (e, restore_journal m3 j)
         | (Inr bs, m3) \<Rightarrow>
             Inr (snap\<lparr>ms_map := m3, ms_delta :=
               Some \<lparr>md_name = name, md_replace_root = Some bs, md_clear = False, md_changes = []\<rparr>\<rparr>))
      else if journal_clear j \<or> changes j \<noteq> [] then
        Inr (snap\<lparr>ms_delta :=
          Some \<lparr>md_name = name, md_replace_root = None, md_clear = journal_clear j, md_changes = changes j\<rparr>\<rparr>)
      else Inr snap)"

definition restore_snapshot :: "map_snapshot \<Rightarrow> string \<times> mvmap" where
  "restore_snapshot s = (ms_name s, restore_journal (ms_map s) (ms_journal s))"

fun checkpoint_maps ::
    "codecs \<Rightarrow> bool \<Rightarrow> (string, u64) hashmap \<Rightarrow> (string, mvmap) hashmap \<Rightarrow> map_snapshot list \<Rightarrow>
     (h2_error \<times> (string, mvmap) hashmap) + map_snapshot list" where
  "checkpoint_maps C first previous [] done = Inr done"
| "checkpoint_maps C first previous (nm # rest) done =
     (case checkpoint_map C first previous nm of
        Inl (e, m) \<Rightarrow> Inl (e, map restore_snapshot done @ (fst nm, m) # rest)
      | Inr s \<Rightarrow> checkpoint_maps C first previous rest (done @ [s]))"

definition metadata_tree :: "(string \<times> bytes) list \<Rightarrow> mvtree option" where
  "metadata_tree roots = fold_opt (\<lambda>t (n, bs). tree_put t (name_bytes n) bs) mvtree_default roots"

definition snapshot_roots :: "map_snapshot list \<Rightarrow> (string \<times> bytes) list" where
  "snapshot_roots ss = map (\<lambda>s. (ms_name s, the (ms_root s))) (filter (\<lambda>s. ms_root s \<noteq> None) ss)"

definition snapshot_deltas :: "map_snapshot list \<Rightarrow> map_delta list" where
  "snapshot_deltas ss = map (\<lambda>s. the (ms_delta s)) (filter (\<lambda>s. ms_delta s \<noteq> None) ss)"

definition checkpoint_delta :: "mvstore \<Rightarrow> u64 \<Rightarrow> map_snapshot list \<Rightarrow> delta_payload" where
  "checkpoint_delta st v ss =
     \<lparr>dp_version = v, dp_previous_offset = 0, dp_previous_length = 0,
      dp_removed_maps = filter (\<lambda>n. \<not> hm_contains (maps st) n) (map fst (checkpointed_maps st)),
      dp_maps = snapshot_deltas ss\<rparr>"

definition write_checkpoint ::
    "codecs \<Rightarrow> bool \<Rightarrow> mvstore \<Rightarrow> u32 \<Rightarrow> u64 \<Rightarrow> map_snapshot list \<Rightarrow> file_store h2_result \<times> disk" where
  "write_checkpoint C first st cid v ss =
     (if first then
        (case metadata_tree (snapshot_roots ss) of
           None \<Rightarrow> (Inl Panic, dsk st)
         | Some t \<Rightarrow> append_and_commit (ser_chunk C) (crc C) (files st) (chunk_new cid v (root t)) (dsk st))
      else append_delta_and_commit (ser_delta C) (crc C) (files st) (checkpoint_delta st v ss) (dsk st))"

definition checkpoint :: "codecs \<Rightarrow> bool \<Rightarrow> listener \<Rightarrow> mvstore \<Rightarrow> u64 h2_result \<times> mvstore" where
  "checkpoint C wal_sync_fault lst st =
     (let new_version = version st + 1;
          cid = chunk_id_counter st + 1;
          st1 = st\<lparr>chunk_id_counter := cid\<rparr>;
          first = (\<not> has_checkpoint st) in
      case checkpoint_maps C first (checkpointed_maps st) (maps st) [] of
        Inl (e, ms) \<Rightarrow> (Inl e, st1\<lparr>maps := ms\<rparr>)
      | Inr ss \<Rightarrow>
          (let drained = sink_changes st1;
               st2 = st1\<lparr>change_sink := map_option (\<lambda>_. []) (change_sink st1)\<rparr> in
           case write_checkpoint C first st2 cid new_version ss of
             (Inl e, d) \<Rightarrow> (Inl e, st2\<lparr>dsk := d, maps := map restore_snapshot ss\<rparr>)
           | (Inr fs, d) \<Rightarrow>
               (let st3 = st2\<lparr>files := fs, dsk := d, maps := map (\<lambda>s. (ms_name s, ms_map s)) ss,
                              version := new_version,
                              next_commit_version := max (next_commit_version st2) new_version,
                              has_checkpoint := True,
                              delta_depth := (if first then delta_depth st2 else delta_depth st2 + 1),
                              checkpointed_maps := map (\<lambda>s. (ms_name s, ms_count s)) ss,
                              wal := wal_clear (wal st2)\<rparr> in
                if wal_sync_on_commit (wal st2) \<and> wal_file (wal st2) \<noteq> None \<and> wal_sync_fault
                then (Inl (Io ''sync''), st3)
                else
                  (case lst of
                     None \<Rightarrow> (Inr new_version, st3)
                   | Some f \<Rightarrow> (case f new_version drained of
                                  Inl e \<Rightarrow> (Inl e, st3)
                                | Inr _ \<Rightarrow> (Inr new_version, st3))))))"

section \<open>Compaction\<close>

text \<open>The serialized root of every map, with the caches updated.\<close>

fun serialize_maps ::
    "codecs \<Rightarrow> (string, mvmap) hashmap \<Rightarrow> (string \<times> bytes) list h2_result \<times> (string, mvmap) hashmap" where
  "serialize_maps C [] = (Inr [], [])"
| "serialize_maps C ((n, m) # ms) =
     (case get_serialized_root (ser_page C) m of
        (Inl e, m') \<Rightarrow> (Inl e, (n, m') # ms)
      | (Inr bs, m') \<Rightarrow>
          (case serialize_maps C ms of
             (Inl e, ms') \<Rightarrow> (Inl e, (n, m') # ms')
           | (Inr rs, ms') \<Rightarrow> (Inr ((n, bs) # rs), (n, m') # ms')))"

definition after_rewrite :: "mvstore \<Rightarrow> file_store \<Rightarrow> disk \<Rightarrow> mvstore" where
  "after_rewrite st fs d =
     st\<lparr>files := fs, dsk := d, wal := wal_clear (wal st),
        maps := map (\<lambda>(n, m). (n, m\<lparr>journal := journal_reset (journal m)\<rparr>)) (maps st),
        checkpointed_maps := map (\<lambda>(n, m). (n, mod_count m)) (maps st),
        delta_depth := 0, chunk_id_counter := 1, has_checkpoint := True\<rparr>"

definition reclaim_checkpoint_history :: "codecs \<Rightarrow> mvstore \<Rightarrow> u64 h2_result \<times> mvstore" where
  "reclaim_checkpoint_history C st =
     (case serialize_maps C (maps st) of
        (Inl e, ms) \<Rightarrow> (Inl e, st\<lparr>maps := ms\<rparr>)
      | (Inr roots, ms) \<Rightarrow>
          (let st1 = st\<lparr>maps := ms\<rparr>; new_version = version st + 1 in
           case metadata_tree roots of
             None \<Rightarrow> (Inl Panic, st1)
           | Some t \<Rightarrow>
               (case compact_and_rewrite (ser_chunk C) (crc C) (files st1) (chunk_new 1 new_version (root t)) (dsk st1) of
                  (Inl e, fs, d) \<Rightarrow> (Inl e, st1\<lparr>files := fs, dsk := d\<rparr>)
                | (Inr _, fs, d) \<Rightarrow>
                    (Inr new_version,
                     (after_rewrite st1 fs d)\<lparr>version := new_version,
                        next_commit_version := max (next_commit_version st1) new_version\<rparr>))))"

text \<open>The clean tree of one map: committed values at the current version only.\<close>

definition clean_entry :: "codecs \<Rightarrow> u64 \<Rightarrow> mvtree h2_result \<Rightarrow> entry \<Rightarrow> mvtree h2_result" where
  "clean_entry C cur tr e =
     res_bind tr (\<lambda>t.
       case vv_from_bytes (de_vv C) (entry_value e) of
         Inr vv \<Rightarrow>
           (case read_visible vv (- 1) cur of
              Some val \<Rightarrow> res_bind (vv_to_bytes (ser_vv C) (new_committed val cur))
                            (\<lambda>bs. or_panic (tree_put t (entry_key e) bs))
            | None \<Rightarrow> Inr t)
       | Inl _ \<Rightarrow> or_panic (tree_put t (entry_key e) (entry_value e)))"

definition clean_tree :: "codecs \<Rightarrow> u64 \<Rightarrow> mvmap \<Rightarrow> mvtree h2_result" where
  "clean_tree C cur m = foldl (clean_entry C cur) (Inr mvtree_default) (map_scan_all m)"

definition clean_roots :: "codecs \<Rightarrow> u64 \<Rightarrow> (string, mvmap) hashmap \<Rightarrow> (string \<times> bytes) list h2_result" where
  "clean_roots C cur ms =
     fold_res (\<lambda>acc (n, m). res_bind (clean_tree C cur m) (\<lambda>t.
                 res_bind (ser_page C (root t)) (\<lambda>bs. Inr (acc @ [(n, bs)])))) [] ms"

definition compact :: "codecs \<Rightarrow> mvstore \<Rightarrow> unit h2_result \<times> mvstore" where
  "compact C st =
     (case clean_roots C (version st) (maps st) of
        Inl e \<Rightarrow> (Inl e, st)
      | Inr roots \<Rightarrow>
          (case metadata_tree roots of
             None \<Rightarrow> (Inl Panic, st)
           | Some t \<Rightarrow>
               (case compact_and_rewrite (ser_chunk C) (crc C) (files st) (chunk_new 1 (version st) (root t)) (dsk st) of
                  (Inl e, fs, d) \<Rightarrow> (Inl e, st\<lparr>files := fs, dsk := d\<rparr>)
                | (Inr _, fs, d) \<Rightarrow> (Inr (), after_rewrite st fs d))))"

text \<open>\<open>elapsed\<close> says whether the interval since the last checkpoint has passed.\<close>

definition checkpoint_if_needed ::
    "codecs \<Rightarrow> bool \<Rightarrow> listener \<Rightarrow> mvstore \<Rightarrow> nat \<Rightarrow> bool \<Rightarrow> bool h2_result \<times> mvstore" where
  "checkpoint_if_needed C wal_sync_fault lst st max_wal_bytes elapsed =
     (let changed = (length (maps st) \<noteq> length (checkpointed_maps st) \<or>
                     list_ex (\<lambda>(n, m). map_of (checkpointed_maps st) n \<noteq> Some (mod_count m)) (maps st)) in
      if \<not> changed \<and> wal_len (wal st) = 0 then (Inr False, st)
      else if wal_len (wal st) < max_wal_bytes \<and> \<not> elapsed then (Inr False, st)
      else
        (case checkpoint C wal_sync_fault lst st of
           (Inl e, st1) \<Rightarrow> (Inl e, st1)
         | (Inr _, st1) \<Rightarrow>
             if delta_depth st1 \<ge> 64 then
               (case reclaim_checkpoint_history C st1 of (Inl e, st2) \<Rightarrow> (Inl e, st2) | (Inr _, st2) \<Rightarrow> (Inr True, st2))
             else (Inr True, st1)))"

section \<open>Snapshots and point-in-time recovery\<close>

definition scan_all_maps :: "mvstore \<Rightarrow> (string \<times> (bytes, bytes) kvs) list" where
  "scan_all_maps st = map (\<lambda>(n, m). (n, map kv (map_scan_all m))) (maps st)"

text \<open>Clear a map and load the pairs: the loop that applies snapshots and backups.\<close>

definition load_map :: "mvstore \<Rightarrow> string \<times> (bytes, bytes) kvs \<Rightarrow> mvstore option" where
  "load_map st np =
     (case np of (name, pairs) \<Rightarrow>
        fold_opt (\<lambda>st (k, v). store_put st name k v) (clear_map (snd (open_map st name)) name) pairs)"

definition load_maps :: "mvstore \<Rightarrow> (string \<times> (bytes, bytes) kvs) list \<Rightarrow> mvstore option" where
  "load_maps st data = fold_opt load_map st data"

definition apply_snapshot ::
    "codecs \<Rightarrow> bool \<Rightarrow> listener \<Rightarrow> mvstore \<Rightarrow> u64 \<Rightarrow> (string \<times> (bytes, bytes) kvs) list \<Rightarrow> unit h2_result \<times> mvstore" where
  "apply_snapshot C wal_sync_fault lst st target snapshot =
     (case load_maps st snapshot of
        None \<Rightarrow> (Inl Panic, st)
      | Some st1 \<Rightarrow>
          (case checkpoint C wal_sync_fault lst (st1\<lparr>version := (if target = 0 then 0 else target - 1)\<rparr>) of
             (Inl e, st2) \<Rightarrow> (Inl e, st2)
           | (Inr _, st2) \<Rightarrow> (Inr (), st2\<lparr>version := target\<rparr>)))"

definition restore_backup_data ::
    "codecs \<Rightarrow> bool \<Rightarrow> listener \<Rightarrow> mvstore \<Rightarrow> u64 \<Rightarrow> (string \<times> (bytes, bytes) kvs) list \<Rightarrow> unit h2_result \<times> mvstore" where
  "restore_backup_data C wal_sync_fault lst st snapshot_version data =
     (case load_maps st data of
        None \<Rightarrow> (Inl Panic, st)
      | Some st1 \<Rightarrow>
          (case checkpoint C wal_sync_fault lst
                  (if snapshot_version > 0 then set_version st1 snapshot_version else st1) of
             (Inl e, st2) \<Rightarrow> (Inl e, st2)
           | (Inr _, st2) \<Rightarrow> (Inr (), st2)))"

text \<open>Signed comparison for the time stamps.\<close>

definition should_apply :: "recovery_target \<Rightarrow> wal_record \<Rightarrow> bool" where
  "should_apply target r =
     (case target of
        TargetVersion v \<Rightarrow> wr_version r \<le> v
      | TimestampNanos t \<Rightarrow> wr_nanos r \<le>s t
      | TransactionId tx \<Rightarrow> wr_tx r \<le> tx
      | Latest \<Rightarrow> True)"

fun roll_forward :: "recovery_target \<Rightarrow> wal_record list \<Rightarrow> mvstore \<Rightarrow> u64 \<Rightarrow> nat \<Rightarrow> (mvstore \<times> u64 \<times> nat) option" where
  "roll_forward target [] st v n = Some (st, v, n)"
| "roll_forward target (r # rs) st v n =
     (if \<not> should_apply target r then Some (st, v, n)
      else do { st' \<leftarrow> fold_opt store_apply st (map change_of (wr_changes r));
                roll_forward target rs st' (wr_version r) (n + 1) })"

definition restore_pitr ::
    "codecs \<Rightarrow> bool \<Rightarrow> listener \<Rightarrow> mvstore \<Rightarrow> u64 \<Rightarrow> bool \<Rightarrow> (string \<times> (bytes, bytes) kvs) list \<Rightarrow>
     directory option \<Rightarrow> recovery_target \<Rightarrow> restore_report h2_result \<times> mvstore" where
  "restore_pitr C wal_sync_fault lst st base_version is_replica data dir target =
     (case load_maps st data of
        None \<Rightarrow> (Inl Panic, st)
      | Some st1 \<Rightarrow>
          (let records = (case dir of None \<Rightarrow> [] | Some dr \<Rightarrow> read_archive_records (crc C) (de_rec C) dr base_version) in
           case roll_forward target records (set_version st1 base_version) base_version 0 of
             None \<Rightarrow> (Inl Panic, st1)
           | Some (st2, v, n) \<Rightarrow>
               (case checkpoint C wal_sync_fault lst (set_version st2 v) of
                  (Inl e, st3) \<Rightarrow> (Inl e, st3)
                | (Inr _, st3) \<Rightarrow>
                    (Inr \<lparr>base_snapshot_version = base_version, final_recovered_version = v,
                          records_replayed = n, target_reached = True, is_replica_backup = is_replica\<rparr>, st3))))"

section \<open>What a store holds\<close>

definition content_of :: "(string, mvmap) hashmap \<Rightarrow> (string \<times> bytes) \<rightharpoonup> bytes" where
  "content_of ms = (\<lambda>(n, k). case map_of ms n of None \<Rightarrow> None | Some m \<Rightarrow> map_content m k)"

definition maps_wf :: "(string, mvmap) hashmap \<Rightarrow> bool" where
  "maps_wf ms \<longleftrightarrow> distinct (map fst ms) \<and> (\<forall>(n, m) \<in> set ms. map_wf m)"

abbreviation store_content :: "mvstore \<Rightarrow> (string \<times> bytes) \<rightharpoonup> bytes" where
  "store_content st \<equiv> content_of (maps st)"

abbreviation store_wf :: "mvstore \<Rightarrow> bool" where
  "store_wf st \<equiv> maps_wf (maps st)"

lemma content_of_Pair: "content_of ms (n, k) = (case map_of ms n of None \<Rightarrow> None | Some m \<Rightarrow> map_content m k)"
  by (simp add: content_of_def)

lemma maps_wf_lookup: "maps_wf ms \<Longrightarrow> map_of ms n = Some m \<Longrightarrow> map_wf m"
  by (auto simp: maps_wf_def dest: map_of_SomeD)

lemma set_update_subset: "set (AList.update k v al) \<subseteq> insert (k, v) (set al)"
  by (induction al) auto

lemma maps_wf_update: "maps_wf ms \<Longrightarrow> map_wf m \<Longrightarrow> maps_wf (AList.update n m ms)"
  using set_update_subset [of n m ms] by (auto simp: maps_wf_def distinct_update)

lemma maps_wf_delete: "maps_wf ms \<Longrightarrow> maps_wf (AList.delete n ms)"
  by (auto simp: maps_wf_def AList.delete_eq distinct_map_filter)

lemma maps_wf_Nil [simp]: "maps_wf []"
  by (simp add: maps_wf_def)

lemma map_wf_flags [simp]:
  "map_wf (set_journaling m b) = map_wf m" "map_wf (map_set_sink m b) = map_wf m"
  "map_content (set_journaling m b) = map_content m" "map_content (map_set_sink m b) = map_content m"
  by (simp_all add: map_wf_def map_content_def set_journaling_def map_set_sink_def)

declare tree_wf_default [simp]

lemma empty_map [simp]: "map_wf (map_new n mvtree_default)" "map_content (map_new n mvtree_default) = Map.empty"
  by (simp_all add: tree_wf_default)

text \<open>Updating the content of one map in the table.\<close>

lemma content_update:
  assumes "map_content m' = (case map_of ms n of None \<Rightarrow> Map.empty | Some m \<Rightarrow> map_content m)(k := vo)"
  shows "content_of (AList.update n m' ms) = (content_of ms)((n, k) := vo)"
  using assms by (auto simp: content_of_def fun_eq_iff split: option.splits)

lemma apply_kv_change_step:
  assumes "map_wf m"
  shows "\<exists>m'. apply_kv_change m (k, vo) = Some m' \<and> map_wf m' \<and> map_content m' = (map_content m)(k := vo)"
  using mapr.apply_law [OF assms, of "(k, vo)"] by simp

lemma replay_change_step:
  assumes "maps_wf ms"
  shows "\<exists>ms'. replay_change ms c = Some ms' \<and> maps_wf ms' \<and>
           content_of ms' = (content_of ms)((wc_map c, wc_key c) := wc_value c)"
proof -
  define m where "m = (case map_of ms (wc_map c) of
      Some m \<Rightarrow> m | None \<Rightarrow> set_journaling (map_new (wc_map c) mvtree_default) True)"
  have wf: "map_wf m" and cont: "map_content m = (case map_of ms (wc_map c) of None \<Rightarrow> Map.empty | Some m \<Rightarrow> map_content m)"
    using maps_wf_lookup [OF assms] by (auto simp: m_def split: option.splits)
  from apply_kv_change_step [OF wf, of "wc_key c" "wc_value c"] obtain m' where
    m': "apply_kv_change m (wc_key c, wc_value c) = Some m'" "map_wf m'"
      "map_content m' = (map_content m)(wc_key c := wc_value c)" by blast
  show ?thesis
    using m' maps_wf_update [OF assms m'(2)] content_update [of m' ms "wc_map c" "wc_key c" "wc_value c"]
    by (simp add: replay_change_def Let_def m_def [symmetric] cont)
qed

lemma wal_change_eta: "\<lparr>wc_map = wc_map c, wc_key = wc_key c, wc_value = wc_value c\<rparr> = (c :: wal_change)"
  by (cases c) simp

interpretation walr: replayable
  "\<lambda>ms c. replay_change ms \<lparr>wc_map = fst (fst c), wc_key = snd (fst c), wc_value = snd c\<rparr>" maps_wf content_of
  by unfold_locales (use replay_change_step in fastforce)

lemma replay_records_content:
  assumes "maps_wf ms"
  shows "\<exists>ms'. replay_records rs ms = Some ms' \<and> maps_wf ms' \<and>
           content_of ms' = upd_all (record_changes rs) (content_of ms)"
proof -
  have "fold_opt replay_change ms cs =
      fold_opt (\<lambda>ms c. replay_change ms \<lparr>wc_map = fst (fst c), wc_key = snd (fst c), wc_value = snd c\<rparr>) ms (map change_of cs)"
    for cs by (induction cs arbitrary: ms) (auto simp: change_of_def wal_change_eta split: option.splits)
  with walr.replay_correct [OF assms, of "record_changes rs"] show ?thesis
    by (simp add: replay_records_def record_changes_def)
qed

lemma open_map_step:
  assumes "store_wf st" "open_map st name = (m, st1)"
  shows "map_wf m" "store_wf st1" "map_of (maps st1) name = Some m" "store_content st1 = store_content st"
    "map_content m = (case map_of (maps st) name of None \<Rightarrow> Map.empty | Some m \<Rightarrow> map_content m)"
proof -
  let ?new = "map_set_sink (set_journaling (map_new name mvtree_default) (has_checkpoint st)) (change_sink st \<noteq> None)"
  show "map_wf m" "store_wf st1" "map_of (maps st1) name = Some m"
    "map_content m = (case map_of (maps st) name of None \<Rightarrow> Map.empty | Some m \<Rightarrow> map_content m)"
    using assms maps_wf_lookup [OF assms(1)] maps_wf_update [OF assms(1), of ?new name]
    by (auto simp: open_map_def Let_def split: option.splits)
  show "store_content st1 = store_content st"
    using assms(2) by (auto simp: open_map_def Let_def content_of_def fun_eq_iff split: option.splits if_splits)
qed

lemma store_apply_step:
  assumes "store_wf st"
  shows "\<exists>st'. store_apply st c = Some st' \<and> store_wf st' \<and> store_content st' = (store_content st)(fst c := snd c)"
proof -
  obtain n k vo where c: "c = ((n, k), vo)" by (metis prod.collapse)
  obtain m st1 where om: "open_map st n = (m, st1)" by force
  note o = open_map_step [OF assms om]
  have cont: "map_content m = (case map_of (maps st1) n of None \<Rightarrow> Map.empty | Some m \<Rightarrow> map_content m)"
    using o(3) by simp
  have set: "store_wf (set_map st1 n m' cc) \<and> store_content (set_map st1 n m' cc) = (store_content st)((n, k) := vo)"
    if "map_wf m'" "map_content m' = (map_content m)(k := vo)" for m' cc
    using that content_update [of m' "maps st1" n k vo] maps_wf_update [OF o(2)] o(4) cont
    by (simp add: set_map_def)
  show ?thesis
  proof (cases vo)
    case (Some v)
    with map_put_step [OF o(1), of k v "sink_changes st1"] set om show ?thesis
      by (auto simp: c store_apply_def store_put_def)
  next
    case None
    with map_remove_step [OF o(1), of k "sink_changes st1"] set om show ?thesis
      by (auto simp: c store_apply_def store_remove_def)
  qed
qed

interpretation storer: replayable store_apply store_wf store_content
  by unfold_locales (rule store_apply_step)

section \<open>Group commit and the log\<close>

text \<open>
  The log file holds the frames of the records made durable so far followed by those of the queue;
  while the queue is not empty its start is remembered.
\<close>

definition queue_inv :: "codecs \<Rightarrow> wal_record list \<Rightarrow> mvstore \<Rightarrow> bool" where
  "queue_inv C rs st \<longleftrightarrow>
     (\<exists>b q. wal_file (wal st) = Some (b @ q) \<and> is_log (crc C) (de_rec C) rs b \<and>
            is_log (crc C) (de_rec C) (pending st) q \<and>
            (pending st \<noteq> [] \<longrightarrow> batch_start_offset st = Some (length b)))"

lemma queue_inv_cong:
  "wal st' = wal st \<Longrightarrow> pending st' = pending st \<Longrightarrow> batch_start_offset st' = batch_start_offset st \<Longrightarrow>
   queue_inv C rs st' = queue_inv C rs st"
  by (simp add: queue_inv_def)

lemma queue_inv_log:
  "queue_inv C rs st \<Longrightarrow> \<exists>bs. wal_file (wal st) = Some bs \<and> is_log (crc C) (de_rec C) (rs @ pending st) bs"
  by (auto simp: queue_inv_def intro: is_log_append)

lemma wal_truncate_prefix:
  "wal_file wm = Some (b @ t) \<Longrightarrow>
     wal_truncate_to wm (length b) = wm\<lparr>wal_file := Some b, wal_durable := min (wal_durable wm) (length b)\<rparr>"
  by (simp add: wal_truncate_to_def)

text \<open>The store while a record is being appended.\<close>

definition enqueue_base :: "mvstore \<Rightarrow> mvstore" where
  "enqueue_base st =
     (let st1 = st\<lparr>next_commit_version := next_commit_version st + 1\<rparr> in
      if pending st1 = [] then st1\<lparr>batch_start_offset := Some (wal_len (wal st1))\<rparr> else st1)"

lemma enqueue_base_simps [simp]:
  "wal (enqueue_base st) = wal st" "pending (enqueue_base st) = pending st" "maps (enqueue_base st) = maps st"
  "dsk (enqueue_base st) = dsk st" "files (enqueue_base st) = files st" "leader (enqueue_base st) = leader st"
  "pending st = [] \<Longrightarrow> batch_start_offset (enqueue_base st) = Some (wal_len (wal st))"
  "pending st \<noteq> [] \<Longrightarrow> batch_start_offset (enqueue_base st) = batch_start_offset st"
  by (simp_all add: enqueue_base_def Let_def)

lemma commit_enqueue_prepared:
  assumes "\<not> poisoned st" "prepare (next_commit_version st + 1) = Inr chs"
  shows "commit_enqueue C flt False st tx prepare now =
    (let r = \<lparr>wr_tx = tx, wr_version = next_commit_version st + 1, wr_changes = chs, wr_nanos = now\<rparr> in
     case append_unsynced (ser_rec C) (crc C) flt (wal st) r of
       (Inl e, wm) \<Rightarrow> (Inl \<lparr>cf_error = e, cf_durable = False\<rparr>,
                       (enqueue_base st)\<lparr>wal := wal_truncate_to wm (wal_len (wal st))\<rparr>)
     | (Inr _, wm) \<Rightarrow> (Inr (\<not> leader st), (enqueue_base st)\<lparr>wal := wm, pending := pending st @ [r], leader := True\<rparr>))"
  using assms by (simp add: commit_enqueue_def enqueue_base_def Let_def cong: prod.case_cong sum.case_cong)

text \<open>An append either adds the frame of the record or, after the truncation, leaves the log as it was.\<close>

lemma append_or_truncate:
  assumes codec: "rec_codec (ser_rec C) (de_rec C)"
    and fits: "\<And>bs. ser_rec C r = Inr bs \<Longrightarrow> length bs < 2 ^ 32"
    and wm: "wal_file wm = Some bs" and run: "append_unsynced (ser_rec C) (crc C) flt wm r = (res, wm')"
  shows "case res of
      Inl e \<Rightarrow> wal_file (wal_truncate_to wm' (wal_len wm)) = Some bs
    | Inr _ \<Rightarrow> (\<exists>fr. wal_file wm' = Some (bs @ fr) \<and> is_log (crc C) (de_rec C) [r] fr)"
proof (cases "ser_rec C r")
  case (Inl e)
  with run wm show ?thesis by (auto simp: append_unsynced_def wal_truncate_to_def wal_len_def set_len_def)
next
  case (Inr payload)
  then have de: "de_rec C payload = Inr r" using codec by (simp add: rec_codec_def)
  note frame = is_log_frame [of "de_rec C", OF de fits [OF Inr], of "crc C"]
  show ?thesis
  proof (cases "write_fault flt")
    case None
    with run wm Inr frame show ?thesis by (auto simp: append_unsynced_def write_at_end_def)
  next
    case (Some n)
    with run wm Inr have "res = Inl (Io ''write'')" "wm' = wm\<lparr>wal_file := Some (bs @ take n (wal_frame (crc C) payload))\<rparr>"
      by (auto simp: append_unsynced_def write_at_end_def)
    with wm show ?thesis by (simp add: wal_truncate_to_def wal_len_def)
  qed
qed

lemma commit_enqueue_inv:
  assumes codec: "rec_codec (ser_rec C) (de_rec C)" and inv: "queue_inv C rs st"
    and fits: "\<And>r bs. ser_rec C r = Inr bs \<Longrightarrow> length bs < 2 ^ 32"
    and run: "commit_enqueue C flt False st tx prepare now = (res, st')"
  shows "queue_inv C rs st' \<and> maps st' = maps st \<and> dsk st' = dsk st \<and> files st' = files st \<and>
    (\<forall>b. res = Inr b \<longrightarrow> (\<exists>chs. prepare (next_commit_version st + 1) = Inr chs \<and>
       pending st' = pending st @ [\<lparr>wr_tx = tx, wr_version = next_commit_version st + 1, wr_changes = chs, wr_nanos = now\<rparr>]))"
proof -
  from inv obtain b q where bq: "wal_file (wal st) = Some (b @ q)" "is_log (crc C) (de_rec C) rs b"
    "is_log (crc C) (de_rec C) (pending st) q" "pending st \<noteq> [] \<longrightarrow> batch_start_offset st = Some (length b)"
    by (auto simp: queue_inv_def)
  then have q0: "pending st = [] \<Longrightarrow> q = []" by simp
  show ?thesis
  proof (cases "poisoned st \<or> (\<exists>e. prepare (next_commit_version st + 1) = Inl e)")
    case True
    then obtain nv f where "st' = st\<lparr>next_commit_version := nv\<rparr>" "res = Inl f"
    proof (cases "poisoned st")
      case True
      with run that [of "next_commit_version st"] show thesis by (auto simp: commit_enqueue_def)
    next
      case False
      with True run that [of "next_commit_version st + 1"] show thesis
        by (auto simp: commit_enqueue_def Let_def)
    qed
    with inv queue_inv_cong [of st' st C rs] show ?thesis by simp
  next
    case False
    then obtain chs where chs: "prepare (next_commit_version st + 1) = Inr chs" "\<not> poisoned st"
      by (cases "prepare (next_commit_version st + 1)") auto
    define r where "r = \<lparr>wr_tx = tx, wr_version = next_commit_version st + 1, wr_changes = chs, wr_nanos = now\<rparr>"
    obtain ares wm where app: "append_unsynced (ser_rec C) (crc C) flt (wal st) r = (ares, wm)" by force
    have out: "case ares of
        Inl e \<Rightarrow> wal_file (wal_truncate_to wm (wal_len (wal st))) = Some (b @ q)
      | Inr _ \<Rightarrow> (\<exists>fr. wal_file wm = Some ((b @ q) @ fr) \<and> is_log (crc C) (de_rec C) [r] fr)"
      by (rule append_or_truncate [OF codec _ bq(1) app]) (rule fits)
    note run' = run [unfolded commit_enqueue_prepared [of st prepare chs, OF chs(2,1)] Let_def, folded r_def, unfolded app]
    show ?thesis
    proof (cases ares)
      case (Inl e)
      with run' have st': "st' = (enqueue_base st)\<lparr>wal := wal_truncate_to wm (wal_len (wal st))\<rparr>" "\<forall>b. res \<noteq> Inr b"
        by auto
      have "queue_inv C rs st'" unfolding queue_inv_def
        by (rule exI [of _ b], rule exI [of _ q]) (use st' out Inl bq in auto)
      with st' show ?thesis by simp
    next
      case (Inr u)
      with run' have st': "st' = (enqueue_base st)\<lparr>wal := wm, pending := pending st @ [r], leader := True\<rparr>"
        by auto
      from out Inr obtain fr where fr: "wal_file wm = Some ((b @ q) @ fr)" "is_log (crc C) (de_rec C) [r] fr" by auto
      have "queue_inv C rs st'" unfolding queue_inv_def
        by (rule exI [of _ b], rule exI [of _ "q @ fr"])
          (cases "pending st = []"; use st' fr bq q0 is_log_append [OF bq(3) fr(2)] in \<open>simp add: wal_len_def\<close>)
      with st' chs show ?thesis by (simp add: r_def)
    qed
  qed
qed

lemma archive_all_frame [simp]:
  "wal (archive_all C st rs) = wal st" "maps (archive_all C st rs) = maps st"
  "pending (archive_all C st rs) = pending st" "dsk (archive_all C st rs) = dsk st"
  "files (archive_all C st rs) = files st" "version (archive_all C st rs) = version st"
  unfolding archive_all_def
  by (induction rs arbitrary: st) (auto split: option.splits prod.splits)

text \<open>Applying changes touches only the maps and the change sink.\<close>

definition same_frame :: "mvstore \<Rightarrow> mvstore \<Rightarrow> bool" where
  "same_frame st st' \<longleftrightarrow> st' = st\<lparr>maps := maps st', change_sink := change_sink st'\<rparr>"

lemma same_frameD:
  assumes "same_frame st st'"
  shows "wal st' = wal st" "dsk st' = dsk st" "files st' = files st" "pending st' = pending st"
    "version st' = version st" "batch_start_offset st' = batch_start_offset st" "has_checkpoint st' = has_checkpoint st"
    "checkpointed_maps st' = checkpointed_maps st"
  using arg_cong [OF assms [unfolded same_frame_def], of wal] arg_cong [OF assms [unfolded same_frame_def], of dsk]
    arg_cong [OF assms [unfolded same_frame_def], of files] arg_cong [OF assms [unfolded same_frame_def], of pending]
    arg_cong [OF assms [unfolded same_frame_def], of version]
    arg_cong [OF assms [unfolded same_frame_def], of batch_start_offset]
    arg_cong [OF assms [unfolded same_frame_def], of has_checkpoint]
    arg_cong [OF assms [unfolded same_frame_def], of checkpointed_maps]
  by simp_all

lemma same_frame_trans: "same_frame a b \<Longrightarrow> same_frame b c \<Longrightarrow> same_frame a c"
  by (cases a; cases b; cases c) (simp add: same_frame_def)

lemma store_apply_frame:
  assumes "store_apply st c = Some st'" shows "same_frame st st'"
  using assms
  by (auto simp: store_apply_def store_put_def store_remove_def open_map_def set_map_def same_frame_def Let_def
      bind_eq_Some_conv split: prod.splits option.splits)

lemma store_applies_frame: "fold_opt store_apply st cs = Some st' \<Longrightarrow> same_frame st st'"
proof (induction cs arbitrary: st)
  case (Cons c cs)
  then obtain st1 where "store_apply st c = Some st1" "fold_opt store_apply st1 cs = Some st'"
    by (auto split: option.splits)
  with Cons.IH store_apply_frame same_frame_trans show ?case by blast
qed (simp add: same_frame_def)

lemma commit_flush_fails:
  assumes inv: "queue_inv C rs st" and ne: "pending st \<noteq> []"
    and err: "fst (sync_for_commit flt (wal st)) = Inl e"
    and run: "commit_flush C flt False lst st = Some (outs, st')"
  shows "queue_inv C rs st' \<and> pending st' = [] \<and> maps st' = maps st \<and> dsk st' = dsk st \<and> files st' = files st \<and>
    outs = map (\<lambda>_. Inl \<lparr>cf_error = Storage (error_to_string e), cf_durable = False\<rparr>) (pending st)"
proof -
  from inv ne obtain b q where bq: "wal_file (wal st) = Some (b @ q)" "is_log (crc C) (de_rec C) rs b"
    "batch_start_offset st = Some (length b)" by (auto simp: queue_inv_def)
  with run err wal_truncate_prefix [OF bq(1)] show ?thesis
    by (auto simp: commit_flush_def Let_def queue_inv_def wal_sync_def split: prod.splits)
qed

lemma sync_for_commit_file [simp]: "wal_file (snd (sync_for_commit flt wm)) = wal_file wm"
  "wal_sync_on_commit (snd (sync_for_commit flt wm)) = wal_sync_on_commit wm"
  by (auto simp: sync_for_commit_def split: option.splits)

lemma commit_flush_publishes:
  assumes inv: "queue_inv C rs st" and wf: "store_wf st" and ok: "fst (sync_for_commit flt (wal st)) = Inr ()"
  shows "\<exists>outs st'. commit_flush C flt tf lst st = Some (outs, st') \<and> queue_inv C (rs @ pending st) st' \<and>
    pending st' = [] \<and> store_wf st' \<and> store_content st' = upd_all (record_changes (pending st)) (store_content st) \<and>
    dsk st' = dsk st \<and> files st' = files st \<and> (pending st \<noteq> [] \<longrightarrow> version st' = wr_version (last (pending st))) \<and>
    length outs = length (pending st) \<and> wal st' = snd (sync_for_commit flt (wal st))"
proof -
  obtain wm where sync: "sync_for_commit flt (wal st) = (Inr (), wm)"
    using ok by (cases "sync_for_commit flt (wal st)") simp
  then have wfile: "wal_file wm = wal_file (wal st)" using sync_for_commit_file [of flt "wal st"] by simp
  define st1 where "st1 = st\<lparr>pending := [], batch_start_offset := None, leader := False, wal := wm\<rparr>"
  have wf1: "store_wf st1" using wf by (simp add: st1_def)
  from storer.replay_correct [OF wf1, of "record_changes (pending st)"] obtain st2 where
    st2: "fold_opt store_apply st1 (record_changes (pending st)) = Some st2" "store_wf st2"
      "store_content st2 = upd_all (record_changes (pending st)) (store_content st)" by (auto simp: st1_def)
  note fr = same_frameD [OF store_applies_frame [OF st2(1)]]
  define st3 where "st3 = (if pending st = [] then st2 else st2\<lparr>version := wr_version (last (pending st))\<rparr>)"
  define st5 where "st5 = (archive_all C st3 (pending st))\<lparr>change_sink := map_option (\<lambda>_. []) (change_sink (archive_all C st3 (pending st)))\<rparr>"
  have st5: "wal st5 = wm" "pending st5 = []" "maps st5 = maps st2" "dsk st5 = dsk st" "files st5 = files st"
    "pending st \<noteq> [] \<longrightarrow> version st5 = wr_version (last (pending st))"
    using fr by (simp_all add: st5_def st3_def st1_def)
  from queue_inv_log [OF inv] obtain bs where "wal_file (wal st) = Some bs" "is_log (crc C) (de_rec C) (rs @ pending st) bs"
    by blast
  then have "queue_inv C (rs @ pending st) st5" unfolding queue_inv_def
    by (intro exI [of _ bs] exI [of _ "[]"]) (simp add: st5 wfile)
  moreover have "\<exists>outs. commit_flush C flt tf lst st = Some (outs, st5) \<and> length outs = length (pending st)"
    using sync st2(1) by (simp add: commit_flush_def Let_def st1_def st3_def st5_def)
  ultimately show ?thesis using st2 st5 sync by auto
qed

section \<open>Recovery\<close>

lemma maps_wf_journaling: "maps_wf ms \<Longrightarrow> maps_wf (map (\<lambda>(n, m). (n, set_journaling m True)) ms)"
  by (auto simp: maps_wf_def comp_def split_def)

lemma map_of_mapped: "map_of (map (\<lambda>(n, m). (n, g n m)) ms) n = map_option (g n) (map_of ms n)"
  by (induction ms) auto

lemma content_journaling: "content_of (map (\<lambda>(n, m). (n, set_journaling m True)) ms) = content_of ms"
  by (auto simp: content_of_def fun_eq_iff map_of_mapped split: option.splits)

text \<open>Opening a store yields the checkpointed content with the changes of all intact log records applied in order.\<close>

lemma store_open_content:
  assumes fs: "fs_open (crc C) sync d = (Inr fs, d1)"
    and chain: "read_checkpoint_chain (de_chunk C) (de_delta C) (crc C) fs d1 = Inr (base, deltas)"
    and load: "load_chain C base deltas = Inr ms" and wf: "maps_wf ms"
    and log: "is_log (crc C) (de_rec C) rs bs" "next_frame (crc C) (de_rec C) t = None"
  shows "\<exists>st. store_open C sync d (Some (bs @ t)) = Inr st \<and> store_wf st \<and>
     store_content st = upd_all (record_changes rs) (content_of ms) \<and> wal_file (wal st) = Some bs \<and>
     queue_inv C rs st \<and> version st = max_record_version rs (h_version (fs_header fs)) \<and>
     checkpointed_maps st = map (\<lambda>(n, m). (n, mod_count m)) ms"
proof -
  define wm where "wm = snd (read_all_records (crc C) (de_rec C) (wal_open (Some (bs @ t)) (fs_sync fs)))"
  have rd: "read_all_records (crc C) (de_rec C) (wal_open (Some (bs @ t)) (fs_sync fs)) = (rs, wm)"
    and wfile: "wal_file wm = Some bs"
    using read_frames_exact [OF log] by (auto simp: read_all_records_def wal_open_def wm_def)
  from replay_records_content [OF maps_wf_journaling [OF wf], of rs] obtain ms' where
    ms': "replay_records rs (map (\<lambda>(n, m). (n, set_journaling m True)) ms) = Some ms'" "maps_wf ms'"
      "content_of ms' = upd_all (record_changes rs) (content_of ms)"
    by (auto simp: content_journaling)
  from fs chain load rd ms' log(1) show ?thesis
    by (simp add: store_open_def queue_inv_def wfile Let_def)
qed

section \<open>Crashes after a commit\<close>

definition recs_fit :: "codecs \<Rightarrow> bool" where
  "recs_fit C \<longleftrightarrow> (\<forall>r bs. ser_rec C r = Inr bs \<longrightarrow> length bs < 2 ^ 32)"

text \<open>What a crash can leave of the log: all that is durable and any part of what was written after it.\<close>

definition crash_image :: "wal_manager \<Rightarrow> bytes \<Rightarrow> bool" where
  "crash_image wm bs \<longleftrightarrow> (\<exists>file n. wal_file wm = Some file \<and> wal_durable wm \<le> n \<and> bs = take n file)"

text \<open>
  The states reached by further commits, each queued or refused, each queue flushed or dropped after a
  failed sync.  The first component is the list of the records in the log before the queue.
\<close>

inductive commits :: "codecs \<Rightarrow> wal_record list \<times> mvstore \<Rightarrow> wal_record list \<times> mvstore \<Rightarrow> bool" for C s where
  commits_refl: "commits C s s"
| commits_enqueue: "commits C s (rs, st) \<Longrightarrow> commit_enqueue C flt False st tx prepare now = (res, st') \<Longrightarrow>
    commits C s (rs, st')"
| commits_flush: "commits C s (rs, st) \<Longrightarrow> fst (sync_for_commit flt (wal st)) = Inr () \<Longrightarrow>
    commit_flush C flt tf lst st = Some (outs, st') \<Longrightarrow> commits C s (rs @ pending st, st')"
| commits_fail: "commits C s (rs, st) \<Longrightarrow> pending st \<noteq> [] \<Longrightarrow> fst (sync_for_commit flt (wal st)) = Inl e \<Longrightarrow>
    commit_flush C flt False lst st = Some (outs, st') \<Longrightarrow> commits C s (rs, st')"

definition kept :: "bytes \<Rightarrow> mvstore \<Rightarrow> bool" where
  "kept b st \<longleftrightarrow> (\<exists>t. wal_file (wal st) = Some (b @ t)) \<and> length b \<le> wal_durable (wal st)"

lemma append_unsynced_grows:
  assumes "append_unsynced ser cs flt wm r = (res, wm')" "wal_file wm = Some f"
  shows "\<exists>t. wal_file wm' = Some (f @ t)" "wal_durable wm' = wal_durable wm"
  using assms by (auto simp: append_unsynced_def write_at_end_def split: sum.splits option.splits prod.splits)

lemma kept_enqueue:
  assumes "kept b st" "commit_enqueue C flt False st tx prepare now = (res, st')"
  shows "kept b st'"
proof (cases "poisoned st \<or> (\<exists>e. prepare (next_commit_version st + 1) = Inl e)")
  case True
  then have "wal st' = wal st"
    using assms(2) by (cases "poisoned st") (auto simp: commit_enqueue_def Let_def)
  with assms(1) show ?thesis by (simp add: kept_def)
next
  case False
  then obtain chs where chs: "\<not> poisoned st" "prepare (next_commit_version st + 1) = Inr chs"
    by (cases "prepare (next_commit_version st + 1)") auto
  from assms(1) obtain t where t: "wal_file (wal st) = Some (b @ t)" "length b \<le> wal_durable (wal st)"
    by (auto simp: kept_def)
  define r where "r = \<lparr>wr_tx = tx, wr_version = next_commit_version st + 1, wr_changes = chs, wr_nanos = now\<rparr>"
  obtain ares wm where app: "append_unsynced (ser_rec C) (crc C) flt (wal st) r = (ares, wm)" by force
  from append_unsynced_grows [OF app t(1)] obtain u where
    u: "wal_file wm = Some (b @ t @ u)" "wal_durable wm = wal_durable (wal st)" by auto
  from assms(2) [unfolded commit_enqueue_prepared [of st prepare, OF chs] Let_def, folded r_def, unfolded app]
  have "wal st' = wm \<or> wal st' = wal_truncate_to wm (wal_len (wal st))" by (auto split: sum.splits)
  then show ?thesis
    using u t by (auto simp: kept_def wal_truncate_to_def wal_len_def set_len_def)
qed

lemma commits_inv:
  assumes codec: "rec_codec (ser_rec C) (de_rec C)" and fits: "recs_fit C"
    and run: "commits C (rs, st) s" and b: "is_log (crc C) (de_rec C) rs b"
    and inv: "queue_inv C rs st" "store_wf st" "kept b st"
  shows "queue_inv C (fst s) (snd s) \<and> store_wf (snd s) \<and> prefix rs (fst s) \<and> kept b (snd s) \<and> dsk (snd s) = dsk st"
  using run
proof induction
  case commits_refl
  with inv show ?case by simp
next
  case (commits_enqueue rs' st' flt tx prepare now res st'')
  from commit_enqueue_inv [OF codec _ _ commits_enqueue.hyps(2), of rs'] commits_enqueue.IH fits
    kept_enqueue [OF _ commits_enqueue.hyps(2)]
  show ?case by (auto simp: recs_fit_def)
next
  case (commits_flush rs' st' flt tf lst outs st'')
  then have IH: "queue_inv C rs' st'" "store_wf st'" "prefix rs rs'" "kept b st'" "dsk st' = dsk st" by auto
  from commit_flush_publishes [OF IH(1,2) commits_flush.hyps(2), of tf lst] commits_flush.hyps(3)
  have st'': "queue_inv C (rs' @ pending st') st''" "store_wf st''" "dsk st'' = dsk st'"
    "wal st'' = snd (sync_for_commit flt (wal st'))" by auto
  have "kept b st''" using IH(4) st''(4)
    by (auto simp: kept_def sync_for_commit_def split: option.splits if_splits)
  with st'' IH show ?case by simp
next
  case (commits_fail rs' st' flt e lst outs st'')
  then have IH: "queue_inv C rs' st'" "store_wf st'" "prefix rs rs'" "kept b st'" "dsk st' = dsk st" by auto
  from IH(1) commits_fail.hyps(2) obtain b' q where
    bq: "wal_file (wal st') = Some (b' @ q)" "is_log (crc C) (de_rec C) rs' b'" "batch_start_offset st' = Some (length b')"
    by (auto simp: queue_inv_def)
  from IH(4) obtain t where t: "wal_file (wal st') = Some (b @ t)" by (auto simp: kept_def)
  have eq: "b @ t = b' @ q" using t bq(1) by simp
  from IH(3) obtain x where "rs' = rs @ x" by (auto simp: prefix_def)
  with is_log_prefix [OF b _ eq] bq(2) have le: "length b \<le> length b'" by simp
  with eq have "take (length b) b' = b" by (metis append_eq_append_conv_if append_take_drop_id)
  then have "b' = b @ drop (length b) b'" by (metis append_take_drop_id)
  moreover have "wal st'' = wal_sync ((wal st')\<lparr>wal_file := Some b', wal_durable := min (wal_durable (wal st')) (length b')\<rparr>)"
    using commits_fail.hyps(3,4) bq(3) wal_truncate_prefix [OF bq(1)]
    by (auto simp: commit_flush_def Let_def split: prod.splits)
  ultimately have "kept b st''" using le by (auto simp: kept_def wal_sync_def)
  with commit_flush_fails [OF IH(1) commits_fail.hyps(2-4)] IH show ?case by auto
qed

lemma crash_recovers:
  assumes codec: "rec_codec (ser_rec C) (de_rec C)" and fits: "recs_fit C"
    and run: "commits C (rs, st) (rs2, st2)" and b: "is_log (crc C) (de_rec C) rs b"
    and inv: "queue_inv C rs st" "store_wf st" "kept b st"
    and crash: "crash_image (wal st2) bs"
    and fs: "fs_open (crc C) sync (dsk st) = (Inr fs, d1)"
    and chain: "read_checkpoint_chain (de_chunk C) (de_delta C) (crc C) fs d1 = Inr (base, deltas)"
    and load: "load_chain C base deltas = Inr ms" "maps_wf ms"
  shows "\<exists>later st3. prefix (rs @ later) (rs2 @ pending st2) \<and> store_open C sync (dsk st2) (Some bs) = Inr st3 \<and>
    store_content st3 = upd_all (record_changes (rs @ later)) (content_of ms)"
proof -
  have I: "queue_inv C rs2 st2" "prefix rs rs2" "kept b st2" "dsk st2 = dsk st"
    using commits_inv [OF codec fits run b inv] by auto
  from queue_inv_log [OF I(1)] obtain f where f: "wal_file (wal st2) = Some f"
    "is_log (crc C) (de_rec C) (rs2 @ pending st2) f" by blast
  from I(3) f(1) obtain g where g: "f = b @ g" "length b \<le> wal_durable (wal st2)" by (auto simp: kept_def)
  from I(2) obtain x where x: "rs2 = rs @ x" by (auto simp: prefix_def)
  from is_log_cancel [OF b] f(2) g(1) x have lg: "is_log (crc C) (de_rec C) (x @ pending st2) g" by simp
  from crash f(1) g obtain n where bs: "bs = b @ take (n - length b) g"
    by (auto simp: crash_image_def)
  from is_log_cut [OF lg, of "n - length b"] obtain k c t where
    k: "take (n - length b) g = c @ t" "is_log (crc C) (de_rec C) (take k (x @ pending st2)) c"
      "next_frame (crc C) (de_rec C) t = None" by blast
  let ?later = "take k (x @ pending st2)"
  from store_open_content [OF fs chain load is_log_append [OF b k(2)] k(3)] obtain st3 where
    "store_open C sync (dsk st) (Some ((b @ c) @ t)) = Inr st3"
    "store_content st3 = upd_all (record_changes (rs @ ?later)) (content_of ms)" by blast
  moreover have "prefix (rs @ ?later) (rs2 @ pending st2)" unfolding x append_assoc
    by (simp only: same_prefix_prefix take_is_prefix)
  ultimately show ?thesis using bs k(1) I(4) by (intro exI [of _ ?later] exI [of _ st3]) simp
qed

section \<open>Checkpoints restore the store\<close>

text \<open>The view of a table of maps: which maps there are and what they hold.\<close>

definition view :: "(string, mvmap) hashmap \<Rightarrow> string \<rightharpoonup> (bytes \<rightharpoonup> bytes)" where
  "view ms = (\<lambda>n. map_option map_content (map_of ms n))"

lemma content_view: "content_of ms (n, k) = (case view ms n of None \<Rightarrow> None | Some f \<Rightarrow> f k)"
  by (simp add: content_of_def view_def split: option.split)

lemma view_content: "view ms = view ms' \<Longrightarrow> content_of ms = content_of ms'"
  by (rule ext) (metis content_view surj_pair)

lemma view_update [simp]: "view (AList.update n m ms) = (view ms)(n \<mapsto> map_content m)"
  by (auto simp: view_def)

lemma view_delete [simp]: "view (AList.delete n ms) = (view ms)(n := None)"
  by (auto simp: view_def)

lemma fold_delete:
  "maps_wf ms \<Longrightarrow> maps_wf (fold AList.delete ns ms)"
  "view (fold AList.delete ns ms) = (\<lambda>n. if n \<in> set ns then None else view ms n)"
  by (induction ns arbitrary: ms) (auto simp: maps_wf_delete)

definition page_codec :: "codecs \<Rightarrow> bool" where
  "page_codec C \<longleftrightarrow> codec (ser_page C) (de_page C)"

lemma page_map:
  assumes "tree_wf t"
  shows "map_wf (map_new n (tree_of_page (root t) v))"
    "map_content (map_new n (tree_of_page (root t) v)) = map_of (tree_kvs t)"
  using assms by (simp_all add: tree_wf_def tree_of_page_def map_wf_def map_new_def journal_default_def
      map_content_def tree_kvs_def)

text \<open>Loading the changes of a journal applies the journal.\<close>

lemma load_changes:
  assumes "map_wf d" "distinct (map fst (changes j))"
  shows "\<exists>m'. fold_opt apply_kv_change (if journal_clear j then fst (map_clear d []) else d) (changes j) = Some m' \<and>
     map_wf m' \<and> map_content m' = journal_apply j (map_content d)"
proof -
  define d1 where "d1 = (if journal_clear j then fst (map_clear d []) else d)"
  have d1: "map_wf d1" "map_content d1 = (if journal_clear j then Map.empty else map_content d)"
    using assms(1) map_clear_step(1,2) [OF assms(1), of "[]", OF prod.collapse [symmetric]] by (auto simp: d1_def)
  have "upd_all (changes j) (map_content d1) = journal_apply j (map_content d)"
    by (rule ext) (simp add: d1 journal_apply_def upd_all_distinct [OF assms(2)] split: option.split)
  with mapr.replay_correct [OF d1(1), of "changes j"] show ?thesis
    unfolding d1_def [symmetric] by auto
qed

lemma load_journal_delta:
  assumes "maps_wf dm" "map_of dm n = Some d" "distinct (map fst (changes j))"
  shows "\<exists>ms'. load_map_delta C v dm \<lparr>md_name = n, md_replace_root = None, md_clear = journal_clear j, md_changes = changes j\<rparr> = Inr ms' \<and>
     maps_wf ms' \<and> view ms' = (view dm)(n \<mapsto> journal_apply j (map_content d))"
  using load_changes [OF maps_wf_lookup [OF assms(1,2)] assms(3)] assms(1,2)
  by (auto simp: load_map_delta_def maps_wf_update)

lemma load_root_delta:
  assumes "maps_wf dm" "tree_wf t" "page_codec C" "ser_page C (root t) = Inr bs"
  shows "\<exists>ms'. load_map_delta C v dm \<lparr>md_name = n, md_replace_root = Some bs, md_clear = False, md_changes = []\<rparr> = Inr ms' \<and>
     maps_wf ms' \<and> view ms' = (view dm)(n \<mapsto> map_of (tree_kvs t))"
  using assms page_map [OF assms(2), of n v]
  by (auto simp: load_map_delta_def maps_wf_update page_codec_def codec_def)

text \<open>
  The invariant that makes deltas sound, relative to the maps \<open>dm\<close> a recovery would load: journals of
  checkpointed maps describe the difference to \<open>dm\<close>, and root caches are not stale.
\<close>

definition tracked_map :: "codecs \<Rightarrow> (string, u64) hashmap \<Rightarrow> (string, mvmap) hashmap \<Rightarrow> string \<Rightarrow> mvmap \<Rightarrow> bool" where
  "tracked_map C previous dm n m \<longleftrightarrow>
     fst (get_serialized_root (ser_page C) m) = ser_page C (root (tree m)) \<and>
     (hm_contains previous n \<longrightarrow> enabled (journal m) \<and>
        (\<exists>d. map_of dm n = Some d \<and> map_content m = journal_apply (journal m) (map_content d)))"

definition tracked :: "codecs \<Rightarrow> mvstore \<Rightarrow> (string, mvmap) hashmap \<Rightarrow> bool" where
  "tracked C st dm \<longleftrightarrow>
     set (map fst (checkpointed_maps st)) = set (map fst dm) \<and>
     (\<forall>(n, m) \<in> set (maps st). tracked_map C (checkpointed_maps st) dm n m)"

lemma serialized_root_fields:
  assumes "tree m' = tree m" "mod_count m' = mod_count m" "cached_root m' = cached_root m"
  shows "fst (get_serialized_root sp m') = fst (get_serialized_root sp m)"
  using assms by (auto simp: get_serialized_root_def Let_def split: option.splits sum.splits)

lemma get_serialized_root_map:
  "get_serialized_root sp m = (r, m') \<Longrightarrow>
   map_name m' = map_name m \<and> tree m' = tree m \<and> journal m' = journal m \<and> mod_count m' = mod_count m \<and> sink m' = sink m"
  by (auto simp: get_serialized_root_def Let_def split: option.splits sum.splits if_splits)

text \<open>One map of a delta checkpoint: what its contribution makes of the recovered maps.\<close>

lemma checkpoint_map_loads:
  assumes wf: "map_wf m" "maps_wf ms" and pc: "page_codec C"
    and tr: "tracked_map C previous dm n m" and same: "hm_contains previous n \<longrightarrow> view ms n = view dm n"
    and cp: "checkpoint_map C False previous (n, m) = Inr s"
  shows "\<exists>ms'. fold_res (load_map_delta C v) ms (case ms_delta s of None \<Rightarrow> [] | Some md \<Rightarrow> [md]) = Inr ms' \<and>
     maps_wf ms' \<and> view ms' = (view ms)(n \<mapsto> map_content m)"
proof -
  define j where "j = journal m"
  define m2 where "m2 = snd (take_journal m)"
  have m2: "take_journal m = (j, m2)" by (simp add: m2_def j_def take_journal_def)
  have root: "fst (get_serialized_root (ser_page C) m2) = ser_page C (root (tree m))"
    using tr serialized_root_fields [of m2 m "ser_page C"]
    by (simp add: tracked_map_def m2_def take_journal_def)
  have tw: "tree_wf (tree m)" and dj: "distinct (map fst (changes j))" using wf(1) by (simp_all add: map_wf_def j_def)
  show ?thesis
  proof (cases "hm_contains previous n")
    case False
    obtain r m3 where gr: "get_serialized_root (ser_page C) m2 = (r, m3)" by force
    with cp False m2 obtain bs where bs: "r = Inr bs"
      "ms_delta s = Some \<lparr>md_name = n, md_replace_root = Some bs, md_clear = False, md_changes = []\<rparr>"
      by (auto simp: checkpoint_map_def Let_def split: sum.splits)
    with gr root have "ser_page C (root (tree m)) = Inr bs" by simp
    from load_root_delta [OF wf(2) tw pc this, of v n] bs(2) show ?thesis
      by (auto simp: map_content_def)
  next
    case True
    with tr obtain d where d: "map_of dm n = Some d" "map_content m = journal_apply j (map_content d)"
      by (auto simp: tracked_map_def j_def)
    with True same obtain e where e: "map_of ms n = Some e" "map_content e = map_content d"
      by (auto simp: view_def)
    show ?thesis
    proof (cases "journal_clear j \<or> changes j \<noteq> []")
      case c: True
      with cp True m2 have "ms_delta s =
          Some \<lparr>md_name = n, md_replace_root = None, md_clear = journal_clear j, md_changes = changes j\<rparr>"
        by (auto simp: checkpoint_map_def Let_def)
      with load_journal_delta [OF wf(2) e(1) dj, of C v] d e(2) show ?thesis by auto
    next
      case c: False
      with cp True m2 have "ms_delta s = None" by (auto simp: checkpoint_map_def Let_def)
      moreover have "map_content m = map_content e" using c d e by (simp add: journal_apply_def fun_eq_iff)
      ultimately show ?thesis using wf(2) e(1) by (auto simp: view_def fun_eq_iff)
    qed
  qed
qed

lemma checkpoint_maps_all:
  "checkpoint_maps C first previous ms acc = Inr ss \<Longrightarrow>
   \<exists>ss'. ss = acc @ ss' \<and> list_all2 (\<lambda>nm s. checkpoint_map C first previous nm = Inr s) ms ss'"
proof (induction C first previous ms acc rule: checkpoint_maps.induct)
  case (2 C first previous nm rest acc)
  then obtain s where s: "checkpoint_map C first previous nm = Inr s"
    "checkpoint_maps C first previous rest (acc @ [s]) = Inr ss" by (auto split: sum.splits prod.splits)
  from "2.IH" [OF s(1,2)] s(1) show ?case by auto
qed simp

lemma snapshot_deltas_Cons:
  "snapshot_deltas (s # ss) = (case ms_delta s of None \<Rightarrow> [] | Some md \<Rightarrow> [md]) @ snapshot_deltas ss"
  by (auto simp: snapshot_deltas_def split: option.splits)

lemma fold_res_append:
  "fold_res f s (xs @ ys) = (case fold_res f s xs of Inl e \<Rightarrow> Inl e | Inr s' \<Rightarrow> fold_res f s' ys)"
  by (induction xs arbitrary: s) (auto split: sum.splits)

text \<open>All maps of a delta checkpoint.\<close>

lemma snapshot_deltas_load:
  assumes "list_all2 (\<lambda>nm s. checkpoint_map C False previous nm = Inr s) nms ss"
    and "distinct (map fst nms)" "\<forall>(n, m) \<in> set nms. map_wf m \<and> tracked_map C previous dm n m"
    and "page_codec C" "maps_wf ms" "\<forall>n \<in> set (map fst nms). hm_contains previous n \<longrightarrow> view ms n = view dm n"
  shows "\<exists>ms'. fold_res (load_map_delta C v) ms (snapshot_deltas ss) = Inr ms' \<and> maps_wf ms' \<and>
     view ms' = (\<lambda>n. case map_of nms n of Some m \<Rightarrow> Some (map_content m) | None \<Rightarrow> view ms n)"
  using assms
proof (induction nms ss arbitrary: ms rule: list_all2_induct)
  case Nil
  then show ?case by (simp add: snapshot_deltas_def)
next
  case (Cons nm nms s ss)
  obtain n m where nm: "nm = (n, m)" by force
  from Cons.prems Cons.hyps(1) checkpoint_map_loads [of m ms C previous dm n s v] obtain ms1 where
    ms1: "fold_res (load_map_delta C v) ms (case ms_delta s of None \<Rightarrow> [] | Some md \<Rightarrow> [md]) = Inr ms1"
      "maps_wf ms1" "view ms1 = (view ms)(n \<mapsto> map_content m)" by (auto simp: nm)
  have "\<exists>ms'. fold_res (load_map_delta C v) ms1 (snapshot_deltas ss) = Inr ms' \<and> maps_wf ms' \<and>
     view ms' = (\<lambda>n. case map_of nms n of Some m \<Rightarrow> Some (map_content m) | None \<Rightarrow> view ms1 n)"
    by (rule Cons.IH) (use Cons.prems ms1 nm in auto)
  then obtain ms' where ms': "fold_res (load_map_delta C v) ms1 (snapshot_deltas ss) = Inr ms'" "maps_wf ms'"
     "view ms' = (\<lambda>n. case map_of nms n of Some m \<Rightarrow> Some (map_content m) | None \<Rightarrow> view ms1 n)" by blast
  have "map_of nms n = None" using Cons.prems(1) by (simp add: nm map_of_eq_None_iff)
  then have "view ms' = (\<lambda>n. case map_of (nm # nms) n of Some m \<Rightarrow> Some (map_content m) | None \<Rightarrow> view ms n)"
    by (intro ext) (simp add: ms'(3) ms1(3) nm split: option.split)
  with ms'(1,2) ms1(1) show ?case by (simp add: snapshot_deltas_Cons fold_res_append)
qed

text \<open>A delta checkpoint, loaded over what was recoverable before, gives back every map of the store.\<close>

lemma delta_restores_store:
  assumes "store_wf st" "maps_wf dm" "tracked C st dm" "page_codec C"
    and "checkpoint_maps C False (checkpointed_maps st) (maps st) [] = Inr ss"
    and "dp_version delta = v" "dp_removed_maps delta = dp_removed_maps (checkpoint_delta st v ss)"
      "dp_maps delta = dp_maps (checkpoint_delta st v ss)"
  shows "\<exists>ms'. load_delta C dm delta = Inr ms' \<and> maps_wf ms' \<and> view ms' = view (maps st)"
proof -
  let ?prev = "checkpointed_maps st"
  define rm where "rm = filter (\<lambda>n. \<not> hm_contains (maps st) n) (map fst ?prev)"
  define ms where "ms = fold AList.delete rm dm"
  have ms: "maps_wf ms" "view ms = (\<lambda>n. if n \<in> set rm then None else view dm n)"
    using fold_delete(1) [OF assms(2), of rm] fold_delete(2) [of rm dm] by (simp_all add: ms_def)
  have rm: "n \<in> set rm \<longleftrightarrow> map_of (maps st) n = None \<and> n \<in> set (map fst dm)" for n
    using assms(3) by (auto simp: rm_def hm_contains_def tracked_def)
  have names: "\<forall>n \<in> set (map fst (maps st)). hm_contains ?prev n \<longrightarrow> view ms n = view dm n"
    using rm by (auto simp: ms(2) map_of_eq_None_iff)
  from checkpoint_maps_all [OF assms(5)] have l2: "list_all2 (\<lambda>nm s. checkpoint_map C False ?prev nm = Inr s) (maps st) ss"
    by simp
  have each: "\<forall>(n, m) \<in> set (maps st). map_wf m \<and> tracked_map C ?prev dm n m"
    using assms(1,3) by (auto simp: maps_wf_def tracked_def)
  have dist: "distinct (map fst (maps st))" using assms(1) by (simp add: maps_wf_def)
  from snapshot_deltas_load [OF l2 dist each assms(4) ms(1) names, of v] obtain ms' where
    ms': "fold_res (load_map_delta C v) ms (snapshot_deltas ss) = Inr ms'" "maps_wf ms'"
      "view ms' = (\<lambda>n. case map_of (maps st) n of Some m \<Rightarrow> Some (map_content m) | None \<Rightarrow> view ms n)" by blast
  have "view ms n = None" if "map_of (maps st) n = None" for n
    using that rm [of n] by (auto simp: ms(2) view_def [of dm] map_of_eq_None_iff)
  with ms' have "view ms' = view (maps st)" by (auto simp: view_def fun_eq_iff split: option.splits)
  with ms' assms(6-8) show ?thesis
    by (simp add: load_delta_def checkpoint_delta_def ms_def rm_def)
qed

section \<open>Full checkpoints\<close>

lemma bytes_name_inverse [simp]: "bytes_name (name_bytes n) = n" "name_bytes (bytes_name bs) = bs"
proof -
  have "char_of (unat (word_of_nat (of_char c) :: byte)) = c" for c :: char
  proof -
    have "(of_char c :: nat) < 256" by simp
    then show ?thesis by (simp add: unat_of_nat)
  qed
  then show "bytes_name (name_bytes n) = n" by (simp add: bytes_name_def name_bytes_def comp_def)
  have "word_of_nat (of_char (char_of (unat b) :: char)) = b" for b :: byte
  proof -
    have "unat b < 256" using unsigned_less [of b] by simp
    then show ?thesis by simp
  qed
  then show "name_bytes (bytes_name bs) = bs" by (simp add: bytes_name_def name_bytes_def comp_def)
qed

lemma name_bytes_inj: "name_bytes a = name_bytes b \<longleftrightarrow> a = b"
  by (metis bytes_name_inverse(1))

lemma fold_opt_map: "fold_opt f s (map g xs) = fold_opt (\<lambda>s x. f s (g x)) s xs"
  by (induction xs arbitrary: s) (auto split: option.split)

lemma map_of_fold_put:
  "distinct (map fst ps) \<Longrightarrow> map_of (fold (\<lambda>(k, v). put_sorted k v) ps acc) k =
     (case map_of ps k of None \<Rightarrow> map_of acc k | r \<Rightarrow> r)"
proof (induction ps arbitrary: acc)
  case (Cons p ps)
  obtain a b where p: "p = (a, b)" by force
  with Cons.prems have "map_of ps a = None" by (auto simp: map_of_eq_None_iff)
  with Cons p show ?case by (auto split: option.splits)
qed simp

lemma metadata_tree_ok:
  assumes "distinct (map fst roots)"
  shows "\<exists>t. metadata_tree roots = Some t \<and> tree_wf t \<and>
    (\<forall>n. map_of (tree_kvs t) (name_bytes n) = map_of roots n)"
proof -
  let ?ps = "map (\<lambda>(n, bs). (name_bytes n, bs)) roots"
  from bt.load_pairs [of mvtree_default ?ps] obtain t where
    t: "fold_opt (\<lambda>s (k, v). tree_put s k v) mvtree_default ?ps = Some t" "tree_wf t"
      "tree_kvs t = fold (\<lambda>(k, v). put_sorted k v) ?ps []" by auto
  have "metadata_tree roots = Some t"
    using t(1) by (simp add: metadata_tree_def fold_opt_map split_def)
  moreover have "map_of ?ps (name_bytes n) = map_of roots n" for n
    by (induction roots) (auto simp: name_bytes_inj)
  moreover have "distinct (map fst ?ps)"
    using assms by (simp add: comp_def split_def distinct_map inj_on_def name_bytes_inj)
  ultimately show ?thesis using t map_of_fold_put [of ?ps "[]"] by (auto split: option.split)
qed

definition load_entry :: "codecs \<Rightarrow> u64 \<Rightarrow> entry \<Rightarrow> (string, mvmap) hashmap \<Rightarrow> (string, mvmap) hashmap" where
  "load_entry C v e ms =
     (case de_page C (entry_value e) of
        Inl _ \<Rightarrow> ms
      | Inr p \<Rightarrow> (let n = bytes_name (entry_key e) in AList.update n (map_new n (tree_of_page p v)) ms))"

lemma load_base_Some:
  "load_base C (Some payload) = fold (load_entry C (cm_version (cp_meta payload)))
     (tree_scan_all (tree_of_page (cp_root payload) (cm_version (cp_meta payload)))) []"
  by (simp add: load_base_def load_entry_def [abs_def])

lemma load_entries:
  assumes "distinct (map entry_key es)" "maps_wf acc"
    and "\<forall>e \<in> set es. \<exists>t. tree_wf t \<and> de_page C (entry_value e) = Inr (root t)"
  shows "maps_wf (fold (load_entry C v) es acc) \<and>
    view (fold (load_entry C v) es acc) =
      (\<lambda>n. case map_of (map kv es) (name_bytes n) of
              None \<Rightarrow> view acc n
            | Some bs \<Rightarrow> (case de_page C bs of Inl _ \<Rightarrow> view acc n | Inr p \<Rightarrow> Some (map_of (page_kvs p))))"
  using assms
proof (induction es arbitrary: acc)
  case (Cons e es)
  then obtain t where t: "tree_wf t" "de_page C (entry_value e) = Inr (root t)" by auto
  define n where "n = bytes_name (entry_key e)"
  have key: "entry_key e = name_bytes n" by (simp add: n_def)
  define acc' where "acc' = AList.update n (map_new n (tree_of_page (root t) v)) acc"
  have le: "load_entry C v e acc = acc'" by (simp add: load_entry_def t acc'_def n_def Let_def)
  have acc': "maps_wf acc'" "view acc' = (view acc)(n \<mapsto> map_of (page_kvs (root t)))"
    using maps_wf_update [OF Cons.prems(2) page_map(1) [OF t(1)]] page_map(2) [OF t(1), of n v]
    by (simp_all add: acc'_def tree_kvs_def)
  have IH: "maps_wf (fold (load_entry C v) es acc') \<and> view (fold (load_entry C v) es acc') =
      (\<lambda>n. case map_of (map kv es) (name_bytes n) of
              None \<Rightarrow> view acc' n
            | Some bs \<Rightarrow> (case de_page C bs of Inl _ \<Rightarrow> view acc' n | Inr p \<Rightarrow> Some (map_of (page_kvs p))))"
    by (rule Cons.IH) (use Cons.prems acc' in auto)
  have new: "map_of (map kv es) (name_bytes n) = None"
    using Cons.prems(1) by (auto simp: map_of_eq_None_iff kv_def key image_iff)
  have dec: "\<exists>p. de_page C bs = Inr p" if "map_of (map kv es) k = Some bs" for k bs
    using map_of_SomeD [OF that] Cons.prems(3) by (auto simp: kv_def)
  show ?case
    using IH dec new t(2) key
    by (auto simp: le acc'(2) kv_def [of e] name_bytes_inj fun_eq_iff split: option.splits sum.splits)
qed (simp add: fun_eq_iff)

lemma checkpoint_map_root:
  assumes "map_wf m" and "fst (get_serialized_root (ser_page C) m) = ser_page C (root (tree m))"
    and cp: "checkpoint_map C True previous (n, m) = Inr s"
  shows "ms_name s = n" "\<exists>bs. ms_root s = Some bs \<and> ser_page C (root (tree m)) = Inr bs"
    "map_content (ms_map s) = map_content m" "map_wf (ms_map s)" "journal_apply (journal (ms_map s)) base = base"
    "enabled (journal (ms_map s))"
proof -
  define m1 where "m1 = set_journaling m True"
  obtain j m2 where tj: "take_journal m1 = (j, m2)" by force
  note t = take_journal_apply [OF tj]
  obtain r m3 where gr: "get_serialized_root (ser_page C) m2 = (r, m3)" by force
  note g = get_serialized_root_map [OF gr]
  have "fst (get_serialized_root (ser_page C) m2) = ser_page C (root (tree m))"
    using assms(2) serialized_root_fields [of m2 m "ser_page C"] tj
    by (auto simp: m1_def set_journaling_def take_journal_def)
  with gr have r: "r = ser_page C (root (tree m))" by simp
  with cp gr tj obtain bs where "r = Inr bs" and
    s: "s = \<lparr>ms_name = n, ms_map = m3, ms_journal = j, ms_root = Some bs, ms_delta = None, ms_count = mod_count m1\<rparr>"
    by (auto simp: checkpoint_map_def m1_def Let_def split: sum.splits)
  with r show "ms_name s = n" "\<exists>bs. ms_root s = Some bs \<and> ser_page C (root (tree m)) = Inr bs" by simp_all
  show "map_content (ms_map s) = map_content m" "map_wf (ms_map s)" "journal_apply (journal (ms_map s)) base = base"
    "enabled (journal (ms_map s))"
    using t g assms(1) by (simp_all add: s map_content_def map_wf_def m1_def set_journaling_def)
qed

lemma snapshot_roots_all:
  assumes "list_all2 (\<lambda>nm s. checkpoint_map C True previous nm = Inr s) nms ss"
    and "\<forall>(n, m) \<in> set nms. map_wf m \<and> fst (get_serialized_root (ser_page C) m) = ser_page C (root (tree m))"
  shows "snapshot_roots ss = map (\<lambda>(n, m). (n, projr (ser_page C (root (tree m))))) nms \<and>
    (\<forall>(n, m) \<in> set nms. \<exists>bs. ser_page C (root (tree m)) = Inr bs)"
  using assms
proof (induction nms ss rule: list_all2_induct)
  case (Cons nm nms s ss)
  obtain n m where nm: "nm = (n, m)" by force
  with Cons.prems have "map_wf m" "fst (get_serialized_root (ser_page C) m) = ser_page C (root (tree m))" by auto
  note r = checkpoint_map_root(1,2) [OF this Cons.hyps(1) [unfolded nm]]
  with Cons.IH Cons.prems show ?case by (auto simp: nm snapshot_roots_def)
qed (simp add: snapshot_roots_def)

text \<open>A full checkpoint, loaded, gives back every map of the store.\<close>

lemma chunk_restores_store:
  assumes wf: "store_wf st" and pc: "page_codec C"
    and fresh: "\<forall>(n, m) \<in> set (maps st). fst (get_serialized_root (ser_page C) m) = ser_page C (root (tree m))"
    and cp: "checkpoint_maps C True previous (maps st) [] = Inr ss"
  shows "\<exists>t. metadata_tree (snapshot_roots ss) = Some t \<and>
    maps_wf (load_base C (Some (chunk_new cid v (root t)))) \<and>
    view (load_base C (Some (chunk_new cid v (root t)))) = view (maps st)"
proof -
  let ?bs = "\<lambda>m. projr (ser_page C (root (tree m)))"
  from checkpoint_maps_all [OF cp] have "list_all2 (\<lambda>nm s. checkpoint_map C True previous nm = Inr s) (maps st) ss"
    by simp
  moreover have "\<forall>(n, m) \<in> set (maps st). map_wf m \<and>
      fst (get_serialized_root (ser_page C) m) = ser_page C (root (tree m))"
    using wf fresh by (auto simp: maps_wf_def)
  ultimately have
    roots: "snapshot_roots ss = map (\<lambda>(n, m). (n, ?bs m)) (maps st)" and
    ser: "\<forall>(n, m) \<in> set (maps st). \<exists>bs. ser_page C (root (tree m)) = Inr bs" using snapshot_roots_all by blast+
  have de: "de_page C (?bs m) = Inr (root (tree m))" if "map_of (maps st) n = Some m" for n m
    using map_of_SomeD [OF that] ser pc by (fastforce simp: page_codec_def codec_def)
  have "distinct (map fst (snapshot_roots ss))"
    using wf by (simp add: roots maps_wf_def comp_def split_def)
  from metadata_tree_ok [OF this] obtain t where
    t: "metadata_tree (snapshot_roots ss) = Some t" "tree_wf t"
      "\<And>n. map_of (tree_kvs t) (name_bytes n) = map_option ?bs (map_of (maps st) n)"
    by (auto simp: roots map_of_mapped)
  define es where "es = tree_scan_all (tree_of_page (root t) v)"
  have kv: "map kv es = tree_kvs t"
    by (simp add: es_def tree_scan_all_kvs) (simp add: tree_kvs_def tree_of_page_def)
  have dist: "distinct (map fst (tree_kvs t))" using tree_kvs_sorted [OF t(2)] by (rule sorted_keys_distinct)
  then have d1: "distinct (map entry_key es)" by (simp add: kv [symmetric] comp_def)
  have "\<exists>t'. tree_wf t' \<and> de_page C (entry_value e) = Inr (root t')" if "e \<in> set es" for e
  proof -
    from that have "kv e \<in> set (tree_kvs t)" by (metis imageI kv list.set_map)
    with dist have "map_of (tree_kvs t) (name_bytes (bytes_name (entry_key e))) = Some (entry_value e)"
      by (simp add: kv_def)
    then obtain m where m: "map_of (maps st) (bytes_name (entry_key e)) = Some m" "entry_value e = ?bs m"
      unfolding t(3) by auto
    with de wf maps_wf_lookup [OF wf m(1)] show ?thesis by (auto simp: map_wf_def)
  qed
  with load_entries [OF d1, of "[]" C v] have
    le: "maps_wf (fold (load_entry C v) es [])" "view (fold (load_entry C v) es []) =
      (\<lambda>n. case map_of (tree_kvs t) (name_bytes n) of
              None \<Rightarrow> view [] n
            | Some bs \<Rightarrow> (case de_page C bs of Inl _ \<Rightarrow> view [] n | Inr p \<Rightarrow> Some (map_of (page_kvs p))))"
    by (auto simp: kv)
  have "view (fold (load_entry C v) es []) = view (maps st)"
    unfolding le(2) t(3)
    by (rule ext) (auto simp: view_def map_content_def tree_kvs_def de split: option.splits)
  with le(1) t(1) show ?thesis
    by (auto simp: load_base_Some es_def chunk_new_def)
qed

section \<open>Keeping track\<close>

text \<open>Changes through the map interface keep the journals exact.\<close>

lemma tracked_map_put:
  assumes "map_wf m" "tracked_map C previous dm n m" "map_put m k v c = Some (m', c')"
    and "fst (get_serialized_root (ser_page C) m') = ser_page C (root (tree m'))"
  shows "tracked_map C previous dm n m'"
proof -
  have "enabled (journal m') = enabled (journal m)"
    using map_put_step [OF assms(1), of k v c] assms(3) by auto
  moreover have "map_content m' = journal_apply (journal m') base"
    if "enabled (journal m)" "map_content m = journal_apply (journal m) base" for base
    using run_map_op_tracks [OF assms(1) that, of c "Put k v" m' c'] assms(3) by simp
  ultimately show ?thesis using assms(2,4) unfolding tracked_map_def by blast
qed

lemma tracked_after_checkpoint:
  assumes "map_wf m" "tracked_map C previous dm n m" "checkpoint_map C False previous (n, m) = Inr s"
  shows "ms_name s = n" "map_content (ms_map s) = map_content m" "map_wf (ms_map s)"
    "journal_apply (journal (ms_map s)) base = base"
proof -
  obtain j m2 where tj: "take_journal m = (j, m2)" by force
  note t = take_journal_apply [OF tj]
  obtain r m3 where gr: "get_serialized_root (ser_page C) m2 = (r, m3)" by force
  note g = get_serialized_root_map [OF gr]
  have "ms_name s = n \<and> (ms_map s = m2 \<or> ms_map s = m3)"
    using assms(3) tj gr by (auto simp: checkpoint_map_def Let_def split: if_splits sum.splits)
  then show "ms_name s = n" "map_content (ms_map s) = map_content m" "map_wf (ms_map s)"
    "journal_apply (journal (ms_map s)) base = base"
    using t g assms(1) by (auto simp: map_content_def map_wf_def)
qed

section \<open>Loading snapshots and rolling forward\<close>

definition held :: "(string \<rightharpoonup> (bytes \<rightharpoonup> bytes)) \<Rightarrow> string \<Rightarrow> (bytes \<rightharpoonup> bytes)" where
  "held w n = (case w n of None \<Rightarrow> Map.empty | Some f \<Rightarrow> f)"

lemma open_map_view:
  assumes "store_wf st"
  shows "view (maps (snd (open_map st n))) = (view (maps st))(n \<mapsto> held (view (maps st)) n)"
  by (auto simp: open_map_def Let_def view_def held_def fun_eq_iff split: option.splits)

lemma store_put_view:
  assumes "store_wf st"
  shows "\<exists>st'. store_put st n k v = Some st' \<and> store_wf st' \<and>
    view (maps st') = (view (maps st))(n \<mapsto> (held (view (maps st)) n)(k \<mapsto> v))"
proof -
  obtain m st1 where om: "open_map st n = (m, st1)" by force
  note o = open_map_step [OF assms om]
  from map_put_step [OF o(1), of k v "sink_changes st1"] obtain m' c where
    m': "map_put m k v (sink_changes st1) = Some (m', c)" "map_wf m'" "map_content m' = (map_content m)(k \<mapsto> v)" by blast
  have "map_content m = held (view (maps st)) n" using o(5) by (simp add: held_def view_def split: option.splits)
  moreover have "view (maps st1) = (view (maps st))(n \<mapsto> held (view (maps st)) n)"
    using open_map_view [OF assms, of n] om by simp
  ultimately show ?thesis
    using m' om maps_wf_update [OF o(2) m'(2)] by (simp add: store_put_def set_map_def)
qed

lemma clear_map_view:
  assumes "store_wf st" "map_of (maps st) n = Some m"
  shows "store_wf (clear_map st n)" "view (maps (clear_map st n)) = (view (maps st))(n \<mapsto> Map.empty)"
proof -
  obtain m' c where mc: "map_clear m (sink_changes st) = (m', c)" by force
  note cl = map_clear_step(1,2) [OF maps_wf_lookup [OF assms] mc]
  have st': "clear_map st n = set_map st n m' c" using assms(2) mc by (simp add: clear_map_def)
  show "store_wf (clear_map st n)" "view (maps (clear_map st n)) = (view (maps st))(n \<mapsto> Map.empty)"
    using cl maps_wf_update [OF assms(1) cl(1)] by (simp_all add: st' set_map_def)
qed

lemma load_pairs_view:
  assumes "store_wf st" "distinct (map fst pairs)" "view (maps st) n = Some f"
  shows "\<exists>st'. fold_opt (\<lambda>st (k, v). store_put st n k v) st pairs = Some st' \<and> store_wf st' \<and>
    view (maps st') = (view (maps st))(n \<mapsto> f ++ map_of pairs)"
  using assms
proof (induction pairs arbitrary: st f)
  case (Cons p pairs)
  obtain k v where p: "p = (k, v)" by force
  from store_put_view [OF Cons.prems(1), of n k v] obtain st1 where
    st1: "store_put st n k v = Some st1" "store_wf st1" "view (maps st1) = (view (maps st))(n \<mapsto> f(k \<mapsto> v))"
    using Cons.prems(3) by (auto simp: held_def)
  have "map_of pairs k = None" using Cons.prems(2) by (simp add: p map_of_eq_None_iff)
  then have "f(k \<mapsto> v) ++ map_of pairs = f ++ map_of (p # pairs)"
    by (auto simp: p map_add_def fun_eq_iff split: option.splits)
  then have "view (maps st1) = (view (maps st))(n \<mapsto> f(k \<mapsto> v))" "view (maps st1) n = Some (f(k \<mapsto> v))"
      "(view (maps st1))(n \<mapsto> f(k \<mapsto> v) ++ map_of pairs) = (view (maps st))(n \<mapsto> f ++ map_of (p # pairs))"
    unfolding st1(3) by simp_all
  note v1 = this
  from Cons.prems(2) have "distinct (map fst pairs)" by simp
  from Cons.IH [OF st1(2) this v1(2)] obtain st' where
    st': "fold_opt (\<lambda>st (k, v). store_put st n k v) st1 pairs = Some st'" "store_wf st'"
      "view (maps st') = (view (maps st1))(n \<mapsto> f(k \<mapsto> v) ++ map_of pairs)" by blast
  have "fold_opt (\<lambda>st (k, v). store_put st n k v) st (p # pairs) = Some st'"
    using st1(1) st'(1) by (simp add: p)
  moreover have "view (maps st') = (view (maps st))(n \<mapsto> f ++ map_of (p # pairs))"
    using st'(3) v1(3) by (rule trans)
  ultimately show ?case using st'(2) by blast
qed auto

lemma load_map_view:
  assumes "store_wf st" "distinct (map fst pairs)"
  shows "\<exists>st'. load_map st (n, pairs) = Some st' \<and> store_wf st' \<and> view (maps st') = (view (maps st))(n \<mapsto> map_of pairs)"
proof -
  obtain m st1 where om: "open_map st n = (m, st1)" by force
  note o = open_map_step [OF assms(1) om]
  note c = clear_map_view [OF o(2,3)]
  have v1: "view (maps st1) = (view (maps st))(n \<mapsto> held (view (maps st)) n)"
    using open_map_view [OF assms(1), of n] om by simp
  from load_pairs_view [OF c(1) assms(2), of n Map.empty] c(2) v1 om show ?thesis
    by (auto simp: load_map_def)
qed

lemma load_maps_view:
  assumes "store_wf st" "distinct (map fst data)" "\<forall>(n, ps) \<in> set data. distinct (map fst ps)"
  shows "\<exists>st'. load_maps st data = Some st' \<and> store_wf st' \<and>
    view (maps st') = (\<lambda>n. case map_of data n of Some ps \<Rightarrow> Some (map_of ps) | None \<Rightarrow> view (maps st) n)"
  using assms
proof (induction data arbitrary: st)
  case (Cons np data)
  obtain n ps where np: "np = (n, ps)" by force
  from load_map_view [OF Cons.prems(1), of ps n] Cons.prems(3) obtain st1 where
    st1: "load_map st (n, ps) = Some st1" "store_wf st1" "view (maps st1) = (view (maps st))(n \<mapsto> map_of ps)"
    by (auto simp: np)
  from Cons.IH [OF st1(2)] Cons.prems obtain st' where
    st': "load_maps st1 data = Some st'" "store_wf st'"
      "view (maps st') = (\<lambda>n. case map_of data n of Some ps \<Rightarrow> Some (map_of ps) | None \<Rightarrow> view (maps st1) n)" by auto
  have "map_of data n = None" using Cons.prems(2) by (simp add: np map_of_eq_None_iff)
  then have "view (maps st') = (\<lambda>n'. case map_of (np # data) n' of Some ps \<Rightarrow> Some (map_of ps) | None \<Rightarrow> view (maps st) n')"
    by (intro ext) (simp add: st'(3) st1(3) np split: option.split)
  with st' st1(1) show ?case by (simp add: load_maps_def np)
qed (simp add: load_maps_def)

lemma scan_all_maps_data:
  assumes "store_wf st"
  shows "distinct (map fst (scan_all_maps st))" "\<forall>(n, ps) \<in> set (scan_all_maps st). distinct (map fst ps)"
    "map_option map_of (map_of (scan_all_maps st) n) = view (maps st) n"
proof -
  have eq: "scan_all_maps st = map (\<lambda>(n, m). (n, tree_kvs (tree m))) (maps st)"
    by (simp add: scan_all_maps_def map_scan_all_def tree_scan_all_kvs)
  show "distinct (map fst (scan_all_maps st))"
    using assms by (simp add: eq maps_wf_def comp_def split_def)
  show "\<forall>(n, ps) \<in> set (scan_all_maps st). distinct (map fst ps)"
    using assms by (auto simp: eq maps_wf_def map_wf_def intro!: sorted_keys_distinct tree_kvs_sorted)
  show "map_option map_of (map_of (scan_all_maps st) n) = view (maps st) n"
    by (cases "map_of (maps st) n") (simp_all add: eq map_of_mapped view_def map_content_def)
qed

lemma record_changes_Cons: "record_changes (r # rs) = map change_of (wr_changes r) @ record_changes rs"
  by (simp add: record_changes_def)

text \<open>Rolling forward applies the longest prefix of the records that the target admits.\<close>

lemma roll_forward_applies:
  assumes "store_wf st"
  shows "\<exists>st' w. roll_forward target rs st v n =
      Some (st', w, n + length (takeWhile (should_apply target) rs)) \<and> store_wf st' \<and>
    store_content st' = upd_all (record_changes (takeWhile (should_apply target) rs)) (store_content st) \<and>
    w = (if takeWhile (should_apply target) rs = [] then v else wr_version (last (takeWhile (should_apply target) rs)))"
  using assms
proof (induction rs arbitrary: st v n)
  case (Cons r rs)
  show ?case
  proof (cases "should_apply target r")
    case True
    from storer.replay_correct [OF Cons.prems, of "map change_of (wr_changes r)"] obtain st1 where
      st1: "fold_opt store_apply st (map change_of (wr_changes r)) = Some st1" "store_wf st1"
        "store_content st1 = upd_all (map change_of (wr_changes r)) (store_content st)" by blast
    from Cons.IH [OF st1(2), of "wr_version r" "n + 1"] True st1 show ?thesis
      by (auto simp: record_changes_Cons upd_all_append)
  qed (use Cons.prems in \<open>simp add: record_changes_def\<close>)
qed (simp add: record_changes_def)

section \<open>A concrete store\<close>

text \<open>Pages whose keys and values have one byte, and the other codecs of the earlier theories.\<close>

definition toy_ser_page :: "page ser" where
  "toy_ser_page p =
     (case p of
        Leaf es \<Rightarrow> if list_all (\<lambda>e. length (entry_key e) = 1 \<and> length (entry_value e) = 1) es
                   then Inr (concat (map (\<lambda>e. entry_key e @ entry_value e) es)) else Inl (Serialization ''toy'')
      | _ \<Rightarrow> Inl (Serialization ''toy''))"

fun toy_entries :: "bytes \<Rightarrow> entry list" where
  "toy_entries (k # v # bs) = \<lparr>entry_key = [k], entry_value = [v]\<rparr> # toy_entries bs"
| "toy_entries _ = []"

definition toy_de_page :: "page de" where
  "toy_de_page bs = Inr (Leaf (toy_entries bs))"

definition toy_codecs :: codecs where
  "toy_codecs = \<lparr>ser_page = toy_ser_page, de_page = toy_de_page, ser_chunk = toy_ser_chunk, de_chunk = toy_de_chunk,
     ser_delta = toy_ser_delta, de_delta = toy_de_delta, ser_rec = toy_ser, de_rec = toy_de,
     ser_vv = (\<lambda>v. Inr (enc_vv v)), de_vv = dec_vv, crc = toy_sum\<rparr>"

lemma toy_page_codec: "page_codec toy_codecs"
proof -
  have "toy_entries (concat (map (\<lambda>e. entry_key e @ entry_value e) es)) = es"
    if "list_all (\<lambda>e. length (entry_key e) = 1 \<and> length (entry_value e) = 1) es" for es :: "entry list"
    using that
  proof (induction es)
    case (Cons e es)
    then obtain k v where "entry_key e = [k]" "entry_value e = [v]" by (auto simp: length_Suc_conv)
    then have "e = \<lparr>entry_key = [k], entry_value = [v]\<rparr>" by (cases e) simp
    with Cons show ?case by simp
  qed simp
  then show ?thesis
    by (auto simp: page_codec_def codec_def toy_codecs_def toy_ser_page_def toy_de_page_def split: page.splits if_splits)
qed

text \<open>A store with one map \<^verbatim>\<open>a\<close>: on disk it holds key 1, in memory key 2 has been added.\<close>

definition toy_tree :: "byte list \<Rightarrow> mvtree" where
  "toy_tree ks = \<lparr>root = Leaf (map (\<lambda>k. \<lparr>entry_key = [k], entry_value = [k]\<rparr>) ks), max_entries_per_page = 32, tree_version = 0\<rparr>"

definition toy_map :: "byte list \<Rightarrow> byte list \<Rightarrow> mvmap" where
  "toy_map ks new = \<lparr>map_name = ''a'', tree = toy_tree ks, sink = False, mod_count = 5, cached_root = None,
     journal = \<lparr>enabled = True, journal_clear = False, changes = map (\<lambda>k. ([k], Some [k])) new\<rparr>\<rparr>"

definition toy_store :: mvstore where
  "toy_store = store_open_in_memory\<lparr>files := reopened header_zero True, dsk := new_disk [], wal := wal_open None True,
     maps := [(''a'', toy_map [1, 2] [2])], checkpointed_maps := [(''a'', 1)], has_checkpoint := True\<rparr>"

definition toy_disk_maps :: "(string, mvmap) hashmap" where
  "toy_disk_maps = [(''a'', toy_map [1] [])]"

lemma toy_content [simp]:
  "map_content (toy_map ks new) = map_of (map (\<lambda>k. ([k], [k])) ks)"
  by (simp add: map_content_def toy_map_def toy_tree_def tree_kvs_def comp_def kv_def)

lemma toy_wf: "store_wf toy_store" "maps_wf toy_disk_maps" "tracked toy_codecs toy_store toy_disk_maps"
proof -
  show "store_wf toy_store" "maps_wf toy_disk_maps"
    by (simp_all add: maps_wf_def map_wf_def toy_store_def toy_disk_maps_def toy_map_def toy_tree_def tree_wf_def)
  have "map_of (map (\<lambda>k. ([k], [k])) [1, 2 :: byte]) = journal_apply (journal (toy_map [1, 2] [2])) (map_of (map (\<lambda>k. ([k], [k])) [1]))"
    by (auto simp: journal_apply_def toy_map_def fun_eq_iff)
  then show "tracked toy_codecs toy_store toy_disk_maps"
    by (auto simp: tracked_def tracked_map_def toy_store_def toy_disk_maps_def hm_contains_def get_serialized_root_def
        toy_codecs_def toy_ser_page_def toy_tree_def) (simp_all add: toy_map_def toy_tree_def)
qed

section \<open>Properties\<close>


definition toy_commit_rec :: wal_record where
  "toy_commit_rec = \<lparr>wr_tx = 1, wr_version = 1, wr_changes = [\<lparr>wc_map = ''a'', wc_key = [9], wc_value = Some [7]\<rparr>], wr_nanos = 0\<rparr>"

definition toy_queue :: mvstore where
  "toy_queue = toy_store\<lparr>wal := wal_open (Some (wal_frame toy_sum (projr (toy_ser toy_commit_rec)))) True,
     pending := [toy_commit_rec], batch_start_offset := Some 0\<rparr>"

lemma toy_queue_inv: "queue_inv toy_codecs [] toy_queue" "store_wf toy_queue"
proof -
  have ser: "toy_ser toy_commit_rec = Inr (projr (toy_ser toy_commit_rec))"
    by (simp add: toy_ser_def toy_commit_rec_def toy_change_def)
  then have de: "toy_de (projr (toy_ser toy_commit_rec)) = Inr toy_commit_rec"
    using toy_codec by (simp add: rec_codec_def)
  from is_log_frame [of toy_de, OF de toy_size [OF ser], of toy_sum] show "queue_inv toy_codecs [] toy_queue"
    unfolding queue_inv_def
    by (intro exI [of _ "[]"] exI [of _ "wal_frame toy_sum (projr (toy_ser toy_commit_rec))"])
      (simp add: toy_queue_def toy_codecs_def wal_open_def)
  show "store_wf toy_queue" using toy_wf(1) by (simp add: toy_queue_def)
qed

lemma toy_reopen:
  "fs_open toy_sum True (new_disk []) = (Inr (reopened header_zero True), new_disk [])"
proof (rule fs_open_existing)
  show "read_header toy_sum (header_serialize toy_sum header_zero) = Inr header_zero"
    using new_disk_clean [of "[]"] read_header_slots [of "header_serialize toy_sum header_zero" toy_sum]
    by (auto simp: new_disk_slots clean_def choose_header_def split: sum.splits)
qed (simp_all add: new_disk_def)




text \<open>C11: An incremental checkpoint writes enough: as long as the journals track the differences to what is
  recoverable on disk, the delta it builds, loaded over those maps, gives back exactly the maps of the
  store, removed, cleared, overwritten and new ones included.\<close>

theorem delta_checkpoint_restores:
  assumes "store_wf st" "maps_wf dm" "tracked C st dm" "page_codec C"
    and "checkpoint_maps C False (checkpointed_maps st) (maps st) [] = Inr ss"
  shows "\<exists>ms'. load_delta C dm (checkpoint_delta st v ss) = Inr ms' \<and> maps_wf ms' \<and> view ms' = view (maps st)"
  by (rule delta_restores_store [OF assms]) (simp_all add: checkpoint_delta_def)

theorem delta_checkpoint_restores_witness:
  "\<exists>ss ms'. checkpoint_maps toy_codecs False (checkpointed_maps toy_store) (maps toy_store) [] = Inr ss \<and>
    load_delta toy_codecs toy_disk_maps (checkpoint_delta toy_store 1 ss) = Inr ms' \<and>
    content_of ms' (''a'', [2]) = Some [2] \<and> view ms' = view (maps toy_store)"
proof -
  obtain ss where ss: "checkpoint_maps toy_codecs False (checkpointed_maps toy_store) (maps toy_store) [] = Inr ss"
    by (simp add: toy_store_def checkpoint_map_def toy_map_def take_journal_def hm_contains_def)
  from delta_checkpoint_restores [OF toy_wf toy_page_codec ss, of 1] obtain ms' where
    ms': "load_delta toy_codecs toy_disk_maps (checkpoint_delta toy_store 1 ss) = Inr ms'" "view ms' = view (maps toy_store)"
    by blast
  have "content_of ms' (''a'', [2]) = Some [2]"
    unfolding content_view ms'(2) by (simp add: view_def toy_store_def)
  with ss ms' show ?thesis by blast
qed

text \<open>A full checkpoint is complete: the chunk built from the serialized roots, loaded again, has exactly
  the maps of the store with their contents.\<close>

theorem full_checkpoint_restores:
  assumes "store_wf st" "page_codec C"
    and "\<forall>(n, m) \<in> set (maps st). fst (get_serialized_root (ser_page C) m) = ser_page C (root (tree m))"
    and "checkpoint_maps C True previous (maps st) [] = Inr ss"
  shows "\<exists>t ms'. metadata_tree (snapshot_roots ss) = Some t \<and> load_chain C (Some (chunk_new cid v (root t))) [] = Inr ms' \<and>
    maps_wf ms' \<and> view ms' = view (maps st)"
  using chunk_restores_store [OF assms, of cid v] by (auto simp: load_chain_def)



theorem full_checkpoint_restores_witness:
  "\<exists>ss t ms'. checkpoint_maps toy_codecs True [] (maps toy_store) [] = Inr ss \<and>
    metadata_tree (snapshot_roots ss) = Some t \<and> load_chain toy_codecs (Some (chunk_new 2 1 (root t))) [] = Inr ms' \<and>
    view ms' = view (maps toy_store)"
proof -
  have fresh: "\<forall>(n, m) \<in> set (maps toy_store). fst (get_serialized_root (ser_page toy_codecs) m) = ser_page toy_codecs (root (tree m))"
    using toy_wf(3) by (auto simp: tracked_def tracked_map_def)
  obtain ss where ss: "checkpoint_maps toy_codecs True [] (maps toy_store) [] = Inr ss"
    by (simp add: toy_store_def checkpoint_map_def toy_map_def take_journal_def hm_contains_def set_journaling_def
        get_serialized_root_def toy_codecs_def toy_ser_page_def toy_tree_def Let_def)
  from full_checkpoint_restores [OF toy_wf(1) toy_page_codec fresh ss, of 2 1] ss show ?thesis by blast
qed

text \<open>Recovery replays every record of the log, also those whose version the checkpoint already covers:
  the recovered content is the checkpointed content with all logged changes applied on top, so a
  change that the checkpoint had undone without logging (a truncated or dropped map) comes back when a
  crash hits between the checkpoint and the clearing of the log.\<close>

theorem recovery_replays_covered_records:
  assumes "fs_open (crc C) sync d = (Inr fs, d1)"
    and "read_checkpoint_chain (de_chunk C) (de_delta C) (crc C) fs d1 = Inr (base, deltas)"
    and "load_chain C base deltas = Inr ms" "maps_wf ms"
    and "is_log (crc C) (de_rec C) rs bs" "\<forall>r \<in> set rs. wr_version r \<le> h_version (fs_header fs)"
  shows "\<exists>st. store_open C sync d (Some bs) = Inr st \<and> version st = h_version (fs_header fs) \<and>
    store_content st = upd_all (record_changes rs) (content_of ms)"
proof -
  have "max_record_version rs v = v" if "\<forall>r \<in> set rs. wr_version r \<le> v" for v
    using that unfolding max_record_version_def by (induction rs) auto
  with store_open_content [OF assms(1-5), of "[]"] assms(6) show ?thesis by auto
qed

theorem recovery_replays_covered_records_witness:
  "\<exists>st. store_open toy_codecs True (new_disk []) (Some (wal_frame toy_sum (projr (toy_ser (toy_commit_rec\<lparr>wr_version := 0\<rparr>))))) = Inr st \<and>
    version st = 0 \<and> store_content st (''a'', [9]) = Some [7]"
proof -
  let ?r = "toy_commit_rec\<lparr>wr_version := 0\<rparr>"
  have C: "crc toy_codecs = toy_sum" "de_rec toy_codecs = toy_de" by (simp_all add: toy_codecs_def)
  have ser: "toy_ser ?r = Inr (projr (toy_ser ?r))" by (simp add: toy_ser_def toy_commit_rec_def toy_change_def)
  then have de: "toy_de (projr (toy_ser ?r)) = Inr ?r" using toy_codec by (simp add: rec_codec_def)
  note log = is_log_frame [of toy_de, OF de toy_size [OF ser], of toy_sum]
  have "\<exists>st. store_open toy_codecs True (new_disk []) (Some (wal_frame toy_sum (projr (toy_ser ?r)))) = Inr st \<and>
      version st = h_version (fs_header (reopened header_zero True)) \<and>
      store_content st = upd_all (record_changes [?r]) (content_of [])"
    by (rule recovery_replays_covered_records [where ?d1.0 = "new_disk []" and base = None and deltas = "[]"])
      (use log in \<open>simp_all add: C toy_reopen new_disk_chain load_chain_def load_base_def toy_commit_rec_def del: is_log.simps\<close>)
  then show ?thesis by (auto simp: toy_commit_rec_def record_changes_def change_of_def)
qed

text \<open>Dropping a map and creating it again between two checkpoints resurrects its old rows: the new map
  is empty, but the next delta mentions neither the drop nor a new root, so recovery still finds the
  rows of the old map.\<close>

theorem recreated_map_resurrects_rows:
  assumes "maps st = [(n, m)]" "checkpointed_maps st = [(n, c)]" "has_checkpoint st"
    and "maps_wf dm" "map_of dm n = Some d" "map_content d k = Some v"
    and "st1 = snd (open_map (snd (remove_map st n)) n)"
  shows "store_content st1 (n, k) = None \<and>
    (\<exists>ss ms'. checkpoint_maps C False (checkpointed_maps st1) (maps st1) [] = Inr ss \<and>
       load_delta C dm (checkpoint_delta st1 ver ss) = Inr ms' \<and> content_of ms' (n, k) = Some v)"
proof -
  define new where "new = map_set_sink (set_journaling (map_new n mvtree_default) True) (change_sink st \<noteq> None)"
  have st1: "maps st1 = [(n, new)]" "checkpointed_maps st1 = [(n, c)]"
    using assms(1-3,7) by (simp_all add: remove_map_def open_map_def new_def Let_def)
  have j: "journal_clear (journal new) = False" "changes (journal new) = []" "map_content new = Map.empty"
    by (simp_all add: new_def map_set_sink_def set_journaling_def map_new_def journal_default_def map_content_def)
  then obtain s where s: "checkpoint_map C False [(n, c)] (n, new) = Inr s" "ms_delta s = None"
    by (auto simp: checkpoint_map_def take_journal_def hm_contains_def Let_def)
  then have "checkpoint_maps C False (checkpointed_maps st1) (maps st1) [] = Inr [s]" by (simp add: st1)
  moreover have "load_delta C dm (checkpoint_delta st1 ver [s]) = Inr dm"
    using s(2) by (simp add: load_delta_def checkpoint_delta_def st1 hm_contains_def snapshot_deltas_def)
  ultimately show ?thesis using assms(5,6) j(3) st1(1) by (simp add: content_of_def)
qed

theorem recreated_map_resurrects_rows_witness:
  "let st1 = snd (open_map (snd (remove_map toy_store ''a'')) ''a'') in
   store_content st1 (''a'', [1]) = None \<and>
   (\<exists>ss ms'. checkpoint_maps toy_codecs False (checkpointed_maps st1) (maps st1) [] = Inr ss \<and>
      load_delta toy_codecs toy_disk_maps (checkpoint_delta st1 6 ss) = Inr ms' \<and> content_of ms' (''a'', [1]) = Some [1])"
  unfolding Let_def
  by (rule recreated_map_resurrects_rows [OF _ _ _ toy_wf(2), where d = "toy_map [1] []"]) (simp_all add: toy_store_def toy_disk_maps_def)

text \<open>Shipping a snapshot: loading the scan of one store into another never fails and gives every map of
  the source its exact content there; maps the source does not have are left as they were.\<close>

theorem snapshot_transfer:
  assumes "store_wf src" "store_wf dst"
  shows "\<exists>st'. load_maps dst (scan_all_maps src) = Some st' \<and> store_wf st' \<and>
    view (maps st') = (\<lambda>n. case view (maps src) n of Some f \<Rightarrow> Some f | None \<Rightarrow> view (maps dst) n)"
proof -
  note sc = scan_all_maps_data [OF assms(1)]
  from load_maps_view [OF assms(2) sc(1,2)] obtain st' where
    st': "load_maps dst (scan_all_maps src) = Some st'" "store_wf st'"
      "view (maps st') = (\<lambda>n. case map_of (scan_all_maps src) n of Some ps \<Rightarrow> Some (map_of ps) | None \<Rightarrow> view (maps dst) n)"
    by blast
  have "view (maps st') = (\<lambda>n. case view (maps src) n of Some f \<Rightarrow> Some f | None \<Rightarrow> view (maps dst) n)"
    by (rule ext) (auto simp: st'(3) sc(3) [symmetric] split: option.splits)
  with st' show ?thesis by blast
qed

theorem snapshot_transfer_witness:
  "\<exists>st'. load_maps store_open_in_memory (scan_all_maps toy_store) = Some st' \<and> store_content st' (''a'', [2]) = Some [2]"
proof -
  have "store_wf store_open_in_memory" by (simp add: store_open_in_memory_def)
  from snapshot_transfer [OF toy_wf(1) this] show ?thesis
    by (auto simp: content_view) (simp add: view_def toy_store_def)
qed

text \<open>Point-in-time recovery to a version: with the archived records in ascending version order, rolling
  forward applies exactly the records up to and including the requested version, in order, and
  reports the last of them as the recovered version.\<close>

theorem pitr_version_exact:
  assumes "store_wf st" "sorted_keys wr_version rs"
  shows "\<exists>st' w. roll_forward (TargetVersion v) rs st v0 n = Some (st', w, n + length (filter (\<lambda>r. wr_version r \<le> v) rs)) \<and>
    store_wf st' \<and>
    store_content st' = upd_all (record_changes (filter (\<lambda>r. wr_version r \<le> v) rs)) (store_content st) \<and>
    w = (if filter (\<lambda>r. wr_version r \<le> v) rs = [] then v0 else wr_version (last (filter (\<lambda>r. wr_version r \<le> v) rs)))"
proof -
  have "takeWhile (should_apply (TargetVersion v)) rs = filter (\<lambda>r. wr_version r \<le> v) rs"
    using assms(2)
  proof (induction rs)
    case (Cons r rs)
    show ?case
    proof (cases "wr_version r \<le> v")
      case False
      with Cons.prems have "\<forall>x \<in> set rs. \<not> wr_version x \<le> v" by fastforce
      with False show ?thesis by (simp add: should_apply_def filter_False)
    qed (use Cons in \<open>simp add: should_apply_def\<close>)
  qed simp
  note eq = this
  show ?thesis using roll_forward_applies [OF assms(1), of "TargetVersion v" rs v0 n] unfolding eq .
qed

theorem pitr_version_exact_witness:
  "\<exists>st' w. roll_forward (TargetVersion 1) [toy_commit_rec, toy_rec 2 2] toy_store 0 0 = Some (st', w, 1) \<and>
    store_content st' (''a'', [9]) = Some [7] \<and> w = 1"
  using pitr_version_exact [OF toy_wf(1), of "[toy_commit_rec, toy_rec 2 2]" 1 0 0]
  by (auto simp: toy_commit_rec_def toy_rec_def record_changes_def change_of_def word_le_nat_alt word_less_nat_alt
      simp del: roll_forward.simps)

text \<open>Recovery to a transaction can stop before it: the roll-forward ends at the first record with a
  larger transaction id, so when a transaction that started later committed earlier, the target
  transaction is not applied although the report says the target was reached.\<close>

theorem pitr_transaction_stops_early:
  assumes "store_wf st" "rs = r # rs'" "tx < wr_tx r"
  shows "roll_forward (TransactionId tx) rs st v n = Some (st, v, n)"
  using assms by (auto simp: should_apply_def)

theorem pitr_transaction_stops_early_witness:
  "roll_forward (TransactionId 1) [toy_rec 2 1, toy_commit_rec] toy_store 0 0 = Some (toy_store, 0, 0) \<and>
   wr_tx toy_commit_rec = 1"
  using pitr_transaction_stops_early [OF toy_wf(1), of "[toy_rec 2 1, toy_commit_rec]" "toy_rec 2 1" "[toy_commit_rec]" 1 0 0]
  by (simp add: toy_rec_def toy_commit_rec_def)

end
