(* ===== verification/Locking.thy ===== *)
theory Locking
  imports KV_Interface
begin

text \<open>
  The lock manager of \<^verbatim>\<open>tx/lock.rs\<close>: the wait-for graph with cycle detection and the wait cells through
  which a finished transaction wakes its waiters.  A \<^verbatim>\<open>WaitCell\<close> is an address into a heap of
  \<^verbatim>\<open>released\<close> flags, since several clones of one \<^verbatim>\<open>Arc\<close> share it.  The striped key mutexes only
  serialize operations on a key and have no state of their own.  The lemmas show that the cycle check
  terminates and is exact, and that the graph stays acyclic, so some transaction can always proceed.
\<close>

section \<open>State and operations\<close>

record lock_manager =
  wait_for :: "(u64, u64) hashmap"
  wait_cells :: "(u64, nat \<times> nat) hashmap"
  released :: "bool list"

definition lock_manager_new :: lock_manager where
  "lock_manager_new = \<lparr>wait_for = [], wait_cells = [], released = []\<rparr>"

text \<open>The loop of \<^verbatim>\<open>check_cycle\<close>; \<open>visited\<close> is the hash set.\<close>

function cycle_loop :: "(u64, u64) hashmap \<Rightarrow> u64 \<Rightarrow> u64 \<Rightarrow> u64 list \<Rightarrow> bool" where
  "cycle_loop wg waiter cur visited =
     (case map_of wg cur of
        None \<Rightarrow> False
      | Some nxt \<Rightarrow>
          if nxt = waiter then True
          else if nxt \<in> set visited then True
          else cycle_loop wg waiter nxt (nxt # visited))"
  by pat_completeness auto
termination
proof (relation "measure (\<lambda>(wg, waiter, cur, visited). card (- set visited))")
  fix wg :: "(u64, u64) hashmap" and waiter cur nxt :: u64 and visited
  assume "nxt \<notin> set visited"
  then have "- set (nxt # visited) \<subset> - set visited" by auto
  then have "card (- set (nxt # visited)) < card (- set visited)" by (intro psubset_card_mono) auto
  then show "((wg, waiter, nxt, nxt # visited), (wg, waiter, cur, visited)) \<in>
      measure (\<lambda>(wg, waiter, cur, visited). card (- set visited))" by simp
qed simp

declare cycle_loop.simps [simp del]

definition check_cycle :: "(u64, u64) hashmap \<Rightarrow> u64 \<Rightarrow> u64 \<Rightarrow> bool" where
  "check_cycle wg waiter holder =
     (if waiter = holder then True else cycle_loop wg waiter holder [holder, waiter])"

definition register_wait :: "lock_manager \<Rightarrow> u64 \<Rightarrow> u64 \<Rightarrow> lock_manager h2_result" where
  "register_wait st waiter holder =
     (if check_cycle (wait_for st) waiter holder then Inl (LockConflict ''Deadlock detected'')
      else
        let wg = AList.update waiter holder (wait_for st) in
        (case map_of (wait_cells st) holder of
           Some (count, cell) \<Rightarrow>
             Inr (st\<lparr>wait_for := wg,
                     wait_cells := AList.update holder (count + 1, cell) (wait_cells st)\<rparr>)
         | None \<Rightarrow>
             Inr (st\<lparr>wait_for := wg,
                     wait_cells := AList.update holder (1, length (released st)) (wait_cells st),
                     released := released st @ [False]\<rparr>)))"

definition unregister_wait :: "lock_manager \<Rightarrow> u64 \<Rightarrow> lock_manager" where
  "unregister_wait st waiter =
     (case map_of (wait_for st) waiter of
        None \<Rightarrow> st
      | Some holder \<Rightarrow>
          (let st1 = st\<lparr>wait_for := AList.delete waiter (wait_for st)\<rparr> in
           case map_of (wait_cells st) holder of
             None \<Rightarrow> st1
           | Some (count, cell) \<Rightarrow>
               if count - 1 = 0 then st1\<lparr>wait_cells := AList.delete holder (wait_cells st)\<rparr>
               else st1\<lparr>wait_cells := AList.update holder (count - 1, cell) (wait_cells st)\<rparr>))"

text \<open>
  \<^verbatim>\<open>wait_timeout\<close> first clones the cell, then waits until it is released or the time is up.  Its two
  halves are separate because other threads run in between: \<open>wait_begin\<close> clones (\<open>None\<close>: there is
  nothing to wait for and the call returns true), \<open>wait_end\<close> is the flag read at the end.
\<close>

definition wait_begin :: "lock_manager \<Rightarrow> u64 \<Rightarrow> nat option" where
  "wait_begin st holder = map_option snd (map_of (wait_cells st) holder)"

definition wait_end :: "lock_manager \<Rightarrow> nat option \<Rightarrow> bool option" where
  "wait_end st cell = (case cell of None \<Rightarrow> Some True | Some a \<Rightarrow> vec_get (released st) a)"

definition notify_lock_released :: "lock_manager \<Rightarrow> u64 \<Rightarrow> lock_manager" where
  "notify_lock_released st holder =
     (case map_of (wait_cells st) holder of
        None \<Rightarrow> st
      | Some (_, cell) \<Rightarrow>
          st\<lparr>wait_cells := AList.delete holder (wait_cells st), released := (released st)[cell := True]\<rparr>)"

section \<open>The wait-for graph\<close>

definition edges :: "(u64, u64) hashmap \<Rightarrow> (u64 \<times> u64) set" where
  "edges wg = {(a, b). map_of wg a = Some b}"

lemma edges_iff [simp]: "(a, b) \<in> edges wg \<longleftrightarrow> map_of wg a = Some b"
  by (simp add: edges_def)

text \<open>Each transaction waits for at most one other, so paths from a node are linearly ordered.\<close>

lemma edges_star_cases:
  assumes "(a, c) \<in> (edges wg)\<^sup>*"
  shows "a = c \<or> (\<exists>b. map_of wg a = Some b \<and> (b, c) \<in> (edges wg)\<^sup>*)"
  using assms by (auto elim: converse_rtranclE)

lemma cycle_loop_sound:
  assumes "cycle_loop wg waiter cur visited" "\<forall>v \<in> set visited - {waiter}. (v, cur) \<in> (edges wg)\<^sup>*"
  shows "(cur, waiter) \<in> (edges wg)\<^sup>+ \<or> \<not> acyclic (edges wg)"
  using assms
proof (induction wg waiter cur visited rule: cycle_loop.induct)
  case (1 wg waiter cur visited)
  from "1.prems"(1) obtain nxt where nxt: "map_of wg cur = Some nxt"
    by (subst (asm) cycle_loop.simps) (auto split: option.splits)
  then have e: "(cur, nxt) \<in> edges wg" by simp
  show ?case
  proof (cases "nxt = waiter \<or> nxt \<in> set visited")
    case True
    show ?thesis
    proof (cases "nxt = waiter")
      case False
      with True "1.prems"(2) have "(nxt, cur) \<in> (edges wg)\<^sup>*" by auto
      then have "(nxt, nxt) \<in> (edges wg)\<^sup>+" using e by (rule rtrancl_into_trancl1)
      then show ?thesis by (auto simp: acyclic_def)
    qed (use e in blast)
  next
    case False
    have loop: "cycle_loop wg waiter nxt (nxt # visited)"
      using "1.prems"(1) nxt False by (subst (asm) cycle_loop.simps) (auto split: if_splits)
    have "\<forall>v \<in> set (nxt # visited) - {waiter}. (v, nxt) \<in> (edges wg)\<^sup>*"
      using "1.prems"(2) e by (auto intro: rtrancl_into_rtrancl)
    with "1.IH" [OF nxt _ _ loop] False e show ?thesis
      by (auto intro: trancl_into_trancl2)
  qed
qed

lemma cycle_loop_complete:
  assumes "(cur, waiter) \<in> (edges wg)\<^sup>*" "cur \<noteq> waiter"
  shows "cycle_loop wg waiter cur visited"
  using assms
proof (induction wg waiter cur visited rule: cycle_loop.induct)
  case (1 wg waiter cur visited)
  from edges_star_cases [OF "1.prems"(1)] "1.prems"(2) obtain nxt where
    nxt: "map_of wg cur = Some nxt" "(nxt, waiter) \<in> (edges wg)\<^sup>*" by auto
  with "1.IH" [OF nxt(1)] show ?case
    by (subst cycle_loop.simps) auto
qed

lemma check_cycle_exact:
  assumes "acyclic (edges wg)"
  shows "check_cycle wg waiter holder \<longleftrightarrow> (holder, waiter) \<in> (edges wg)\<^sup>*"
  using cycle_loop_sound [of wg waiter holder "[holder, waiter]"]
    cycle_loop_complete [of holder waiter wg "[holder, waiter]"] assms
  by (auto simp: check_cycle_def dest: trancl_into_rtrancl)

lemma edges_update_subset: "edges (AList.update a b wg) \<subseteq> insert (a, b) (edges wg)"
  by (auto simp: edges_def split: if_splits)

lemma edges_delete_subset: "edges (AList.delete a wg) \<subseteq> edges wg"
  by (auto simp: edges_def split: if_splits)

lemma register_wait_edges:
  assumes "register_wait st waiter holder = Inr st'"
  shows "wait_for st' = AList.update waiter holder (wait_for st)"
    "\<not> check_cycle (wait_for st) waiter holder"
  using assms by (auto simp: register_wait_def Let_def split: if_splits option.splits prod.splits)

lemma register_wait_acyclic:
  assumes "acyclic (edges (wait_for st))" "register_wait st waiter holder = Inr st'"
  shows "acyclic (edges (wait_for st'))"
proof -
  note r = register_wait_edges [OF assms(2)]
  from r(2) have "acyclic (insert (waiter, holder) (edges (wait_for st)))"
    using assms(1) by (simp add: acyclic_insert check_cycle_exact)
  then show ?thesis unfolding r(1) by (rule acyclic_subset) (rule edges_update_subset)
qed

lemma unregister_wait_edges:
  "wait_for (unregister_wait st waiter) = wait_for st \<or>
   wait_for (unregister_wait st waiter) = AList.delete waiter (wait_for st)"
  by (auto simp: unregister_wait_def Let_def split: option.splits prod.splits)

lemma notify_wait_for [simp]: "wait_for (notify_lock_released st holder) = wait_for st"
  by (auto simp: notify_lock_released_def split: option.splits)

section \<open>Histories of the lock manager\<close>

inductive lock_step :: "lock_manager \<Rightarrow> lock_manager \<Rightarrow> bool" where
  step_register: "register_wait st w h = Inr st' \<Longrightarrow> lock_step st st'"
| step_unregister: "lock_step st (unregister_wait st w)"
| step_notify: "lock_step st (notify_lock_released st h)"

inductive_cases lock_stepE: "lock_step st st'"

interpretation locks: invariant_system "\<lambda>st. st = lock_manager_new" lock_step
  "\<lambda>st. acyclic (edges (wait_for st))"
proof
  show "acyclic (edges (wait_for st))" if "st = lock_manager_new" for st
    using that by (simp add: lock_manager_new_def edges_def acyclic_def)
  show "acyclic (edges (wait_for st'))" if "acyclic (edges (wait_for st))" "lock_step st st'" for st st'
    using that(2,1)
  proof cases
    case (step_register w h)
    with that(1) show ?thesis by (auto intro: register_wait_acyclic)
  next
    case (step_unregister w)
    with that(1) unregister_wait_edges [of st w] show ?thesis
      by (metis acyclic_subset edges_delete_subset)
  qed simp
qed

text \<open>In an acyclic graph every chain of waiters ends at a transaction that waits for nobody.\<close>

lemma chain_end:
  assumes "acyclic (edges wg)"
  shows "\<exists>h. (w, h) \<in> (edges wg)\<^sup>* \<and> map_of wg h = None"
proof -
  have "finite (edges wg)" by (rule finite_subset [OF subset_UNIV finite])
  then have "wf ((edges wg)\<inverse>)" using assms by (rule finite_acyclic_wf_converse)
  then show ?thesis
  proof (induction w rule: wf_induct_rule)
    case (less w)
    show ?case
    proof (cases "map_of wg w")
      case (Some b)
      with less [of b] obtain h where "(b, h) \<in> (edges wg)\<^sup>*" "map_of wg h = None" by auto
      with Some show ?thesis by (metis converse_rtrancl_into_rtrancl edges_iff)
    qed blast
  qed
qed

section \<open>Wake-ups\<close>

text \<open>Cells in the table are allocated and not released.\<close>

definition cells_ok :: "lock_manager \<Rightarrow> bool" where
  "cells_ok st \<longleftrightarrow> (\<forall>h n a. map_of (wait_cells st) h = Some (n, a) \<longrightarrow> a < length (released st))"

lemma cells_ok_step:
  assumes "cells_ok st" "lock_step st st'"
  shows "cells_ok st' \<and> length (released st) \<le> length (released st') \<and>
         (\<forall>a < length (released st). released st ! a \<longrightarrow> released st' ! a)"
  using assms(2)
proof cases
  case (step_register w h)
  with assms(1) show ?thesis
    by (auto simp: register_wait_def cells_ok_def Let_def nth_append less_Suc_eq
        split: if_splits option.splits prod.splits)
next
  case (step_unregister w)
  with assms(1) show ?thesis
    by (auto simp: unregister_wait_def cells_ok_def Let_def split: if_splits option.splits prod.splits)
next
  case (step_notify h)
  with assms(1) show ?thesis
    by (auto simp: notify_lock_released_def cells_ok_def nth_list_update split: option.splits prod.splits)
qed

lemma cells_ok_steps:
  assumes "lock_step\<^sup>*\<^sup>* st st'" "cells_ok st" "a < length (released st)" "released st ! a"
  shows "cells_ok st' \<and> a < length (released st') \<and> released st' ! a"
  using assms
proof (induction rule: rtranclp_induct)
  case (step y z)
  from cells_ok_step [OF _ step.hyps(2)] step show ?case by auto
qed simp

interpretation cells: invariant_system "\<lambda>st. st = lock_manager_new" lock_step cells_ok
proof
  show "cells_ok st" if "st = lock_manager_new" for st
    using that by (simp add: lock_manager_new_def cells_ok_def)
qed (use cells_ok_step in blast)

text \<open>An example history: transaction 1 waits for 2, which waits for 3.\<close>

definition waiting_chain :: lock_manager where
  "waiting_chain =
     \<lparr>wait_for = [(1, 2), (2, 3)], wait_cells = [(2, (1, 0)), (3, (1, 1))], released = [False, False]\<rparr>"

lemma waiting_chain_reachable: "reachable (\<lambda>st. st = lock_manager_new) lock_step waiting_chain"
proof -
  define s1 where "s1 = \<lparr>wait_for = [(1, 2)], wait_cells = [(2, (1, 0))], released = [False]\<rparr>"
  have "register_wait lock_manager_new 1 2 = Inr s1" "register_wait s1 2 3 = Inr waiting_chain"
    by (simp_all add: register_wait_def check_cycle_def cycle_loop.simps lock_manager_new_def s1_def
        waiting_chain_def)
  then have "lock_step lock_manager_new s1" "lock_step s1 waiting_chain"
    by (auto intro: step_register)
  moreover have "reachable (\<lambda>st. st = lock_manager_new) lock_step lock_manager_new"
    by (simp add: reach_init)
  ultimately show ?thesis by (blast intro: reach_step)
qed

section \<open>Properties\<close>

text \<open>C37: In every state the lock manager can reach, the wait-for graph has no cycle, and a wait request is
  refused with a lock conflict exactly when it would close one (or wait for itself); the search
  terminates because the set of visited transactions grows.\<close>

theorem deadlock_detection_exact:
  assumes "reachable (\<lambda>st. st = lock_manager_new) lock_step st"
  shows "acyclic (edges (wait_for st)) \<and>
    (register_wait st waiter holder = Inl (LockConflict ''Deadlock detected'') \<longleftrightarrow>
       (holder, waiter) \<in> (edges (wait_for st))\<^sup>*)"
proof -
  from locks.reachable_inv [OF assms] have ac: "acyclic (edges (wait_for st))" .
  have "register_wait st waiter holder = Inl (LockConflict ''Deadlock detected'') \<longleftrightarrow>
      check_cycle (wait_for st) waiter holder"
    by (simp add: register_wait_def Let_def split: option.split)
  with ac show ?thesis by (simp add: check_cycle_exact)
qed

theorem deadlock_detection_exact_witness:
  "register_wait waiting_chain 3 1 = Inl (LockConflict ''Deadlock detected'') \<and>
   (1, 3) \<in> (edges (wait_for waiting_chain))\<^sup>*"
proof -
  have "(1, 2) \<in> edges (wait_for waiting_chain)" "(2, 3) \<in> edges (wait_for waiting_chain)"
    by (simp_all add: waiting_chain_def)
  then have "(1, 3) \<in> (edges (wait_for waiting_chain))\<^sup>*" by (meson r_into_rtrancl rtrancl_trans)
  with deadlock_detection_exact [OF waiting_chain_reachable, of 3 1] show ?thesis by blast
qed



text \<open>A waiter that cloned the holder's cell before the holder released its locks finds the cell
  released whenever it looks afterwards, whatever other transactions do in between.\<close>

theorem wakeup_not_lost:
  assumes "reachable (\<lambda>st. st = lock_manager_new) lock_step st"
    and "wait_begin st holder = Some cell"
    and "lock_step\<^sup>*\<^sup>* (notify_lock_released st holder) st'"
  shows "wait_end st' (Some cell) = Some True"
proof -
  have ok: "cells_ok st" using cells.reachable_inv [OF assms(1)] .
  from assms(2) obtain n where c: "map_of (wait_cells st) holder = Some (n, cell)"
    by (auto simp: wait_begin_def)
  with ok have a: "cell < length (released st)" by (auto simp: cells_ok_def)
  have "cells_ok (notify_lock_released st holder)"
    using cells_ok_step [OF ok step_notify] by blast
  moreover have "released (notify_lock_released st holder) = (released st)[cell := True]"
    using c by (simp add: notify_lock_released_def)
  ultimately have "cell < length (released st') \<and> released st' ! cell"
    using cells_ok_steps [OF assms(3), of cell] a by simp
  then show ?thesis by (simp add: wait_end_def vec_get_def)
qed

theorem wakeup_not_lost_witness:
  "wait_begin waiting_chain 3 = Some 1 \<and>
   wait_end (unregister_wait (notify_lock_released waiting_chain 3) 2) (Some 1) = Some True"
proof -
  have w: "wait_begin waiting_chain 3 = Some 1" by (simp add: wait_begin_def waiting_chain_def)
  from wakeup_not_lost [OF waiting_chain_reachable w r_into_rtranclp, OF step_unregister] w show ?thesis
    by blast
qed

end
