(* ===== verification/Transactions.thy ===== *)
theory Transactions
  imports MV_Store Locking
begin

text \<open>
  MVCC transactions (\<^verbatim>\<open>tx/store.rs\<close>, \<^verbatim>\<open>tx/transaction.rs\<close>) over the store and the lock manager.  A writer keeps
  its value in the uncommitted slot of the key and the key in its undo log; commit turns the slots into
  committed versions through the write-ahead log, rollback empties them.  The loop of \<^verbatim>\<open>put\<close> and \<^verbatim>\<open>remove\<close>
  is cut where other threads run: one pass under the key mutex (\<open>try_put\<close>, \<open>try_remove\<close>), the
  registration of the wait (\<open>lock_wait_begin\<close>) and the wake-up (\<open>lock_wait_end\<close>).  Commit is cut at the
  group-commit queue in the same way.  The query deadline is an argument: \<open>Some 0\<close> is a deadline that has
  passed.  Query metrics are counters nothing reads and are left out.
\<close>

section \<open>State\<close>

datatype transaction_status = Open | Committed | RolledBack

record undo_log_entry =
  undo_map :: string
  undo_key :: bytes

record transaction =
  tx_id :: u64
  snapshot_version :: u64
  status :: transaction_status
  undo_log :: "undo_log_entry list"

record tx_store =
  mvs :: mvstore
  next_tx_id :: u64
  active_transactions :: "(u64, u64) hashmap"
  lock_mgr :: lock_manager
  lock_timeout_ms :: u64

definition tx_store_new :: "mvstore \<Rightarrow> tx_store" where
  "tx_store_new st =
     \<lparr>mvs = st, next_tx_id = 1, active_transactions = [], lock_mgr = lock_manager_new, lock_timeout_ms = 1000\<rparr>"

definition set_lock_timeout_ms :: "tx_store \<Rightarrow> u64 \<Rightarrow> tx_store" where
  "set_lock_timeout_ms ts ms = ts\<lparr>lock_timeout_ms := ms\<rparr>"

definition is_tx_active :: "tx_store \<Rightarrow> u64 \<Rightarrow> bool" where
  "is_tx_active ts tid = hm_contains (active_transactions ts) tid"

definition transaction_new :: "u64 \<Rightarrow> u64 \<Rightarrow> transaction" where
  "transaction_new tid snapshot = \<lparr>tx_id = tid, snapshot_version = snapshot, status = Open, undo_log = []\<rparr>"

text \<open>
  \<^verbatim>\<open>begin\<close> takes an id and reads the version, and only then enters the table of active transactions.  Other
  threads run between the two; \<open>tx_begin\<close> is the whole call when none does.
\<close>

definition begin_fetch :: "tx_store \<Rightarrow> transaction \<times> tx_store" where
  "begin_fetch ts = (transaction_new (next_tx_id ts) (version (mvs ts)), ts\<lparr>next_tx_id := next_tx_id ts + 1\<rparr>)"

definition begin_register :: "tx_store \<Rightarrow> transaction \<Rightarrow> tx_store" where
  "begin_register ts tx =
     ts\<lparr>active_transactions := AList.update (tx_id tx) (snapshot_version tx) (active_transactions ts)\<rparr>"

definition tx_begin :: "tx_store \<Rightarrow> transaction \<times> tx_store" where
  "tx_begin ts = (case begin_fetch ts of (tx, ts1) \<Rightarrow> (tx, begin_register ts1 tx))"

definition remove_active_tx :: "tx_store \<Rightarrow> u64 \<Rightarrow> tx_store" where
  "remove_active_tx ts tid =
     ts\<lparr>active_transactions := AList.delete tid (active_transactions ts),
        lock_mgr := notify_lock_released (unregister_wait (lock_mgr ts) tid) tid\<rparr>"

definition active_tx_count :: "tx_store \<Rightarrow> nat" where
  "active_tx_count ts = length (active_transactions ts)"

definition oldest_active_version :: "tx_store \<Rightarrow> u64" where
  "oldest_active_version ts =
     (case map snd (active_transactions ts) of
        [] \<Rightarrow> version (mvs ts)
      | v # vs \<Rightarrow> fold min vs v)"

section \<open>Reading\<close>

definition check_open :: "transaction \<Rightarrow> unit h2_result" where
  "check_open tx = (if status tx \<noteq> Open then Inl (Transaction ''Transaction is not open'') else Inr ())"

text \<open>The value a transaction sees in the bytes of an entry: the fast path, then the decoded history.\<close>

definition visible_bytes :: "codecs \<Rightarrow> transaction \<Rightarrow> bytes \<Rightarrow> bytes option h2_result" where
  "visible_bytes C tx bs =
     res_bind (or_panic (read_visible_raw bs (tx_id tx) (snapshot_version tx))) (\<lambda>raw.
       case raw of
         Some val \<Rightarrow> Inr (Some val)
       | None \<Rightarrow> res_bind (vv_from_bytes (de_vv C) bs) (\<lambda>vv. Inr (read_visible vv (tx_id tx) (snapshot_version tx))))"

definition tx_get :: "codecs \<Rightarrow> tx_store \<Rightarrow> transaction \<Rightarrow> string \<Rightarrow> bytes \<Rightarrow> bytes option h2_result \<times> tx_store" where
  "tx_get C ts tx name key =
     (case check_open tx of
        Inl e \<Rightarrow> (Inl e, ts)
      | Inr _ \<Rightarrow>
          (case open_map (mvs ts) name of (m, st1) \<Rightarrow>
             (res_bind (or_panic (map_get m key)) (\<lambda>found.
                case found of None \<Rightarrow> Inr None | Some bs \<Rightarrow> visible_bytes C tx bs),
              ts\<lparr>mvs := st1\<rparr>)))"

text \<open>
  The loop of the scans.  An entry that does not decode is skipped; \<open>deadline\<close> counts the entries until
  the query deadline is found to have passed.
\<close>

fun scan_entries :: "(bytes \<Rightarrow> bytes option h2_result) \<Rightarrow> nat option \<Rightarrow> entry list \<Rightarrow> (bytes \<times> bytes) list h2_result" where
  "scan_entries see deadline [] = Inr []"
| "scan_entries see deadline (e # es) =
     (if deadline = Some 0 then Inl (QueryTimeout ''Query execution timed out'')
      else case see (entry_value e) of
             Inl Panic \<Rightarrow> Inl Panic
           | Inl _ \<Rightarrow> scan_entries see (map_option (\<lambda>n. n - 1) deadline) es
           | Inr vo \<Rightarrow>
               res_bind (scan_entries see (map_option (\<lambda>n. n - 1) deadline) es) (\<lambda>rest.
                 Inr (case vo of None \<Rightarrow> rest | Some val \<Rightarrow> (entry_key e, val) # rest)))"

definition scan_with ::
    "tx_store \<Rightarrow> transaction \<Rightarrow> string \<Rightarrow> (mvmap \<Rightarrow> entry list option) \<Rightarrow> (bytes \<Rightarrow> bytes option h2_result) \<Rightarrow>
     nat option \<Rightarrow> (bytes \<times> bytes) list h2_result \<times> tx_store" where
  "scan_with ts tx name scan see deadline =
     (case check_open tx of
        Inl e \<Rightarrow> (Inl e, ts)
      | Inr _ \<Rightarrow>
          (case open_map (mvs ts) name of (m, st1) \<Rightarrow>
             (res_bind (or_panic (scan m)) (scan_entries see deadline), ts\<lparr>mvs := st1\<rparr>)))"

definition scan_visible where
  "scan_visible C ts tx name deadline =
     scan_with ts tx name (\<lambda>m. Some (map_scan_all m))
       (\<lambda>bs. res_bind (vv_from_bytes (de_vv C) bs) (\<lambda>vv. Inr (read_visible vv (tx_id tx) (snapshot_version tx)))) deadline"

definition scan_prefix_visible where
  "scan_prefix_visible C ts tx name pfx deadline =
     scan_with ts tx name (\<lambda>m. map_scan_prefix m pfx) (visible_bytes C tx) deadline"

definition scan_range_visible where
  "scan_range_visible C ts tx name start stop deadline =
     scan_with ts tx name (\<lambda>m. map_scan_range m start stop) (visible_bytes C tx) deadline"

text \<open>\<^verbatim>\<open>for_each_visible\<close> has no deadline and passes the entries to a callback, here a function on a state.\<close>

definition visit_entry ::
    "codecs \<Rightarrow> transaction \<Rightarrow> (bytes \<Rightarrow> bytes \<Rightarrow> 's \<Rightarrow> 's) \<Rightarrow> bytes \<Rightarrow> bytes \<Rightarrow> 's option \<Rightarrow> 's option" where
  "visit_entry C tx f k raw s =
     (case visible_bytes C tx raw of
        Inl Panic \<Rightarrow> None
      | Inl _ \<Rightarrow> s
      | Inr vo \<Rightarrow> (case vo of None \<Rightarrow> s | Some val \<Rightarrow> map_option (f k val) s))"

definition for_each_visible ::
    "codecs \<Rightarrow> tx_store \<Rightarrow> transaction \<Rightarrow> string \<Rightarrow> (bytes \<Rightarrow> bytes \<Rightarrow> 's \<Rightarrow> 's) \<Rightarrow> 's \<Rightarrow> 's h2_result \<times> tx_store" where
  "for_each_visible C ts tx name f s =
     (case check_open tx of
        Inl e \<Rightarrow> (Inl e, ts)
      | Inr _ \<Rightarrow>
          (case open_map (mvs ts) name of (m, st1) \<Rightarrow>
             (or_panic (map_for_each_entry m (visit_entry C tx f) (Some s)), ts\<lparr>mvs := st1\<rparr>)))"

section \<open>Rolling back\<close>

definition undo_entry :: "codecs \<Rightarrow> u64 \<Rightarrow> mvstore \<Rightarrow> undo_log_entry \<Rightarrow> unit h2_result \<times> mvstore" where
  "undo_entry C tid st e =
     (case open_map st (undo_map e) of (m, st1) \<Rightarrow>
        (case map_get m (undo_key e) of
           None \<Rightarrow> (Inl Panic, st1)
         | Some None \<Rightarrow> (Inr (), st1)
         | Some (Some bs) \<Rightarrow>
             (case vv_from_bytes (de_vv C) bs of
                Inl _ \<Rightarrow> (Inr (), st1)
              | Inr vv \<Rightarrow>
                  if active_tx_id vv = Some tid then
                    (let vv' = rollback_uncommitted vv in
                     if committed_history vv' = [] then
                       (case store_remove st1 (undo_map e) (undo_key e) of
                          None \<Rightarrow> (Inl Panic, st1) | Some st2 \<Rightarrow> (Inr (), st2))
                     else case vv_to_bytes (ser_vv C) vv' of
                            Inl err \<Rightarrow> (Inl err, st1)
                          | Inr bs' \<Rightarrow>
                              (case store_put st1 (undo_map e) (undo_key e) bs' of
                                 None \<Rightarrow> (Inl Panic, st1) | Some st2 \<Rightarrow> (Inr (), st2)))
                  else (Inr (), st1))))"

text \<open>The loop pops from the end of the log; the log it returns is what is left, last entry first.\<close>

fun undo_loop :: "codecs \<Rightarrow> u64 \<Rightarrow> mvstore \<Rightarrow> undo_log_entry list \<Rightarrow> unit h2_result \<times> mvstore \<times> undo_log_entry list" where
  "undo_loop C tid st [] = (Inr (), st, [])"
| "undo_loop C tid st (e # es) =
     (case undo_entry C tid st e of
        (Inl err, st') \<Rightarrow> (Inl err, st', es)
      | (Inr _, st') \<Rightarrow> undo_loop C tid st' es)"

definition tx_rollback :: "codecs \<Rightarrow> tx_store \<Rightarrow> transaction \<Rightarrow> unit h2_result \<times> tx_store \<times> transaction" where
  "tx_rollback C ts tx =
     (if status tx = RolledBack then (Inr (), ts, tx)
      else if status tx \<noteq> Open then (Inl (Transaction ''Transaction is already closed''), ts, tx)
      else case undo_loop C (tx_id tx) (mvs ts) (rev (undo_log tx)) of
             (Inl err, st', rest) \<Rightarrow> (Inl err, ts\<lparr>mvs := st'\<rparr>, tx\<lparr>undo_log := rev rest\<rparr>)
           | (Inr _, st', rest) \<Rightarrow>
               (Inr (), remove_active_tx (ts\<lparr>mvs := st'\<rparr>) (tx_id tx),
                tx\<lparr>undo_log := rev rest, status := RolledBack\<rparr>))"

definition tx_drop :: "codecs \<Rightarrow> tx_store \<Rightarrow> transaction \<Rightarrow> tx_store" where
  "tx_drop C ts tx = (if status tx = Open then (case tx_rollback C ts tx of (_, ts', _) \<Rightarrow> ts') else ts)"

section \<open>Writing\<close>

text \<open>
  The outcome of one pass: the operation has returned, it has failed, or another active transaction
  holds the key.
\<close>

datatype 'a attempt = Returned 'a | Failed h2_error | Blocked u64

definition existing_value :: "codecs \<Rightarrow> mvmap \<Rightarrow> bytes \<Rightarrow> versioned_value option h2_result" where
  "existing_value C m key =
     res_bind (or_panic (map_get m key)) (\<lambda>found.
       case found of None \<Rightarrow> Inr None | Some bs \<Rightarrow> res_bind (vv_from_bytes (de_vv C) bs) (\<lambda>vv. Inr (Some vv)))"

definition other_holder :: "tx_store \<Rightarrow> transaction \<Rightarrow> versioned_value option \<Rightarrow> u64 option" where
  "other_holder ts tx existing =
     (case Option.bind existing active_tx_id of
        None \<Rightarrow> None
      | Some tid \<Rightarrow> if tid \<noteq> tx_id tx \<and> is_tx_active ts tid then Some tid else None)"

text \<open>The end of both operations: serialize the new value, log the key, write the map.\<close>

definition write_uncommitted ::
    "codecs \<Rightarrow> tx_store \<Rightarrow> transaction \<Rightarrow> string \<Rightarrow> bytes \<Rightarrow> versioned_value \<Rightarrow> bytes option \<Rightarrow> 'a \<Rightarrow>
     'a attempt \<times> tx_store \<times> transaction" where
  "write_uncommitted C ts tx name key vv val r =
     (case vv_to_bytes (ser_vv C) (vv\<lparr>uncommitted := Some \<lparr>unc_tx = tx_id tx, unc_value = val\<rparr>\<rparr>) of
        Inl e \<Rightarrow> (Failed e, ts, tx)
      | Inr bs \<Rightarrow>
          (let tx' = tx\<lparr>undo_log := undo_log tx @ [\<lparr>undo_map = name, undo_key = key\<rparr>]\<rparr> in
           case store_put (mvs ts) name key bs of
             None \<Rightarrow> (Failed Panic, ts, tx')
           | Some st' \<Rightarrow> (Returned r, ts\<lparr>mvs := st'\<rparr>, tx')))"

definition try_put ::
    "codecs \<Rightarrow> tx_store \<Rightarrow> transaction \<Rightarrow> string \<Rightarrow> bytes \<Rightarrow> bytes \<Rightarrow> unit attempt \<times> tx_store \<times> transaction" where
  "try_put C ts tx name key val =
     (case check_open tx of
        Inl e \<Rightarrow> (Failed e, ts, tx)
      | Inr _ \<Rightarrow>
          (case open_map (mvs ts) name of (m, st1) \<Rightarrow>
             let ts1 = ts\<lparr>mvs := st1\<rparr> in
             case existing_value C m key of
               Inl e \<Rightarrow> (Failed e, ts1, tx)
             | Inr existing \<Rightarrow>
                 (case other_holder ts1 tx existing of
                    Some holder \<Rightarrow> (Blocked holder, ts1, tx)
                  | None \<Rightarrow>
                      write_uncommitted C ts1 tx name key
                        (case existing of Some vv \<Rightarrow> vv | None \<Rightarrow> \<lparr>uncommitted = None, committed_history = []\<rparr>)
                        (Some val) ())))"

definition try_remove ::
    "codecs \<Rightarrow> tx_store \<Rightarrow> transaction \<Rightarrow> string \<Rightarrow> bytes \<Rightarrow> bool attempt \<times> tx_store \<times> transaction" where
  "try_remove C ts tx name key =
     (case check_open tx of
        Inl e \<Rightarrow> (Failed e, ts, tx)
      | Inr _ \<Rightarrow>
          (case open_map (mvs ts) name of (m, st1) \<Rightarrow>
             let ts1 = ts\<lparr>mvs := st1\<rparr> in
             case existing_value C m key of
               Inl e \<Rightarrow> (Failed e, ts1, tx)
             | Inr None \<Rightarrow> (Returned False, ts1, tx)
             | Inr (Some vv) \<Rightarrow>
                 (case other_holder ts1 tx (Some vv) of
                    Some holder \<Rightarrow> (Blocked holder, ts1, tx)
                  | None \<Rightarrow>
                      if read_visible vv (tx_id tx) (snapshot_version tx) = None then (Returned False, ts1, tx)
                      else write_uncommitted C ts1 tx name key vv None True)))"

text \<open>
  A blocked pass.  On a deadlock or a passed deadline the transaction rolls itself back; otherwise it
  waits on the cell of the holder (\<open>None\<close>: the holder is gone, there is nothing to wait for).
\<close>

definition lock_wait_begin ::
    "codecs \<Rightarrow> nat option \<Rightarrow> tx_store \<Rightarrow> transaction \<Rightarrow> u64 \<Rightarrow> nat option h2_result \<times> tx_store \<times> transaction" where
  "lock_wait_begin C remaining ts tx holder =
     (case register_wait (lock_mgr ts) (tx_id tx) holder of
        Inl e \<Rightarrow> (case tx_rollback C ts tx of (_, ts', tx') \<Rightarrow> (Inl e, ts', tx'))
      | Inr lm \<Rightarrow>
          (let ts1 = ts\<lparr>lock_mgr := lm\<rparr> in
           if remaining = Some 0 then
             (case tx_rollback C ts1 tx of
                (_, ts', tx') \<Rightarrow> (Inl (QueryTimeout ''Query execution timed out waiting for lock''), ts', tx'))
           else (Inr (if is_tx_active ts1 holder then wait_begin lm holder else None), ts1, tx)))"

text \<open>Waking up; success means the loop runs another pass.\<close>

definition lock_wait_end ::
    "codecs \<Rightarrow> nat option \<Rightarrow> tx_store \<Rightarrow> transaction \<Rightarrow> nat option \<Rightarrow> unit h2_result \<times> tx_store \<times> transaction" where
  "lock_wait_end C remaining ts tx cell =
     (case wait_end (lock_mgr ts) cell of
        None \<Rightarrow> (Inl Panic, ts, tx)
      | Some not_timed_out \<Rightarrow>
          (let ts1 = ts\<lparr>lock_mgr := unregister_wait (lock_mgr ts) (tx_id tx)\<rparr> in
           if not_timed_out then (Inr (), ts1, tx)
           else if remaining = Some 0 then
             (case tx_rollback C ts1 tx of
                (_, ts', tx') \<Rightarrow> (Inl (QueryTimeout ''Query execution timed out waiting for lock''), ts', tx'))
           else (Inl (LockConflict ''Lock wait timeout''), ts1, tx)))"

section \<open>Committing\<close>

text \<open>The closure \<^verbatim>\<open>commit\<close> passes to \<^verbatim>\<open>commit_with\<close>; it opens the maps it reads.\<close>

fun commit_changes ::
    "codecs \<Rightarrow> u64 \<Rightarrow> u64 \<Rightarrow> mvstore \<Rightarrow> undo_log_entry list \<Rightarrow> wal_change list h2_result \<times> mvstore" where
  "commit_changes C tid commit_version st [] = (Inr [], st)"
| "commit_changes C tid commit_version st (e # es) =
     (case open_map st (undo_map e) of (m, st1) \<Rightarrow>
      (case map_get m (undo_key e) of
         None \<Rightarrow> (Inl Panic, st1)
       | Some None \<Rightarrow>
           (case commit_changes C tid commit_version st1 es of
              (Inl err, st') \<Rightarrow> (Inl err, st')
            | (Inr cs, st') \<Rightarrow> (Inr (\<lparr>wc_map = undo_map e, wc_key = undo_key e, wc_value = None\<rparr> # cs), st'))
       | Some (Some bs) \<Rightarrow>
           (case vv_from_bytes (de_vv C) bs of
              Inl err \<Rightarrow> (Inl err, st1)
            | Inr vv \<Rightarrow>
                if active_tx_id vv = Some tid then
                  (case vv_to_bytes (ser_vv C) (commit_uncommitted vv commit_version) of
                     Inl err \<Rightarrow> (Inl err, st1)
                   | Inr bs' \<Rightarrow>
                       (case commit_changes C tid commit_version st1 es of
                          (Inl err, st') \<Rightarrow> (Inl err, st')
                        | (Inr cs, st') \<Rightarrow>
                            (Inr (\<lparr>wc_map = undo_map e, wc_key = undo_key e, wc_value = Some bs'\<rparr> # cs), st')))
                else commit_changes C tid commit_version st1 es)))"

text \<open>The part of \<^verbatim>\<open>commit\<close> after \<^verbatim>\<open>commit_with\<close> has returned.\<close>

definition commit_end ::
    "codecs \<Rightarrow> tx_store \<Rightarrow> transaction \<Rightarrow> commit_failure + unit \<Rightarrow> unit h2_result \<times> tx_store \<times> transaction" where
  "commit_end C ts tx outcome =
     (case outcome of
        Inr _ \<Rightarrow> (Inr (), remove_active_tx ts (tx_id tx), tx\<lparr>status := Committed\<rparr>)
      | Inl failure \<Rightarrow>
          if cf_durable failure
          then (Inl (cf_error failure), remove_active_tx ts (tx_id tx), tx\<lparr>status := Committed\<rparr>)
          else case tx_rollback C ts tx of
                 (Inl e, ts', tx') \<Rightarrow> (Inl e, ts', tx')
               | (Inr _, ts', tx') \<Rightarrow> (Inl (cf_error failure), ts', tx'))"

text \<open>
  The part up to the queue: finished (\<open>Inl\<close>), or the record is queued and the flag says whether this
  thread leads the flush.
\<close>

definition commit_begin ::
    "codecs \<Rightarrow> io_faults \<Rightarrow> bool \<Rightarrow> u64 \<Rightarrow> tx_store \<Rightarrow> transaction \<Rightarrow>
     (unit h2_result + bool) \<times> tx_store \<times> transaction" where
  "commit_begin C flt trunc_fault now ts tx =
     (if status tx = Committed then (Inl (Inr ()), ts, tx)
      else if status tx \<noteq> Open then (Inl (Inl (Transaction ''Transaction is already closed'')), ts, tx)
      else if undo_log tx = [] then
        (Inl (Inr ()), remove_active_tx ts (tx_id tx), tx\<lparr>status := Committed\<rparr>)
      else
        let st = mvs ts;
            prepared = commit_changes C (tx_id tx) (next_commit_version st + 1) st (undo_log tx);
            st1 = (if poisoned st then st else snd prepared) in
        case commit_enqueue C flt trunc_fault st1 (tx_id tx) (\<lambda>_. fst prepared) now of
          (Inl failure, st2) \<Rightarrow>
            (case commit_end C (ts\<lparr>mvs := st2\<rparr>) tx (Inl failure) of (r, ts', tx') \<Rightarrow> (Inl r, ts', tx'))
        | (Inr leads, st2) \<Rightarrow> (Inr leads, ts\<lparr>mvs := st2\<rparr>, tx))"

text \<open>A commit with no other thread in the queue: the leader flushes its own record at once.\<close>

definition tx_commit ::
    "codecs \<Rightarrow> io_faults \<Rightarrow> bool \<Rightarrow> u64 \<Rightarrow> listener \<Rightarrow> tx_store \<Rightarrow> transaction \<Rightarrow>
     unit h2_result \<times> tx_store \<times> transaction" where
  "tx_commit C flt trunc_fault now lst ts tx =
     (case commit_begin C flt trunc_fault now ts tx of
        (Inl r, ts1, tx1) \<Rightarrow> (r, ts1, tx1)
      | (Inr _, ts1, tx1) \<Rightarrow>
          (case commit_flush C flt trunc_fault lst (mvs ts1) of
             None \<Rightarrow> (Inl Panic, ts1, tx1)
           | Some (outcomes, st2) \<Rightarrow>
               (case outcomes of
                  [] \<Rightarrow> (Inl Panic, ts1\<lparr>mvs := st2\<rparr>, tx1)
                | outs \<Rightarrow> commit_end C (ts1\<lparr>mvs := st2\<rparr>) tx1 (last outs))))"

section \<open>Vacuum\<close>

text \<open>
  The body of the loop of \<^verbatim>\<open>vacuum_map\<close> for an entry of the scan; it writes to the map without the key mutex.
  Other threads run between the scan and each write-back; \<open>vacuum_map\<close> is the whole call when none does.
\<close>

definition vacuum_entry :: "codecs \<Rightarrow> u64 \<Rightarrow> string \<Rightarrow> mvstore \<times> nat \<Rightarrow> entry \<Rightarrow> (mvstore \<times> nat) h2_result" where
  "vacuum_entry C horizon name s e =
     (case s of (st, n) \<Rightarrow>
      case vv_from_bytes (de_vv C) (entry_value e) of
        Inl _ \<Rightarrow> Inr (st, n)
      | Inr vv \<Rightarrow>
          if is_dead vv horizon then
            res_bind (or_panic (store_remove st name (entry_key e))) (\<lambda>st'. Inr (st', n + 1))
          else case prune_old_versions vv horizon of
                 (vv', pruned) \<Rightarrow>
                   if pruned then
                     res_bind (vv_to_bytes (ser_vv C) vv') (\<lambda>bs.
                       res_bind (or_panic (store_put st name (entry_key e) bs)) (\<lambda>st'. Inr (st', n)))
                   else Inr (st, n))"

definition vacuum_scan :: "tx_store \<Rightarrow> string \<Rightarrow> entry list \<times> mvstore" where
  "vacuum_scan ts name = (case open_map (mvs ts) name of (m, st1) \<Rightarrow> (map_scan_all m, st1))"

fun vacuum_loop :: "codecs \<Rightarrow> u64 \<Rightarrow> string \<Rightarrow> mvstore \<times> nat \<Rightarrow> entry list \<Rightarrow> nat h2_result \<times> mvstore" where
  "vacuum_loop C horizon name (st, n) [] = (Inr n, st)"
| "vacuum_loop C horizon name (st, n) (e # es) =
     (case vacuum_entry C horizon name (st, n) e of
        Inl err \<Rightarrow> (Inl err, st)
      | Inr s \<Rightarrow> vacuum_loop C horizon name s es)"

definition vacuum_map :: "codecs \<Rightarrow> tx_store \<Rightarrow> string \<Rightarrow> nat h2_result \<times> tx_store" where
  "vacuum_map C ts name =
     (case vacuum_scan ts name of (entries, st1) \<Rightarrow>
      case vacuum_loop C (oldest_active_version ts) name (st1, 0) entries of
        (r, st') \<Rightarrow> (r, ts\<lparr>mvs := st'\<rparr>))"

end
