(* ===== verification/Tx_Isolation.thy ===== *)
theory Tx_Isolation
  imports Transactions
begin

text \<open>
  What transactions promise.  The abstract state of a store is \<open>vals\<close>: the versioned value of every key.
  Each operation of \<^verbatim>\<open>transaction.rs\<close> and \<^verbatim>\<open>tx/store.rs\<close> has a lemma that gives its effect on it; over them
  the theory proves the invariant of a whole system of transactions, that open snapshots never see the
  steps of others, and that rollback and commit are atomic.
\<close>

section \<open>The versioned values of a store\<close>

text \<open>A value with part of another's history and at most its uncommitted record.\<close>

definition smaller :: "versioned_value \<Rightarrow> versioned_value \<Rightarrow> bool" where
  "smaller vv' vv \<longleftrightarrow> (uncommitted vv' = None \<or> uncommitted vv' = uncommitted vv) \<and>
     (\<exists>n. committed_history vv' = take n (committed_history vv))"

text \<open>
  What is relied on of \<^verbatim>\<open>bincode\<close> for \<^verbatim>\<open>VersionedValue\<close>: it decodes what it encoded, the bytes fit into memory,
  a value with less in it can be encoded too, and the layout is the documented one.
\<close>

definition vv_codec :: "codecs \<Rightarrow> bool" where
  "vv_codec C \<longleftrightarrow> single_layout (de_vv C) \<and>
     (\<forall>vv bs. ser_vv C vv = Inr bs \<longrightarrow> bs \<noteq> [] \<and> length bs < 2 ^ 63 \<and> de_vv C bs = Inr vv) \<and>
     (\<forall>vv vv' bs. ser_vv C vv = Inr bs \<and> smaller vv' vv \<longrightarrow> (\<exists>bs'. ser_vv C vv' = Inr bs'))"

definition vals :: "codecs \<Rightarrow> mvstore \<Rightarrow> (string \<times> bytes) \<rightharpoonup> versioned_value" where
  "vals C st p = (case store_content st p of
     None \<Rightarrow> None
   | Some bs \<Rightarrow> (case vv_from_bytes (de_vv C) bs of Inl _ \<Rightarrow> None | Inr vv \<Rightarrow> Some vv))"

text \<open>A well-formed store in which every value is an encoded \<^verbatim>\<open>VersionedValue\<close>.\<close>

definition mvcc :: "codecs \<Rightarrow> mvstore \<Rightarrow> bool" where
  "mvcc C st \<longleftrightarrow> store_wf st \<and> (\<forall>p bs. store_content st p = Some bs \<longrightarrow> (\<exists>vv. ser_vv C vv = Inr bs))"

lemma vv_codecD:
  assumes "vv_codec C" "ser_vv C vv = Inr bs"
  shows "bs \<noteq> []" "length bs < 2 ^ 63" "de_vv C bs = Inr vv" "vv_from_bytes (de_vv C) bs = Inr vv"
  using assms by (auto simp: vv_codec_def vv_from_bytes_def)

lemma vv_codec_smaller:
  "vv_codec C \<Longrightarrow> ser_vv C vv = Inr bs \<Longrightarrow> smaller vv' vv \<Longrightarrow> \<exists>bs'. ser_vv C vv' = Inr bs'"
  unfolding vv_codec_def by blast

lemma smaller_rollback: "smaller (rollback_uncommitted vv) vv"
  by (auto simp: smaller_def rollback_uncommitted_def intro: exI [of _ "length (committed_history vv)"])

lemma smaller_prune: "smaller (fst (prune_old_versions vv horizon)) vv"
  by (auto simp: smaller_def prune_old_versions_def intro: exI [of _ "length (committed_history vv)"] split: option.splits)

text \<open>What is stored under a key is the encoding of its versioned value.\<close>

lemma stored_vals:
  assumes "vv_codec C" "mvcc C st"
  shows "case store_content st p of
      None \<Rightarrow> vals C st p = None
    | Some bs \<Rightarrow> (\<exists>vv. ser_vv C vv = Inr bs \<and> vals C st p = Some vv \<and> vv_from_bytes (de_vv C) bs = Inr vv)"
  using assms vv_codecD(4) [OF assms(1)] unfolding mvcc_def vals_def by (fastforce split: option.splits)

lemma content_of_vals:
  assumes "vv_codec C" "mvcc C st"
  shows "(vals C st p = None \<longrightarrow> store_content st p = None) \<and>
    (\<forall>vv. vals C st p = Some vv \<longrightarrow>
       (\<exists>bs. store_content st p = Some bs \<and> ser_vv C vv = Inr bs \<and> vv_from_bytes (de_vv C) bs = Inr vv))"
  using stored_vals [OF assms, of p] by (auto split: option.splits)

lemma vals_cong: "store_content st' = store_content st \<Longrightarrow> vals C st' = vals C st"
  by (simp add: vals_def fun_eq_iff)

lemma mvcc_cong: "store_wf st' \<Longrightarrow> store_content st' = store_content st \<Longrightarrow> mvcc C st \<Longrightarrow> mvcc C st'"
  by (simp add: mvcc_def)

lemma mvcc_wf: "mvcc C st \<Longrightarrow> store_wf st"
  by (simp add: mvcc_def)

lemma open_map_frame: "open_map st n = (m, st1) \<Longrightarrow> same_frame st st1"
  by (cases st) (auto simp: open_map_def same_frame_def Let_def split: option.splits)

text \<open>Opening a map changes no value, and the opened map answers reads.\<close>

lemma open_map_vals:
  assumes "mvcc C st" "open_map st n = (m, st1)"
  shows "mvcc C st1" "vals C st1 = vals C st" "same_frame st st1" "map_get m k = Some (store_content st (n, k))"
proof -
  note o = open_map_step [OF mvcc_wf [OF assms(1)] assms(2)]
  show "mvcc C st1" by (rule mvcc_cong [OF o(2,4) assms(1)])
  show "vals C st1 = vals C st" by (rule vals_cong [OF o(4)])
  show "same_frame st st1" by (rule open_map_frame [OF assms(2)])
  show "map_get m k = Some (store_content st (n, k))"
    by (simp add: map_get_content [OF o(1)] o(5) content_of_Pair split: option.split)
qed

text \<open>Writing the encoding of a value, and removing a key.\<close>

lemma put_vals:
  assumes "vv_codec C" "mvcc C st" "ser_vv C vv = Inr bs"
  shows "\<exists>st'. store_put st n k bs = Some st' \<and> mvcc C st' \<and> vals C st' = (vals C st)((n, k) \<mapsto> vv) \<and> same_frame st st'"
proof -
  from store_apply_step [OF mvcc_wf [OF assms(2)], of "((n, k), Some bs)"] obtain st' where
    st': "store_apply st ((n, k), Some bs) = Some st'" "store_wf st'" "store_content st' = (store_content st)((n, k) \<mapsto> bs)"
    by auto
  have "mvcc C st'" using st' assms(2,3) by (auto simp: mvcc_def split: if_splits)
  moreover have "vals C st' = (vals C st)((n, k) \<mapsto> vv)"
    using st'(3) vv_codecD(4) [OF assms(1,3)] by (auto simp: vals_def fun_eq_iff)
  ultimately show ?thesis using st'(1) store_apply_frame [OF st'(1)] by (simp add: store_apply_def)
qed

lemma remove_vals:
  assumes "mvcc C st"
  shows "\<exists>st'. store_remove st n k = Some st' \<and> mvcc C st' \<and> vals C st' = (vals C st)((n, k) := None) \<and> same_frame st st'"
proof -
  from store_apply_step [OF mvcc_wf [OF assms], of "((n, k), None)"] obtain st' where
    st': "store_apply st ((n, k), None) = Some st'" "store_wf st'" "store_content st' = (store_content st)((n, k) := None)"
    by auto
  have "mvcc C st'" using st' assms by (auto simp: mvcc_def split: if_splits)
  moreover have "vals C st' = (vals C st)((n, k) := None)" using st'(3) by (auto simp: vals_def fun_eq_iff)
  ultimately show ?thesis using st'(1) store_apply_frame [OF st'(1)] by (simp add: store_apply_def)
qed

section \<open>Reads\<close>

text \<open>What a transaction sees of a key.\<close>

definition sees :: "codecs \<Rightarrow> mvstore \<Rightarrow> transaction \<Rightarrow> string \<times> bytes \<Rightarrow> bytes option" where
  "sees C st tx p = (case vals C st p of
     None \<Rightarrow> None | Some vv \<Rightarrow> read_visible vv (tx_id tx) (snapshot_version tx))"

lemma visible_bytes_value:
  assumes "vv_codec C" "ser_vv C vv = Inr bs"
  shows "visible_bytes C tx bs = Inr (read_visible vv (tx_id tx) (snapshot_version tx))"
proof -
  have lay: "single_layout (de_vv C)" using assms(1) by (simp add: vv_codec_def)
  note d = vv_codecD [OF assms]
  from read_visible_raw_total [OF d(2)] obtain r where
    r: "read_visible_raw bs (tx_id tx) (snapshot_version tx) = Some r" by blast
  show ?thesis
  proof (cases r)
    case None
    with r d(4) show ?thesis by (simp add: visible_bytes_def)
  next
    case (Some val)
    with raw_read_sound [OF lay d(2), of "tx_id tx" "snapshot_version tx" val] r d(4) show ?thesis
      by (auto simp: visible_bytes_def)
  qed
qed

lemma tx_get_sees:
  assumes "vv_codec C" "mvcc C (mvs ts)" "status tx = Open"
  shows "fst (tx_get C ts tx n k) = Inr (sees C (mvs ts) tx (n, k))"
proof -
  obtain m st1 where om: "open_map (mvs ts) n = (m, st1)" by force
  note o = open_map_vals [OF assms(2) om]
  show ?thesis
    using stored_vals [OF assms(1,2), of "(n, k)"] visible_bytes_value [OF assms(1)]
    by (auto simp: tx_get_def check_open_def assms(3) om o(4) sees_def split: option.splits)
qed


section \<open>Writes\<close>

text \<open>Steps that touch nothing but maps and the change sink, and steps that change no value either.\<close>

definition quiet :: "tx_store \<Rightarrow> tx_store \<Rightarrow> bool" where
  "quiet ts ts' \<longleftrightarrow> ts' = ts\<lparr>mvs := mvs ts'\<rparr> \<and> same_frame (mvs ts) (mvs ts')"

definition unchanged :: "codecs \<Rightarrow> tx_store \<Rightarrow> tx_store \<Rightarrow> bool" where
  "unchanged C ts ts' \<longleftrightarrow> quiet ts ts' \<and> mvcc C (mvs ts') \<and> vals C (mvs ts') = vals C (mvs ts)"

abbreviation log_key :: "transaction \<Rightarrow> string \<Rightarrow> bytes \<Rightarrow> transaction" where
  "log_key tx n k \<equiv> tx\<lparr>undo_log := undo_log tx @ [\<lparr>undo_map = n, undo_key = k\<rparr>]\<rparr>"

definition base_value :: "versioned_value option \<Rightarrow> versioned_value" where
  "base_value vo = (case vo of Some vv \<Rightarrow> vv | None \<Rightarrow> \<lparr>uncommitted = None, committed_history = []\<rparr>)"

text \<open>A successful write of \<open>val\<close> (\<open>None\<close>: a deletion mark) to a key no other active transaction holds.\<close>

definition wrote ::
    "codecs \<Rightarrow> tx_store \<Rightarrow> transaction \<Rightarrow> string \<Rightarrow> bytes \<Rightarrow> bytes option \<Rightarrow> tx_store \<Rightarrow> transaction \<Rightarrow> bool" where
  "wrote C ts tx n k val ts' tx' \<longleftrightarrow>
     other_holder ts tx (vals C (mvs ts) (n, k)) = None \<and> quiet ts ts' \<and> mvcc C (mvs ts') \<and> tx' = log_key tx n k \<and>
     vals C (mvs ts') = (vals C (mvs ts))((n, k) \<mapsto>
       (base_value (vals C (mvs ts) (n, k)))\<lparr>uncommitted := Some \<lparr>unc_tx = tx_id tx, unc_value = val\<rparr>\<rparr>)"

lemma quietD:
  assumes "quiet ts ts'"
  shows "active_transactions ts' = active_transactions ts" "next_tx_id ts' = next_tx_id ts"
    "lock_mgr ts' = lock_mgr ts" "version (mvs ts') = version (mvs ts)"
proof -
  have "same_frame (mvs ts) (mvs ts')" and q: "ts' = ts\<lparr>mvs := mvs ts'\<rparr>" using assms by (simp_all add: quiet_def)
  then show "version (mvs ts') = version (mvs ts)" by (simp add: same_frameD(5))
  show "active_transactions ts' = active_transactions ts" "next_tx_id ts' = next_tx_id ts" "lock_mgr ts' = lock_mgr ts"
    using arg_cong [OF q, of active_transactions] arg_cong [OF q, of next_tx_id] arg_cong [OF q, of lock_mgr] by simp_all
qed

lemma quiet_trans: "quiet a b \<Longrightarrow> quiet b c \<Longrightarrow> quiet a c"
  using same_frame_trans unfolding quiet_def by (cases a; cases b; cases c) auto

lemma quiet_mvs: "same_frame (mvs ts) st \<Longrightarrow> quiet ts (ts\<lparr>mvs := st\<rparr>)"
  by (simp add: quiet_def)

lemma unchanged_refl: "mvcc C (mvs ts) \<Longrightarrow> unchanged C ts ts"
  by (simp add: unchanged_def quiet_def same_frame_def)

lemma unchanged_open:
  "mvcc C (mvs ts) \<Longrightarrow> open_map (mvs ts) n = (m, st1) \<Longrightarrow> unchanged C ts (ts\<lparr>mvs := st1\<rparr>)"
  using open_map_vals [of C "mvs ts" n m st1] by (simp add: unchanged_def quiet_mvs)

lemma existing_value_vals:
  assumes "vv_codec C" "mvcc C st" "open_map st n = (m, st1)"
  shows "existing_value C m k = Inr (vals C st (n, k))"
  using stored_vals [OF assms(1,2), of "(n, k)"] open_map_vals(4) [OF assms(2,3), of k]
  by (auto simp: existing_value_def split: option.splits)

lemma write_uncommitted_effect:
  assumes "vv_codec C" "mvcc C (mvs ts)" "write_uncommitted C ts tx n k vv val r = (res, ts', tx')"
  shows "(\<exists>e. res = Failed e) \<and> ts' = ts \<and> tx' = tx \<or>
    res = Returned r \<and> quiet ts ts' \<and> mvcc C (mvs ts') \<and> tx' = log_key tx n k \<and>
      vals C (mvs ts') = (vals C (mvs ts))((n, k) \<mapsto> vv\<lparr>uncommitted := Some \<lparr>unc_tx = tx_id tx, unc_value = val\<rparr>\<rparr>)"
proof (cases "ser_vv C (vv\<lparr>uncommitted := Some \<lparr>unc_tx = tx_id tx, unc_value = val\<rparr>\<rparr>)")
  case (Inl e)
  with assms(3) show ?thesis by (auto simp: write_uncommitted_def vv_to_bytes_def)
next
  case (Inr bs)
  from put_vals [OF assms(1,2) Inr, of n k] obtain st' where
    "store_put (mvs ts) n k bs = Some st'" "mvcc C st'" "same_frame (mvs ts) st'"
    "vals C st' = (vals C (mvs ts))((n, k) \<mapsto> vv\<lparr>uncommitted := Some \<lparr>unc_tx = tx_id tx, unc_value = val\<rparr>\<rparr>)" by blast
  with assms(3) Inr show ?thesis
    by (auto simp: write_uncommitted_def vv_to_bytes_def Let_def quiet_mvs)
qed

lemma other_holder_mvs [simp]: "other_holder (ts\<lparr>mvs := st\<rparr>) tx vo = other_holder ts tx vo"
  by (simp add: other_holder_def is_tx_active_def split: option.split)

lemma wrote_after_open:
  assumes "mvcc C (mvs ts)" "open_map (mvs ts) n' = (m, st1)" "other_holder ts tx (vals C (mvs ts) (n, k)) = None"
    and "quiet (ts\<lparr>mvs := st1\<rparr>) ts'" "mvcc C (mvs ts')" "tx' = log_key tx n k"
    and "vals C (mvs ts') = (vals C st1)((n, k) \<mapsto>
      (base_value (vals C (mvs ts) (n, k)))\<lparr>uncommitted := Some \<lparr>unc_tx = tx_id tx, unc_value = val\<rparr>\<rparr>)"
  shows "wrote C ts tx n k val ts' tx'"
  using assms open_map_vals(2) [OF assms(1,2)] quiet_trans [OF quiet_mvs [OF open_map_vals(3) [OF assms(1,2)]] assms(4)]
  by (simp add: wrote_def)

lemma try_put_effect:
  assumes "vv_codec C" "mvcc C (mvs ts)" "status tx = Open" "try_put C ts tx n k val = (res, ts', tx')"
  shows "(\<exists>e. res = Failed e) \<and> unchanged C ts ts' \<and> tx' = tx \<or>
    (\<exists>h. res = Blocked h \<and> other_holder ts tx (vals C (mvs ts) (n, k)) = Some h) \<and> unchanged C ts ts' \<and> tx' = tx \<or>
    res = Returned () \<and> wrote C ts tx n k (Some val) ts' tx'"
proof -
  obtain m st1 where om: "open_map (mvs ts) n = (m, st1)" by force
  note o = open_map_vals [OF assms(2) om]
  note ex = existing_value_vals [OF assms(1,2) om, of k]
  note un = unchanged_open [OF assms(2) om]
  show ?thesis
  proof (cases "other_holder ts tx (vals C (mvs ts) (n, k))")
    case (Some h)
    with assms(3,4) un show ?thesis by (auto simp: try_put_def check_open_def om Let_def ex)
  next
    case None
    with assms(3,4) have run: "write_uncommitted C (ts\<lparr>mvs := st1\<rparr>) tx n k (base_value (vals C (mvs ts) (n, k))) (Some val) () = (res, ts', tx')"
      by (simp add: try_put_def check_open_def om Let_def ex base_value_def)
    from write_uncommitted_effect [OF assms(1) _ run] o(1) un wrote_after_open [OF assms(2) om None]
    show ?thesis by fastforce
  qed
qed

lemma try_remove_effect:
  assumes "vv_codec C" "mvcc C (mvs ts)" "status tx = Open" "try_remove C ts tx n k = (res, ts', tx')"
  shows "(\<exists>e. res = Failed e) \<and> unchanged C ts ts' \<and> tx' = tx \<or>
    (\<exists>h. res = Blocked h \<and> other_holder ts tx (vals C (mvs ts) (n, k)) = Some h) \<and> unchanged C ts ts' \<and> tx' = tx \<or>
    res = Returned False \<and> sees C (mvs ts) tx (n, k) = None \<and> unchanged C ts ts' \<and> tx' = tx \<or>
    res = Returned True \<and> sees C (mvs ts) tx (n, k) \<noteq> None \<and> wrote C ts tx n k None ts' tx'"
proof -
  obtain m st1 where om: "open_map (mvs ts) n = (m, st1)" by force
  note o = open_map_vals [OF assms(2) om]
  note ex = existing_value_vals [OF assms(1,2) om, of k]
  note un = unchanged_open [OF assms(2) om]
  show ?thesis
  proof (cases "vals C (mvs ts) (n, k)")
    case None
    with assms(3,4) un show ?thesis by (auto simp: try_remove_def check_open_def om Let_def ex sees_def)
  next
    case vv: (Some vv)
    show ?thesis
    proof (cases "other_holder ts tx (Some vv)")
      case (Some h)
      with assms(3,4) un vv show ?thesis by (auto simp: try_remove_def check_open_def om Let_def ex)
    next
      case None
      show ?thesis
      proof (cases "read_visible vv (tx_id tx) (snapshot_version tx)")
        case unseen: None
        with assms(3,4) un vv None show ?thesis by (auto simp: try_remove_def check_open_def om Let_def ex sees_def)
      next
        case (Some old)
        with assms(3,4) vv None have run: "write_uncommitted C (ts\<lparr>mvs := st1\<rparr>) tx n k (base_value (vals C (mvs ts) (n, k))) None True = (res, ts', tx')"
          by (simp add: try_remove_def check_open_def om Let_def ex base_value_def)
        have "sees C (mvs ts) tx (n, k) \<noteq> None" using vv Some by (simp add: sees_def)
        with write_uncommitted_effect [OF assms(1) _ run] o(1) un
          wrote_after_open [OF assms(2) om, of tx n k] None vv
        show ?thesis by fastforce
      qed
    qed
  qed
qed

section \<open>Rollback\<close>

definition undo_vv :: "u64 \<Rightarrow> versioned_value option \<Rightarrow> versioned_value option" where
  "undo_vv tid vo = (case vo of
     None \<Rightarrow> None
   | Some vv \<Rightarrow> if active_tx_id vv = Some tid
                then if committed_history vv = [] then None else Some (rollback_uncommitted vv)
                else Some vv)"

abbreviation entry_pos :: "undo_log_entry \<Rightarrow> string \<times> bytes" where
  "entry_pos e \<equiv> (undo_map e, undo_key e)"

definition undo_keys :: "transaction \<Rightarrow> (string \<times> bytes) set" where
  "undo_keys tx = entry_pos ` set (undo_log tx)"

lemma undo_vv_idem: "undo_vv tid (undo_vv tid vo) = undo_vv tid vo"
  by (auto simp: undo_vv_def rollback_uncommitted_def active_tx_id_def split: option.splits)

lemma undo_entry_effect:
  assumes "vv_codec C" "mvcc C st"
  shows "\<exists>st'. undo_entry C tid st e = (Inr (), st') \<and> mvcc C st' \<and> same_frame st st' \<and>
    vals C st' = (vals C st)(entry_pos e := undo_vv tid (vals C st (entry_pos e)))"
proof -
  obtain m st1 where om: "open_map st (undo_map e) = (m, st1)" by force
  note o = open_map_vals [OF assms(2) om]
  let ?p = "entry_pos e"
  show ?thesis
  proof (cases "\<exists>vv. vals C st ?p = Some vv \<and> active_tx_id vv = Some tid")
    case False
    then have same: "(vals C st)(?p := undo_vv tid (vals C st ?p)) = vals C st"
      by (auto simp: undo_vv_def fun_eq_iff split: option.splits)
    have "undo_entry C tid st e = (Inr (), st1)"
      using False stored_vals [OF assms, of ?p] by (auto simp: undo_entry_def om o(4) split: option.splits)
    with same o show ?thesis by simp
  next
    case True
    then obtain vv where vv: "vals C st ?p = Some vv" "active_tx_id vv = Some tid" by blast
    from content_of_vals [OF assms, of ?p] vv obtain bs where
      bs: "store_content st ?p = Some bs" "ser_vv C vv = Inr bs" "vv_from_bytes (de_vv C) bs = Inr vv" by auto
    from vv_codec_smaller [OF assms(1) bs(2) smaller_rollback] obtain bs' where
      bs': "ser_vv C (rollback_uncommitted vv) = Inr bs'" by blast
    from put_vals [OF assms(1) o(1) bs', of "undo_map e" "undo_key e"] remove_vals [OF o(1), of "undo_map e" "undo_key e"]
    show ?thesis
      using vv bs bs' o same_frame_trans [OF o(3)]
      by (cases "committed_history vv = []")
        (auto simp: undo_entry_def om o(4) undo_vv_def rollback_uncommitted_def vv_to_bytes_def)
  qed
qed

lemma undo_loop_effect:
  assumes "vv_codec C" "mvcc C st"
  shows "\<exists>st'. undo_loop C tid st es = (Inr (), st', []) \<and> mvcc C st' \<and> same_frame st st' \<and>
    vals C st' = (\<lambda>p. if p \<in> entry_pos ` set es then undo_vv tid (vals C st p) else vals C st p)"
  using assms(2)
proof (induction es arbitrary: st)
  case (Cons e es)
  from undo_entry_effect [OF assms(1) Cons.prems, of tid e] obtain st1 where
    st1: "undo_entry C tid st e = (Inr (), st1)" "mvcc C st1" "same_frame st st1"
      "vals C st1 = (vals C st)(entry_pos e := undo_vv tid (vals C st (entry_pos e)))" by blast
  from Cons.IH [OF st1(2)] st1 same_frame_trans [OF st1(3)] show ?case
    by (auto simp: undo_vv_idem fun_eq_iff)
qed (simp add: same_frame_def)

text \<open>A rollback of an open transaction always succeeds.\<close>

lemma tx_rollback_effect:
  assumes "vv_codec C" "mvcc C (mvs ts)" "status tx = Open"
  shows "\<exists>st'. tx_rollback C ts tx =
      (Inr (), remove_active_tx (ts\<lparr>mvs := st'\<rparr>) (tx_id tx), tx\<lparr>undo_log := [], status := RolledBack\<rparr>) \<and>
    mvcc C st' \<and> same_frame (mvs ts) st' \<and>
    vals C st' = (\<lambda>p. if p \<in> undo_keys tx then undo_vv (tx_id tx) (vals C (mvs ts) p) else vals C (mvs ts) p)"
  using undo_loop_effect [OF assms(1,2), of "tx_id tx" "rev (undo_log tx)"] assms(3)
  by (auto simp: tx_rollback_def undo_keys_def)


section \<open>Commit\<close>

text \<open>The fields that decide which versions exist, and the queue.\<close>

abbreviation clock :: "mvstore \<Rightarrow> u64 \<times> u64 \<times> wal_record list" where
  "clock st \<equiv> (version st, next_commit_version st, pending st)"

lemma same_frame_clock: "same_frame st st' \<Longrightarrow> clock st' = clock st"
  by (cases st; cases st') (simp add: same_frame_def)

lemma quiet_clock: "quiet ts ts' \<Longrightarrow> clock (mvs ts') = clock (mvs ts)"
  by (rule same_frame_clock) (simp add: quiet_def)

lemma archive_all_clock [simp]: "next_commit_version (archive_all C st rs) = next_commit_version st"
  unfolding archive_all_def by (induction rs arbitrary: st) (auto split: option.splits prod.splits)

definition held_by :: "codecs \<Rightarrow> mvstore \<Rightarrow> u64 \<Rightarrow> string \<times> bytes \<Rightarrow> bool" where
  "held_by C st tid p \<longleftrightarrow> (\<exists>vv. vals C st p = Some vv \<and> active_tx_id vv = Some tid)"

text \<open>A logged change that commits the value of an undo entry.\<close>

definition commits :: "codecs \<Rightarrow> mvstore \<Rightarrow> u64 \<Rightarrow> undo_log_entry \<Rightarrow> wal_change \<Rightarrow> bool" where
  "commits C st cv e c \<longleftrightarrow> (\<exists>vv bs. vals C st (entry_pos e) = Some vv \<and>
     ser_vv C (commit_uncommitted vv cv) = Inr bs \<and> change_of c = (entry_pos e, Some bs))"

lemma commit_changes_effect:
  assumes "vv_codec C" "mvcc C st" "\<forall>e \<in> set es. held_by C st tid (entry_pos e)"
    and "commit_changes C tid cv st es = (r, st')"
  shows "mvcc C st' \<and> vals C st' = vals C st \<and> same_frame st st' \<and> (\<forall>cs. r = Inr cs \<longrightarrow> list_all2 (commits C st cv) es cs)"
  using assms(2-4)
proof (induction es arbitrary: st r st')
  case (Cons e es)
  obtain m st1 where om: "open_map st (undo_map e) = (m, st1)" by force
  note o = open_map_vals [OF Cons.prems(1) om]
  from Cons.prems(2) obtain vv where vv: "vals C st (entry_pos e) = Some vv" "active_tx_id vv = Some tid"
    by (auto simp: held_by_def)
  from content_of_vals [OF assms(1) Cons.prems(1), of "entry_pos e"] vv obtain bs where
    bs: "store_content st (entry_pos e) = Some bs" "vv_from_bytes (de_vv C) bs = Inr vv" by auto
  note unf = Cons.prems(3) [simplified, unfolded om, simplified, unfolded o(4) bs(1), simplified, unfolded bs(2), simplified]
  have held: "\<forall>e \<in> set es. held_by C st1 tid (entry_pos e)"
    using Cons.prems(2) o(2) by (simp add: held_by_def)
  show ?case
  proof (cases "ser_vv C (commit_uncommitted vv cv)")
    case (Inl err)
    with unf vv(2) o show ?thesis by (auto simp: vv_to_bytes_def)
  next
    case (Inr bs')
    obtain r2 st2 where rec: "commit_changes C tid cv st1 es = (r2, st2)" by force
    note ih = Cons.IH [OF o(1) held rec]
    have eq: "commits C st1 cv = commits C st cv" by (simp add: commits_def o(2) fun_eq_iff)
    from unf vv(2) Inr rec have st': "st' = st2" and r: "r = (case r2 of Inl err \<Rightarrow> Inl err
        | Inr cs \<Rightarrow> Inr (\<lparr>wc_map = undo_map e, wc_key = undo_key e, wc_value = Some bs'\<rparr> # cs))"
      by (auto simp: vv_to_bytes_def split: sum.splits)
    have "commits C st cv e \<lparr>wc_map = undo_map e, wc_key = undo_key e, wc_value = Some bs'\<rparr>"
      using vv(1) Inr by (simp add: commits_def change_of_def)
    with ih r eq o same_frame_trans [OF o(3)] show ?thesis unfolding st' by (auto split: sum.splits)
  qed
qed (auto simp: same_frame_def)

definition commit_vals :: "codecs \<Rightarrow> mvstore \<Rightarrow> transaction \<Rightarrow> u64 \<Rightarrow> (string \<times> bytes) \<rightharpoonup> versioned_value" where
  "commit_vals C st tx cv = (\<lambda>p. if p \<in> undo_keys tx then map_option (\<lambda>vv. commit_uncommitted vv cv) (vals C st p)
     else vals C st p)"

lemma upd_all_commits:
  assumes "list_all2 (commits C st cv) es cs"
  shows "if p \<in> entry_pos ` set es
    then \<exists>vv bs. vals C st p = Some vv \<and> ser_vv C (commit_uncommitted vv cv) = Inr bs \<and> upd_all (map change_of cs) f p = Some bs
    else upd_all (map change_of cs) f p = f p"
  using assms
proof (induction es cs arbitrary: f rule: list_all2_induct)
  case (Cons e es c cs)
  then obtain vv bs where e: "vals C st (entry_pos e) = Some vv" "ser_vv C (commit_uncommitted vv cv) = Inr bs"
    "change_of c = (entry_pos e, Some bs)" by (auto simp: commits_def)
  define g where "g = f(entry_pos e := Some bs)"
  have "g (entry_pos e) = Some bs" "\<And>q. q \<noteq> entry_pos e \<Longrightarrow> g q = f q" by (simp_all add: g_def)
  moreover have "upd_all (map change_of (c # cs)) f = upd_all (map change_of cs) g" by (simp add: e g_def)
  ultimately show ?case using Cons.IH [of g] e by (cases "p = entry_pos e") (auto split: if_splits)
qed simp

lemma commit_content:
  assumes "vv_codec C" "mvcc C st" "list_all2 (commits C st cv) (undo_log tx) cs"
    and "store_wf st'" "store_content st' = upd_all (map change_of cs) (store_content st)"
  shows "mvcc C st' \<and> vals C st' = commit_vals C st tx cv"
proof -
  note u = upd_all_commits [OF assms(3), of _ "store_content st", folded assms(5), folded undo_keys_def]
  have "\<exists>vv. ser_vv C vv = Inr bs" if "store_content st' p = Some bs" for p bs
    using u [of p] that assms(2) unfolding mvcc_def by (cases "p \<in> undo_keys tx") (force, metis)
  moreover have "vals C st' p = commit_vals C st tx cv p" for p
    using u [of p] vv_codecD(4) [OF assms(1)] by (auto simp: commit_vals_def vals_def split: if_splits)
  ultimately show ?thesis using assms(4) by (auto simp: mvcc_def)
qed

lemma commit_enqueue_clock:
  assumes "commit_enqueue C flt tf st tid prep now = (res, st')" "pending st = []"
  shows "maps st' = maps st \<and> version st' = version st \<and>
    (case res of
       Inl f \<Rightarrow> \<not> cf_durable f \<and> pending st' = [] \<and> next_commit_version st' \<in> {next_commit_version st, next_commit_version st + 1}
     | Inr _ \<Rightarrow> \<exists>cs. prep (next_commit_version st + 1) = Inr cs \<and> next_commit_version st' = next_commit_version st + 1 \<and>
         pending st' = [\<lparr>wr_tx = tid, wr_version = next_commit_version st + 1, wr_changes = cs, wr_nanos = now\<rparr>])"
proof (cases "poisoned st")
  case False
  obtain cs where "prep (next_commit_version st + 1) = Inr cs \<or> (\<exists>e. prep (next_commit_version st + 1) = Inl e)"
    by (cases "prep (next_commit_version st + 1)") auto
  then show ?thesis using False assms
    by (auto simp: commit_enqueue_def Let_def split: prod.splits sum.splits if_splits)
qed (use assms in \<open>auto simp: commit_enqueue_def\<close>)

lemma commit_flush_one:
  assumes "store_wf st" "pending st = [r]"
  shows "\<exists>out st'. commit_flush C flt tf lst st = Some ([out], st') \<and> pending st' = [] \<and>
    next_commit_version st' = next_commit_version st \<and> store_wf st' \<and>
    (if (\<exists>f. out = Inl f \<and> \<not> cf_durable f) then version st' = version st \<and> store_content st' = store_content st
     else version st' = wr_version r \<and> store_content st' = upd_all (map change_of (wr_changes r)) (store_content st))"
proof (cases "fst (sync_for_commit flt (wal st))")
  case (Inl e)
  with assms show ?thesis by (cases "sync_for_commit flt (wal st)") (auto simp: commit_flush_def Let_def)
next
  case (Inr u)
  then obtain wm where sync: "sync_for_commit flt (wal st) = (Inr (), wm)" by (cases "sync_for_commit flt (wal st)") simp
  define st1 where "st1 = st\<lparr>pending := [], batch_start_offset := None, leader := False, wal := wm\<rparr>"
  have wf1: "store_wf st1" using assms(1) by (simp add: st1_def)
  from storer.replay_correct [OF wf1, of "record_changes [r]"] obtain st2 where
    st2: "fold_opt store_apply st1 (record_changes [r]) = Some st2" "store_wf st2"
      "store_content st2 = upd_all (map change_of (wr_changes r)) (store_content st)"
    by (auto simp: st1_def record_changes_def)
  note fr = same_frame_clock [OF store_applies_frame [OF st2(1)]]
  show ?thesis using sync assms(2) st2 fr
    by (cases lst) (auto simp: commit_flush_def Let_def st1_def split: sum.splits)
qed

text \<open>
  The two ways a commit can end: every written key has its new version, or every written key is as it
  was before the transaction.
\<close>

definition committed_to :: "codecs \<Rightarrow> tx_store \<Rightarrow> transaction \<Rightarrow> tx_store \<Rightarrow> transaction \<Rightarrow> bool" where
  "committed_to C ts tx ts' tx' \<longleftrightarrow>
     (\<exists>st'. ts' = remove_active_tx (ts\<lparr>mvs := st'\<rparr>) (tx_id tx) \<and> tx' = tx\<lparr>status := Committed\<rparr> \<and> mvcc C st' \<and>
        (if undo_log tx = [] then st' = mvs ts
         else clock st' = (next_commit_version (mvs ts) + 1, next_commit_version (mvs ts) + 1, []) \<and>
              vals C st' = commit_vals C (mvs ts) tx (next_commit_version (mvs ts) + 1)))"

definition rolled_back_to :: "codecs \<Rightarrow> tx_store \<Rightarrow> transaction \<Rightarrow> tx_store \<Rightarrow> transaction \<Rightarrow> bool" where
  "rolled_back_to C ts tx ts' tx' \<longleftrightarrow>
     (\<exists>st'. ts' = remove_active_tx (ts\<lparr>mvs := st'\<rparr>) (tx_id tx) \<and> tx' = tx\<lparr>undo_log := [], status := RolledBack\<rparr> \<and>
        mvcc C st' \<and> version st' = version (mvs ts) \<and> pending st' = pending (mvs ts) \<and>
        next_commit_version st' \<in> {next_commit_version (mvs ts), next_commit_version (mvs ts) + 1} \<and>
        vals C st' = (\<lambda>p. if p \<in> undo_keys tx then undo_vv (tx_id tx) (vals C (mvs ts) p) else vals C (mvs ts) p))"

lemma rollback_rolls_back:
  assumes "vv_codec C" "mvcc C (mvs ts)" "status tx = Open"
  shows "\<exists>ts' tx'. tx_rollback C ts tx = (Inr (), ts', tx') \<and> rolled_back_to C ts tx ts' tx'"
  using tx_rollback_effect [OF assms] same_frame_clock unfolding rolled_back_to_def by fastforce

text \<open>A commit that fails before its record is durable rolls back.\<close>

lemma commit_end_fails:
  assumes "vv_codec C" "mvcc C st" "status tx = Open" "\<not> cf_durable f"
    and "vals C st = vals C (mvs ts)" "version st = version (mvs ts)" "pending st = pending (mvs ts)"
    and "next_commit_version st \<in> {next_commit_version (mvs ts), next_commit_version (mvs ts) + 1}"
    and "commit_end C (ts\<lparr>mvs := st\<rparr>) tx (Inl f) = (r, ts', tx')"
  shows "r = Inl (cf_error f) \<and> rolled_back_to C ts tx ts' tx'"
proof -
  have mvs_upd: "mvs (ts\<lparr>mvs := st\<rparr>) = st" by simp
  from tx_rollback_effect [OF assms(1) _ assms(3), of "ts\<lparr>mvs := st\<rparr>", unfolded mvs_upd, OF assms(2)]
  obtain st' where st': "tx_rollback C (ts\<lparr>mvs := st\<rparr>) tx =
        (Inr (), remove_active_tx (ts\<lparr>mvs := st, mvs := st'\<rparr>) (tx_id tx), tx\<lparr>undo_log := [], status := RolledBack\<rparr>)"
      "mvcc C st'" "same_frame st st'"
      "vals C st' = (\<lambda>p. if p \<in> undo_keys tx then undo_vv (tx_id tx) (vals C st p) else vals C st p)" by blast
  from assms(4,9) st'(1) have r: "r = Inl (cf_error f)" and ts': "ts' = remove_active_tx (ts\<lparr>mvs := st'\<rparr>) (tx_id tx)"
    and tx': "tx' = tx\<lparr>undo_log := [], status := RolledBack\<rparr>" by (simp_all add: commit_end_def)
  have v: "version st' = version (mvs ts)" "pending st' = pending (mvs ts)"
    "next_commit_version st' = next_commit_version st"
    using same_frame_clock [OF st'(3)] assms(6,7) by simp_all
  have "rolled_back_to C ts tx ts' tx'" unfolding rolled_back_to_def
    by (rule exI [of _ st'], intro conjI, fact ts', fact tx', fact st'(2), fact v(1), fact v(2))
      (unfold v(3), fact assms(8), unfold st'(4) assms(5), rule refl)
  with r show ?thesis by simp
qed

lemma tx_commit_effect:
  assumes codec: "vv_codec C" and ok: "mvcc C (mvs ts)" and op: "status tx = Open" and idle: "pending (mvs ts) = []"
    and held: "\<forall>p \<in> undo_keys tx. held_by C (mvs ts) (tx_id tx) p"
    and run: "tx_commit C flt tf now lst ts tx = (r, ts', tx')"
  shows "committed_to C ts tx ts' tx' \<or> (\<exists>e. r = Inl e) \<and> rolled_back_to C ts tx ts' tx'"
proof (cases "undo_log tx = []")
  case True
  with run op ok show ?thesis by (auto simp: tx_commit_def commit_begin_def committed_to_def)
next
  case False
  define cv where "cv = next_commit_version (mvs ts) + 1"
  obtain pr st0 where prep: "commit_changes C (tx_id tx) cv (mvs ts) (undo_log tx) = (pr, st0)" by force
  have held': "\<forall>e \<in> set (undo_log tx). held_by C (mvs ts) (tx_id tx) (entry_pos e)" using held by (simp add: undo_keys_def)
  note pre = commit_changes_effect [OF codec ok held' prep]
  define st1 where "st1 = (if poisoned (mvs ts) then mvs ts else st0)"
  have st1: "mvcc C st1" "vals C st1 = vals C (mvs ts)" "clock st1 = clock (mvs ts)"
    using pre ok same_frame_clock [of "mvs ts" st0] by (auto simp: st1_def)
  obtain er st2 where enq: "commit_enqueue C flt tf st1 (tx_id tx) (\<lambda>_. pr) now = (er, st2)" by force
  have "pending st1 = []" using st1(3) idle by simp
  note enq' = commit_enqueue_clock [OF enq this]
  have st2: "mvcc C st2" "vals C st2 = vals C (mvs ts)" "version st2 = version (mvs ts)"
    using enq' st1 mvcc_cong [of st2 st1 C] vals_cong [of st2 st1 C] by (simp_all add: mvcc_def)
  have begin_eq: "commit_begin C flt tf now ts tx = (case er of
      Inl failure \<Rightarrow> (case commit_end C (ts\<lparr>mvs := st2\<rparr>) tx (Inl failure) of (r, ts', tx') \<Rightarrow> (Inl r, ts', tx'))
    | Inr leads \<Rightarrow> (Inr leads, ts\<lparr>mvs := st2\<rparr>, tx))"
    unfolding commit_begin_def Let_def prep [unfolded cv_def] snd_conv fst_conv st1_def [symmetric] enq
    using False op by (simp split: sum.split)
  show ?thesis
  proof (cases er)
    case (Inl f)
    with run begin_eq have "commit_end C (ts\<lparr>mvs := st2\<rparr>) tx (Inl f) = (r, ts', tx')"
      by (auto simp: tx_commit_def split: prod.splits)
    from commit_end_fails [OF codec st2(1) op _ st2(2,3) _ _ this] enq' Inl st1(3) idle show ?thesis by auto
  next
    case (Inr leads)
    with enq' st1(3) obtain cs where cs: "pr = Inr cs" "next_commit_version st2 = cv"
      "pending st2 = [\<lparr>wr_tx = tx_id tx, wr_version = cv, wr_changes = cs, wr_nanos = now\<rparr>]"
      by (auto simp: cv_def)
    from commit_flush_one [OF mvcc_wf [OF st2(1)] cs(3), of C flt tf lst] obtain out st3 where
      fl: "commit_flush C flt tf lst st2 = Some ([out], st3)" "pending st3 = []" "next_commit_version st3 = cv" "store_wf st3"
        "if (\<exists>f. out = Inl f \<and> \<not> cf_durable f) then version st3 = version st2 \<and> store_content st3 = store_content st2
         else version st3 = cv \<and> store_content st3 = upd_all (map change_of cs) (store_content st2)"
      using cs(2) by auto
    from run begin_eq Inr fl(1) have ce: "commit_end C (ts\<lparr>mvs := st3\<rparr>) tx out = (r, ts', tx')"
      by (simp add: tx_commit_def)
    show ?thesis
    proof (cases "\<exists>f. out = Inl f \<and> \<not> cf_durable f")
      case True
      with fl(5) have eq: "store_content st3 = store_content st2" "version st3 = version (mvs ts)" using st2(3) by auto
      from True obtain f where f: "out = Inl f" "\<not> cf_durable f" by blast
      have "r = Inl (cf_error f) \<and> rolled_back_to C ts tx ts' tx'"
        by (rule commit_end_fails [OF codec mvcc_cong [OF fl(4) eq(1) st2(1)] op f(2)])
          (use eq vals_cong [OF eq(1)] st2(2) fl(2,3) idle ce f(1) in \<open>simp_all add: cv_def\<close>)
      then show ?thesis by blast
    next
      case ndur: False
      then have v3: "version st3 = cv" and c3: "store_content st3 = upd_all (map change_of cs) (store_content st2)"
        using fl(5) by auto
      have "commits C st2 cv = commits C (mvs ts) cv" by (simp add: commits_def st2(2) fun_eq_iff)
      then have "list_all2 (commits C st2 cv) (undo_log tx) cs" using pre cs(1) by simp
      from commit_content [OF codec st2(1) this fl(4) c3] have
        res: "mvcc C st3" "vals C st3 = commit_vals C (mvs ts) tx cv" by (auto simp: commit_vals_def st2(2))
      from ndur ce have "ts' = remove_active_tx (ts\<lparr>mvs := st3\<rparr>) (tx_id tx)" "tx' = tx\<lparr>status := Committed\<rparr>"
        by (auto simp: commit_end_def split: sum.splits)
      then show ?thesis using res v3 fl(2,3) False by (auto simp: committed_to_def cv_def)
    qed
  qed
qed


section \<open>Vacuum\<close>

definition vac_vv :: "u64 \<Rightarrow> versioned_value \<Rightarrow> versioned_value option" where
  "vac_vv horizon vv = (if is_dead vv horizon then None else Some (fst (prune_old_versions vv horizon)))"

lemma unpruned: "\<not> snd (prune_old_versions vv horizon) \<Longrightarrow> fst (prune_old_versions vv horizon) = vv"
  by (auto simp: prune_old_versions_def split: option.splits if_splits)

lemma vacuum_entry_effect:
  assumes "vv_codec C" "mvcc C st" "store_content st (n, entry_key e) = Some (entry_value e)"
  shows "\<exists>st' c'. vacuum_entry C h n (st, c) e = Inr (st', c') \<and> mvcc C st' \<and> same_frame st st' \<and>
    vals C st' = (vals C st)((n, entry_key e) := Option.bind (vals C st (n, entry_key e)) (vac_vv h))"
proof -
  let ?p = "(n, entry_key e)"
  from stored_vals [OF assms(1,2), of ?p] assms(3) obtain vv where
    vv: "ser_vv C vv = Inr (entry_value e)" "vals C st ?p = Some vv" "vv_from_bytes (de_vv C) (entry_value e) = Inr vv"
    by auto
  show ?thesis
  proof (cases "is_dead vv h")
    case True
    with remove_vals [OF assms(2), of n "entry_key e"] vv show ?thesis by (auto simp: vacuum_entry_def vac_vv_def)
  next
    case alive: False
    obtain vv' b where pr: "prune_old_versions vv h = (vv', b)" by force
    show ?thesis
    proof (cases b)
      case False
      then have "vv' = vv" using unpruned [of vv h] pr by simp
      moreover have "same_frame st st" by (simp add: same_frame_def)
      ultimately show ?thesis using False alive vv pr assms(2)
        by (auto simp: vacuum_entry_def vac_vv_def fun_eq_iff)
    next
      case True
      from vv_codec_smaller [OF assms(1) vv(1) smaller_prune [of vv h]] pr obtain bs where bs: "ser_vv C vv' = Inr bs" by auto
      from put_vals [OF assms(1,2) bs, of n "entry_key e"] True alive vv pr bs show ?thesis
        by (auto simp: vacuum_entry_def vac_vv_def vv_to_bytes_def)
    qed
  qed
qed

lemma content_kept:
  assumes "vv_codec C" "mvcc C st" "mvcc C st'" "vals C st' p = vals C st p"
  shows "store_content st' p = store_content st p"
  using content_of_vals [OF assms(1,2), of p] content_of_vals [OF assms(1,3), of p] assms(4)
  by (cases "vals C st p") auto

text \<open>The entries a scan of a map returns.\<close>

lemma scan_all_content:
  assumes "map_wf m"
  shows "distinct (map entry_key (map_scan_all m))"
    "\<forall>e \<in> set (map_scan_all m). map_content m (entry_key e) = Some (entry_value e)"
    "\<forall>k bs. map_content m k = Some bs \<longrightarrow> (\<exists>e \<in> set (map_scan_all m). entry_key e = k \<and> entry_value e = bs)"
proof -
  have kvs: "map kv (map_scan_all m) = tree_kvs (tree m)" by (simp add: map_scan_all_def tree_scan_all_kvs)
  have wf: "tree_wf (tree m)" using assms by (simp add: map_wf_def)
  from sorted_keys_distinct [OF tree_kvs_sorted [OF wf]] have d: "distinct (map fst (map kv (map_scan_all m)))"
    by (simp add: kvs)
  then show "distinct (map entry_key (map_scan_all m))" by (simp add: comp_def)
  have mc: "map_content m = map_of (map kv (map_scan_all m))" by (simp add: map_content_def kvs)
  show "\<forall>e \<in> set (map_scan_all m). map_content m (entry_key e) = Some (entry_value e)"
    unfolding mc using d by (auto intro!: map_of_is_SomeI simp: kv_def)
  show "\<forall>k bs. map_content m k = Some bs \<longrightarrow> (\<exists>e \<in> set (map_scan_all m). entry_key e = k \<and> entry_value e = bs)"
    unfolding mc by (auto dest!: map_of_SomeD simp: kv_def)
qed

section \<open>Scans\<close>

definition visible_pairs :: "codecs \<Rightarrow> transaction \<Rightarrow> entry list \<Rightarrow> (bytes \<times> bytes) list" where
  "visible_pairs C tx es = concat (map (\<lambda>e. case visible_bytes C tx (entry_value e) of
     Inr (Some val) \<Rightarrow> [(entry_key e, val)] | _ \<Rightarrow> []) es)"

lemma scan_entries_visible:
  assumes "vv_codec C" "\<forall>e \<in> set es. \<exists>vv. ser_vv C vv = Inr (entry_value e)"
    and "\<And>vv bs. ser_vv C vv = Inr bs \<Longrightarrow> see bs = Inr (read_visible vv (tx_id tx) (snapshot_version tx))"
  shows "scan_entries see None es = Inr (visible_pairs C tx es)"
  using assms(2)
proof (induction es)
  case (Cons e es)
  then obtain vv where vv: "ser_vv C vv = Inr (entry_value e)" by auto
  from Cons visible_bytes_value [OF assms(1) vv, of tx] assms(3) [OF vv] show ?case
    by (auto simp: visible_pairs_def split: option.splits)
qed (simp add: visible_pairs_def)

lemma visible_pairs_sorted: "sorted_keys entry_key es \<Longrightarrow> sorted_keys fst (visible_pairs C tx es)"
proof (induction es)
  case (Cons e es)
  have "fst ` set (visible_pairs C tx es) \<subseteq> entry_key ` set es"
    by (auto simp: visible_pairs_def split: sum.splits option.splits)
  with Cons have "\<forall>q \<in> set (visible_pairs C tx es). entry_key e < fst q" by fastforce
  with Cons show ?case
    by (auto simp: visible_pairs_def sorted_wrt_append split: sum.splits option.splits)
qed (simp add: visible_pairs_def)


text \<open>A scan that visits a selection of a map's entries returns the visible ones among them.\<close>

definition scan_ok :: "codecs \<Rightarrow> tx_store \<Rightarrow> transaction \<Rightarrow> string \<Rightarrow> (bytes \<Rightarrow> bool) \<Rightarrow> (bytes \<times> bytes) list h2_result \<Rightarrow> bool" where
  "scan_ok C ts tx n P r \<longleftrightarrow> (\<exists>xs. r = Inr xs \<and> sorted_keys fst xs \<and>
     (\<forall>k val. (k, val) \<in> set xs \<longleftrightarrow> P k \<and> sees C (mvs ts) tx (n, k) = Some val))"

lemma scan_with_ok:
  assumes codec: "vv_codec C" and ok: "mvcc C (mvs ts)" and op: "status tx = Open"
    and scan: "\<And>m. map_wf m \<Longrightarrow> scan m = Some (filter (\<lambda>e. P (entry_key e)) (map_scan_all m))"
    and see: "\<And>vv bs. ser_vv C vv = Inr bs \<Longrightarrow> see bs = Inr (read_visible vv (tx_id tx) (snapshot_version tx))"
  shows "scan_ok C ts tx n P (fst (scan_with ts tx n scan see None))"
proof -
  obtain m st1 where om: "open_map (mvs ts) n = (m, st1)" by force
  note o = open_map_vals [OF ok om]
  note os = open_map_step [OF mvcc_wf [OF ok] om]
  note sc = scan_all_content [OF os(1)]
  let ?es = "filter (\<lambda>e. P (entry_key e)) (map_scan_all m)"
  have cont: "store_content (mvs ts) (n, k) = map_content m k" for k using os(3,4) by (metis content_of_Pair option.simps(5))
  have stored: "\<exists>vv. ser_vv C vv = Inr (entry_value e) \<and> vals C (mvs ts) (n, entry_key e) = Some vv" if "e \<in> set (map_scan_all m)" for e
    using stored_vals [OF codec ok, of "(n, entry_key e)"] sc(2) cont that by auto
  have res: "fst (scan_with ts tx n scan see None) = Inr (visible_pairs C tx ?es)"
  proof -
    have "\<forall>e \<in> set ?es. \<exists>vv. ser_vv C vv = Inr (entry_value e)" using stored by fastforce
    from scan_entries_visible [OF codec this see] op scan [OF os(1)] show ?thesis
      by (simp add: scan_with_def check_open_def om)
  qed
  have "sorted_keys entry_key (map_scan_all m)"
    using tree_kvs_sorted [of "tree m"] os(1) by (simp add: map_wf_def map_scan_all_def tree_scan_all_kvs [symmetric] sorted_wrt_map)
  then have "sorted_keys fst (visible_pairs C tx ?es)" by (intro visible_pairs_sorted) (simp add: sorted_wrt_map sorted_wrt_filter)
  moreover have "(k, val) \<in> set (visible_pairs C tx ?es) \<longleftrightarrow> P k \<and> sees C (mvs ts) tx (n, k) = Some val" for k val
  proof -
    have vis: "visible_bytes C tx (entry_value e) = Inr (sees C (mvs ts) tx (n, entry_key e))" if "e \<in> set (map_scan_all m)" for e
      using stored [OF that] visible_bytes_value [OF codec] by (auto simp: sees_def)
    have "(k, val) \<in> set (visible_pairs C tx ?es) \<longleftrightarrow>
        (\<exists>e \<in> set (map_scan_all m). P (entry_key e) \<and> entry_key e = k \<and> sees C (mvs ts) tx (n, k) = Some val)"
      using vis by (force simp: visible_pairs_def split: option.splits)
    also have "\<dots> \<longleftrightarrow> P k \<and> sees C (mvs ts) tx (n, k) = Some val"
    proof -
      have "\<exists>e \<in> set (map_scan_all m). entry_key e = k" if "sees C (mvs ts) tx (n, k) = Some val"
      proof -
        from that obtain vv where "vals C (mvs ts) (n, k) = Some vv" by (auto simp: sees_def split: option.splits)
        with content_of_vals [OF codec ok, of "(n, k)"] obtain bs where "map_content m k = Some bs" by (auto simp: cont)
        with sc(3) show ?thesis by blast
      qed
      then show ?thesis by auto
    qed
    finally show ?thesis .
  qed
  ultimately show ?thesis unfolding scan_ok_def res by blast
qed

end
