(* ===== verification/Tx_System.thy ===== *)
theory Tx_System
  imports Tx_Isolation
begin

text \<open>
  A system of transactions over one store: any number of \<^verbatim>\<open>Transaction\<close> handles, whose operations interleave
  pass by pass.  The invariant ties the uncommitted records in the maps to the undo logs of the open
  transactions; over it, snapshots are stable and written keys are exclusive.
\<close>

section \<open>Steps\<close>

record db =
  sys :: tx_store
  handles :: "u64 \<rightharpoonup> transaction"

text \<open>
  One step of one transaction, named in the label, or of the vacuum or a thread that is starting a
  transaction (no label).  Version and id counters are assumed not to reach the end of 64 bits.

  \<^verbatim>\<open>begin\<close> hands out an id and reads the version in one step and enters the table of active transactions in
  a later one: the id is one handed out before, the snapshot a version read since (any version not
  above the current one).  Commit is one step when nothing comes between its parts, or two: the
  published records with the changed status (\<open>step_publish\<close>), and the removal from the table
  (\<open>step_finish\<close>).  A vacuum writes its entries back one by one, each in a step of its own; the two
  conditions on such a step are not enforced by the code: the entry must still be stored as the
  vacuum has scanned it, and the horizon the vacuum has read must not be above the snapshots of the
  transactions that are active by now.
\<close>

inductive db_step :: "codecs \<Rightarrow> db \<Rightarrow> u64 option \<Rightarrow> db \<Rightarrow> bool" for C where
  step_fetch: "begin_fetch (sys d) = (tx, ts') \<Longrightarrow> next_tx_id (sys d) < - 1 \<Longrightarrow>
    db_step C d None \<lparr>sys = ts', handles = handles d\<rparr>"
| step_register: "t < next_tx_id (sys d) \<Longrightarrow> handles d t = None \<Longrightarrow> v \<le> version (mvs (sys d)) \<Longrightarrow>
    db_step C d (Some t) \<lparr>sys = begin_register (sys d) (transaction_new t v),
      handles = (handles d)(t \<mapsto> transaction_new t v)\<rparr>"
| step_get: "handles d t = Some tx \<Longrightarrow> tx_get C (sys d) tx n k = (r, ts') \<Longrightarrow>
    db_step C d (Some t) \<lparr>sys = ts', handles = handles d\<rparr>"
| step_put: "handles d t = Some tx \<Longrightarrow> try_put C (sys d) tx n k val = (r, ts', tx') \<Longrightarrow>
    db_step C d (Some t) \<lparr>sys = ts', handles = (handles d)(t \<mapsto> tx')\<rparr>"
| step_remove: "handles d t = Some tx \<Longrightarrow> try_remove C (sys d) tx n k = (r', ts', tx') \<Longrightarrow>
    db_step C d (Some t) \<lparr>sys = ts', handles = (handles d)(t \<mapsto> tx')\<rparr>"
| step_wait_begin: "handles d t = Some tx \<Longrightarrow> status tx = Open \<Longrightarrow>
    lock_wait_begin C remaining (sys d) tx holder = (w, ts', tx') \<Longrightarrow>
    db_step C d (Some t) \<lparr>sys = ts', handles = (handles d)(t \<mapsto> tx')\<rparr>"
| step_wait_end: "handles d t = Some tx \<Longrightarrow> status tx = Open \<Longrightarrow>
    lock_wait_end C remaining (sys d) tx cell = (u, ts', tx') \<Longrightarrow>
    db_step C d (Some t) \<lparr>sys = ts', handles = (handles d)(t \<mapsto> tx')\<rparr>"
| step_rollback: "handles d t = Some tx \<Longrightarrow> tx_rollback C (sys d) tx = (u, ts', tx') \<Longrightarrow>
    db_step C d (Some t) \<lparr>sys = ts', handles = (handles d)(t \<mapsto> tx')\<rparr>"
| step_commit: "handles d t = Some tx \<Longrightarrow> next_commit_version (mvs (sys d)) < - 1 \<Longrightarrow>
    tx_commit C flt tf now lst (sys d) tx = (u, ts', tx') \<Longrightarrow>
    db_step C d (Some t) \<lparr>sys = ts', handles = (handles d)(t \<mapsto> tx')\<rparr>"
| step_publish: "handles d t = Some tx \<Longrightarrow> next_commit_version (mvs (sys d)) < - 1 \<Longrightarrow>
    commit_begin C flt tf now (sys d) tx = (Inr leads, ts1, tx1) \<Longrightarrow>
    commit_flush C flt tf lst (mvs ts1) = Some (outs, st2) \<Longrightarrow> outs \<noteq> [] \<Longrightarrow>
    (\<forall>f. last outs = Inl f \<longrightarrow> cf_durable f) \<Longrightarrow>
    db_step C d (Some t) \<lparr>sys = ts1\<lparr>mvs := st2\<rparr>, handles = (handles d)(t \<mapsto> tx1\<lparr>status := Committed\<rparr>)\<rparr>"
| step_finish: "handles d t = Some tx \<Longrightarrow> status tx = Committed \<Longrightarrow>
    db_step C d (Some t) \<lparr>sys = remove_active_tx (sys d) t, handles = handles d\<rparr>"
| step_vacuum_scan: "vacuum_scan (sys d) n = (es, st1) \<Longrightarrow>
    db_step C d None \<lparr>sys = (sys d)\<lparr>mvs := st1\<rparr>, handles = handles d\<rparr>"
| step_vacuum: "store_content (mvs (sys d)) (n, entry_key e) = Some (entry_value e) \<Longrightarrow>
    horizon \<le> oldest_active_version (sys d) \<Longrightarrow> vacuum_entry C horizon n (mvs (sys d), c) e = Inr (st', c') \<Longrightarrow>
    db_step C d None \<lparr>sys = (sys d)\<lparr>mvs := st'\<rparr>, handles = handles d\<rparr>"

inductive_cases db_stepE: "db_step C d l d'"

section \<open>The invariant\<close>

text \<open>
  Over the parts of the state it is about: the store, the table of active transactions, the next id and
  the handles.
\<close>

definition handles_ok :: "mvstore \<Rightarrow> (u64 \<rightharpoonup> u64) \<Rightarrow> u64 \<Rightarrow> (u64 \<rightharpoonup> transaction) \<Rightarrow> bool" where
  "handles_ok st act nid hs \<longleftrightarrow>
     (\<forall>t tx. hs t = Some tx \<longrightarrow> tx_id tx = t \<and> t < nid \<and>
        (status tx = Open \<longrightarrow> act t = Some (snapshot_version tx) \<and> snapshot_version tx \<le> version st)) \<and>
     (\<forall>t v. act t = Some v \<longrightarrow> hs t \<noteq> None)"

definition owner_open :: "(u64 \<rightharpoonup> transaction) \<Rightarrow> u64 \<Rightarrow> string \<times> bytes \<Rightarrow> bool" where
  "owner_open hs t p \<longleftrightarrow> (\<exists>tx. hs t = Some tx \<and> status tx = Open \<and> p \<in> undo_keys tx)"

text \<open>The keys an open transaction holds are exactly those in its undo log.\<close>

definition owned :: "((string \<times> bytes) \<rightharpoonup> versioned_value) \<Rightarrow> (u64 \<rightharpoonup> transaction) \<Rightarrow> bool" where
  "owned V hs \<longleftrightarrow> (\<forall>t p. owner_open hs t p \<longleftrightarrow> (\<exists>vv. V p = Some vv \<and> active_tx_id vv = Some t))"

definition histories_ok :: "mvstore \<Rightarrow> ((string \<times> bytes) \<rightharpoonup> versioned_value) \<Rightarrow> bool" where
  "histories_ok st V \<longleftrightarrow> version st \<le> next_commit_version st \<and>
     (\<forall>p vv. V p = Some vv \<longrightarrow> vv_wf vv \<and> (\<forall>r \<in> set (committed_history vv). rec_version r \<le> version st))"

definition db_inv :: "codecs \<Rightarrow> db \<Rightarrow> bool" where
  "db_inv C d \<longleftrightarrow> (let ts = sys d; st = mvs ts in
     mvcc C st \<and> pending st = [] \<and> handles_ok st (map_of (active_transactions ts)) (next_tx_id ts) (handles d) \<and>
     owned (vals C st) (handles d) \<and> histories_ok st (vals C st))"

lemma db_invD:
  assumes "db_inv C d"
  shows "mvcc C (mvs (sys d))" "pending (mvs (sys d)) = []"
    "handles_ok (mvs (sys d)) (map_of (active_transactions (sys d))) (next_tx_id (sys d)) (handles d)"
    "owned (vals C (mvs (sys d))) (handles d)" "histories_ok (mvs (sys d)) (vals C (mvs (sys d)))"
  using assms by (simp_all add: db_inv_def Let_def)

lemma owned_held: "owned (vals C st) hs \<Longrightarrow> owner_open hs t p \<longleftrightarrow> held_by C st t p"
  unfolding owned_def held_by_def by blast

text \<open>An uncommitted record belongs to a transaction the table lists as active.\<close>

lemma holder_active:
  assumes "db_inv C d" "vals C (mvs (sys d)) p = Some vv" "active_tx_id vv = Some t"
  shows "is_tx_active (sys d) t" "owner_open (handles d) t p"
proof -
  show o: "owner_open (handles d) t p" using db_invD(4) [OF assms(1)] assms(2,3) unfolding owned_def by blast
  then show "is_tx_active (sys d) t" using db_invD(3) [OF assms(1)]
    by (auto simp: owner_open_def handles_ok_def is_tx_active_def hm_contains_def)
qed

lemma free_or_own:
  assumes "db_inv C d" "other_holder (sys d) tx (vals C (mvs (sys d)) p) = None"
    "vals C (mvs (sys d)) p = Some vv" "active_tx_id vv = Some t"
  shows "t = tx_id tx"
  using holder_active(1) [OF assms(1,3,4)] assms(2-4) by (auto simp: other_holder_def split: if_splits)

text \<open>Counting on from anything but the largest word.\<close>

lemma inc_less: "(n :: u64) < - 1 \<Longrightarrow> m \<le> n \<Longrightarrow> m < n + 1"
  by (simp add: word_less_nat_alt word_le_nat_alt unat_word_ariths unsigned_minus_1_eq_mask mask_eq_exp_minus_1)

section \<open>Every step keeps it\<close>

text \<open>Steps that change neither values nor handles.\<close>

lemma inv_same:
  assumes "db_inv C d" "mvcc C (mvs ts')" "vals C (mvs ts') = vals C (mvs (sys d))" "clock (mvs ts') = clock (mvs (sys d))"
    and "active_transactions ts' = active_transactions (sys d)" "next_tx_id ts' = next_tx_id (sys d)"
  shows "db_inv C \<lparr>sys = ts', handles = handles d\<rparr>"
  using db_invD [OF assms(1)] assms(2-6) by (simp add: db_inv_def Let_def handles_ok_def histories_ok_def)

lemma inv_unchanged:
  assumes "db_inv C d" "unchanged C (sys d) ts'"
  shows "db_inv C \<lparr>sys = ts', handles = handles d\<rparr>"
proof -
  have q: "quiet (sys d) ts'" and v: "mvcc C (mvs ts')" "vals C (mvs ts') = vals C (mvs (sys d))"
    using assms(2) by (simp_all add: unchanged_def)
  have "clock (mvs ts') = clock (mvs (sys d))" by (rule quiet_clock [OF q])
  from inv_same [OF assms(1) v this quietD(1,2) [OF q]] show ?thesis .
qed

lemma handles_same: "handles d t = Some tx \<Longrightarrow> (handles d)(t \<mapsto> tx) = handles d"
  by (simp add: fun_upd_idem)

lemma db_eta [simp]: "\<lparr>sys = sys d, handles = handles d\<rparr> = (d :: db)"
  by simp

text \<open>What becomes of the owners when one handle changes.\<close>

lemma owner_open_upd:
  "owner_open (hs(t \<mapsto> tx)) t' p \<longleftrightarrow> (if t' = t then status tx = Open \<and> p \<in> undo_keys tx else owner_open hs t' p)"
  by (auto simp: owner_open_def)

lemma undo_keys_log_key [simp]: "undo_keys (log_key tx n k) = insert (n, k) (undo_keys tx)"
  by (simp add: undo_keys_def)

lemma inv_wrote:
  assumes inv: "db_inv C d" and h: "handles d t = Some tx" "status tx = Open"
    and w: "wrote C (sys d) tx n k val ts' tx'"
  shows "db_inv C \<lparr>sys = ts', handles = (handles d)(t \<mapsto> tx')\<rparr>"
proof -
  note I = db_invD [OF inv]
  have t: "tx_id tx = t" using I(3) h by (auto simp: handles_ok_def)
  let ?V = "vals C (mvs (sys d))" and ?p = "(n, k)"
  define new where "new = (base_value (?V ?p))\<lparr>uncommitted := Some \<lparr>unc_tx = t, unc_value = val\<rparr>\<rparr>"
  have q: "quiet (sys d) ts'" and m: "mvcc C (mvs ts')" and tx': "tx' = log_key tx n k"
    and V: "vals C (mvs ts') = ?V(?p \<mapsto> new)" and free: "other_holder (sys d) tx (?V ?p) = None"
    using w by (auto simp: wrote_def new_def t)
  have ck: "clock (mvs ts') = clock (mvs (sys d))" by (rule quiet_clock [OF q])
  have act_new: "active_tx_id new = Some t" by (simp add: new_def active_tx_id_def)
  have none_else: "\<not> owner_open (handles d) t' ?p" if "t' \<noteq> t" for t'
    using owned_held [OF I(4)] free_or_own [OF inv free] that t by (auto simp: held_by_def)
  have "owned (?V(?p \<mapsto> new)) ((handles d)(t \<mapsto> tx'))" unfolding owned_def owner_open_upd
  proof (intro allI)
    fix t' p
    show "(if t' = t then status tx' = Open \<and> p \<in> undo_keys tx' else owner_open (handles d) t' p) \<longleftrightarrow>
        (\<exists>vv. (?V(?p \<mapsto> new)) p = Some vv \<and> active_tx_id vv = Some t')"
    proof (cases "p = ?p")
      case True
      with none_else [of t'] act_new h(2) show ?thesis by (auto simp: tx')
    next
      case False
      have "owner_open (handles d) t p \<longleftrightarrow> p \<in> undo_keys tx" using h by (simp add: owner_open_def)
      with False h(2) I(4) [unfolded owned_def, rule_format, of t' p] show ?thesis by (auto simp: tx')
    qed
  qed
  moreover have "histories_ok (mvs ts') (?V(?p \<mapsto> new))"
  proof -
    have "vv_wf new \<and> (\<forall>r \<in> set (committed_history new). rec_version r \<le> version (mvs (sys d)))"
      using I(5) by (cases "?V ?p") (auto simp: new_def base_value_def histories_ok_def vv_wf_def)
    with I(5) ck show ?thesis by (auto simp: histories_ok_def split: if_splits)
  qed
  moreover have "handles_ok (mvs ts') (map_of (active_transactions ts')) (next_tx_id ts') ((handles d)(t \<mapsto> tx'))"
    using I(3) h quietD [OF q] by (auto simp: handles_ok_def tx')
  ultimately show ?thesis using m V ck I(2) by (simp add: db_inv_def Let_def)
qed


lemma active_removed [simp]:
  "map_of (active_transactions (remove_active_tx ts t)) = (map_of (active_transactions ts))(t := None)"
  "next_tx_id (remove_active_tx ts t) = next_tx_id ts" "mvs (remove_active_tx ts t) = mvs ts"
  by (simp_all add: remove_active_tx_def)

text \<open>A transaction that ends: its handle closes and it leaves the table.\<close>

lemma handles_ok_end:
  assumes "handles_ok st act nid hs" "hs t = Some tx" "status tx' \<noteq> Open" "tx_id tx' = t" "version st \<le> version st'"
  shows "handles_ok st' (act(t := None)) nid (hs(t \<mapsto> tx'))"
  using assms unfolding handles_ok_def by (auto split: if_splits) (meson order_trans)

lemma histories_okD:
  "histories_ok st V \<Longrightarrow> V p = Some vv \<Longrightarrow> vv_wf vv"
  "histories_ok st V \<Longrightarrow> V p = Some vv \<Longrightarrow> r \<in> set (committed_history vv) \<Longrightarrow> rec_version r \<le> version st"
  unfolding histories_ok_def by blast+

text \<open>Values with less in them are still well-formed.\<close>

lemma histories_smaller:
  assumes "histories_ok st V" "version st' \<le> next_commit_version st'" "version st \<le> version st'"
    and "\<And>p vv'. W p = Some vv' \<Longrightarrow> \<exists>vv. V p = Some vv \<and> smaller vv' vv"
  shows "histories_ok st' W"
  unfolding histories_ok_def
proof (intro conjI assms(2) allI impI ballI)
  fix p vv' assume "W p = Some vv'"
  from assms(4) [OF this] obtain vv n where vv: "V p = Some vv" "committed_history vv' = take n (committed_history vv)"
    by (auto simp: smaller_def)
  show "vv_wf vv'" using histories_okD(1) [OF assms(1) vv(1)] by (simp add: vv_wf_def vv(2) sorted_wrt_take take_map [symmetric])
  show "rec_version r \<le> version st'" if "r \<in> set (committed_history vv')" for r
    using histories_okD(2) [OF assms(1) vv(1), of r] that assms(3) by (auto simp: vv(2) dest!: in_set_takeD)
qed

lemma smaller_refl: "smaller vv vv"
  by (auto simp: smaller_def intro: exI [of _ "length (committed_history vv)"])

lemma undo_smaller: "undo_vv t vo = Some vv' \<Longrightarrow> \<exists>vv. vo = Some vv \<and> smaller vv' vv"
  by (auto simp: undo_vv_def smaller_refl smaller_rollback split: option.splits if_splits)

lemma vac_smaller: "Option.bind vo (vac_vv h) = Some vv' \<Longrightarrow> \<exists>vv. vo = Some vv \<and> smaller vv' vv"
  by (auto simp: vac_vv_def smaller_prune bind_eq_Some_conv split: if_splits)

lemma inv_rolled_back:
  assumes inv: "db_inv C d" and h: "handles d t = Some tx"
    and r: "rolled_back_to C ts tx ts' tx'" and ts: "mvs ts = mvs (sys d)"
      "active_transactions ts = active_transactions (sys d)" "next_tx_id ts = next_tx_id (sys d)"
    and mono: "next_commit_version (mvs (sys d)) \<le> next_commit_version (mvs ts')"
  shows "db_inv C \<lparr>sys = ts', handles = (handles d)(t \<mapsto> tx')\<rparr>"
proof -
  note I = db_invD [OF inv]
  have t: "tx_id tx = t" using I(3) h by (auto simp: handles_ok_def)
  let ?V = "vals C (mvs (sys d))"
  define W where "W = (\<lambda>p. if p \<in> undo_keys tx then undo_vv t (?V p) else ?V p)"
  from r obtain st' where st': "ts' = remove_active_tx (ts\<lparr>mvs := st'\<rparr>) t" "tx' = tx\<lparr>undo_log := [], status := RolledBack\<rparr>"
    "mvcc C st'" "version st' = version (mvs (sys d))" "pending st' = []" "vals C st' = W"
    unfolding rolled_back_to_def t ts(1) W_def I(2) by blast
  have own: "(\<exists>vv. W p = Some vv \<and> active_tx_id vv = Some t') \<longleftrightarrow> t' \<noteq> t \<and> (\<exists>vv. ?V p = Some vv \<and> active_tx_id vv = Some t')" for p t'
  proof (cases "p \<in> undo_keys tx")
    case True
    then show ?thesis
      by (auto simp: W_def undo_vv_def rollback_uncommitted_def active_tx_id_def split: option.splits if_splits)
  next
    case False
    then have "\<not> owner_open (handles d) t p" using h by (simp add: owner_open_def)
    with False owned_held [OF I(4), of t p] show ?thesis by (auto simp: W_def held_by_def)
  qed
  have "owned W ((handles d)(t \<mapsto> tx'))" unfolding owned_def owner_open_upd own
    using owned_held [OF I(4)] by (simp add: st'(2) held_by_def)
  moreover have "version st' \<le> next_commit_version st'"
    using st'(1,4) I(5) mono by (auto simp: histories_ok_def)
  then have "histories_ok st' W"
    by (rule histories_smaller [OF I(5)]) (auto simp: st'(4) W_def smaller_refl dest: undo_smaller split: if_splits)
  ultimately show ?thesis
    using st' ts handles_ok_end [OF I(3) h, of tx' st'] t by (simp add: db_inv_def Let_def)
qed

text \<open>Committing: the histories of the written keys get the new, largest version.\<close>

lemma inv_committed:
  assumes inv: "db_inv C d" and h: "handles d t = Some tx" "status tx = Open"
    and r: "committed_to C (sys d) tx ts' tx'" and bound: "next_commit_version (mvs (sys d)) < - 1"
  shows "db_inv C \<lparr>sys = ts', handles = (handles d)(t \<mapsto> tx')\<rparr>"
proof -
  note I = db_invD [OF inv]
  have t: "tx_id tx = t" using I(3) h by (auto simp: handles_ok_def)
  let ?V = "vals C (mvs (sys d))" and ?cv = "next_commit_version (mvs (sys d)) + 1"
  have cv: "version (mvs (sys d)) < ?cv" "next_commit_version (mvs (sys d)) \<le> ?cv"
    using I(5) inc_less [OF bound] by (auto simp: histories_ok_def less_imp_le)
  from r obtain st' where st': "ts' = remove_active_tx ((sys d)\<lparr>mvs := st'\<rparr>) t" "tx' = tx\<lparr>status := Committed\<rparr>" "mvcc C st'"
    and ends: "if undo_log tx = [] then st' = mvs (sys d) else clock st' = (?cv, ?cv, []) \<and> vals C st' = commit_vals C (mvs (sys d)) tx ?cv"
    unfolding committed_to_def t by blast
  have V: "vals C st' = commit_vals C (mvs (sys d)) tx ?cv"
    using ends by (auto simp: commit_vals_def undo_keys_def split: if_splits)
  have v: "version (mvs (sys d)) \<le> version st'" "version st' \<le> next_commit_version st'" "pending st' = []"
    using ends cv I(2,5) by (auto simp: histories_ok_def split: if_splits)
  have held: "\<exists>vv u. ?V p = Some vv \<and> uncommitted vv = Some u \<and> unc_tx u = t" if "p \<in> undo_keys tx" for p
  proof -
    from that h have "owner_open (handles d) t p" by (simp add: owner_open_def)
    with owned_held [OF I(4), of t p] show ?thesis by (auto simp: held_by_def active_tx_id_def)
  qed
  have own: "(\<exists>vv. vals C st' p = Some vv \<and> active_tx_id vv = Some t') \<longleftrightarrow> t' \<noteq> t \<and> (\<exists>vv. ?V p = Some vv \<and> active_tx_id vv = Some t')" for p t'
  proof (cases "p \<in> undo_keys tx")
    case True
    with held [OF True] show ?thesis by (auto simp: V commit_vals_def active_tx_id_def commit_history)
  next
    case False
    then have "\<not> owner_open (handles d) t p" using h by (simp add: owner_open_def)
    with False owned_held [OF I(4), of t p] show ?thesis by (auto simp: V commit_vals_def held_by_def)
  qed
  have "owned (vals C st') ((handles d)(t \<mapsto> tx'))" unfolding owned_def owner_open_upd own
    using owned_held [OF I(4)] by (simp add: st'(2) held_by_def)
  moreover have "histories_ok st' (vals C st')"
    unfolding histories_ok_def
  proof (rule conjI [OF v(2)], intro allI impI)
    fix p vv' assume vv': "vals C st' p = Some vv'"
    show "vv_wf vv' \<and> (\<forall>r \<in> set (committed_history vv'). rec_version r \<le> version st')"
    proof (cases "p \<in> undo_keys tx")
      case False
      with vv' have "?V p = Some vv'" by (simp add: V commit_vals_def)
      from histories_okD(1) [OF I(5) this] histories_okD(2) [OF I(5) this] v(1) show ?thesis using order_trans by blast
    next
      case True
      from held [OF True] obtain vv u where vv: "?V p = Some vv" "uncommitted vv = Some u" by blast
      with vv' True have eq: "vv' = commit_uncommitted vv ?cv" by (simp add: V commit_vals_def)
      have less: "\<forall>r \<in> set (committed_history vv). rec_version r < ?cv"
        using histories_okD(2) [OF I(5) vv(1)] cv(1) le_less_trans by blast
      have "version st' = ?cv" using ends True by (auto simp: undo_keys_def split: if_splits)
      with less show ?thesis unfolding eq using commit_wf [OF histories_okD(1) [OF I(5) vv(1)] less]
        by (auto simp: commit_history [OF vv(2)] less_imp_le dest!: in_set_takeD)
    qed
  qed
  ultimately show ?thesis
    using st' v(3) handles_ok_end [OF I(3) h(1), of tx' st'] t v(1) by (simp add: db_inv_def Let_def)
qed

lemma vac_active:
  "(\<exists>vv'. Option.bind vo (vac_vv h) = Some vv' \<and> active_tx_id vv' = Some t) \<longleftrightarrow> (\<exists>vv. vo = Some vv \<and> active_tx_id vv = Some t)"
  by (cases vo) (auto simp: vac_vv_def active_tx_id_def prune_keeps_uncommitted is_dead_def)

lemma inv_vacuum:
  assumes inv: "db_inv C d" and codec: "vv_codec C"
    and e: "store_content (mvs (sys d)) (n, entry_key e) = Some (entry_value e)"
    and run: "vacuum_entry C h n (mvs (sys d), c) e = Inr (st', c')"
  shows "db_inv C \<lparr>sys = (sys d)\<lparr>mvs := st'\<rparr>, handles = handles d\<rparr>"
proof -
  note I = db_invD [OF inv]
  let ?V = "vals C (mvs (sys d))" and ?p = "(n, entry_key e)"
  from vacuum_entry_effect [OF codec I(1) e, of h c] run have
    st': "mvcc C st'" "same_frame (mvs (sys d)) st'" "vals C st' = ?V(?p := Option.bind (?V ?p) (vac_vv h))" by auto
  note ck = same_frame_clock [OF st'(2)]
  have own: "(\<exists>vv. vals C st' p = Some vv \<and> active_tx_id vv = Some t) \<longleftrightarrow> (\<exists>vv. ?V p = Some vv \<and> active_tx_id vv = Some t)" for p t
    using vac_active [of "?V ?p" h t] by (simp add: st'(3))
  have "owned (vals C st') (handles d)" unfolding owned_def own using I(4) by (simp add: owned_def)
  moreover have "histories_ok st' (vals C st')"
    by (rule histories_smaller [OF I(5)]) (use ck I(5) in \<open>auto simp: histories_ok_def st'(3) smaller_refl dest: vac_smaller split: if_splits\<close>)
  ultimately show ?thesis using st'(1) ck I(2,3) by (simp add: db_inv_def Let_def handles_ok_def)
qed

lemma inv_vacuum_scan:
  assumes inv: "db_inv C d" and run: "vacuum_scan (sys d) n = (es, st1)"
  shows "db_inv C \<lparr>sys = (sys d)\<lparr>mvs := st1\<rparr>, handles = handles d\<rparr>" "vals C st1 = vals C (mvs (sys d))"
proof -
  from run obtain m where om: "open_map (mvs (sys d)) n = (m, st1)" by (auto simp: vacuum_scan_def split: prod.splits)
  note o = open_map_vals [OF db_invD(1) [OF inv] om]
  show "vals C st1 = vals C (mvs (sys d))" by (rule o(2))
  show "db_inv C \<lparr>sys = (sys d)\<lparr>mvs := st1\<rparr>, handles = handles d\<rparr>"
    by (rule inv_same [OF inv]) (use o same_frame_clock [OF o(3)] in simp_all)
qed

lemma inv_fetch:
  assumes inv: "db_inv C d" and run: "begin_fetch (sys d) = (tx, ts')" and bound: "next_tx_id (sys d) < - 1"
  shows "db_inv C \<lparr>sys = ts', handles = handles d\<rparr>"
proof -
  have "t < next_tx_id (sys d) + 1" if "t < next_tx_id (sys d)" for t
    using inc_less [OF bound] that by (simp add: less_imp_le)
  with db_invD [OF inv] run show ?thesis by (auto simp: db_inv_def Let_def begin_fetch_def handles_ok_def)
qed

lemma inv_register:
  assumes inv: "db_inv C d" and t: "t < next_tx_id (sys d)" "handles d t = None" and v: "v \<le> version (mvs (sys d))"
  shows "db_inv C \<lparr>sys = begin_register (sys d) (transaction_new t v), handles = (handles d)(t \<mapsto> transaction_new t v)\<rparr>"
proof -
  note I = db_invD [OF inv]
  let ?tx = "transaction_new t v"
  have tx: "tx_id ?tx = t" "status ?tx = Open" "snapshot_version ?tx = v" "undo_keys ?tx = {}"
    by (simp_all add: transaction_new_def undo_keys_def)
  have "\<not> owner_open (handles d) t p" for p using t(2) by (simp add: owner_open_def)
  then have "owner_open ((handles d)(t \<mapsto> ?tx)) t' p \<longleftrightarrow> owner_open (handles d) t' p" for t' p
    by (simp add: owner_open_upd tx)
  then have "owned (vals C (mvs (sys d))) ((handles d)(t \<mapsto> ?tx))" using I(4) unfolding owned_def by simp
  moreover have "handles_ok (mvs (sys d)) ((map_of (active_transactions (sys d)))(t \<mapsto> v)) (next_tx_id (sys d)) ((handles d)(t \<mapsto> ?tx))"
    using I(3) t v unfolding handles_ok_def by (auto simp: tx split: if_splits)
  ultimately show ?thesis using I(1,2,5) by (simp add: db_inv_def Let_def begin_register_def tx)
qed

lemma inv_finish:
  assumes inv: "db_inv C d" and h: "handles d t = Some tx" "status tx = Committed"
  shows "db_inv C \<lparr>sys = remove_active_tx (sys d) t, handles = handles d\<rparr>"
  using db_invD [OF inv] h by (auto simp: db_inv_def Let_def handles_ok_def)

text \<open>A closed transaction does nothing any more.\<close>

lemma closed_noop:
  assumes "status tx \<noteq> Open"
  shows "try_put C ts tx n k val = (r, ts', tx') \<Longrightarrow> ts' = ts \<and> tx' = tx"
    "try_remove C ts tx n k = (r', ts', tx') \<Longrightarrow> ts' = ts \<and> tx' = tx"
    "tx_get C ts tx n k = (g, ts') \<Longrightarrow> ts' = ts"
    "tx_rollback C ts tx = (u, ts', tx') \<Longrightarrow> ts' = ts \<and> tx' = tx"
    "tx_commit C flt tf now lst ts tx = (u, ts', tx') \<Longrightarrow> ts' = ts \<and> tx' = tx"
  using assms
  by (auto simp: try_put_def try_remove_def tx_get_def tx_rollback_def tx_commit_def commit_begin_def check_open_def
      split: if_splits)

text \<open>Waiting for a lock touches only the lock manager, unless it ends in a rollback.\<close>

definition waits_or_rolls :: "codecs \<Rightarrow> tx_store \<Rightarrow> transaction \<Rightarrow> tx_store \<Rightarrow> transaction \<Rightarrow> bool" where
  "waits_or_rolls C ts tx ts' tx' \<longleftrightarrow>
     (\<exists>lm. ts' = ts\<lparr>lock_mgr := lm\<rparr>) \<and> tx' = tx \<or>
     (\<exists>lm u. tx_rollback C (ts\<lparr>lock_mgr := lm\<rparr>) tx = (u, ts', tx'))"

lemma tx_store_lock_same: "ts\<lparr>lock_mgr := lock_mgr ts\<rparr> = (ts :: tx_store)"
  by (cases ts) simp

lemma waits_or_rollsI:
  "waits_or_rolls C ts tx ts tx" "waits_or_rolls C ts tx (ts\<lparr>lock_mgr := lm\<rparr>) tx"
  "tx_rollback C ts tx = (u, ts', tx') \<Longrightarrow> waits_or_rolls C ts tx ts' tx'"
  "tx_rollback C (ts\<lparr>lock_mgr := lm\<rparr>) tx = (u, ts', tx') \<Longrightarrow> waits_or_rolls C ts tx ts' tx'"
  using tx_store_lock_same [of ts] unfolding waits_or_rolls_def by metis+

lemma lock_wait_begin_effect:
  "lock_wait_begin C remaining ts tx holder = (w, ts', tx') \<Longrightarrow> waits_or_rolls C ts tx ts' tx'"
  by (auto simp: lock_wait_begin_def Let_def intro: waits_or_rollsI split: sum.splits prod.splits if_splits)

lemma lock_wait_end_effect:
  "lock_wait_end C remaining ts tx cell = (u, ts', tx') \<Longrightarrow> waits_or_rolls C ts tx ts' tx'"
  by (auto simp: lock_wait_end_def Let_def intro: waits_or_rollsI split: option.splits prod.splits if_splits)

lemma inv_rollback:
  assumes inv: "db_inv C d" and codec: "vv_codec C" and h: "handles d t = Some tx"
    and run: "tx_rollback C ((sys d)\<lparr>lock_mgr := lm\<rparr>) tx = (u, ts', tx')"
  shows "db_inv C \<lparr>sys = ts', handles = (handles d)(t \<mapsto> tx')\<rparr>"
proof (cases "status tx = Open")
  case True
  let ?ts = "(sys d)\<lparr>lock_mgr := lm\<rparr>"
  have mv: "mvcc C (mvs ?ts)" using db_invD(1) [OF inv] by simp
  from tx_rollback_effect [OF codec mv True] run obtain st' where
    st': "ts' = remove_active_tx (?ts\<lparr>mvs := st'\<rparr>) (tx_id tx)" "same_frame (mvs ?ts) st'" by auto
  then have "next_commit_version (mvs ts') = next_commit_version (mvs (sys d))" using same_frame_clock [OF st'(2)] by simp
  moreover from rollback_rolls_back [OF codec mv True] run have "rolled_back_to C ?ts tx ts' tx'" by auto
  ultimately show ?thesis by (intro inv_rolled_back [OF inv h, of ?ts]) simp_all
next
  case False
  from closed_noop(4) [OF False run] have "ts' = (sys d)\<lparr>lock_mgr := lm\<rparr>" "tx' = tx" by simp_all
  with inv_same [OF inv, of ts'] db_invD(1) [OF inv] handles_same [OF h] show ?thesis by simp
qed

lemma inv_waits:
  assumes "db_inv C d" "vv_codec C" "handles d t = Some tx" "waits_or_rolls C (sys d) tx ts' tx'"
  shows "db_inv C \<lparr>sys = ts', handles = (handles d)(t \<mapsto> tx')\<rparr>"
  using assms(4) inv_rollback [OF assms(1-3)] inv_same [OF assms(1), of ts'] db_invD(1) [OF assms(1)] handles_same [OF assms(3)]
  by (auto simp: waits_or_rolls_def)

lemma inv_commit:
  assumes inv: "db_inv C d" and codec: "vv_codec C" and h: "handles d t = Some tx"
    and bound: "next_commit_version (mvs (sys d)) < - 1"
    and run: "tx_commit C flt tf now lst (sys d) tx = (u, ts', tx')"
  shows "db_inv C \<lparr>sys = ts', handles = (handles d)(t \<mapsto> tx')\<rparr>"
proof (cases "status tx = Open")
  case True
  note I = db_invD [OF inv]
  have t: "tx_id tx = t" using I(3) h by (auto simp: handles_ok_def)
  have "\<forall>p \<in> undo_keys tx. held_by C (mvs (sys d)) (tx_id tx) p"
    using owned_held [OF I(4), of t] h True t by (auto simp: owner_open_def)
  from tx_commit_effect [OF codec I(1) True I(2) this run] consider
    "committed_to C (sys d) tx ts' tx'" | "rolled_back_to C (sys d) tx ts' tx'" by blast
  then show ?thesis
  proof cases
    case 1 then show ?thesis by (rule inv_committed [OF inv h True _ bound])
  next
    case 2
    then have "next_commit_version (mvs ts') \<in> {next_commit_version (mvs (sys d)), next_commit_version (mvs (sys d)) + 1}"
      by (auto simp: rolled_back_to_def)
    then have "next_commit_version (mvs (sys d)) \<le> next_commit_version (mvs ts')"
      using inc_less [OF bound order_refl] by (auto simp: less_imp_le)
    then show ?thesis by (intro inv_rolled_back [OF inv h 2]) simp_all
  qed
qed (use closed_noop(5) [OF _ run] inv handles_same [OF h] in simp)

text \<open>A published commit is one whose removal from the table of active transactions is still to come.\<close>

lemma publish_commits:
  assumes "commit_begin C flt tf now ts tx = (Inr leads, ts1, tx1)"
    and "commit_flush C flt tf lst (mvs ts1) = Some (outs, st2)" "outs \<noteq> []" "\<forall>f. last outs = Inl f \<longrightarrow> cf_durable f"
  shows "\<exists>u. tx_commit C flt tf now lst ts tx = (u, remove_active_tx (ts1\<lparr>mvs := st2\<rparr>) (tx_id tx1), tx1\<lparr>status := Committed\<rparr>)"
    "status tx = Open" "tx_id tx1 = tx_id tx" "active_transactions ts1 = active_transactions ts"
proof -
  have "\<exists>x xs. outs = x # xs" using assms(3) by (cases outs) auto
  with assms show "\<exists>u. tx_commit C flt tf now lst ts tx = (u, remove_active_tx (ts1\<lparr>mvs := st2\<rparr>) (tx_id tx1), tx1\<lparr>status := Committed\<rparr>)"
    by (cases "last outs") (auto simp: tx_commit_def commit_end_def)
  show "status tx = Open" "tx_id tx1 = tx_id tx" "active_transactions ts1 = active_transactions ts"
    using assms(1) by (auto simp: commit_begin_def Let_def split: if_splits sum.splits prod.splits)
qed

lemma handles_ok_listed:
  assumes "handles_ok st (act(t := None)) nid hs" "hs t = Some tx" "status tx \<noteq> Open"
  shows "handles_ok st act nid hs"
proof -
  have "tx_id tx' = t' \<and> t' < nid \<and> (status tx' = Open \<longrightarrow> act t' = Some (snapshot_version tx') \<and> snapshot_version tx' \<le> version st)"
    if "hs t' = Some tx'" for t' tx'
    using assms(2,3) that assms(1) [unfolded handles_ok_def, THEN conjunct1, rule_format, OF that] by (cases "t' = t") simp_all
  moreover have "hs t' \<noteq> None" if "act t' = Some v" for t' v
    using assms(2) that assms(1) [unfolded handles_ok_def, THEN conjunct2, rule_format, of t' v] by (cases "t' = t") simp_all
  ultimately show ?thesis unfolding handles_ok_def by blast
qed

lemma inv_publish:
  assumes inv: "db_inv C d" and codec: "vv_codec C" and h: "handles d t = Some tx"
    and bound: "next_commit_version (mvs (sys d)) < - 1"
    and run: "commit_begin C flt tf now (sys d) tx = (Inr leads, ts1, tx1)"
      "commit_flush C flt tf lst (mvs ts1) = Some (outs, st2)" "outs \<noteq> []" "\<forall>f. last outs = Inl f \<longrightarrow> cf_durable f"
  shows "db_inv C \<lparr>sys = ts1\<lparr>mvs := st2\<rparr>, handles = (handles d)(t \<mapsto> tx1\<lparr>status := Committed\<rparr>)\<rparr>"
proof -
  note P = publish_commits [OF run]
  have t: "tx_id tx1 = t" using db_invD(3) [OF inv] h P(3) by (auto simp: handles_ok_def)
  from P(1) inv_commit [OF inv codec h bound] have
    "db_inv C \<lparr>sys = remove_active_tx (ts1\<lparr>mvs := st2\<rparr>) t, handles = (handles d)(t \<mapsto> tx1\<lparr>status := Committed\<rparr>)\<rparr>"
    unfolding t by blast
  from db_invD [OF this] have I: "mvcc C st2" "pending st2 = []"
      "handles_ok st2 ((map_of (active_transactions ts1))(t := None)) (next_tx_id ts1) ((handles d)(t \<mapsto> tx1\<lparr>status := Committed\<rparr>))"
      "owned (vals C st2) ((handles d)(t \<mapsto> tx1\<lparr>status := Committed\<rparr>))" "histories_ok st2 (vals C st2)"
    by simp_all
  from handles_ok_listed [OF I(3), of "tx1\<lparr>status := Committed\<rparr>"] I(1,2,4,5) show ?thesis
    by (simp add: db_inv_def Let_def)
qed

lemma tx_get_unchanged:
  "mvcc C (mvs ts) \<Longrightarrow> tx_get C ts tx n k = (r, ts') \<Longrightarrow> unchanged C ts ts'"
  using unchanged_refl unchanged_open by (auto simp: tx_get_def split: sum.splits prod.splits)

lemma step_inv:
  assumes "db_step C d l d'" "db_inv C d" "vv_codec C"
  shows "db_inv C d'"
  using assms(1)
proof cases
  case (step_put t tx n k val r ts' tx')
  with try_put_effect [OF assms(3) db_invD(1) [OF assms(2)], of tx n k val r ts' tx'] inv_unchanged [OF assms(2), of ts']
    inv_wrote [OF assms(2), of t tx n k] closed_noop(1) [of tx C "sys d" n k val r ts' tx'] handles_same [of d t tx] assms(2)
  show ?thesis by (cases "status tx = Open") auto
next
  case (step_remove t tx n k r ts' tx')
  with try_remove_effect [OF assms(3) db_invD(1) [OF assms(2)], of tx n k r ts' tx'] inv_unchanged [OF assms(2), of ts']
    inv_wrote [OF assms(2), of t tx n k] closed_noop(2) [of tx C "sys d" n k r ts' tx'] handles_same [of d t tx] assms(2)
  show ?thesis by (cases "status tx = Open") auto
next
  case (step_rollback t tx u ts' tx')
  then show ?thesis using inv_rollback [OF assms(2,3), of t tx "lock_mgr (sys d)"] tx_store_lock_same [of "sys d"] by simp
next
  case (step_get t tx n k r ts')
  with inv_unchanged [OF assms(2) tx_get_unchanged [OF db_invD(1) [OF assms(2)]]] show ?thesis by simp
next
  case step_wait_begin
  with inv_waits [OF assms(2,3) _ lock_wait_begin_effect] show ?thesis by simp
next
  case step_wait_end
  with inv_waits [OF assms(2,3) _ lock_wait_end_effect] show ?thesis by simp
next
  case step_commit
  with inv_commit [OF assms(2,3)] show ?thesis by simp
next
  case step_vacuum
  with inv_vacuum [OF assms(2,3)] show ?thesis by simp
next
  case step_vacuum_scan
  with inv_vacuum_scan(1) [OF assms(2)] show ?thesis by simp
next
  case step_fetch
  with inv_fetch [OF assms(2)] show ?thesis by simp
next
  case step_register
  with inv_register [OF assms(2)] show ?thesis by simp
next
  case step_publish
  with inv_publish [OF assms(2,3)] show ?thesis by simp
next
  case step_finish
  with inv_finish [OF assms(2)] show ?thesis by simp
qed

text \<open>A new transaction store over maps that hold no uncommitted records.\<close>

definition db_init :: "codecs \<Rightarrow> db \<Rightarrow> bool" where
  "db_init C d \<longleftrightarrow> (\<exists>st. sys d = tx_store_new st \<and> handles d = Map.empty \<and> mvcc C st \<and> pending st = [] \<and>
     (\<forall>p vv. vals C st p = Some vv \<longrightarrow> uncommitted vv = None) \<and> histories_ok st (vals C st))"

lemma init_inv: "db_init C d \<Longrightarrow> db_inv C d"
  unfolding db_init_def
  by (auto simp: db_inv_def Let_def tx_store_new_def handles_ok_def owned_def owner_open_def active_tx_id_def)

abbreviation db_reachable :: "codecs \<Rightarrow> db \<Rightarrow> bool" where
  "db_reachable C \<equiv> reachable (db_init C) (\<lambda>d d'. \<exists>l. db_step C d l d')"

text \<open>The invariant under the codec, as an instance of the transition-system contract.\<close>

interpretation txsys: invariant_system "db_init C" "\<lambda>d d'. vv_codec C \<and> (\<exists>l. db_step C d l d')" "db_inv C" for C
  by unfold_locales (auto intro: init_inv step_inv)

lemma reachable_db_inv:
  assumes "vv_codec C" "db_reachable C d"
  shows "db_inv C d"
proof -
  have "(\<lambda>d d'. vv_codec C \<and> (\<exists>l. db_step C d l d')) = (\<lambda>d d'. \<exists>l. db_step C d l d')" using assms(1) by simp
  with txsys.reachable_inv [of C d] assms(2) show ?thesis by simp
qed

text \<open>
  A begin or a vacuum that no other thread interrupts is a sequence of these steps; the conditions on
  the write-backs of a vacuum then hold by themselves.
\<close>

lemma begin_reachable:
  assumes codec: "vv_codec C" and d: "db_reachable C d" and run: "tx_begin (sys d) = (tx, ts')" and bound: "next_tx_id (sys d) < - 1"
  shows "db_reachable C \<lparr>sys = ts', handles = (handles d)(tx_id tx \<mapsto> tx)\<rparr>"
proof -
  note I = db_invD [OF reachable_db_inv [OF codec d]]
  let ?n = "next_tx_id (sys d)"
  obtain ts1 where f: "begin_fetch (sys d) = (tx, ts1)" "ts' = begin_register ts1 tx"
    using run by (auto simp: tx_begin_def split: prod.splits)
  then have tx: "tx = transaction_new ?n (version (mvs (sys d)))" "tx_id tx = ?n" "mvs ts1 = mvs (sys d)" "next_tx_id ts1 = ?n + 1"
    by (auto simp: begin_fetch_def transaction_new_def)
  have "handles d ?n = None" using I(3) by (cases "handles d ?n") (auto simp: handles_ok_def)
  then have "db_step C \<lparr>sys = ts1, handles = handles d\<rparr> (Some ?n) \<lparr>sys = ts', handles = (handles d)(tx_id tx \<mapsto> tx)\<rparr>"
    using step_register [of ?n "\<lparr>sys = ts1, handles = handles d\<rparr>" "version (mvs (sys d))" C] tx(3,4) inc_less [OF bound order_refl]
    by (simp add: tx(1) [symmetric] tx(2) f(2))
  moreover have "db_reachable C \<lparr>sys = ts1, handles = handles d\<rparr>"
    by (rule reach_step [OF d]) (use step_fetch [where C = C, OF f(1) bound] in blast)
  ultimately show ?thesis by (blast intro: reach_step)
qed

lemma vacuum_loop_reachable:
  assumes codec: "vv_codec C" and h: "horizon \<le> oldest_active_version (sys d)"
  shows "db_reachable C \<lparr>sys = (sys d)\<lparr>mvs := st\<rparr>, handles = handles d\<rparr> \<Longrightarrow> same_frame (mvs (sys d)) st \<Longrightarrow>
    distinct (map entry_key es) \<Longrightarrow> \<forall>e \<in> set es. store_content st (n, entry_key e) = Some (entry_value e) \<Longrightarrow>
    vacuum_loop C horizon n (st, c) es = (r, st') \<Longrightarrow>
    db_reachable C \<lparr>sys = (sys d)\<lparr>mvs := st'\<rparr>, handles = handles d\<rparr>"
proof (induction es arbitrary: st c)
  case (Cons e es)
  note I = db_invD [OF reachable_db_inv [OF codec Cons.prems(1)], simplified]
  from vacuum_entry_effect [OF codec I(1), of n e horizon c] Cons.prems(4) obtain st1 c1 where
    st1: "vacuum_entry C horizon n (st, c) e = Inr (st1, c1)" "mvcc C st1" "same_frame st st1"
      "vals C st1 = (vals C st)((n, entry_key e) := Option.bind (vals C st (n, entry_key e)) (vac_vv horizon))" by auto
  have ver: "version st = version (mvs (sys d))" using same_frame_clock [OF Cons.prems(2)] by simp
  have "oldest_active_version ((sys d)\<lparr>mvs := st\<rparr>) = oldest_active_version (sys d)"
    by (simp add: oldest_active_version_def ver split: list.split)
  with h Cons.prems(4) st1(1) have "db_step C \<lparr>sys = (sys d)\<lparr>mvs := st\<rparr>, handles = handles d\<rparr> None
      \<lparr>sys = (sys d)\<lparr>mvs := st1\<rparr>, handles = handles d\<rparr>"
    using step_vacuum [of "\<lparr>sys = (sys d)\<lparr>mvs := st\<rparr>, handles = handles d\<rparr>" n e horizon C c st1 c1] by simp
  with Cons.prems(1) have reach: "db_reachable C \<lparr>sys = (sys d)\<lparr>mvs := st1\<rparr>, handles = handles d\<rparr>" by (blast intro: reach_step)
  have "store_content st1 (n, entry_key e') = Some (entry_value e')" if "e' \<in> set es" for e'
  proof -
    from that Cons.prems(3) have "entry_key e' \<noteq> entry_key e" by (metis distinct.simps(2) image_eqI list.set_map list.simps(9))
    then have "vals C st1 (n, entry_key e') = vals C st (n, entry_key e')" by (simp add: st1(4))
    from content_kept [OF codec I(1) st1(2) this] Cons.prems(4) that show ?thesis by simp
  qed
  with Cons.IH [OF reach same_frame_trans [OF Cons.prems(2) st1(3)], of c1] Cons.prems(3,5) st1(1) show ?case by simp
qed simp

lemma vacuum_map_reachable:
  assumes codec: "vv_codec C" and d: "db_reachable C d" and run: "vacuum_map C (sys d) n = (r, ts')"
  shows "db_reachable C \<lparr>sys = ts', handles = handles d\<rparr>"
proof -
  note inv = reachable_db_inv [OF codec d]
  obtain es st1 where sc: "vacuum_scan (sys d) n = (es, st1)" by force
  then obtain m where om: "open_map (mvs (sys d)) n = (m, st1)" and es: "es = map_scan_all m"
    by (auto simp: vacuum_scan_def split: prod.splits)
  note o = open_map_vals [OF db_invD(1) [OF inv] om] and os = open_map_step [OF mvcc_wf [OF db_invD(1) [OF inv]] om]
  obtain st' where st': "vacuum_loop C (oldest_active_version (sys d)) n (st1, 0) es = (r, st')" "ts' = (sys d)\<lparr>mvs := st'\<rparr>"
    using run sc by (auto simp: vacuum_map_def split: prod.splits)
  have reach: "db_reachable C \<lparr>sys = (sys d)\<lparr>mvs := st1\<rparr>, handles = handles d\<rparr>"
    by (rule reach_step [OF d]) (use step_vacuum_scan [where C = C, OF sc] in blast)
  have "\<forall>e \<in> set es. store_content st1 (n, entry_key e) = Some (entry_value e)"
    using scan_all_content(2) [OF os(1)] os(3) by (simp add: es content_of_Pair)
  from vacuum_loop_reachable [OF codec order_refl reach o(3) _ this st'(1)] scan_all_content(1) [OF os(1)]
  show ?thesis by (simp add: es st'(2))
qed

section \<open>Snapshots\<close>

text \<open>
  The history limit of 32 versions does not cut off the version a transaction sees: if one is visible,
  one of the 31 newest is.
\<close>

definition within_limit :: "codecs \<Rightarrow> mvstore \<Rightarrow> transaction \<Rightarrow> bool" where
  "within_limit C st tx \<longleftrightarrow> (\<forall>p vv. vals C st p = Some vv \<longrightarrow>
     (\<exists>r \<in> set (committed_history vv). rec_version r \<le> snapshot_version tx) \<longrightarrow>
     (\<exists>r \<in> set (take 31 (committed_history vv)). rec_version r \<le> snapshot_version tx))"

lemma history_read_limit:
  assumes "(\<exists>r \<in> set h. rec_version r \<le> s) \<longrightarrow> (\<exists>r \<in> set (take 31 h). rec_version r \<le> s)"
  shows "history_read (take 31 h) s = history_read h s"
proof (cases "\<exists>r \<in> set h. rec_version r \<le> s")
  case True
  with assms show ?thesis by (intro history_read_take_visible) simp
next
  case False
  then have "history_read h s = None" "history_read (take 31 h) s = None"
    by (auto intro!: history_read_none simp: not_le dest: in_set_takeD)
  then show ?thesis by simp
qed

lemma sees_cong: "vals C st' p = vals C st p \<Longrightarrow> sees C st' tx p = sees C st tx p"
  by (simp add: sees_def)

lemma sees_other_history:
  assumes "vals C st p = Some vv" "active_tx_id vv \<noteq> Some (tx_id tx)"
  shows "sees C st tx p = history_read (committed_history vv) (snapshot_version tx)"
  using assms by (simp add: sees_def other_tx_reads)


lemma sees_wrote:
  assumes inv: "db_inv C d" and w: "wrote C (sys d) tx' n k val ts' tx''" and ne: "tx_id tx \<noteq> tx_id tx'"
  shows "sees C (mvs ts') tx p = sees C (mvs (sys d)) tx p"
proof (cases "p = (n, k)")
  case True
  let ?V = "vals C (mvs (sys d))"
  have V: "vals C (mvs ts') p = Some ((base_value (?V p))\<lparr>uncommitted := Some \<lparr>unc_tx = tx_id tx', unc_value = val\<rparr>\<rparr>)"
    and free: "other_holder (sys d) tx' (?V p) = None" using w True by (auto simp: wrote_def)
  have new: "sees C (mvs ts') tx p = history_read (committed_history (base_value (?V p))) (snapshot_version tx)"
    using sees_other_history [OF V] ne by (simp add: active_tx_id_def)
  show ?thesis
  proof (cases "?V p")
    case None
    with new show ?thesis by (simp add: base_value_def sees_def)
  next
    case (Some vv)
    with free_or_own [OF inv free Some] ne have "active_tx_id vv \<noteq> Some (tx_id tx)" by auto
    with new sees_other_history [OF Some] Some show ?thesis by (simp add: base_value_def)
  qed
qed (use w in \<open>auto simp: wrote_def intro!: sees_cong\<close>)

lemma sees_undone:
  assumes "vals C st' p = undo_vv t' (vals C st p)" "tx_id tx \<noteq> t'"
  shows "sees C st' tx p = sees C st tx p"
  using assms other_tx_reads [of _ "tx_id tx"] by (cases "vals C st p") (auto simp: sees_def undo_vv_def)

lemma sees_rolled_back:
  assumes "rolled_back_to C ts tx' ts' tx''" "tx_id tx \<noteq> tx_id tx'"
  shows "sees C (mvs ts') tx p = sees C (mvs ts) tx p"
proof -
  from assms(1) have V: "vals C (mvs ts') p = (if p \<in> undo_keys tx' then undo_vv (tx_id tx') (vals C (mvs ts) p) else vals C (mvs ts) p)"
    by (auto simp: rolled_back_to_def)
  show ?thesis
  proof (cases "p \<in> undo_keys tx'")
    case True
    show ?thesis by (rule sees_undone [OF _ assms(2)]) (simp add: V True)
  next
    case False
    show ?thesis by (rule sees_cong) (simp add: V False)
  qed
qed

lemma sees_committed:
  assumes c: "committed_to C ts tx' ts' tx''" and ne: "tx_id tx \<noteq> tx_id tx'"
    and held: "\<forall>p \<in> undo_keys tx'. held_by C (mvs ts) (tx_id tx') p" and lim: "within_limit C (mvs ts) tx"
    and old: "snapshot_version tx < next_commit_version (mvs ts) + 1"
  shows "sees C (mvs ts') tx p = sees C (mvs ts) tx p"
proof -
  from c have V: "vals C (mvs ts') = commit_vals C (mvs ts) tx' (next_commit_version (mvs ts) + 1)"
    by (auto simp: committed_to_def commit_vals_def undo_keys_def split: if_splits)
  show ?thesis
  proof (cases "p \<in> undo_keys tx'")
    case False
    show ?thesis by (rule sees_cong) (simp add: V commit_vals_def False)
  next
    case True
    with held obtain vv u where vv: "vals C (mvs ts) p = Some vv" "uncommitted vv = Some u" "unc_tx u = tx_id tx'"
      by (force simp: held_by_def active_tx_id_def)
    have "history_read (take 31 (committed_history vv)) (snapshot_version tx) = history_read (committed_history vv) (snapshot_version tx)"
      by (rule history_read_limit) (use lim [unfolded within_limit_def, rule_format, OF vv(1)] in blast)
    moreover have "\<not> next_commit_version (mvs ts) + 1 \<le> snapshot_version tx" using old by simp
    ultimately show ?thesis using vv ne
      by (simp add: sees_def V commit_vals_def True read_visible_def commit_history [OF vv(2)])
  qed
qed

lemma fold_min_le: "fold min vs (v :: u64) \<le> v \<and> (\<forall>w \<in> set vs. fold min vs v \<le> w)"
proof (induction vs arbitrary: v)
  case (Cons a vs)
  from Cons.IH [of "min a v"] show ?case by auto
qed simp

lemma oldest_le: "map_of (active_transactions ts) t = Some v \<Longrightarrow> oldest_active_version ts \<le> v"
proof -
  assume "map_of (active_transactions ts) t = Some v"
  then have "v \<in> set (map snd (active_transactions ts))" by (force dest: map_of_SomeD)
  then show ?thesis
    by (cases "map snd (active_transactions ts)")
      (use fold_min_le in \<open>auto simp: oldest_active_version_def simp del: set_map\<close>)
qed

lemma sees_vacuumed:
  assumes "vals C st' p = Option.bind (vals C st p) (vac_vv h)" "h \<le> snapshot_version tx"
  shows "sees C st' tx p = sees C st tx p"
  using assms prune_keeps_reads [OF assms(2)] is_dead_reads [OF _ assms(2)]
  by (cases "vals C st p") (auto simp: sees_def vac_vv_def)

text \<open>One step of anybody else.\<close>

lemma other_step_sees:
  assumes codec: "vv_codec C" and inv: "db_inv C d" and h: "handles d t = Some tx" "status tx = Open"
    and step: "db_step C d l d'" "l \<noteq> Some t" and lim: "within_limit C (mvs (sys d)) tx"
  shows "handles d' t = Some tx \<and> sees C (mvs (sys d')) tx p = sees C (mvs (sys d)) tx p"
proof -
  note I = db_invD [OF inv]
  have t: "tx_id tx = t" and snap: "snapshot_version tx \<le> version (mvs (sys d))"
    and act: "map_of (active_transactions (sys d)) t = Some (snapshot_version tx)"
    using I(3) h by (auto simp: handles_ok_def)
  have ids: "tx_id tx' = t'" if "handles d t' = Some tx'" for t' tx' using I(3) that by (auto simp: handles_ok_def)
  have unch: "sees C (mvs ts') tx p = sees C (mvs (sys d)) tx p" if "unchanged C (sys d) ts'" for ts'
    using that by (auto simp: unchanged_def intro: sees_cong)
  have rolls: "sees C (mvs ts') tx p = sees C (mvs (sys d)) tx p"
    if "waits_or_rolls C (sys d) tx' ts' tx''" "handles d t' = Some tx'" "t' \<noteq> t" for tx' ts' tx'' t'
  proof (cases "\<exists>lm u. status tx' = Open \<and> tx_rollback C ((sys d)\<lparr>lock_mgr := lm\<rparr>) tx' = (u, ts', tx'')")
    case True
    then obtain lm u where "status tx' = Open" "tx_rollback C ((sys d)\<lparr>lock_mgr := lm\<rparr>) tx' = (u, ts', tx'')" by blast
    with rollback_rolls_back [OF codec, of "(sys d)\<lparr>lock_mgr := lm\<rparr>" tx'] I(1)
    have "rolled_back_to C ((sys d)\<lparr>lock_mgr := lm\<rparr>) tx' ts' tx''" by auto
    from sees_rolled_back [OF this, of tx p] ids [OF that(2)] that(3) t show ?thesis by simp
  next
    case False
    with that(1) closed_noop(4) have "\<exists>lm. ts' = (sys d)\<lparr>lock_mgr := lm\<rparr>" unfolding waits_or_rolls_def by blast
    then show ?thesis by (auto intro: sees_cong)
  qed
  have commits: "sees C (mvs ts') tx p = sees C (mvs (sys d)) tx p"
    if run: "tx_commit C flt tf now lst (sys d) tx' = (u, ts', tx'')" and h': "handles d t' = Some tx'" "t' \<noteq> t"
      and bound: "next_commit_version (mvs (sys d)) < - 1" for flt tf now lst tx' u ts' tx'' t'
  proof (cases "status tx' = Open")
    case True
    have ne: "tx_id tx \<noteq> tx_id tx'" using ids [OF h'(1)] h'(2) t by auto
    have held: "\<forall>p \<in> undo_keys tx'. held_by C (mvs (sys d)) (tx_id tx') p"
      using owned_held [OF I(4), of t'] h' True ids [of t' tx'] by (auto simp: owner_open_def)
    have "snapshot_version tx < next_commit_version (mvs (sys d)) + 1"
      using inc_less [OF bound] snap I(5) by (auto simp: histories_ok_def)
    from tx_commit_effect [OF codec I(1) True I(2) held run] sees_committed [OF _ ne held lim this, of ts' tx'' p]
      sees_rolled_back [OF _ ne, of C "sys d" ts' tx'' p] show ?thesis by blast
  qed (use closed_noop(5) [OF _ run] in auto)
  from step(1) show ?thesis
  proof cases
    case (step_fetch tx' ts')
    then have "mvs ts' = mvs (sys d)" by (auto simp: begin_fetch_def)
    with step_fetch h show ?thesis by simp
  next
    case (step_register t' v)
    then show ?thesis using step(2) h by (auto simp: begin_register_def)
  next
    case (step_finish t' tx')
    then show ?thesis using h by simp
  next
    case (step_vacuum_scan n es st1)
    with inv_vacuum_scan(2) [OF inv, of n es st1] h show ?thesis by (auto intro: sees_cong)
  next
    case (step_get t' tx' n k r ts')
    with unch [OF tx_get_unchanged [OF I(1)]] h show ?thesis by simp
  next
    case (step_put t' tx' n k val r ts' tx'')
    with try_put_effect [OF codec I(1), of tx' n k val r ts' tx''] sees_wrote [OF inv, of tx' n k _ ts' tx'' tx p]
      closed_noop(1) [of tx' C "sys d" n k val r ts' tx''] unch [of ts'] ids [of t' tx'] t step(2) h
    show ?thesis by (cases "status tx' = Open") auto
  next
    case (step_remove t' tx' n k r ts' tx'')
    with try_remove_effect [OF codec I(1), of tx' n k r ts' tx''] sees_wrote [OF inv, of tx' n k _ ts' tx'' tx p]
      closed_noop(2) [of tx' C "sys d" n k r ts' tx''] unch [of ts'] ids [of t' tx'] t step(2) h
    show ?thesis by (cases "status tx' = Open") auto
  next
    case step_wait_begin
    with rolls [OF lock_wait_begin_effect] step(2) h show ?thesis by simp
  next
    case step_wait_end
    with rolls [OF lock_wait_end_effect] step(2) h show ?thesis by simp
  next
    case step_rollback
    with rolls [OF waits_or_rollsI(3)] step(2) h show ?thesis by simp
  next
    case (step_vacuum n e horizon c st' c')
    from vacuum_entry_effect [OF codec I(1) step_vacuum(3), of horizon c] step_vacuum have
      V: "vals C st' = (vals C (mvs (sys d)))((n, entry_key e) := Option.bind (vals C (mvs (sys d)) (n, entry_key e)) (vac_vv horizon))"
      by auto
    have "horizon \<le> snapshot_version tx" using step_vacuum oldest_le [OF act] by (meson order_trans)
    with V sees_vacuumed [of C st' p "mvs (sys d)" horizon tx] sees_cong [of C st' p "mvs (sys d)"] step_vacuum h
    show ?thesis by (cases "p = (n, entry_key e)") simp_all
  next
    case (step_commit t' tx' flt tf now lst u ts' tx'')
    have "sees C (mvs ts') tx p = sees C (mvs (sys d)) tx p"
      by (rule commits) (use step_commit step(2) in auto)
    with step_commit step(2) h show ?thesis by simp
  next
    case (step_publish t' tx' flt tf now leads ts1 tx1 lst outs st2)
    note P = publish_commits [OF step_publish(5-8)]
    from P(1) obtain u where "tx_commit C flt tf now lst (sys d) tx' =
        (u, remove_active_tx (ts1\<lparr>mvs := st2\<rparr>) (tx_id tx1), tx1\<lparr>status := Committed\<rparr>)" by blast
    from commits [OF this step_publish(3) _ step_publish(4)] step_publish step(2) have
      "sees C st2 tx p = sees C (mvs (sys d)) tx p" by auto
    with step_publish step(2) h show ?thesis by simp
  qed
qed


text \<open>Runs in which one transaction, with a given handle, only watches.\<close>

inductive others_run :: "codecs \<Rightarrow> u64 \<Rightarrow> transaction \<Rightarrow> db \<Rightarrow> db \<Rightarrow> bool" for C t tx d where
  run_refl: "others_run C t tx d d"
| run_step: "others_run C t tx d d' \<Longrightarrow> within_limit C (mvs (sys d')) tx \<Longrightarrow> db_step C d' l d'' \<Longrightarrow> l \<noteq> Some t \<Longrightarrow>
    others_run C t tx d d''"

lemma others_run_sees:
  assumes "others_run C t tx d d'" "vv_codec C" "db_inv C d" "handles d t = Some tx" "status tx = Open"
  shows "db_inv C d' \<and> handles d' t = Some tx \<and> (\<forall>p. sees C (mvs (sys d')) tx p = sees C (mvs (sys d)) tx p)"
  using assms(1)
proof (induction rule: others_run.induct)
  case (run_step d' l d'')
  then have i: "db_inv C d'" "handles d' t = Some tx" by simp_all
  note s = other_step_sees [OF assms(2) i assms(5) run_step.hyps(3,4,2)]
  from s run_step.IH step_inv [OF run_step.hyps(3) i(1) assms(2)] show ?case by simp
qed (use assms in simp)

section \<open>Writes and their outcomes\<close>

text \<open>What a pass does when nothing is in its way.\<close>

lemma try_put_returns:
  assumes "vv_codec C" "mvcc C (mvs ts)" "status tx = Open" "other_holder ts tx (vals C (mvs ts) (n, k)) = None"
    and "ser_vv C ((base_value (vals C (mvs ts) (n, k)))\<lparr>uncommitted := Some \<lparr>unc_tx = tx_id tx, unc_value = Some val\<rparr>\<rparr>) = Inr bs"
  shows "\<exists>ts'. try_put C ts tx n k val = (Returned (), ts', log_key tx n k) \<and> wrote C ts tx n k (Some val) ts' (log_key tx n k)"
proof -
  obtain r ts' tx' where run: "try_put C ts tx n k val = (r, ts', tx')" by (cases "try_put C ts tx n k val")
  obtain m st1 where om: "open_map (mvs ts) n = (m, st1)" by force
  note o = open_map_vals [OF assms(2) om]
  have "\<exists>st'. store_put st1 n k bs = Some st'" using put_vals [OF assms(1) o(1) assms(5), of n k] by blast
  then have "r = Returned ()"
    using run assms(3-5) existing_value_vals [OF assms(1,2) om, of k]
    by (auto simp: try_put_def check_open_def om Let_def write_uncommitted_def vv_to_bytes_def base_value_def)
  with try_put_effect [OF assms(1-3) run] run show ?thesis by (auto simp: wrote_def)
qed

lemma blocked_pass:
  assumes "vv_codec C" "mvcc C (mvs ts)" "status tx = Open" "other_holder ts tx (vals C (mvs ts) (n, k)) = Some h"
  shows "\<exists>ts'. try_put C ts tx n k val = (Blocked h, ts', tx) \<and> vals C (mvs ts') = vals C (mvs ts)"
    "\<exists>ts'. try_remove C ts tx n k = (Blocked h, ts', tx) \<and> vals C (mvs ts') = vals C (mvs ts)"
proof -
  obtain m st1 where om: "open_map (mvs ts) n = (m, st1)" by force
  note ex = existing_value_vals [OF assms(1,2) om, of k] and o = open_map_vals [OF assms(2) om]
  show "\<exists>ts'. try_put C ts tx n k val = (Blocked h, ts', tx) \<and> vals C (mvs ts') = vals C (mvs ts)"
    using assms(3,4) o by (simp add: try_put_def check_open_def om Let_def ex)
  obtain vv where "vals C (mvs ts) (n, k) = Some vv"
    using assms(4) by (cases "vals C (mvs ts) (n, k)") (auto simp: other_holder_def)
  then show "\<exists>ts'. try_remove C ts tx n k = (Blocked h, ts', tx) \<and> vals C (mvs ts') = vals C (mvs ts)"
    using assms(3,4) o by (simp add: try_remove_def check_open_def om Let_def ex)
qed

lemma wrote_sees:
  assumes "wrote C ts tx n k val ts' tx'"
  shows "sees C (mvs ts') tx' p = (if p = (n, k) then val else sees C (mvs ts) tx p)"
  using assms by (auto simp: wrote_def sees_def read_visible_def split: option.splits)

definition history_of :: "versioned_value option \<Rightarrow> version_record list" where
  "history_of vo = (case vo of None \<Rightarrow> [] | Some vv \<Rightarrow> committed_history vv)"

lemma rolled_back_histories:
  assumes "rolled_back_to C ts tx ts' tx'"
  shows "history_of (vals C (mvs ts') p) = history_of (vals C (mvs ts) p)"
proof -
  from assms have V: "vals C (mvs ts') p = (if p \<in> undo_keys tx then undo_vv (tx_id tx) (vals C (mvs ts) p) else vals C (mvs ts) p)"
    by (auto simp: rolled_back_to_def)
  show ?thesis
    by (simp add: V history_of_def undo_vv_def rollback_uncommitted_def split: option.split)
qed

lemma committed_new_reader:
  assumes "committed_to C ts tx ts' tx'" "\<forall>p \<in> undo_keys tx. held_by C (mvs ts) (tx_id tx) p" "p \<in> undo_keys tx"
  shows "sees C (mvs ts') (fst (tx_begin ts')) p = sees C (mvs ts) tx p"
proof -
  from assms(2,3) obtain vv u where vv: "vals C (mvs ts) p = Some vv" "uncommitted vv = Some u" "unc_tx u = tx_id tx"
    by (force simp: held_by_def active_tx_id_def)
  from assms(3) have "undo_log tx \<noteq> []" by (auto simp: undo_keys_def)
  with assms(1) have V: "vals C (mvs ts') = commit_vals C (mvs ts) tx (next_commit_version (mvs ts) + 1)"
    and v: "version (mvs ts') = next_commit_version (mvs ts) + 1" by (auto simp: committed_to_def)
  show ?thesis using vv v assms(3)
    by (simp add: sees_def V commit_vals_def tx_begin_def begin_fetch_def transaction_new_def read_visible_def commit_history [OF vv(2)])
qed


section \<open>An example\<close>

text \<open>A codec for versioned values that refuses values too large for memory, and two transactions over an
  empty store in memory.\<close>

definition ex_ser :: vv_ser where
  "ex_ser vv = (if vv_fits vv \<and> length (enc_vv vv) < 2 ^ 63 then Inr (enc_vv vv) else Inl (Serialization ''size limit''))"

definition ex_codecs :: codecs where
  "ex_codecs = toy_codecs\<lparr>ser_vv := ex_ser\<rparr>"

lemma ex_ser_vv [simp]: "ser_vv ex_codecs = ex_ser"
  by (simp add: ex_codecs_def)

lemma enc_vv_smaller:
  assumes "smaller vv' vv" "vv_fits vv"
  shows "vv_fits vv' \<and> length (enc_vv vv') \<le> length (enc_vv vv)"
proof -
  from assms(1) obtain n where n: "committed_history vv' = take n (committed_history vv)"
    and u: "uncommitted vv' = None \<or> uncommitted vv' = uncommitted vv" by (auto simp: smaller_def)
  have "concat (map enc_version (committed_history vv)) =
      concat (map enc_version (take n (committed_history vv))) @ concat (map enc_version (drop n (committed_history vv)))"
    by (metis append_take_drop_id concat_append map_append)
  then have le: "length (concat (map enc_version (take n (committed_history vv)))) \<le> length (concat (map enc_version (committed_history vv)))"
    by simp
  have "vv_fits vv'" using assms(2) u unfolding vv_fits_def n by (auto dest: in_set_takeD split: option.splits)
  moreover have "length (enc_vv vv') \<le> length (enc_vv vv)"
    using u le by (auto simp: enc_vv_def n split: option.splits simp del: length_concat)
  ultimately show ?thesis ..
qed

lemma ex_vv_codec: "vv_codec ex_codecs"
proof -
  have "\<exists>bs'. ex_ser vv' = Inr bs'" if "ex_ser vv = Inr bs" "smaller vv' vv" for vv vv' bs
    using enc_vv_smaller [OF that(2)] that(1) by (auto simp: ex_ser_def split: if_splits)
  moreover have "bs \<noteq> [] \<and> length bs < 2 ^ 63 \<and> dec_vv bs = Inr vv" if "ex_ser vv = Inr bs" for vv bs
    using that dec_enc_vv [of vv] by (auto simp: ex_ser_def split: if_splits)
  moreover have "de_vv ex_codecs = dec_vv" by (simp add: ex_codecs_def toy_codecs_def)
  ultimately show ?thesis
    using single_layout_dec_vv by (simp add: vv_codec_def) blast
qed

definition ex_init :: db where
  "ex_init = \<lparr>sys = tx_store_new store_open_in_memory, handles = Map.empty\<rparr>"

definition ex_tx :: "u64 \<Rightarrow> transaction" where
  "ex_tx t = transaction_new t 0"

definition ex_two :: db where
  "ex_two = \<lparr>sys = snd (tx_begin (snd (tx_begin (sys ex_init)))), handles = [1 \<mapsto> ex_tx 1, 2 \<mapsto> ex_tx 2]\<rparr>"

lemma ex_init_ok: "db_init ex_codecs ex_init"
  by (simp add: db_init_def ex_init_def mvcc_def vals_def histories_ok_def store_open_in_memory_def content_of_def tx_store_new_def)

lemma ex_begin: "\<exists>ts. tx_begin (sys ex_init) = (ex_tx 1, ts) \<and> tx_begin ts = (ex_tx 2, sys ex_two)"
  by (simp add: ex_two_def ex_init_def tx_begin_def begin_fetch_def begin_register_def tx_store_new_def ex_tx_def
      transaction_new_def store_open_in_memory_def)

lemma ex_two_reachable: "db_reachable ex_codecs ex_two"
proof -
  from ex_begin obtain ts where b: "tx_begin (sys ex_init) = (ex_tx 1, ts)" "tx_begin ts = (ex_tx 2, sys ex_two)" by blast
  have n: "next_tx_id (sys ex_init) = 1" "next_tx_id ts = 2"
    using b(1) by (auto simp: ex_init_def tx_store_new_def tx_begin_def begin_fetch_def begin_register_def)
  have h: "handles ex_init = Map.empty" by (simp add: ex_init_def)
  have one: "(1 :: u64) < - 1" "(2 :: u64) < - 1" by (simp_all add: word_less_nat_alt unsigned_minus_1_eq_mask mask_eq_exp_minus_1)
  have ids: "tx_id (ex_tx t) = t" for t by (simp add: ex_tx_def transaction_new_def)
  have "db_reachable ex_codecs ex_init" by (rule reach_init) (rule ex_init_ok)
  from begin_reachable [OF ex_vv_codec this b(1)] n h one(1) ids [of 1] have
    "db_reachable ex_codecs \<lparr>sys = ts, handles = [1 \<mapsto> ex_tx 1]\<rparr>" by simp
  from begin_reachable [OF ex_vv_codec this, of "ex_tx 2" "sys ex_two"] b(2) n one(2) ids [of 2] show ?thesis
    by (simp add: ex_two_def)
qed

lemma ex_two_handles [simp]: "handles ex_two 1 = Some (ex_tx 1)" "handles ex_two 2 = Some (ex_tx 2)"
  "status (ex_tx t) = Open" "tx_id (ex_tx t) = t" "undo_log (ex_tx t) = []" "snapshot_version (ex_tx t) = 0"
  by (simp_all add: ex_two_def ex_tx_def transaction_new_def)

lemma ex_two_vals [simp]: "vals ex_codecs (mvs (sys ex_two)) p = None" "mvcc ex_codecs (mvs (sys ex_two))"
  by (simp_all add: vals_def mvcc_def ex_two_def ex_init_def tx_begin_def begin_fetch_def begin_register_def tx_store_new_def
      store_open_in_memory_def content_of_def split: prod.split)

text \<open>The first transaction writes 7 under key 1 of the map \<^verbatim>\<open>a\<close>.\<close>

definition ex_written :: db where
  "ex_written = (case try_put ex_codecs (sys ex_two) (ex_tx 1) ''a'' [1] [7] of
     (_, ts', tx') \<Rightarrow> \<lparr>sys = ts', handles = (handles ex_two)(1 \<mapsto> tx')\<rparr>)"

lemma ex_put: "\<exists>ts'. try_put ex_codecs (sys ex_two) (ex_tx 1) ''a'' [1] [7] = (Returned (), ts', log_key (ex_tx 1) ''a'' [1]) \<and>
    wrote ex_codecs (sys ex_two) (ex_tx 1) ''a'' [1] (Some [7]) ts' (log_key (ex_tx 1) ''a'' [1])"
  by (rule try_put_returns [OF ex_vv_codec])
    (simp_all add: other_holder_def base_value_def ex_ser_def vv_fits_def opt_fits_def enc_vv_def enc_opt_bytes_def)

lemma ex_written_eq: "\<exists>ts'. ex_written = \<lparr>sys = ts', handles = (handles ex_two)(1 \<mapsto> log_key (ex_tx 1) ''a'' [1])\<rparr> \<and>
    wrote ex_codecs (sys ex_two) (ex_tx 1) ''a'' [1] (Some [7]) ts' (log_key (ex_tx 1) ''a'' [1]) \<and>
    db_step ex_codecs ex_two (Some 1) ex_written"
  using ex_put step_put [of ex_two 1 "ex_tx 1" ex_codecs "''a''" "[1]" "[7]"] by (auto simp: ex_written_def)

lemma ex_written_reachable: "db_reachable ex_codecs ex_written"
proof (rule reach_step [of _ _ ex_two])
  show "db_reachable ex_codecs ex_two" by (rule ex_two_reachable)
  show "\<exists>l. db_step ex_codecs ex_two l ex_written" using ex_written_eq by blast
qed


text \<open>A store in memory that holds one versioned value.\<close>

lemma ex_store:
  assumes "ex_ser vv = Inr bs"
  shows "\<exists>st. mvcc ex_codecs st \<and> vals ex_codecs st (n, k) = Some vv \<and> store_content st (n, k) = Some bs"
proof -
  have "mvcc ex_codecs store_open_in_memory" by (simp add: mvcc_def store_open_in_memory_def content_of_def)
  from put_vals [OF ex_vv_codec this, of vv bs n k] assms obtain st where st: "mvcc ex_codecs st" "vals ex_codecs st (n, k) = Some vv"
    by auto
  with content_of_vals [OF ex_vv_codec st(1), of "(n, k)"] assms show ?thesis by auto
qed

text \<open>Its handles: the writer and the reader.\<close>

definition ex_writer :: transaction where
  "ex_writer = log_key (ex_tx 1) ''a'' [1]"

lemma ex_writer_simps [simp]: "status ex_writer = Open" "undo_keys ex_writer = {(''a'', [1])}"
  by (simp_all add: ex_writer_def undo_keys_def)

lemma ex_written_handles [simp]: "handles ex_written 1 = Some ex_writer" "handles ex_written 2 = Some (ex_tx 2)"
proof -
  from ex_written_eq [folded ex_writer_def] obtain ts' where w: "ex_written = \<lparr>sys = ts', handles = (handles ex_two)(1 \<mapsto> ex_writer)\<rparr>"
    by blast
  show "handles ex_written 1 = Some ex_writer" "handles ex_written 2 = Some (ex_tx 2)" by (simp_all add: w)
qed

section \<open>Properties\<close>





text \<open>C7: A transaction reads its own writes: after a successful put it reads the new value and every other
  key as before; after a remove that returns it reads nothing, and the result says whether there was
  something to remove.\<close>

theorem read_your_writes:
  assumes "vv_codec C" "mvcc C (mvs ts)" "status tx = Open"
  shows "(\<forall>ts' tx'. try_put C ts tx n k val = (Returned (), ts', tx') \<longrightarrow>
      (\<forall>n' k'. fst (tx_get C ts' tx' n' k') = (if (n', k') = (n, k) then Inr (Some val) else fst (tx_get C ts tx n' k')))) \<and>
    (\<forall>b ts' tx'. try_remove C ts tx n k = (Returned b, ts', tx') \<longrightarrow>
      (\<forall>n' k'. fst (tx_get C ts' tx' n' k') = (if (n', k') = (n, k) then Inr None else fst (tx_get C ts tx n' k'))) \<and>
      (b \<longleftrightarrow> fst (tx_get C ts tx n k) \<noteq> Inr None))"
proof -
  note g = tx_get_sees [OF assms]
  have w: "fst (tx_get C ts' tx' n' k') = (if (n', k') = (n, k) then Inr vo else fst (tx_get C ts tx n' k'))"
    if "wrote C ts tx n k vo ts' tx'" for vo ts' tx' n' k'
  proof -
    from that have "mvcc C (mvs ts')" "status tx' = Open" using assms(3) by (auto simp: wrote_def)
    from tx_get_sees [OF assms(1) this, of n' k'] wrote_sees [OF that, of "(n', k')"] g [of n' k'] show ?thesis by auto
  qed
  have u: "fst (tx_get C ts' tx n' k') = (if (n', k') = (n, k) then Inr None else fst (tx_get C ts tx n' k'))"
    if "unchanged C ts ts'" "sees C (mvs ts) tx (n, k) = None" for ts' n' k'
  proof -
    from that(1) have m: "mvcc C (mvs ts')" "vals C (mvs ts') = vals C (mvs ts)" by (simp_all add: unchanged_def)
    then have "sees C (mvs ts') tx (n', k') = sees C (mvs ts) tx (n', k')" by (intro sees_cong) simp
    with tx_get_sees [OF assms(1) m(1) assms(3), of n' k'] g [of n' k'] that(2) show ?thesis by auto
  qed
  show ?thesis
    using try_put_effect [OF assms] try_remove_effect [OF assms] w u g [of n k] by (fastforce split del: if_split)
qed

theorem read_your_writes_witness:
  "\<exists>ts' tx'. try_put ex_codecs (sys ex_two) (ex_tx 1) ''a'' [1] [7] = (Returned (), ts', tx') \<and>
     fst (tx_get ex_codecs ts' tx' ''a'' [1]) = Inr (Some [7])"
  using ex_put read_your_writes [OF ex_vv_codec ex_two_vals(2), of "ex_tx 1" "''a''" "[1]" "[7]"] by fastforce

text \<open>C8: Scans agree with point reads: a full, prefix or range scan of an open transaction that meets no
  deadline returns, in ascending key order, exactly the keys of its selection for which \<^verbatim>\<open>get\<close> returns a
  value, with that value.\<close>

theorem scans_agree_with_gets:
  assumes "vv_codec C" "mvcc C (mvs ts)" "status tx = Open"
    and "(r, P) \<in> {(scan_visible C ts tx n None, \<lambda>_. True),
      (scan_prefix_visible C ts tx n p None, prefix p),
      (scan_range_visible C ts tx n lo hi None, \<lambda>k. within_start lo k \<and> within_end hi k)}"
  shows "\<exists>xs. fst r = Inr xs \<and> sorted_keys fst xs \<and>
    (\<forall>k val. (k, val) \<in> set xs \<longleftrightarrow> P k \<and> fst (tx_get C ts tx n k) = Inr (Some val))"
proof -
  have see: "visible_bytes C tx bs = Inr (read_visible vv (tx_id tx) (snapshot_version tx))"
      "res_bind (vv_from_bytes (de_vv C) bs) (\<lambda>vv. Inr (read_visible vv (tx_id tx) (snapshot_version tx))) =
        Inr (read_visible vv (tx_id tx) (snapshot_version tx))" if "ser_vv C vv = Inr bs" for vv bs
    using visible_bytes_value [OF assms(1) that] vv_codecD(4) [OF assms(1) that] by simp_all
  have "scan_ok C ts tx n (\<lambda>_. True) (fst (scan_visible C ts tx n None))"
    unfolding scan_visible_def by (rule scan_with_ok [OF assms(1-3)]) (simp_all add: see(2))
  moreover have "scan_ok C ts tx n (prefix p) (fst (scan_prefix_visible C ts tx n p None))"
    unfolding scan_prefix_visible_def
    by (rule scan_with_ok [OF assms(1-3)]) (simp_all add: see(1) map_scan_prefix_def map_scan_all_def map_wf_def tree_scan_prefix_correct)
  moreover have "scan_ok C ts tx n (\<lambda>k. within_start lo k \<and> within_end hi k) (fst (scan_range_visible C ts tx n lo hi None))"
    unfolding scan_range_visible_def
    by (rule scan_with_ok [OF assms(1-3)])
      (simp_all add: see(1) map_scan_range_def map_scan_all_def map_wf_def tree_scan_range_correct in_range_def)
  ultimately have "scan_ok C ts tx n P (fst r)" using assms(4) by auto
  then show ?thesis by (simp add: scan_ok_def tx_get_sees [OF assms(1-3)])
qed

theorem scans_agree_with_gets_witness:
  "\<exists>xs. fst (scan_prefix_visible ex_codecs (sys ex_written) ex_writer ''a'' [1] None) = Inr xs \<and> ([1], [7]) \<in> set xs"
proof -
  from ex_written_eq [folded ex_writer_def] obtain ts' where w: "ex_written = \<lparr>sys = ts', handles = (handles ex_two)(1 \<mapsto> ex_writer)\<rparr>"
    and wr: "wrote ex_codecs (sys ex_two) (ex_tx 1) ''a'' [1] (Some [7]) ts' ex_writer" by blast
  have m: "mvcc ex_codecs (mvs ts')" using wr by (simp add: wrote_def)
  have "fst (tx_get ex_codecs ts' ex_writer ''a'' [1]) = Inr (Some [7])"
    using tx_get_sees [OF ex_vv_codec m] wrote_sees [OF wr, of "(''a'', [1])"] by simp
  with scans_agree_with_gets [OF ex_vv_codec m, of ex_writer "scan_prefix_visible ex_codecs ts' ex_writer ''a'' [1] None" "prefix [1]"
      "''a''" "[1]" Unbounded Unbounded] show ?thesis by (auto simp: w)
qed

text \<open>C5: Rollback undoes everything: an open transaction's rollback always succeeds, leaves the committed
  history of every key as it was, leaves no uncommitted record of the transaction and takes it off the
  table of active transactions.\<close>

theorem rollback_restores:
  assumes "vv_codec C" "db_reachable C d" "handles d t = Some tx" "status tx = Open"
  shows "\<exists>ts' tx'. tx_rollback C (sys d) tx = (Inr (), ts', tx') \<and> status tx' = RolledBack \<and> \<not> is_tx_active ts' t \<and>
    (\<forall>p. history_of (vals C (mvs ts') p) = history_of (vals C (mvs (sys d)) p) \<and> \<not> held_by C (mvs ts') t p)"
proof -
  note inv = reachable_db_inv [OF assms(1,2)]
  note I = db_invD [OF inv]
  have t: "tx_id tx = t" using I(3) assms(3) by (auto simp: handles_ok_def)
  from rollback_rolls_back [OF assms(1) I(1) assms(4)] obtain ts' tx' where
    r: "tx_rollback C (sys d) tx = (Inr (), ts', tx')" "rolled_back_to C (sys d) tx ts' tx'" by blast
  have st: "status tx' = RolledBack" "\<not> is_tx_active ts' t"
    using r(2) t by (auto simp: rolled_back_to_def is_tx_active_def hm_contains_def)
  have "db_inv C \<lparr>sys = ts', handles = (handles d)(t \<mapsto> tx')\<rparr>"
    by (rule step_inv [OF _ inv assms(1)]) (rule step_rollback [OF assms(3) r(1)])
  from owned_held [OF db_invD(4) [OF this], of t] st(1) have "\<not> held_by C (mvs ts') t p" for p by (simp add: owner_open_def)
  with r st rolled_back_histories [OF r(2)] show ?thesis by blast
qed

theorem rollback_restores_witness:
  "\<exists>ts' tx'. tx_rollback ex_codecs (sys ex_written) ex_writer = (Inr (), ts', tx') \<and>
     \<not> held_by ex_codecs (mvs ts') 1 (''a'', [1])"
  using rollback_restores [OF ex_vv_codec ex_written_reachable, of 1 ex_writer] by auto

text \<open>C4: Commit is all or nothing: when the commit of an open transaction ends, either it is committed and
  a transaction that begins afterwards reads, for every key it wrote, the value it saw there itself; or
  it reports an error, is rolled back and the committed history of every key is what it was.\<close>

theorem commit_atomic:
  assumes "vv_codec C" "db_reachable C d" "handles d t = Some tx" "status tx = Open"
    and "tx_commit C flt tf now lst (sys d) tx = (r, ts', tx')"
  shows "(status tx' = Committed \<and>
       (\<forall>p \<in> undo_keys tx. sees C (mvs ts') (fst (tx_begin ts')) p = sees C (mvs (sys d)) tx p)) \<or>
    (status tx' = RolledBack \<and> (\<exists>e. r = Inl e) \<and>
       (\<forall>p. history_of (vals C (mvs ts') p) = history_of (vals C (mvs (sys d)) p)))"
proof -
  note inv = reachable_db_inv [OF assms(1,2)]
  note I = db_invD [OF inv]
  have t: "tx_id tx = t" using I(3) assms(3) by (auto simp: handles_ok_def)
  have held: "\<forall>p \<in> undo_keys tx. held_by C (mvs (sys d)) (tx_id tx) p"
    using owned_held [OF I(4), of t] assms(3,4) t by (auto simp: owner_open_def)
  from tx_commit_effect [OF assms(1) I(1) assms(4) I(2) held assms(5)] show ?thesis
  proof (elim disjE conjE)
    assume c: "committed_to C (sys d) tx ts' tx'"
    then have "status tx' = Committed" by (auto simp: committed_to_def)
    with committed_new_reader [OF c held] show ?thesis by blast
  next
    assume b: "rolled_back_to C (sys d) tx ts' tx'" and e: "\<exists>e. r = Inl e"
    then have "status tx' = RolledBack" by (auto simp: rolled_back_to_def)
    with rolled_back_histories [OF b] e show ?thesis by blast
  qed
qed

theorem commit_atomic_witness:
  "\<exists>r ts' tx'. tx_commit ex_codecs no_faults False 0 None (sys ex_written) ex_writer = (r, ts', tx') \<and>
     status tx' \<noteq> Open"
proof -
  obtain r ts' tx' where run: "tx_commit ex_codecs no_faults False 0 None (sys ex_written) ex_writer = (r, ts', tx')"
    by (cases "tx_commit ex_codecs no_faults False 0 None (sys ex_written) ex_writer")
  from commit_atomic [OF ex_vv_codec ex_written_reachable _ _ run, of 1] run show ?thesis by auto
qed

text \<open>Updates can be lost: a transaction may overwrite a version committed after its snapshot.  When the
  newest version of a key is above the snapshot and nobody holds the key, a put returns without an
  error although the transaction reads only older versions.\<close>

theorem lost_update:
  assumes "vv_codec C" "mvcc C (mvs ts)" "status tx = Open" "vals C (mvs ts) (n, k) = Some vv" "uncommitted vv = None"
    and "committed_history vv = newest # older" "snapshot_version tx < rec_version newest"
    and "ser_vv C (vv\<lparr>uncommitted := Some \<lparr>unc_tx = tx_id tx, unc_value = Some val\<rparr>\<rparr>) = Inr bs"
  shows "fst (tx_get C ts tx n k) = Inr (history_read older (snapshot_version tx)) \<and>
    (\<exists>ts' tx'. try_put C ts tx n k val = (Returned (), ts', tx'))"
proof -
  have "other_holder ts tx (vals C (mvs ts) (n, k)) = None" using assms(4,5) by (simp add: other_holder_def active_tx_id_def)
  from try_put_returns [OF assms(1-3) this, of val bs] assms(4,8)
  have "\<exists>ts' tx'. try_put C ts tx n k val = (Returned (), ts', tx')" by (auto simp: base_value_def)
  moreover have "sees C (mvs ts) tx (n, k) = history_read older (snapshot_version tx)"
    using assms(4-7) by (simp add: sees_def read_visible_def linorder_not_le [symmetric])
  ultimately show ?thesis using tx_get_sees [OF assms(1-3), of n k] by simp
qed

theorem lost_update_witness:
  "\<exists>st. vals ex_codecs st (''a'', [1]) = Some \<lparr>uncommitted = None, committed_history =
        [\<lparr>rec_value = Some [8], rec_version = 5\<rparr>, \<lparr>rec_value = Some [7], rec_version = 2\<rparr>]\<rparr> \<and>
     fst (tx_get ex_codecs (tx_store_new st) (transaction_new 1 3) ''a'' [1]) = Inr (Some [7]) \<and>
     (\<exists>ts' tx'. try_put ex_codecs (tx_store_new st) (transaction_new 1 3) ''a'' [1] [9] = (Returned (), ts', tx'))"
proof -
  let ?vv = "\<lparr>uncommitted = None, committed_history =
        [\<lparr>rec_value = Some [8], rec_version = 5\<rparr>, \<lparr>rec_value = Some [7], rec_version = 2\<rparr>]\<rparr> :: versioned_value"
  note enc = vv_fits_def opt_fits_def enc_vv_def enc_opt_bytes_def enc_version_def
  have ser: "ex_ser ?vv = Inr (enc_vv ?vv)" by (simp add: ex_ser_def enc)
  from ex_store [OF ser, of "''a''" "[1]"] obtain st where st: "mvcc ex_codecs st" "vals ex_codecs st (''a'', [1]) = Some ?vv" by blast
  let ?w = "?vv\<lparr>uncommitted := Some \<lparr>unc_tx = 1, unc_value = Some [9]\<rparr>\<rparr>"
  have "ex_ser ?w = Inr (enc_vv ?w)" by (simp add: ex_ser_def enc)
  with lost_update [OF ex_vv_codec, of "tx_store_new st" "transaction_new 1 3" "''a''" "[1]" ?vv _ _ "[9]" "enc_vv ?w"] st
  show ?thesis by (intro exI [of _ st]) (simp add: tx_store_new_def transaction_new_def)
qed

text \<open>A transaction store counts its ids from 1 again and trusts them: over maps that still hold an
  uncommitted record of an earlier transaction 1 (saved by a checkpoint before a crash, or written
  through another transaction store over the same maps), its first transaction reads that record as its
  own write.\<close>

theorem new_store_reads_uncommitted:
  assumes "vv_codec C" "mvcc C st" "vals C st (n, k) = Some vv" "uncommitted vv = Some u" "unc_tx u = 1"
  shows "case tx_begin (tx_store_new st) of (tx, ts) \<Rightarrow> fst (tx_get C ts tx n k) = Inr (unc_value u)"
proof -
  obtain tx ts where b: "tx_begin (tx_store_new st) = (tx, ts)" by force
  then have tx: "tx_id tx = 1" "status tx = Open" "mvs ts = st"
    by (auto simp: tx_begin_def begin_fetch_def begin_register_def tx_store_new_def transaction_new_def)
  then show ?thesis using tx_get_sees [OF assms(1), of ts tx n k] assms(2-5) b by (simp add: sees_def read_visible_def)
qed

theorem new_store_reads_uncommitted_witness:
  "\<exists>st. vals ex_codecs st (''a'', [1]) = Some (new_uncommitted 1 (Some [7])) \<and>
     (case tx_begin (tx_store_new st) of (tx, ts) \<Rightarrow> fst (tx_get ex_codecs ts tx ''a'' [1]) = Inr (Some [7]))"
proof -
  let ?vv = "new_uncommitted 1 (Some [7])"
  have ser: "ex_ser ?vv = Inr (enc_vv ?vv)"
    by (simp add: ex_ser_def vv_fits_def opt_fits_def enc_vv_def enc_opt_bytes_def new_uncommitted_def)
  from ex_store [OF ser, of "''a''" "[1]"] obtain st where st: "mvcc ex_codecs st" "vals ex_codecs st (''a'', [1]) = Some ?vv" by blast
  from new_store_reads_uncommitted [OF ex_vv_codec st] st(2) show ?thesis by (auto simp: new_uncommitted_def)
qed

text \<open>Vacuum does not take the key mutex and can erase a write: when a transaction puts a value between
  the scan of the map and the write-back of a pruned entry, the write-back succeeds and the transaction
  no longer reads its own write.\<close>

theorem vacuum_erases_write:
  assumes "vv_codec C" "mvcc C (mvs ts)" "status tx = Open" "vals C (mvs ts) (n, k) = Some vv" "ser_vv C vv = Inr old"
    and "uncommitted vv = None" "\<not> is_dead vv h" "snd (prune_old_versions vv h)" "h \<le> snapshot_version tx"
    and "try_put C ts tx n k val = (Returned (), ts', tx')"
  shows "\<exists>st''. vacuum_entry C h n (mvs ts', c) \<lparr>entry_key = k, entry_value = old\<rparr> = Inr (st'', c) \<and>
    fst (tx_get C (ts'\<lparr>mvs := st''\<rparr>) tx' n k) = fst (tx_get C ts tx n k)"
proof -
  from try_put_effect [OF assms(1-3,10)] have w: "wrote C ts tx n k (Some val) ts' tx'" by auto
  then have m: "mvcc C (mvs ts')" and tx': "tx_id tx' = tx_id tx" "snapshot_version tx' = snapshot_version tx" "status tx' = Open"
    using assms(3) by (auto simp: wrote_def)
  obtain vv' where pr: "prune_old_versions vv h = (vv', True)" using assms(8) by (cases "prune_old_versions vv h") auto
  from vv_codec_smaller [OF assms(1,5) smaller_prune [of vv h]] pr obtain bs where bs: "ser_vv C vv' = Inr bs" by auto
  from put_vals [OF assms(1) m bs, of n k] obtain st'' where
    st'': "store_put (mvs ts') n k bs = Some st''" "mvcc C st''" "vals C st'' (n, k) = Some vv'" by auto
  have "vacuum_entry C h n (mvs ts', c) \<lparr>entry_key = k, entry_value = old\<rparr> = Inr (st'', c)"
    using vv_codecD(4) [OF assms(1,5)] assms(7) pr bs st''(1) by (simp add: vacuum_entry_def vv_to_bytes_def)
  moreover have "sees C st'' tx' (n, k) = sees C (mvs ts) tx (n, k)"
    using prune_keeps_reads [OF assms(9), of vv "tx_id tx"] pr st''(3) assms(4) tx' by (simp add: sees_def)
  ultimately show ?thesis
    using tx_get_sees [OF assms(1-3), of n k] tx_get_sees [OF assms(1), of "ts'\<lparr>mvs := st''\<rparr>" tx' n k] st''(2) tx'(3) by simp
qed

theorem vacuum_erases_write_witness:
  "\<exists>st ts' tx' st''. try_put ex_codecs (tx_store_new st) (transaction_new 1 6) ''a'' [1] [9] = (Returned (), ts', tx') \<and>
     fst (tx_get ex_codecs ts' tx' ''a'' [1]) = Inr (Some [9]) \<and>
     fst (tx_get ex_codecs (ts'\<lparr>mvs := st''\<rparr>) tx' ''a'' [1]) = Inr (Some [8])"
proof -
  let ?vv = "\<lparr>uncommitted = None, committed_history =
        [\<lparr>rec_value = Some [8], rec_version = 5\<rparr>, \<lparr>rec_value = Some [7], rec_version = 2\<rparr>]\<rparr> :: versioned_value"
  let ?w = "?vv\<lparr>uncommitted := Some \<lparr>unc_tx = 1, unc_value = Some [9]\<rparr>\<rparr>" and ?tx = "transaction_new 1 6"
  note enc = vv_fits_def opt_fits_def enc_vv_def enc_opt_bytes_def enc_version_def
  have ser: "ex_ser ?vv = Inr (enc_vv ?vv)" "ex_ser ?w = Inr (enc_vv ?w)" by (simp_all add: ex_ser_def enc)
  from ex_store [OF ser(1), of "''a''" "[1]"] obtain st where st: "mvcc ex_codecs st" "vals ex_codecs st (''a'', [1]) = Some ?vv" by blast
  let ?ts = "tx_store_new st"
  have s: "mvs ?ts = st" "status ?tx = Open" "tx_id ?tx = 1" "snapshot_version ?tx = 6" by (simp_all add: tx_store_new_def transaction_new_def)
  have free: "other_holder ?ts ?tx (vals ex_codecs (mvs ?ts) (''a'', [1])) = None" using st s by (simp add: other_holder_def active_tx_id_def)
  from try_put_returns [OF ex_vv_codec _ s(2) free, of "[9]" "enc_vv ?w"] st s ser obtain ts' tx' where
    put: "try_put ex_codecs ?ts ?tx ''a'' [1] [9] = (Returned (), ts', tx')" and w: "wrote ex_codecs ?ts ?tx ''a'' [1] (Some [9]) ts' tx'"
    by (auto simp: base_value_def)
  have get: "fst (tx_get ex_codecs ts' tx' ''a'' [1]) = Inr (Some [9])"
    using tx_get_sees [OF ex_vv_codec, of ts' tx' "''a''" "[1]"] wrote_sees [OF w, of "(''a'', [1])"] w s(2) by (auto simp: wrote_def)
  have "fst (tx_get ex_codecs ?ts ?tx ''a'' [1]) = Inr (Some [8])"
    using tx_get_sees [OF ex_vv_codec, of ?ts ?tx "''a''" "[1]"] st s by (simp add: sees_def read_visible_def)
  with vacuum_erases_write [OF ex_vv_codec _ s(2) _ _ _ _ _ _ put, of ?vv "enc_vv ?vv" 6 0] st s ser
  have "\<exists>st''. fst (tx_get ex_codecs (ts'\<lparr>mvs := st''\<rparr>) tx' ''a'' [1]) = Inr (Some [8])"
    by (auto simp: is_dead_def prune_old_versions_def)
  with put get show ?thesis by blast
qed

end
