(* ===== verification/Rust_Float.thy ===== *)
theory Rust_Float
  imports H2_Prelude
begin

text \<open>
  What the sources use of Rust's \<^verbatim>\<open>f32\<close> and \<^verbatim>\<open>f64\<close>: a float is its bit pattern (\<^verbatim>\<open>to_bits\<close>), a
  word of 32 or 64 bits.  Comparison and the \<^verbatim>\<open>as\<close> conversions are defined once for an IEEE format with
  \<open>mb\<close> fraction bits and \<open>eb\<close> exponent bits and then taken at (23, 8) and (52, 11).
\<close>

type_synonym f32 = "32 word"
type_synonym f64 = "64 word"

section \<open>Fields of a bit pattern\<close>

definition fl_sign :: "nat \<Rightarrow> nat \<Rightarrow> nat \<Rightarrow> bool" where
  "fl_sign mb eb u = odd (u div 2 ^ (mb + eb))"

definition fl_mag :: "nat \<Rightarrow> nat \<Rightarrow> nat \<Rightarrow> nat" where
  "fl_mag mb eb u = u mod 2 ^ (mb + eb)"

definition fl_inf :: "nat \<Rightarrow> nat \<Rightarrow> nat" where
  "fl_inf mb eb = (2 ^ eb - 1) * 2 ^ mb"

definition fl_is_nan :: "nat \<Rightarrow> nat \<Rightarrow> nat \<Rightarrow> bool" where
  "fl_is_nan mb eb u \<longleftrightarrow> fl_mag mb eb u > fl_inf mb eb"

definition fl_bias :: "nat \<Rightarrow> nat" where
  "fl_bias eb = 2 ^ (eb - 1) - 1"

text \<open>A finite magnitude is \<open>fl_man * 2 ^ fl_ulp\<close>.\<close>

definition fl_man :: "nat \<Rightarrow> nat \<Rightarrow> nat \<Rightarrow> nat" where
  "fl_man mb eb u =
     (let g = fl_mag mb eb u in if g < 2 ^ mb then g else g mod 2 ^ mb + 2 ^ mb)"

definition fl_ulp :: "nat \<Rightarrow> nat \<Rightarrow> nat \<Rightarrow> int" where
  "fl_ulp mb eb u = int (max 1 (fl_mag mb eb u div 2 ^ mb)) - int (fl_bias eb) - int mb"

section \<open>Comparison\<close>

text \<open>
  \<^verbatim>\<open>partial_cmp\<close>: undefined when an operand is not a number; otherwise the bit patterns compare as sign
  and magnitude, the two zeros being equal.
\<close>

definition fl_order :: "nat \<Rightarrow> nat \<Rightarrow> nat \<Rightarrow> int" where
  "fl_order mb eb u = (if fl_sign mb eb u then - int (fl_mag mb eb u) else int (fl_mag mb eb u))"

definition fl_partial_cmp :: "nat \<Rightarrow> nat \<Rightarrow> nat \<Rightarrow> nat \<Rightarrow> ordering option" where
  "fl_partial_cmp mb eb u v =
     (if fl_is_nan mb eb u \<or> fl_is_nan mb eb v then None
      else Some (cmp_key (fl_order mb eb u) (fl_order mb eb v)))"

definition f32_partial_cmp :: "f32 \<Rightarrow> f32 \<Rightarrow> ordering option" where
  "f32_partial_cmp a b = fl_partial_cmp 23 8 (unat a) (unat b)"

definition f64_partial_cmp :: "f64 \<Rightarrow> f64 \<Rightarrow> ordering option" where
  "f64_partial_cmp a b = fl_partial_cmp 52 11 (unat a) (unat b)"

section \<open>Conversions\<close>

text \<open>\<open>m * 2 ^ e\<close> to the nearest integer, ties to even.\<close>

definition round_half_even :: "nat \<Rightarrow> int \<Rightarrow> nat" where
  "round_half_even m e =
     (if 0 \<le> e then m * 2 ^ nat e
      else let d = 2 ^ nat (- e); q = m div d; r = m mod d in
           if 2 * r > d \<or> (2 * r = d \<and> odd q) then q + 1 else q)"

fun bit_len :: "nat \<Rightarrow> nat" where
  "bit_len n = (if n = 0 then 0 else Suc (bit_len (n div 2)))"

declare bit_len.simps [simp del]

text \<open>The bit pattern nearest to \<open>m * 2 ^ e\<close>, infinity on overflow.\<close>

definition fl_round :: "nat \<Rightarrow> nat \<Rightarrow> bool \<Rightarrow> nat \<Rightarrow> int \<Rightarrow> nat" where
  "fl_round mb eb s m e =
     (let sb = (if s then 2 ^ (mb + eb) else 0);
          qmin = 1 - int (fl_bias eb) - int mb;
          q = max (int (bit_len m) + e - 1 - int mb) qmin;
          b = nat (q - qmin) * 2 ^ mb + round_half_even m (e - q)
      in if m = 0 then sb else sb + min b (fl_inf mb eb))"

definition int_as_f64 :: "int \<Rightarrow> f64" where
  "int_as_f64 i = word_of_nat (fl_round 52 11 (i < 0) (nat \<bar>i\<bar>) 0)"

definition fl_convert :: "nat \<Rightarrow> nat \<Rightarrow> nat \<Rightarrow> nat \<Rightarrow> nat \<Rightarrow> nat" where
  "fl_convert mb eb mb' eb' u =
     (if fl_is_nan mb eb u then
        (if fl_sign mb eb u then 2 ^ (mb' + eb') else 0) + fl_inf mb' eb' + 2 ^ (mb' - 1)
      else if fl_mag mb eb u = fl_inf mb eb then
        (if fl_sign mb eb u then 2 ^ (mb' + eb') else 0) + fl_inf mb' eb'
      else fl_round mb' eb' (fl_sign mb eb u) (fl_man mb eb u) (fl_ulp mb eb u))"

definition f32_as_f64 :: "f32 \<Rightarrow> f64" where
  "f32_as_f64 f = word_of_nat (fl_convert 23 8 52 11 (unat f))"

definition f64_as_f32 :: "f64 \<Rightarrow> f32" where
  "f64_as_f32 f = word_of_nat (fl_convert 52 11 23 8 (unat f))"

text \<open>\<^verbatim>\<open>as i64\<close>: truncation toward zero, saturating, and zero for a pattern that is not a number.\<close>

definition fl_trunc :: "nat \<Rightarrow> nat \<Rightarrow> nat \<Rightarrow> nat" where
  "fl_trunc mb eb u =
     (let e = fl_ulp mb eb u in
      if 0 \<le> e then fl_man mb eb u * 2 ^ nat e else fl_man mb eb u div 2 ^ nat (- e))"

definition fl_as_i64 :: "nat \<Rightarrow> nat \<Rightarrow> nat \<Rightarrow> int" where
  "fl_as_i64 mb eb u =
     (if fl_is_nan mb eb u then 0
      else if fl_sign mb eb u then max (- int (fl_trunc mb eb u)) (- (2 ^ 63))
      else min (int (fl_trunc mb eb u)) (2 ^ 63 - 1))"

definition f32_as_i64 :: "f32 \<Rightarrow> int" where
  "f32_as_i64 f = fl_as_i64 23 8 (unat f)"

definition f64_as_i64 :: "f64 \<Rightarrow> int" where
  "f64_as_i64 f = fl_as_i64 52 11 (unat f)"

definition f32_neg :: "f32 \<Rightarrow> f32" where
  "f32_neg f = f + 0x80000000"

definition f64_neg :: "f64 \<Rightarrow> f64" where
  "f64_neg f = f + 0x8000000000000000"

lemmas fl_defs = fl_sign_def fl_mag_def fl_inf_def fl_is_nan_def fl_bias_def fl_man_def fl_ulp_def
  fl_order_def fl_partial_cmp_def round_half_even_def fl_round_def fl_convert_def fl_trunc_def
  fl_as_i64_def

lemma fl_partial_cmp_swap:
  "fl_partial_cmp mb eb v u =
     map_option (\<lambda>c. case c of Less \<Rightarrow> Greater | Equal \<Rightarrow> Equal | Greater \<Rightarrow> Less) (fl_partial_cmp mb eb u v)"
  by (auto simp: fl_partial_cmp_def cmp_key_def)

section \<open>Arithmetic\<close>

definition fl_pack :: "nat \<Rightarrow> nat \<Rightarrow> bool \<Rightarrow> nat \<Rightarrow> nat" where
  "fl_pack mb eb s g = (if s then 2 ^ (mb + eb) else 0) + g"

definition fl_nan :: "nat \<Rightarrow> nat \<Rightarrow> nat" where
  "fl_nan mb eb = fl_inf mb eb + 2 ^ (mb - 1)"

definition fl_value_at :: "nat \<Rightarrow> nat \<Rightarrow> int \<Rightarrow> nat \<Rightarrow> int" where
  "fl_value_at mb eb e u =
     (let m = int (fl_man mb eb u) * 2 ^ nat (fl_ulp mb eb u - e) in if fl_sign mb eb u then - m else m)"

text \<open>
  Addition is exact on a common exponent and then rounded, multiplication exact and then rounded; division keeps 128 extra bits and a sticky bit,
  more than rounding needs.  The result that is not a number is one fixed pattern.
\<close>

definition fl_add :: "nat \<Rightarrow> nat \<Rightarrow> nat \<Rightarrow> nat \<Rightarrow> nat" where
  "fl_add mb eb u v =
     (let inf = fl_inf mb eb in
      if fl_is_nan mb eb u \<or> fl_is_nan mb eb v then fl_nan mb eb
      else if fl_mag mb eb u = inf \<and> fl_mag mb eb v = inf \<and> fl_sign mb eb u \<noteq> fl_sign mb eb v then fl_nan mb eb
      else if fl_mag mb eb u = inf then u
      else if fl_mag mb eb v = inf then v
      else let e = min (fl_ulp mb eb u) (fl_ulp mb eb v);
               s = fl_value_at mb eb e u + fl_value_at mb eb e v in
           if s = 0 then fl_pack mb eb (fl_sign mb eb u \<and> fl_sign mb eb v) 0
           else fl_round mb eb (s < 0) (nat \<bar>s\<bar>) e)"

definition fl_div :: "nat \<Rightarrow> nat \<Rightarrow> nat \<Rightarrow> nat \<Rightarrow> nat" where
  "fl_div mb eb u v =
     (let inf = fl_inf mb eb; s = (fl_sign mb eb u \<noteq> fl_sign mb eb v) in
      if fl_is_nan mb eb u \<or> fl_is_nan mb eb v then fl_nan mb eb
      else if fl_mag mb eb u = inf then (if fl_mag mb eb v = inf then fl_nan mb eb else fl_pack mb eb s inf)
      else if fl_mag mb eb v = inf then fl_pack mb eb s 0
      else if fl_mag mb eb v = 0 then (if fl_mag mb eb u = 0 then fl_nan mb eb else fl_pack mb eb s inf)
      else let n = fl_man mb eb u * 2 ^ 128; d = fl_man mb eb v in
           fl_round mb eb s (2 * (n div d) + (if n mod d = 0 then 0 else 1)) (fl_ulp mb eb u - fl_ulp mb eb v - 129))"

definition f64_add :: "f64 \<Rightarrow> f64 \<Rightarrow> f64" where
  "f64_add a b = word_of_nat (fl_add 52 11 (unat a) (unat b))"

definition f64_div :: "f64 \<Rightarrow> f64 \<Rightarrow> f64" where
  "f64_div a b = word_of_nat (fl_div 52 11 (unat a) (unat b))"

definition fl_mul :: "nat \<Rightarrow> nat \<Rightarrow> nat \<Rightarrow> nat \<Rightarrow> nat" where
  "fl_mul mb eb u v =
     (let inf = fl_inf mb eb; s = (fl_sign mb eb u \<noteq> fl_sign mb eb v) in
      if fl_is_nan mb eb u \<or> fl_is_nan mb eb v then fl_nan mb eb
      else if fl_mag mb eb u = inf then (if fl_mag mb eb v = 0 then fl_nan mb eb else fl_pack mb eb s inf)
      else if fl_mag mb eb v = inf then (if fl_mag mb eb u = 0 then fl_nan mb eb else fl_pack mb eb s inf)
      else fl_round mb eb s (fl_man mb eb u * fl_man mb eb v) (fl_ulp mb eb u + fl_ulp mb eb v))"

definition f64_mul :: "f64 \<Rightarrow> f64 \<Rightarrow> f64" where
  "f64_mul a b = word_of_nat (fl_mul 52 11 (unat a) (unat b))"

definition f64_abs :: "f64 \<Rightarrow> f64" where
  "f64_abs a = word_of_nat (fl_mag 52 11 (unat a))"

definition f64_as_i32 :: "f64 \<Rightarrow> int" where
  "f64_as_i32 a = max (- (2 ^ 31)) (min (2 ^ 31 - 1) (f64_as_i64 a))"

end
