(* ===== verification/Sql_Value.thy ===== *)
theory Sql_Value
  imports Rust_Float
begin

text \<open>
  SQL values (\<^verbatim>\<open>crates/h2-types/src/value.rs\<close>): the \<^verbatim>\<open>Value\<close> enum with its conversions, \<^verbatim>\<open>cast_to\<close>,
  \<^verbatim>\<open>PartialEq\<close> and \<^verbatim>\<open>PartialOrd\<close>, and the \<^verbatim>\<open>DataType\<close> enum of \<^verbatim>\<open>data_type.rs\<close>.  A \<^verbatim>\<open>String\<close> is its
  UTF-8 bytes, an integer a word read as signed, a float its bit pattern.  The payloads of the
  \<^verbatim>\<open>rust_decimal\<close>, \<^verbatim>\<open>chrono\<close> and \<^verbatim>\<open>serde_json\<close> crates are type variables, and what the code calls on
  them is the record \<open>lib\<close>; chrono's types are totally ordered.
\<close>

section \<open>Data\<close>

datatype data_type =
    TBoolean | TTinyInt | TSmallInt | TInteger | TBigInt | TFloat | TDouble
  | TDecimal byte byte
  | TChar nat | TVarChar "nat option" | TBinary "nat option" | TBlob
  | TDate | TTime | TTimestamp | TTimestampTz
  | TUuid | TJson | TArray data_type | TInterval

record interval_value =
  iv_months :: "32 word"
  iv_days :: "32 word"
  iv_microseconds :: "64 word"

datatype ('dec, 'date, 'time, 'ts, 'json) val =
    VNull
  | VBoolean bool
  | VTinyInt "8 word"
  | VSmallInt "16 word"
  | VInteger "32 word"
  | VBigInt "64 word"
  | VFloat f32
  | VDouble f64
  | VDecimal 'dec
  | VString bytes
  | VBytes bytes
  | VDate 'date
  | VTime 'time
  | VTimestamp 'ts
  | VUuid bytes
  | VJson 'json
  | VArray "('dec, 'date, 'time, 'ts, 'json) val list"
  | VInterval interval_value

text \<open>
  The library calls: \<^verbatim>\<open>rust_decimal\<close> first, then \<^verbatim>\<open>chrono\<close>, \<^verbatim>\<open>uuid\<close> and \<^verbatim>\<open>serde_json\<close>, then the parts of
  the standard library that rest on tables (decimal-to-binary conversion, Unicode case).
\<close>

record ('dec, 'date, 'time, 'ts, 'json) lib =
  dec_from_int :: "int \<Rightarrow> 'dec option"
  dec_from_f32 :: "f32 \<Rightarrow> 'dec option"
  dec_from_f64 :: "f64 \<Rightarrow> 'dec option"
  dec_from_str :: "bytes \<Rightarrow> 'dec option"
  dec_to_f64 :: "'dec \<Rightarrow> f64 option"
  dec_to_i64 :: "'dec \<Rightarrow> 64 word option"
  dec_cmp :: "'dec \<Rightarrow> 'dec \<Rightarrow> ordering"
  dec_neg :: "'dec \<Rightarrow> 'dec"
  dec_default :: 'dec
  dec_digits :: "'dec \<Rightarrow> byte"
  dec_scale :: "'dec \<Rightarrow> byte"
  num_days_from_ce :: "'date \<Rightarrow> 32 word"
  from_num_days_from_ce_opt :: "32 word \<Rightarrow> 'date option"
  timestamp_nanos_opt :: "'ts \<Rightarrow> 64 word option"
  from_timestamp_nanos :: "64 word \<Rightarrow> 'ts"
  date_midnight :: "'date \<Rightarrow> 'ts option"
  date_naive :: "'ts \<Rightarrow> 'date"
  ts_time :: "'ts \<Rightarrow> 'time"
  parse_date :: "bytes \<Rightarrow> string \<Rightarrow> 'date option"
  parse_time :: "bytes \<Rightarrow> string \<Rightarrow> 'time option"
  parse_rfc3339 :: "bytes \<Rightarrow> 'ts option"
  parse_datetime :: "bytes \<Rightarrow> string \<Rightarrow> 'ts option"
  parse_naive_datetime :: "bytes \<Rightarrow> string \<Rightarrow> 'ts option"
  uuid_parse :: "bytes \<Rightarrow> bytes option"
  json_eq :: "'json \<Rightarrow> 'json \<Rightarrow> bool"
  json_parse :: "bytes \<Rightarrow> 'json option"
  parse_f64 :: "bytes \<Rightarrow> f64 option"
  to_uppercase :: "bytes \<Rightarrow> bytes"
  to_lowercase :: "bytes \<Rightarrow> bytes"
  f32_to_string :: "f32 \<Rightarrow> bytes"
  f64_to_string :: "f64 \<Rightarrow> bytes"
  dec_to_string :: "'dec \<Rightarrow> bytes"
  date_to_string :: "'date \<Rightarrow> bytes"
  time_to_string :: "'time \<Rightarrow> bytes"
  ts_to_string :: "'ts \<Rightarrow> bytes"
  date_format :: "'date \<Rightarrow> string \<Rightarrow> bytes"
  time_format :: "'time \<Rightarrow> string \<Rightarrow> bytes"
  ts_format :: "'ts \<Rightarrow> string \<Rightarrow> bytes"
  uuid_to_string :: "bytes \<Rightarrow> bytes"
  json_to_string :: "'json \<Rightarrow> bytes"
  from_utf8_lossy :: "bytes \<Rightarrow> bytes"

section \<open>Strings\<close>

definition ascii :: "string \<Rightarrow> bytes" where
  "ascii s = map (\<lambda>c. word_of_nat (of_char c)) s"

text \<open>\<^verbatim>\<open>str::trim\<close>: the characters of the Unicode property White\_Space, as UTF-8.\<close>

definition white_space :: "bytes list" where
  "white_space =
     [[9], [10], [11], [12], [13], [32], [0xC2, 0x85], [0xC2, 0xA0], [0xE1, 0x9A, 0x80],
      [0xE2, 0x80, 0x80], [0xE2, 0x80, 0x81], [0xE2, 0x80, 0x82], [0xE2, 0x80, 0x83],
      [0xE2, 0x80, 0x84], [0xE2, 0x80, 0x85], [0xE2, 0x80, 0x86], [0xE2, 0x80, 0x87],
      [0xE2, 0x80, 0x88], [0xE2, 0x80, 0x89], [0xE2, 0x80, 0x8A], [0xE2, 0x80, 0xA8],
      [0xE2, 0x80, 0xA9], [0xE2, 0x80, 0xAF], [0xE2, 0x81, 0x9F], [0xE3, 0x80, 0x80]]"

fun trim_start_n :: "bytes list \<Rightarrow> nat \<Rightarrow> bytes \<Rightarrow> bytes" where
  "trim_start_n ws 0 s = s"
| "trim_start_n ws (Suc n) s =
     (case find (\<lambda>w. take (length w) s = w) ws of
        None \<Rightarrow> s
      | Some w \<Rightarrow> trim_start_n ws n (drop (length w) s))"

definition str_trim :: "bytes \<Rightarrow> bytes" where
  "str_trim s =
     (let t = trim_start_n white_space (length s) s in
      rev (trim_start_n (map rev white_space) (length t) (rev t)))"

text \<open>\<^verbatim>\<open>str::parse::<i64>\<close>: an optional sign and at least one digit, refused outside the range.\<close>

fun parse_digits :: "nat \<Rightarrow> bytes \<Rightarrow> nat option" where
  "parse_digits acc [] = Some acc"
| "parse_digits acc (b # bs) =
     (if 48 \<le> b \<and> b \<le> 57 then parse_digits (acc * 10 + unat (b - 48)) bs else None)"

definition parse_unsigned :: "bytes \<Rightarrow> nat option" where
  "parse_unsigned s = (if s = [] then None else parse_digits 0 s)"

definition in_i64 :: "int \<Rightarrow> int option" where
  "in_i64 i = (if - (2 ^ 63) \<le> i \<and> i < 2 ^ 63 then Some i else None)"

definition parse_i64 :: "bytes \<Rightarrow> 64 word option" where
  "parse_i64 s =
     map_option word_of_int (Option.bind
       (case s of
          b # bs \<Rightarrow>
            (if b = 45 then map_option (\<lambda>n. - int n) (parse_unsigned bs)
             else if b = 43 then map_option int (parse_unsigned bs)
             else map_option int (parse_unsigned s))
        | [] \<Rightarrow> None)
       in_i64)"

section \<open>Inspection and conversion\<close>

fun value_data_type :: "('dec, 'date, 'time, 'ts, 'json) lib \<Rightarrow> ('dec, 'date, 'time, 'ts, 'json) val \<Rightarrow>
    data_type option" where
  "value_data_type L VNull = None"
| "value_data_type L (VBoolean b) = Some TBoolean"
| "value_data_type L (VTinyInt n) = Some TTinyInt"
| "value_data_type L (VSmallInt n) = Some TSmallInt"
| "value_data_type L (VInteger n) = Some TInteger"
| "value_data_type L (VBigInt n) = Some TBigInt"
| "value_data_type L (VFloat f) = Some TFloat"
| "value_data_type L (VDouble d) = Some TDouble"
| "value_data_type L (VDecimal d) = Some (TDecimal (dec_digits L d) (dec_scale L d))"
| "value_data_type L (VString s) = Some (TVarChar None)"
| "value_data_type L (VBytes b) = Some TBlob"
| "value_data_type L (VDate d) = Some TDate"
| "value_data_type L (VTime t) = Some TTime"
| "value_data_type L (VTimestamp t) = Some TTimestampTz"
| "value_data_type L (VUuid u) = Some TUuid"
| "value_data_type L (VJson j) = Some TJson"
| "value_data_type L (VArray items) =
     Some (TArray (case items of
                     [] \<Rightarrow> TInteger
                   | v # _ \<Rightarrow> (case value_data_type L v of None \<Rightarrow> TInteger | Some t \<Rightarrow> t)))"
| "value_data_type L (VInterval i) = Some TInterval"

definition is_null :: "('dec, 'date, 'time, 'ts, 'json) val \<Rightarrow> bool" where
  "is_null v = (case v of VNull \<Rightarrow> True | _ \<Rightarrow> False)"

fun is_numeric :: "('dec, 'date, 'time, 'ts, 'json) val \<Rightarrow> bool" where
  "is_numeric (VTinyInt n) = True"
| "is_numeric (VSmallInt n) = True"
| "is_numeric (VInteger n) = True"
| "is_numeric (VBigInt n) = True"
| "is_numeric (VFloat f) = True"
| "is_numeric (VDouble d) = True"
| "is_numeric (VDecimal d) = True"
| "is_numeric _ = False"

fun to_decimal :: "('dec, 'date, 'time, 'ts, 'json) lib \<Rightarrow> ('dec, 'date, 'time, 'ts, 'json) val \<Rightarrow>
    'dec option" where
  "to_decimal L (VDecimal d) = Some d"
| "to_decimal L (VTinyInt n) = dec_from_int L (sint n)"
| "to_decimal L (VSmallInt n) = dec_from_int L (sint n)"
| "to_decimal L (VInteger n) = dec_from_int L (sint n)"
| "to_decimal L (VBigInt n) = dec_from_int L (sint n)"
| "to_decimal L (VFloat f) = dec_from_f32 L f"
| "to_decimal L (VDouble d) = dec_from_f64 L d"
| "to_decimal L (VString s) = dec_from_str L (str_trim s)"
| "to_decimal L _ = None"

fun to_f64 :: "('dec, 'date, 'time, 'ts, 'json) lib \<Rightarrow> ('dec, 'date, 'time, 'ts, 'json) val \<Rightarrow>
    f64 option" where
  "to_f64 L (VFloat f) = Some (f32_as_f64 f)"
| "to_f64 L (VDouble d) = Some d"
| "to_f64 L (VDecimal d) = dec_to_f64 L d"
| "to_f64 L (VTinyInt n) = Some (int_as_f64 (sint n))"
| "to_f64 L (VSmallInt n) = Some (int_as_f64 (sint n))"
| "to_f64 L (VInteger n) = Some (int_as_f64 (sint n))"
| "to_f64 L (VBigInt n) = Some (int_as_f64 (sint n))"
| "to_f64 L (VString s) = parse_f64 L (str_trim s)"
| "to_f64 L _ = None"

fun to_i64 :: "('dec, 'date, 'time, 'ts, 'json) lib \<Rightarrow> ('dec, 'date, 'time, 'ts, 'json) val \<Rightarrow>
    64 word option" where
  "to_i64 L (VTinyInt n) = Some (signed n)"
| "to_i64 L (VSmallInt n) = Some (signed n)"
| "to_i64 L (VInteger n) = Some (signed n)"
| "to_i64 L (VBigInt n) = Some n"
| "to_i64 L (VDecimal d) = dec_to_i64 L d"
| "to_i64 L (VFloat f) = Some (word_of_int (f32_as_i64 f))"
| "to_i64 L (VDouble d) = Some (word_of_int (f64_as_i64 d))"
| "to_i64 L (VString s) = parse_i64 (str_trim s)"
| "to_i64 L _ = None"

fun first_some :: "('a \<Rightarrow> 'b option) \<Rightarrow> 'a list \<Rightarrow> 'b option" where
  "first_some f [] = None"
| "first_some f (x # xs) = (case f x of Some y \<Rightarrow> Some y | None \<Rightarrow> first_some f xs)"

definition parse_timestamp :: "('dec, 'date, 'time, 'ts, 'json) lib \<Rightarrow> bytes \<Rightarrow> 'ts option" where
  "parse_timestamp L s =
     (let t = str_trim s in
      case parse_rfc3339 L t of
        Some dt \<Rightarrow> Some dt
      | None \<Rightarrow>
     (case first_some (parse_datetime L t)
             [''%Y-%m-%d %H:%M:%S%z'', ''%Y-%m-%d %H:%M:%S %#z'', ''%Y-%m-%d %H:%M:%S%:z'',
              ''%Y-%m-%dT%H:%M:%S%:z''] of
        Some dt \<Rightarrow> Some dt
      | None \<Rightarrow>
     (case first_some (parse_naive_datetime L t)
             [''%Y-%m-%d %H:%M:%S%.f'', ''%Y-%m-%d %H:%M:%S'', ''%Y-%m-%dT%H:%M:%S%.f'',
              ''%Y-%m-%dT%H:%M:%S''] of
        Some dt \<Rightarrow> Some dt
      | None \<Rightarrow> Option.bind (parse_date L t ''%Y-%m-%d'') (date_midnight L))))"

section \<open>Text forms\<close>

fun nat_to_dec :: "nat \<Rightarrow> bytes" where
  "nat_to_dec n = (if n < 10 then [48 + word_of_nat n] else nat_to_dec (n div 10) @ [48 + word_of_nat (n mod 10)])"

declare nat_to_dec.simps [simp del]

definition int_to_dec :: "int \<Rightarrow> bytes" where
  "int_to_dec i = (if i < 0 then 45 # nat_to_dec (nat (- i)) else nat_to_dec (nat i))"

definition double_quotes :: "bytes \<Rightarrow> bytes" where
  "double_quotes s = concat (map (\<lambda>b. if b = 39 then [39, 39] else [b]) s)"

definition quoted :: "bytes \<Rightarrow> bytes" where
  "quoted s = 39 # s @ [39]"

definition hex_digit :: "nat \<Rightarrow> byte" where
  "hex_digit n = (if n < 10 then 48 + word_of_nat n else 55 + word_of_nat n)"

definition join_comma :: "bytes list \<Rightarrow> bytes" where
  "join_comma ss = concat (case ss of [] \<Rightarrow> [] | s # rest \<Rightarrow> s # map (\<lambda>t. ascii '', '' @ t) rest)"

text \<open>
  \<^verbatim>\<open>IntervalValue::parse\<close>: words at white space, times with colons, numbers followed by a unit.  Sums wrap
  around as in a release build.
\<close>

fun split_whitespace_n :: "nat \<Rightarrow> bytes \<Rightarrow> bytes \<Rightarrow> bytes list" where
  "split_whitespace_n 0 word s = (if word = [] then [] else [rev word])"
| "split_whitespace_n (Suc n) word s =
     (case s of
        [] \<Rightarrow> (if word = [] then [] else [rev word])
      | b # bs \<Rightarrow>
          (case find (\<lambda>w. take (length w) s = w) white_space of
             Some w \<Rightarrow> (if word = [] then [] else [rev word]) @ split_whitespace_n n [] (drop (length w) s)
           | None \<Rightarrow> split_whitespace_n n (b # word) bs))"

definition split_whitespace :: "bytes \<Rightarrow> bytes list" where
  "split_whitespace s = split_whitespace_n (Suc (length s)) [] s"

fun str_split :: "byte \<Rightarrow> bytes \<Rightarrow> bytes list" where
  "str_split c [] = [[]]"
| "str_split c (b # bs) =
     (if b = c then [] # str_split c bs
      else case str_split c bs of p # ps \<Rightarrow> (b # p) # ps | [] \<Rightarrow> [[b]])"

definition trim_end_s :: "bytes \<Rightarrow> bytes" where
  "trim_end_s s = rev (dropWhile (\<lambda>b. b = 115) (rev s))"

definition interval_unit :: "interval_value \<Rightarrow> f64 \<Rightarrow> bytes \<Rightarrow> interval_value option" where
  "interval_unit iv num unit =
     (let months = (\<lambda>f. Some (iv\<lparr>iv_months := iv_months iv + word_of_int (f64_as_i32 f)\<rparr>));
          days = (\<lambda>f. Some (iv\<lparr>iv_days := iv_days iv + word_of_int (f64_as_i32 f)\<rparr>));
          micros = (\<lambda>f. Some (iv\<lparr>iv_microseconds := iv_microseconds iv + word_of_int (f64_as_i64 f)\<rparr>));
          times = (\<lambda>k. f64_mul num (int_as_f64 k)) in
      if unit = ascii ''year'' then months (times 12)
      else if unit = ascii ''month'' then months num
      else if unit = ascii ''week'' then days (times 7)
      else if unit = ascii ''day'' then days num
      else if unit = ascii ''hour'' then micros (times 3600000000)
      else if unit = ascii ''minute'' then micros (times 60000000)
      else if unit = ascii ''second'' then micros (times 1000000)
      else if unit = ascii ''millisecond'' \<or> unit = ascii ''msec'' then micros (times 1000)
      else if unit = ascii ''microsecond'' \<or> unit = ascii ''usec'' then micros num
      else None)"

definition interval_time :: "('dec, 'date, 'time, 'ts, 'json) lib \<Rightarrow> interval_value \<Rightarrow> bytes list \<Rightarrow> interval_value option" where
  "interval_time L iv time_parts =
     do { h \<leftarrow> parse_i64 (time_parts ! 0);
          m \<leftarrow> parse_i64 (time_parts ! 1);
          s_f \<leftarrow> (if 3 \<le> length time_parts then parse_f64 L (time_parts ! 2) else Some 0);
          Some (iv\<lparr>iv_microseconds := iv_microseconds iv + (h * 3600000000 + m * 60000000 +
                     word_of_int (f64_as_i64 (f64_mul s_f (int_as_f64 1000000))))\<rparr>) }"

fun interval_parts :: "('dec, 'date, 'time, 'ts, 'json) lib \<Rightarrow> interval_value \<Rightarrow> bytes list \<Rightarrow> interval_value option" where
  "interval_parts L iv [] = Some iv"
| "interval_parts L iv (part # rest) =
     (if 58 \<in> set part \<and> 2 \<le> length (str_split 58 part) then
        (case interval_time L iv (str_split 58 part) of None \<Rightarrow> None | Some iv' \<Rightarrow> interval_parts L iv' rest)
      else
        case parse_f64 L part of
          None \<Rightarrow> None
        | Some num \<Rightarrow>
            (case rest of
               [] \<Rightarrow> None
             | u # rest' \<Rightarrow>
                 (case interval_unit iv num (trim_end_s (to_lowercase L u)) of
                    None \<Rightarrow> None
                  | Some iv' \<Rightarrow> interval_parts L iv' rest')))"

definition interval_parse :: "('dec, 'date, 'time, 'ts, 'json) lib \<Rightarrow> bytes \<Rightarrow> interval_value option" where
  "interval_parse L s =
     interval_parts L \<lparr>iv_months = 0, iv_days = 0, iv_microseconds = 0\<rparr> (split_whitespace (str_trim s))"

text \<open>
  Its \<^verbatim>\<open>Display\<close>.  Integer division truncates; the remainder of floats is exact, so \<^verbatim>\<open>(x % 60.0) as u64\<close> is the
  remainder of the truncated number.
\<close>

definition trunc_div :: "int \<Rightarrow> int \<Rightarrow> int" where
  "trunc_div a b = (if a < 0 then - ((- a) div b) else a div b)"

definition plural :: "int \<Rightarrow> string \<Rightarrow> bytes" where
  "plural n name = int_to_dec n @ ascii ('' '' @ name) @ (if 1 < \<bar>n\<bar> then ascii ''s'' else [])"

definition two_digits :: "nat \<Rightarrow> bytes" where
  "two_digits n = (if n < 10 then 48 # nat_to_dec n else nat_to_dec n)"

definition interval_to_string :: "interval_value \<Rightarrow> bytes" where
  "interval_to_string iv =
     (let years = trunc_div (sint (iv_months iv)) 12;
          months = sint (iv_months iv) - 12 * years;
          days = sint (iv_days iv);
          parts = (if years \<noteq> 0 then [plural years ''year''] else []) @
                  (if months \<noteq> 0 then [plural months ''mon''] else []) @
                  (if days \<noteq> 0 then [plural days ''day''] else []);
          total_secs = f64_abs (f64_div (int_as_f64 (sint (iv_microseconds iv))) (int_as_f64 1000000));
          secs = f64_as_i64 total_secs mod 60;
          mins = f64_as_i64 (f64_div total_secs (int_as_f64 60)) mod 60;
          hours = f64_as_i64 (f64_div total_secs (int_as_f64 3600));
          time = (if sint (iv_microseconds iv) < 0 then [45] else []) @ two_digits (nat hours) @ 58 #
                 two_digits (nat mins) @ 58 # two_digits (nat secs);
          all = parts @ (if iv_microseconds iv \<noteq> 0 \<or> parts = [] then [time] else []) in
      concat (case all of [] \<Rightarrow> [] | p # ps \<Rightarrow> p # map (\<lambda>q. 32 # q) ps))"

fun value_to_string :: "('dec, 'date, 'time, 'ts, 'json) lib \<Rightarrow> ('dec, 'date, 'time, 'ts, 'json) val \<Rightarrow>
    bytes" where
  "value_to_string L VNull = ascii ''NULL''"
| "value_to_string L (VBoolean b) = ascii (if b then ''true'' else ''false'')"
| "value_to_string L (VTinyInt n) = int_to_dec (sint n)"
| "value_to_string L (VSmallInt n) = int_to_dec (sint n)"
| "value_to_string L (VInteger n) = int_to_dec (sint n)"
| "value_to_string L (VBigInt n) = int_to_dec (sint n)"
| "value_to_string L (VFloat f) = f32_to_string L f"
| "value_to_string L (VDouble d) = f64_to_string L d"
| "value_to_string L (VDecimal d) = dec_to_string L d"
| "value_to_string L (VString s) = quoted (double_quotes s)"
| "value_to_string L (VBytes b) =
     88 # quoted (concat (map (\<lambda>c. [hex_digit (unat c div 16), hex_digit (unat c mod 16)]) b))"
| "value_to_string L (VDate d) = date_to_string L d"
| "value_to_string L (VTime t) = time_to_string L t"
| "value_to_string L (VTimestamp t) = ts_to_string L t"
| "value_to_string L (VUuid u) = uuid_to_string L u"
| "value_to_string L (VJson j) = json_to_string L j"
| "value_to_string L (VArray items) = 91 # join_comma (map (value_to_string L) items) @ [93]"
| "value_to_string L (VInterval i) = interval_to_string i"

fun to_sql_literal :: "('dec, 'date, 'time, 'ts, 'json) lib \<Rightarrow> ('dec, 'date, 'time, 'ts, 'json) val \<Rightarrow>
    bytes" where
  "to_sql_literal L VNull = ascii ''NULL''"
| "to_sql_literal L (VBoolean b) = ascii (if b then ''TRUE'' else ''FALSE'')"
| "to_sql_literal L (VTinyInt n) = int_to_dec (sint n)"
| "to_sql_literal L (VSmallInt n) = int_to_dec (sint n)"
| "to_sql_literal L (VInteger n) = int_to_dec (sint n)"
| "to_sql_literal L (VBigInt n) = int_to_dec (sint n)"
| "to_sql_literal L (VFloat f) = f32_to_string L f"
| "to_sql_literal L (VDouble d) = f64_to_string L d"
| "to_sql_literal L (VDecimal d) = dec_to_string L d"
| "to_sql_literal L (VString s) = quoted (double_quotes s)"
| "to_sql_literal L (VBytes b) = quoted (double_quotes (from_utf8_lossy L b))"
| "to_sql_literal L (VDate d) = ascii ''DATE '' @ quoted (date_format L d ''%Y-%m-%d'')"
| "to_sql_literal L (VTime t) = ascii ''TIME '' @ quoted (time_format L t ''%H:%M:%S'')"
| "to_sql_literal L (VTimestamp t) = ascii ''TIMESTAMP '' @ quoted (ts_format L t ''%Y-%m-%d %H:%M:%S'')"
| "to_sql_literal L (VUuid u) = quoted (uuid_to_string L u)"
| "to_sql_literal L (VJson j) = quoted (double_quotes (json_to_string L j))"
| "to_sql_literal L (VInterval i) = ascii ''INTERVAL '' @ quoted (interval_to_string i)"
| "to_sql_literal L (VArray items) = ascii ''ARRAY['' @ join_comma (map (to_sql_literal L) items) @ [93]"

section \<open>Casts\<close>

definition opt_cast :: "string \<Rightarrow> ('a \<Rightarrow> 'v) \<Rightarrow> 'a option \<Rightarrow> 'v h2_result" where
  "opt_cast msg f r = (case r of Some x \<Rightarrow> Inr (f x) | None \<Rightarrow> Inl (TypeError msg))"

text \<open>The arm of \<^verbatim>\<open>cast_to\<close> for \<^verbatim>\<open>Timestamp | TimestampTz\<close>.\<close>

definition cast_timestamp :: "('dec, 'date, 'time, 'ts, 'json) lib \<Rightarrow> ('dec, 'date, 'time, 'ts, 'json) val \<Rightarrow>
    ('dec, 'date, 'time, 'ts, 'json) val h2_result" where
  "cast_timestamp L v =
     (case v of
        VTimestamp ts \<Rightarrow> Inr (VTimestamp ts)
      | VString s \<Rightarrow> opt_cast ''Cannot parse as TIMESTAMP'' VTimestamp (parse_timestamp L s)
      | VDate d \<Rightarrow> opt_cast ''Cannot cast date to TIMESTAMP'' VTimestamp (date_midnight L d)
      | _ \<Rightarrow> Inl (TypeError ''Cannot cast to TIMESTAMP''))"

definition cast_to :: "('dec, 'date, 'time, 'ts, 'json) lib \<Rightarrow> ('dec, 'date, 'time, 'ts, 'json) val \<Rightarrow>
    data_type \<Rightarrow> ('dec, 'date, 'time, 'ts, 'json) val h2_result" where
  "cast_to L v ty =
     (if is_null v then Inr VNull else
      case ty of
        TTinyInt \<Rightarrow> opt_cast ''Cannot cast to TINYINT'' (\<lambda>i. VTinyInt (ucast i)) (to_i64 L v)
      | TSmallInt \<Rightarrow> opt_cast ''Cannot cast to SMALLINT'' (\<lambda>i. VSmallInt (ucast i)) (to_i64 L v)
      | TInteger \<Rightarrow> opt_cast ''Cannot cast to INTEGER'' (\<lambda>i. VInteger (ucast i)) (to_i64 L v)
      | TBigInt \<Rightarrow> opt_cast ''Cannot cast to BIGINT'' VBigInt (to_i64 L v)
      | TFloat \<Rightarrow> opt_cast ''Cannot cast to FLOAT'' (\<lambda>f. VFloat (f64_as_f32 f)) (to_f64 L v)
      | TDouble \<Rightarrow> opt_cast ''Cannot cast to DOUBLE'' VDouble (to_f64 L v)
      | TDecimal _ _ \<Rightarrow> opt_cast ''Cannot cast to DECIMAL'' VDecimal (to_decimal L v)
      | TVarChar _ \<Rightarrow> Inr (VString (case v of VString s \<Rightarrow> s | _ \<Rightarrow> value_to_string L v))
      | TChar _ \<Rightarrow> Inr (VString (case v of VString s \<Rightarrow> s | _ \<Rightarrow> value_to_string L v))
      | TBoolean \<Rightarrow>
          (case v of
             VBoolean b \<Rightarrow> Inr (VBoolean b)
           | VString s \<Rightarrow>
               (let u = to_uppercase L (str_trim s) in
                if u \<in> set (map ascii [''TRUE'', ''1'', ''T'', ''YES'']) then Inr (VBoolean True)
                else if u \<in> set (map ascii [''FALSE'', ''0'', ''F'', ''NO'']) then Inr (VBoolean False)
                else Inl (TypeError ''Cannot cast to BOOLEAN''))
           | _ \<Rightarrow> Inl (TypeError ''Cannot cast to BOOLEAN''))
      | TJson \<Rightarrow>
          (case v of
             VJson j \<Rightarrow> Inr (VJson j)
           | VString s \<Rightarrow> opt_cast ''Invalid JSON string'' VJson (json_parse L s)
           | _ \<Rightarrow> Inl (TypeError ''Cannot cast to JSON''))
      | TTimestamp \<Rightarrow> cast_timestamp L v
      | TTimestampTz \<Rightarrow> cast_timestamp L v
      | TDate \<Rightarrow>
          (case v of
             VDate d \<Rightarrow> Inr (VDate d)
           | VTimestamp ts \<Rightarrow> Inr (VDate (date_naive L ts))
           | VString s \<Rightarrow> opt_cast ''Cannot parse as DATE'' VDate (parse_date L (str_trim s) ''%Y-%m-%d'')
           | _ \<Rightarrow> Inl (TypeError ''Cannot cast to DATE''))
      | TTime \<Rightarrow>
          (case v of
             VTime t \<Rightarrow> Inr (VTime t)
           | VTimestamp ts \<Rightarrow> Inr (VTime (ts_time L ts))
           | VString s \<Rightarrow> opt_cast ''Cannot parse as TIME'' VTime (parse_time L (str_trim s) ''%H:%M:%S'')
           | _ \<Rightarrow> Inl (TypeError ''Cannot cast to TIME''))
      | TUuid \<Rightarrow>
          (case v of
             VUuid u \<Rightarrow> Inr (VUuid u)
           | VString s \<Rightarrow> opt_cast ''Cannot parse as UUID'' VUuid (uuid_parse L (str_trim s))
           | _ \<Rightarrow> Inl (TypeError ''Cannot cast to UUID''))
      | TInterval \<Rightarrow>
          (case v of
             VInterval iv \<Rightarrow> Inr (VInterval iv)
           | VString s \<Rightarrow> opt_cast ''Cannot parse as INTERVAL'' VInterval (interval_parse L s)
           | _ \<Rightarrow> Inl (TypeError ''Cannot cast to INTERVAL''))
      | _ \<Rightarrow> Inr v)"

section \<open>Equality and order\<close>

text \<open>\<^verbatim>\<open>compare_numeric\<close>, on the pairs that \<^verbatim>\<open>eq\<close> and \<^verbatim>\<open>partial_cmp\<close> do not treat themselves.\<close>

definition is_decimal :: "('dec, 'date, 'time, 'ts, 'json) val \<Rightarrow> bool" where
  "is_decimal v = (case v of VDecimal _ \<Rightarrow> True | _ \<Rightarrow> False)"

definition is_float :: "('dec, 'date, 'time, 'ts, 'json) val \<Rightarrow> bool" where
  "is_float v = (case v of VFloat _ \<Rightarrow> True | VDouble _ \<Rightarrow> True | _ \<Rightarrow> False)"

definition compare_numeric :: "('dec, 'date, 'time, 'ts, 'json) lib \<Rightarrow>
    ('dec, 'date, 'time, 'ts, 'json) val \<Rightarrow> ('dec, 'date, 'time, 'ts, 'json) val \<Rightarrow> ordering option" where
  "compare_numeric L a b =
     (if is_decimal a \<or> is_decimal b then
        do { da \<leftarrow> to_decimal L a; db \<leftarrow> to_decimal L b; Some (dec_cmp L da db) }
      else if is_float a \<or> is_float b then
        do { fa \<leftarrow> to_f64 L a; fb \<leftarrow> to_f64 L b; f64_partial_cmp fa fb }
      else
        (case (to_i64 L a, to_i64 L b) of
           (Some ia, Some ib) \<Rightarrow> Some (cmp_key (sint ia) (sint ib))
         | _ \<Rightarrow> None))"

definition ymd :: string where
  "ymd = ''%Y-%m-%d''"

fun value_eq :: "('dec, 'date::linorder, 'time::linorder, 'ts::linorder, 'json) lib \<Rightarrow>
    ('dec, 'date, 'time, 'ts, 'json) val \<Rightarrow> ('dec, 'date, 'time, 'ts, 'json) val \<Rightarrow> bool"
and values_eq :: "('dec, 'date::linorder, 'time::linorder, 'ts::linorder, 'json) lib \<Rightarrow>
    ('dec, 'date, 'time, 'ts, 'json) val list \<Rightarrow> ('dec, 'date, 'time, 'ts, 'json) val list \<Rightarrow> bool" where
  "value_eq L a b =
     (case (a, b) of
        (VNull, VNull) \<Rightarrow> True
      | (VBoolean x, VBoolean y) \<Rightarrow> x = y
      | (VTinyInt x, VTinyInt y) \<Rightarrow> x = y
      | (VSmallInt x, VSmallInt y) \<Rightarrow> x = y
      | (VInteger x, VInteger y) \<Rightarrow> x = y
      | (VBigInt x, VBigInt y) \<Rightarrow> x = y
      | (VFloat x, VFloat y) \<Rightarrow> f32_partial_cmp x y = Some Equal
      | (VDouble x, VDouble y) \<Rightarrow> f64_partial_cmp x y = Some Equal
      | (VDecimal x, VDecimal y) \<Rightarrow> dec_cmp L x y = Equal
      | (VString x, VString y) \<Rightarrow> x = y
      | (VBytes x, VBytes y) \<Rightarrow> x = y
      | (VDate x, VDate y) \<Rightarrow> x = y
      | (VTime x, VTime y) \<Rightarrow> x = y
      | (VTimestamp x, VTimestamp y) \<Rightarrow> x = y
      | (VUuid x, VUuid y) \<Rightarrow> x = y
      | (VJson x, VJson y) \<Rightarrow> json_eq L x y
      | (VArray xs, VArray ys) \<Rightarrow> values_eq L xs ys
      | (VTimestamp x, VString s) \<Rightarrow> parse_timestamp L s = Some x
      | (VString s, VTimestamp x) \<Rightarrow> parse_timestamp L s = Some x
      | (VDate x, VString s) \<Rightarrow> parse_date L (str_trim s) ymd = Some x
      | (VString s, VDate x) \<Rightarrow> parse_date L (str_trim s) ymd = Some x
      | _ \<Rightarrow> is_numeric a \<and> is_numeric b \<and> compare_numeric L a b = Some Equal)"
| "values_eq L [] [] = True"
| "values_eq L (x # xs) (y # ys) = (value_eq L x y \<and> values_eq L xs ys)"
| "values_eq L _ _ = False"

text \<open>The derived order of \<^verbatim>\<open>IntervalValue\<close>: months, then days, then microseconds.\<close>

definition interval_cmp :: "interval_value \<Rightarrow> interval_value \<Rightarrow> ordering" where
  "interval_cmp a b =
     (case cmp_key (sint (iv_months a)) (sint (iv_months b)) of
        Equal \<Rightarrow>
          (case cmp_key (sint (iv_days a)) (sint (iv_days b)) of
             Equal \<Rightarrow> cmp_key (sint (iv_microseconds a)) (sint (iv_microseconds b))
           | c \<Rightarrow> c)
      | c \<Rightarrow> c)"

fun partial_cmp :: "('dec, 'date::linorder, 'time::linorder, 'ts::linorder, 'json) lib \<Rightarrow>
    ('dec, 'date, 'time, 'ts, 'json) val \<Rightarrow> ('dec, 'date, 'time, 'ts, 'json) val \<Rightarrow> ordering option"
and partial_cmps :: "('dec, 'date::linorder, 'time::linorder, 'ts::linorder, 'json) lib \<Rightarrow>
    ('dec, 'date, 'time, 'ts, 'json) val list \<Rightarrow> ('dec, 'date, 'time, 'ts, 'json) val list \<Rightarrow> ordering option" where
  "partial_cmp L a b =
     (case (a, b) of
        (VNull, VNull) \<Rightarrow> Some Equal
      | (VNull, _) \<Rightarrow> Some Less
      | (_, VNull) \<Rightarrow> Some Greater
      | (VBoolean x, VBoolean y) \<Rightarrow> Some (cmp_key x y)
      | (VTinyInt x, VTinyInt y) \<Rightarrow> Some (cmp_key (sint x) (sint y))
      | (VSmallInt x, VSmallInt y) \<Rightarrow> Some (cmp_key (sint x) (sint y))
      | (VInteger x, VInteger y) \<Rightarrow> Some (cmp_key (sint x) (sint y))
      | (VBigInt x, VBigInt y) \<Rightarrow> Some (cmp_key (sint x) (sint y))
      | (VFloat x, VFloat y) \<Rightarrow> f32_partial_cmp x y
      | (VDouble x, VDouble y) \<Rightarrow> f64_partial_cmp x y
      | (VDecimal x, VDecimal y) \<Rightarrow> Some (dec_cmp L x y)
      | (VString x, VString y) \<Rightarrow> Some (cmp_key x y)
      | (VBytes x, VBytes y) \<Rightarrow> Some (cmp_key x y)
      | (VDate x, VDate y) \<Rightarrow> Some (cmp_key x y)
      | (VTime x, VTime y) \<Rightarrow> Some (cmp_key x y)
      | (VTimestamp x, VTimestamp y) \<Rightarrow> Some (cmp_key x y)
      | (VUuid x, VUuid y) \<Rightarrow> Some (cmp_key x y)
      | (VArray xs, VArray ys) \<Rightarrow> partial_cmps L xs ys
      | (VInterval x, VInterval y) \<Rightarrow> Some (interval_cmp x y)
      | (VTimestamp x, VString s) \<Rightarrow> map_option (cmp_key x) (parse_timestamp L s)
      | (VString s, VTimestamp y) \<Rightarrow> map_option (\<lambda>x. cmp_key x y) (parse_timestamp L s)
      | (VDate x, VString s) \<Rightarrow> map_option (cmp_key x) (parse_date L (str_trim s) ymd)
      | (VString s, VDate y) \<Rightarrow> map_option (\<lambda>x. cmp_key x y) (parse_date L (str_trim s) ymd)
      | _ \<Rightarrow> compare_numeric L a b)"
| "partial_cmps L [] [] = Some Equal"
| "partial_cmps L [] (y # ys) = Some Less"
| "partial_cmps L (x # xs) [] = Some Greater"
| "partial_cmps L (x # xs) (y # ys) =
     (case partial_cmp L x y of Some Equal \<Rightarrow> partial_cmps L xs ys | r \<Rightarrow> r)"

declare value_eq.simps [simp del] partial_cmp.simps [simp del]

text \<open>The operators \<^verbatim>\<open><\<close>, \<^verbatim>\<open><=\<close>, \<^verbatim>\<open>>\<close> and \<^verbatim>\<open>>=\<close> of \<^verbatim>\<open>PartialOrd\<close>.\<close>

definition cmp_lt where "cmp_lt L a b \<longleftrightarrow> partial_cmp L a b = Some Less"
definition cmp_le where "cmp_le L a b \<longleftrightarrow> partial_cmp L a b \<in> {Some Less, Some Equal}"
definition cmp_gt where "cmp_gt L a b \<longleftrightarrow> partial_cmp L a b = Some Greater"
definition cmp_ge where "cmp_ge L a b \<longleftrightarrow> partial_cmp L a b \<in> {Some Greater, Some Equal}"

section \<open>A small library instance\<close>

text \<open>
  Decimals as hundredths, dates as a day number below 256, instants as unbounded nanoseconds: enough
  structure for the examples.
\<close>

definition toy_lib :: "(int, 8 word, nat, int, bytes) lib" where
  "toy_lib =
     \<lparr>dec_from_int = (\<lambda>i. Some (100 * i)), dec_from_f32 = (\<lambda>f. Some (100 * f32_as_i64 f)),
      dec_from_f64 = (\<lambda>f. Some (100 * f64_as_i64 f)),
      dec_from_str = (\<lambda>s. map_option (\<lambda>w. 100 * sint w) (parse_i64 s)),
      dec_to_f64 = (\<lambda>d. Some (int_as_f64 (d div 100))),
      dec_to_i64 = (\<lambda>d. Some (word_of_int (d div 100))), dec_cmp = cmp_key, dec_neg = uminus,
      dec_default = 0, dec_digits = (\<lambda>d. 10), dec_scale = (\<lambda>d. 2),
      num_days_from_ce = ucast,
      from_num_days_from_ce_opt = (\<lambda>n. if n \<le> 255 then Some (ucast n) else None),
      timestamp_nanos_opt = (\<lambda>t. map_option word_of_int (in_i64 t)), from_timestamp_nanos = sint,
      date_midnight = (\<lambda>d. Some (uint d * 86400000000000)),
      date_naive = (\<lambda>t. word_of_int (t div 86400000000000)),
      ts_time = (\<lambda>t. nat (t mod 86400000000000)),
      parse_date = (\<lambda>s f. map_option ucast (parse_i64 s)), parse_time = (\<lambda>s f. parse_unsigned s),
      parse_rfc3339 = (\<lambda>s. map_option sint (parse_i64 s)), parse_datetime = (\<lambda>s f. None),
      parse_naive_datetime = (\<lambda>s f. None), uuid_parse = (\<lambda>s. if length s = 16 then Some s else None),
      json_eq = (=), json_parse = Some, parse_f64 = (\<lambda>s. map_option (int_as_f64 \<circ> sint) (parse_i64 s)),
      to_uppercase = map (\<lambda>b. if 97 \<le> b \<and> b \<le> 122 then b - 32 else b),
      to_lowercase = map (\<lambda>b. if 65 \<le> b \<and> b \<le> 90 then b + 32 else b),
      f32_to_string = (\<lambda>f. int_to_dec (f32_as_i64 f)), f64_to_string = (\<lambda>f. int_to_dec (f64_as_i64 f)),
      dec_to_string = int_to_dec, date_to_string = (\<lambda>d. nat_to_dec (unat d)),
      time_to_string = nat_to_dec, ts_to_string = int_to_dec, date_format = (\<lambda>d f. nat_to_dec (unat d)),
      time_format = (\<lambda>t f. nat_to_dec t), ts_format = (\<lambda>t f. int_to_dec t), uuid_to_string = id,
      json_to_string = id, from_utf8_lossy = id\<rparr>"

section \<open>Numbers\<close>

text \<open>The integer a value of one of the four integer types stands for.\<close>

fun int_of :: "('dec, 'date, 'time, 'ts, 'json) val \<Rightarrow> int option" where
  "int_of (VTinyInt n) = Some (sint n)"
| "int_of (VSmallInt n) = Some (sint n)"
| "int_of (VInteger n) = Some (sint n)"
| "int_of (VBigInt n) = Some (sint n)"
| "int_of _ = None"

lemma sint_eq_iff: "sint a = sint b \<longleftrightarrow> a = b" for a b :: "'a::len word"
  by (auto intro: signed_word_eqI)

lemma sint_signed:
  "LENGTH('a) \<le> LENGTH('b) \<Longrightarrow> sint (signed w :: 'b::len word) = sint w" for w :: "'a::len word"
  by (simp add: signed_scast_eq min_def) (metis One_nat_def diff_le_mono signed_take_bit_signed_take_bit min.absorb2 sint_uint)

lemma to_i64_int_of: "int_of v = Some i \<Longrightarrow> \<exists>w. to_i64 L v = Some w \<and> sint w = i"
  by (cases v) (auto simp: sint_signed)

lemma int_of_kinds: "int_of v = Some i \<Longrightarrow> \<not> is_decimal v \<and> \<not> is_float v \<and> is_numeric v"
  by (cases v) (auto simp: is_decimal_def is_float_def)

lemma compare_ints:
  assumes "int_of v = Some i" "int_of w = Some j"
  shows "compare_numeric L v w = Some (cmp_key i j)"
proof -
  from to_i64_int_of [OF assms(1)] to_i64_int_of [OF assms(2)] obtain a b where
    "to_i64 L v = Some a" "sint a = i" "to_i64 L w = Some b" "sint b = j" by metis
  with int_of_kinds [OF assms(1)] int_of_kinds [OF assms(2)] show ?thesis
    by (simp add: compare_numeric_def)
qed

lemma cmp_key_Equal [simp]: "cmp_key a b = Equal \<longleftrightarrow> a = b"
  by (auto simp: cmp_key_def)

text \<open>Integers of any widths compare by value: equality and order between \<^verbatim>\<open>TINYINT\<close>, \<^verbatim>\<open>SMALLINT\<close>,
  \<^verbatim>\<open>INTEGER\<close> and \<^verbatim>\<open>BIGINT\<close> values are those of the integers they stand for.\<close>

theorem integers_compare_by_value:
  assumes "int_of v = Some i" "int_of w = Some j"
  shows "partial_cmp L v w = Some (cmp_key i j) \<and> (value_eq L v w \<longleftrightarrow> i = j)"
  using assms compare_ints [OF assms, of L]
  by (cases v; cases w) (auto simp: partial_cmp.simps value_eq.simps sint_eq_iff)

theorem integers_compare_by_value_witness:
  "partial_cmp toy_lib (VTinyInt (- 1)) (VBigInt 7) = Some Less \<and> \<not> value_eq toy_lib (VTinyInt (- 1)) (VBigInt 7)"
  using integers_compare_by_value [of "VTinyInt (- 1)" "- 1" "VBigInt 7" 7 toy_lib] by simp

section \<open>Equality and order\<close>

fun plain :: "('dec, 'date, 'time, 'ts, 'json) val \<Rightarrow> bool" where
  "plain (VJson j) = False"
| "plain (VArray vs) = False"
| "plain (VInterval i) = False"
| "plain v = True"

text \<open>On two values of the same type, or two numbers of any types, \<^verbatim>\<open>=\<close> holds exactly when \<^verbatim>\<open>partial_cmp\<close> answers
  \<^verbatim>\<open>Equal\<close> (JSON values, arrays and intervals apart).\<close>

theorem equality_agrees_with_order:
  assumes "plain v" "plain w"
    and "value_data_type L v = value_data_type L w \<or> is_numeric v \<and> is_numeric w"
  shows "value_eq L v w \<longleftrightarrow> partial_cmp L v w = Some Equal"
  using assms
  by (cases v; cases w) (auto simp: partial_cmp.simps value_eq.simps sint_eq_iff)

theorem equality_agrees_with_order_witness:
  "value_eq toy_lib (VInteger 3) (VDouble (int_as_f64 3)) \<longleftrightarrow>
     partial_cmp toy_lib (VInteger 3) (VDouble (int_as_f64 3)) = Some Equal"
  by (rule equality_agrees_with_order) simp_all

text \<open>Outside those cases the two disagree: \<^verbatim>\<open>'5' = 5\<close> is false although neither \<^verbatim>\<open>'5' < 5\<close> nor
  \<^verbatim>\<open>'5' > 5\<close> and \<^verbatim>\<open>'5' <= 5\<close> holds, and an interval is not equal to itself although it compares as equal.\<close>

theorem equality_disagrees_with_order:
  fixes L :: "('dec, 'date::linorder, 'time::linorder, 'ts::linorder, 'json) lib"
  shows "\<not> value_eq L (VString (ascii ''5'')) (VInteger 5) \<and>
    cmp_le L (VString (ascii ''5'')) (VInteger 5) \<and> cmp_ge L (VString (ascii ''5'')) (VInteger 5) \<and>
    \<not> value_eq L (VInterval i) (VInterval i) \<and> partial_cmp L (VInterval i) (VInterval i) = Some Equal"
proof -
  have five: "parse_i64 (str_trim (ascii ''5'')) = Some 5"
    by (simp add: ascii_def str_trim_def white_space_def parse_i64_def parse_unsigned_def in_i64_def)
  then have "compare_numeric L (VString (ascii ''5'')) (VInteger 5) = Some Equal"
    by (simp add: compare_numeric_def is_decimal_def is_float_def)
  then show ?thesis
    by (simp add: value_eq.simps partial_cmp.simps cmp_le_def cmp_ge_def interval_cmp_def)
qed

section \<open>Casts\<close>

text \<open>
  \<open>has_type\<close>: the kind of values a type names, with NULL.  The length of a \<^verbatim>\<open>VARCHAR(n)\<close> or \<^verbatim>\<open>CHAR(n)\<close> and the
  precision of a \<^verbatim>\<open>DECIMAL(p, s)\<close> are not part of it: \<^verbatim>\<open>cast_to\<close> does not look at them.
\<close>

fun has_type :: "('dec, 'date, 'time, 'ts, 'json) val \<Rightarrow> data_type \<Rightarrow> bool" where
  "has_type VNull ty = True"
| "has_type (VBoolean b) ty = (ty = TBoolean)"
| "has_type (VTinyInt n) ty = (ty = TTinyInt)"
| "has_type (VSmallInt n) ty = (ty = TSmallInt)"
| "has_type (VInteger n) ty = (ty = TInteger)"
| "has_type (VBigInt n) ty = (ty = TBigInt)"
| "has_type (VFloat f) ty = (ty = TFloat)"
| "has_type (VDouble f) ty = (ty = TDouble)"
| "has_type (VDecimal d) ty = (\<exists>p q. ty = TDecimal p q)"
| "has_type (VString s) ty = (\<exists>n k. ty = TVarChar n \<or> ty = TChar k)"
| "has_type (VBytes b) ty = (\<exists>n. ty = TBlob \<or> ty = TBinary n)"
| "has_type (VDate d) ty = (ty = TDate)"
| "has_type (VTime t) ty = (ty = TTime)"
| "has_type (VTimestamp t) ty = (ty = TTimestamp \<or> ty = TTimestampTz)"
| "has_type (VUuid u) ty = (ty = TUuid)"
| "has_type (VJson j) ty = (ty = TJson)"
| "has_type (VArray vs) ty = (\<exists>e. ty = TArray e)"
| "has_type (VInterval i) ty = (ty = TInterval)"

fun checked_type :: "data_type \<Rightarrow> bool" where
  "checked_type (TBinary n) = False"
| "checked_type TBlob = False"
| "checked_type (TArray e) = False"
| "checked_type _ = True"

lemma opt_cast_Inr: "opt_cast msg f r = Inr w \<longleftrightarrow> (\<exists>x. r = Some x \<and> w = f x)"
  by (auto simp: opt_cast_def split: option.splits)

lemma cast_timestamp_Inr: "cast_timestamp L v = Inr w \<Longrightarrow> \<exists>t. w = VTimestamp t"
  by (auto simp: cast_timestamp_def opt_cast_Inr split: val.splits)



text \<open>Casting an integer to \<^verbatim>\<open>INTEGER\<close> always succeeds and keeps its value exactly when it lies in the
  32-bit range; outside the range the value wraps around silently.\<close>

theorem integer_cast_wraps:
  assumes "int_of v = Some i"
  shows "\<exists>w. cast_to L v TInteger = Inr (VInteger w) \<and> sint w = (i + 2 ^ 31) mod 2 ^ 32 - 2 ^ 31 \<and>
    (sint w = i \<longleftrightarrow> - (2 ^ 31) \<le> i \<and> i < 2 ^ 31)"
proof -
  from to_i64_int_of [OF assms] obtain x where x: "to_i64 L v = Some x" "sint x = i" by blast
  have "\<not> is_null v" using assms by (cases v) (auto simp: is_null_def)
  with x have c: "cast_to L v TInteger = Inr (VInteger (ucast x))"
    by (simp add: cast_to_def opt_cast_def)
  have u: "uint x = i mod 2 ^ 64"
    using x(2) by (auto simp: uint_sint take_bit_eq_mod)
  have "sint (ucast x :: 32 word) = (uint x + 2 ^ 31) mod 2 ^ 32 - 2 ^ 31"
    by (simp add: sint_uint unsigned_ucast_eq signed_take_bit_eq_take_bit_shift take_bit_eq_mod mod_simps)
  also have "(uint x + 2 ^ 31) mod 2 ^ 32 = (i + 2 ^ 31) mod 2 ^ 32"
  proof -
    have "i mod 2 ^ 64 mod 2 ^ 32 = i mod 2 ^ 32"
      by (rule mod_mod_cancel) (rule le_imp_power_dvd, simp)
    then show ?thesis unfolding u by (metis mod_add_left_eq)
  qed
  finally have w: "sint (ucast x :: 32 word) = (i + 2 ^ 31) mod 2 ^ 32 - 2 ^ 31" .
  moreover have "(i + 2 ^ 31) mod 2 ^ 32 - 2 ^ 31 = i \<longleftrightarrow> - (2 ^ 31) \<le> i \<and> i < 2 ^ 31"
    using mod_pos_pos_trivial [of "i + 2 ^ 31" "2 ^ 32"] pos_mod_bound [of "2 ^ 32" "i + 2 ^ 31"]
      pos_mod_sign [of "2 ^ 32" "i + 2 ^ 31"] by auto
  ultimately show ?thesis using c by auto
qed

theorem integer_cast_wraps_witness:
  "\<exists>w. cast_to toy_lib (VBigInt 3000000000) TInteger = Inr (VInteger w) \<and> sint w = - 1294967296"
  using integer_cast_wraps [of "VBigInt 3000000000" 3000000000 toy_lib] by force

text \<open>
  The text form of an interval is not what the parser reads: months are written as \<^verbatim>\<open>mon\<close>, which it does not
  know.
\<close>

lemma interval_text_not_read:
  "interval_to_string \<lparr>iv_months = 1, iv_days = 0, iv_microseconds = 0\<rparr> = ascii ''1 mon''"
  "to_lowercase L (ascii ''mon'') = ascii ''mon'' \<Longrightarrow> interval_parse L (ascii ''1 mon'') = None"
proof -
  show "interval_to_string \<lparr>iv_months = 1, iv_days = 0, iv_microseconds = 0\<rparr> = ascii ''1 mon''"
    by (simp add: interval_to_string_def trunc_div_def plural_def int_to_dec_def nat_to_dec.simps ascii_def)
  have ws: "split_whitespace (str_trim (ascii ''1 mon'')) = [ascii ''1'', ascii ''mon'']"
    by (simp add: split_whitespace_def str_trim_def white_space_def ascii_def)
  show "interval_parse L (ascii ''1 mon'') = None" if "to_lowercase L (ascii ''mon'') = ascii ''mon''"
    unfolding interval_parse_def ws using that
    by (simp add: interval_unit_def trim_end_s_def ascii_def Let_def split: option.split)
qed

end
