(* ===== verification/Index_Encoding.thy ===== *)
theory Index_Encoding
  imports Sql_Value
begin

unbundle bit_operations_syntax

text \<open>
  Index keys (\<^verbatim>\<open>crates/h2-sql/src/executor/encoding.rs\<close>): the memory-comparable encoding of values, its
  decoder, and the composite keys of the index maps, made of the encoded column values, a zero byte
  and the big-endian row id.  The theorems: encoding and decoding are inverse, byte order is value
  order, no encoding is a prefix of another, and hence prefix and range scans of an index find exactly
  the rows they should.
\<close>

section \<open>Encoding\<close>

text \<open>Strings and byte strings: a zero byte is followed by \<^verbatim>\<open>0xFF\<close>, two zero bytes end the value.\<close>

fun escape :: "bytes \<Rightarrow> bytes" where
  "escape [] = [0, 0]"
| "escape (b # bs) = b # (if b = 0 then [0xFF] else []) @ escape bs"

definition flip_f32 :: "f32 \<Rightarrow> 32 word" where
  "flip_f32 u = (if u AND 0x80000000 \<noteq> 0 then NOT u else u XOR 0x80000000)"

definition flip_f64 :: "f64 \<Rightarrow> 64 word" where
  "flip_f64 u = (if u AND 0x8000000000000000 \<noteq> 0 then NOT u else u XOR 0x8000000000000000)"

fun encode_memcomparable_value :: "('dec, 'date, 'time, 'ts, 'json) lib \<Rightarrow>
    ('dec, 'date, 'time, 'ts, 'json) val \<Rightarrow> bytes" where
  "encode_memcomparable_value L VNull = [0x01]"
| "encode_memcomparable_value L (VBoolean b) = [0x02, if b then 1 else 0]"
| "encode_memcomparable_value L (VTinyInt i) = [0x03, i XOR 0x80]"
| "encode_memcomparable_value L (VSmallInt i) = 0x04 # u16_to_be_bytes (i XOR 0x8000)"
| "encode_memcomparable_value L (VInteger i) = 0x05 # u32_to_be_bytes (i XOR 0x80000000)"
| "encode_memcomparable_value L (VBigInt i) = 0x06 # u64_to_be_bytes (i XOR 0x8000000000000000)"
| "encode_memcomparable_value L (VFloat f) = 0x07 # u32_to_be_bytes (flip_f32 f)"
| "encode_memcomparable_value L (VDouble f) = 0x08 # u64_to_be_bytes (flip_f64 f)"
| "encode_memcomparable_value L (VString s) = 0x09 # escape s"
| "encode_memcomparable_value L (VDate d) =
     0x0A # u32_to_be_bytes (num_days_from_ce L d XOR 0x80000000)"
| "encode_memcomparable_value L (VTimestamp ts) =
     0x0B # u64_to_be_bytes
       ((case timestamp_nanos_opt L ts of Some n \<Rightarrow> n | None \<Rightarrow> 0) XOR 0x8000000000000000)"
| "encode_memcomparable_value L (VDecimal d) =
     0x0C # u64_to_be_bytes (flip_f64 (case dec_to_f64 L d of Some f \<Rightarrow> f | None \<Rightarrow> 0))"
| "encode_memcomparable_value L (VBytes b) = 0x0D # escape b"
| "encode_memcomparable_value L (VUuid u) = 0x0E # u"
| "encode_memcomparable_value L _ = [0xFF]"

definition encode_index_prefix :: "('dec, 'date, 'time, 'ts, 'json) lib \<Rightarrow>
    ('dec, 'date, 'time, 'ts, 'json) val list \<Rightarrow> bytes" where
  "encode_index_prefix L vals = concat (map (encode_memcomparable_value L) vals) @ [0x00]"

definition encode_composite_index_key :: "('dec, 'date, 'time, 'ts, 'json) lib \<Rightarrow>
    ('dec, 'date, 'time, 'ts, 'json) val list \<Rightarrow> u64 \<Rightarrow> bytes" where
  "encode_composite_index_key L vals row_id = encode_index_prefix L vals @ u64_to_be_bytes row_id"

definition encode_index_key :: "('dec, 'date, 'time, 'ts, 'json) lib \<Rightarrow>
    ('dec, 'date, 'time, 'ts, 'json) val \<Rightarrow> u64 \<Rightarrow> bytes" where
  "encode_index_key L v row_id = encode_composite_index_key L [v] row_id"

definition encode_index_key_max :: "('dec, 'date, 'time, 'ts, 'json) lib \<Rightarrow>
    ('dec, 'date, 'time, 'ts, 'json) val list \<Rightarrow> bytes" where
  "encode_index_key_max L vals = encode_index_prefix L vals @ replicate 8 0xFF"

section \<open>Decoding\<close>

text \<open>
  The loop over an escaped string from the byte after the tag: the unescaped bytes and the number of
  bytes consumed.  It also stops, without the terminator, at the end of the input.
\<close>

fun unescape :: "bytes \<Rightarrow> bytes \<times> nat" where
  "unescape [] = ([], 0)"
| "unescape (b # bs) =
     (if b = 0 then
        (case bs of
           c # cs \<Rightarrow>
             (if c = 0xFF then (let (s, n) = unescape cs in (0 # s, n + 2))
              else if c = 0 then ([], 2)
              else ([], 1))
         | [] \<Rightarrow> ([], 1))
      else (let (s, n) = unescape bs in (b # s, n + 1)))"

text \<open>
  \<^verbatim>\<open>String::from_utf8\<close>: well-formed UTF-8 (no overlong forms, no surrogates, at most U+10FFFF).
\<close>

definition utf8_tail :: "byte \<Rightarrow> bool" where
  "utf8_tail b \<longleftrightarrow> 0x80 \<le> b \<and> b \<le> 0xBF"

fun utf8_valid :: "bytes \<Rightarrow> bool" where
  "utf8_valid [] = True"
| "utf8_valid (a # bs) =
     (if a \<le> 0x7F then utf8_valid bs
      else if 0xC2 \<le> a \<and> a \<le> 0xDF then
        (case bs of b # r \<Rightarrow> utf8_tail b \<and> utf8_valid r | _ \<Rightarrow> False)
      else if 0xE0 \<le> a \<and> a \<le> 0xEF then
        (case bs of
           b # c # r \<Rightarrow>
             (if a = 0xE0 then 0xA0 \<le> b else True) \<and> (if a = 0xED then b \<le> 0x9F else True) \<and>
             utf8_tail b \<and> utf8_tail c \<and> utf8_valid r
         | _ \<Rightarrow> False)
      else if 0xF0 \<le> a \<and> a \<le> 0xF4 then
        (case bs of
           b # c # d # r \<Rightarrow>
             (if a = 0xF0 then 0x90 \<le> b else True) \<and> (if a = 0xF4 then b \<le> 0x8F else True) \<and>
             utf8_tail b \<and> utf8_tail c \<and> utf8_tail d \<and> utf8_valid r
         | _ \<Rightarrow> False)
      else False)"

definition unflip_f32 :: "32 word \<Rightarrow> f32" where
  "unflip_f32 u = (if u AND 0x80000000 = 0 then NOT u else u XOR 0x80000000)"

definition unflip_f64 :: "64 word \<Rightarrow> f64" where
  "unflip_f64 u = (if u AND 0x8000000000000000 = 0 then NOT u else u XOR 0x8000000000000000)"

text \<open>\<^verbatim>\<open>bytes[1..n]\<close> after the length check of each arm.\<close>

definition field :: "bytes \<Rightarrow> nat \<Rightarrow> (bytes \<Rightarrow> 'v option) \<Rightarrow> ('v \<times> nat) option" where
  "field bytes n f =
     (if length bytes < n then None else map_option (\<lambda>v. (v, n)) (f (take (n - 1) (drop 1 bytes))))"

definition decode_memcomparable_value :: "('dec, 'date, 'time, 'ts, 'json) lib \<Rightarrow> bytes \<Rightarrow>
    (('dec, 'date, 'time, 'ts, 'json) val \<times> nat) option" where
  "decode_memcomparable_value L bytes =
     (case bytes of
        [] \<Rightarrow> None
      | tag # rest \<Rightarrow>
          (if tag = 0x01 then Some (VNull, 1)
           else if tag = 0x02 then field bytes 2 (\<lambda>bs. Some (VBoolean (bs ! 0 \<noteq> 0)))
           else if tag = 0x03 then field bytes 2 (\<lambda>bs. Some (VTinyInt (bs ! 0 XOR 0x80)))
           else if tag = 0x04 then field bytes 3 (\<lambda>bs. Some (VSmallInt (u16_from_be_bytes bs XOR 0x8000)))
           else if tag = 0x05 then
             field bytes 5 (\<lambda>bs. Some (VInteger (u32_from_be_bytes bs XOR 0x80000000)))
           else if tag = 0x06 then
             field bytes 9 (\<lambda>bs. Some (VBigInt (u64_from_be_bytes bs XOR 0x8000000000000000)))
           else if tag = 0x07 then field bytes 5 (\<lambda>bs. Some (VFloat (unflip_f32 (u32_from_be_bytes bs))))
           else if tag = 0x08 then field bytes 9 (\<lambda>bs. Some (VDouble (unflip_f64 (u64_from_be_bytes bs))))
           else if tag = 0x09 then
             (let (s, n) = unescape rest in if utf8_valid s then Some (VString s, n + 1) else None)
           else if tag = 0x0A then
             field bytes 5 (\<lambda>bs. map_option VDate
               (from_num_days_from_ce_opt L (u32_from_be_bytes bs XOR 0x80000000)))
           else if tag = 0x0B then
             field bytes 9 (\<lambda>bs. Some (VTimestamp
               (from_timestamp_nanos L (u64_from_be_bytes bs XOR 0x8000000000000000))))
           else if tag = 0x0C then
             field bytes 9 (\<lambda>bs. Some (VDecimal
               (case dec_from_f64 L (unflip_f64 (u64_from_be_bytes bs)) of
                  Some d \<Rightarrow> d | None \<Rightarrow> dec_default L)))
           else if tag = 0x0D then (let (s, n) = unescape rest in Some (VBytes s, n + 1))
           else if tag = 0x0E then field bytes 17 (\<lambda>bs. Some (VUuid bs))
           else None))"

lemma field_consumed: "field bytes n f = Some (v, m) \<Longrightarrow> m = n \<and> n \<le> length bytes"
  by (auto simp: field_def split: if_splits)

lemma unescape_consumed: "snd (unescape bs) \<le> length bs"
proof (induction bs rule: unescape.induct)
  case (2 b bs)
  then show ?case
    by (cases "b = 0"; cases bs) (auto simp: case_prod_beta)
qed simp

lemma decode_consumes:
  assumes "decode_memcomparable_value L bytes = Some (v, n)"
  shows "0 < n \<and> n \<le> length bytes"
proof (cases bytes)
  case (Cons tag rest)
  with assms unescape_consumed [of rest] show ?thesis
    by (auto simp: decode_memcomparable_value_def Let_def dest: field_consumed
        split: if_splits prod.splits)
qed (use assms in \<open>simp add: decode_memcomparable_value_def\<close>)

text \<open>The loop ends because every value takes at least one byte.\<close>

function decode_memcomparable_values :: "('dec, 'date, 'time, 'ts, 'json) lib \<Rightarrow> bytes \<Rightarrow>
    ('dec, 'date, 'time, 'ts, 'json) val list option" where
  "decode_memcomparable_values L bytes =
     (if bytes = [] then Some []
      else case decode_memcomparable_value L bytes of
        None \<Rightarrow> None
      | Some (v, n) \<Rightarrow> map_option ((#) v) (decode_memcomparable_values L (drop n bytes)))"
  by pat_completeness auto
termination
  by (relation "measure (length \<circ> snd)") (auto dest: decode_consumes)

declare decode_memcomparable_values.simps [simp del]

definition decode_composite_index_key :: "('dec, 'date, 'time, 'ts, 'json) lib \<Rightarrow> bytes \<Rightarrow>
    (('dec, 'date, 'time, 'ts, 'json) val list \<times> u64) option" where
  "decode_composite_index_key L bytes =
     (if length bytes < 9 then None
      else let row_id = u64_from_be_bytes (drop (length bytes - 8) bytes) in
           map_option (\<lambda>vals. (vals, row_id))
             (decode_memcomparable_values L (take (length bytes - 9) bytes)))"

definition decode_index_key :: "('dec, 'date, 'time, 'ts, 'json) lib \<Rightarrow> bytes \<Rightarrow>
    (('dec, 'date, 'time, 'ts, 'json) val \<times> u64) option" where
  "decode_index_key L bytes =
     (if length bytes < 9 then None
      else let row_id = u64_from_be_bytes (drop (length bytes - 8) bytes) in
           Some (case decode_memcomparable_value L (take (length bytes - 9) bytes) of
                   Some (v, _) \<Rightarrow> (v, row_id)
                 | None \<Rightarrow> (VNull, row_id)))"

section \<open>Lexicographic order of byte strings\<close>

lemma list_less_append_same_length:
  "length xs = length ys \<Longrightarrow> (xs @ us < ys @ vs) = (xs < ys \<or> xs = ys \<and> us < vs)"
  for xs :: "'a::linorder list"
  by (induction xs ys rule: list_induct2) auto

lemma parallel_less_append:
  fixes xs :: "'a::linorder list"
  assumes "parallel xs ys"
  shows "(xs @ us < ys @ vs) = (xs < ys)"
proof -
  from parallel_decomp [OF assms] obtain as b bs c cs where
    d: "b \<noteq> c" "xs = as @ b # bs" "ys = as @ c # cs" by blast
  from d(1) have "(as @ b # bs' < as @ c # cs') = (b < c)" for bs' cs'
    by (induction as) auto
  then show ?thesis by (simp add: d)
qed

lemma same_length_parallel: "length xs = length ys \<Longrightarrow> xs \<noteq> ys \<Longrightarrow> parallel xs ys"
  by (auto simp: parallel_def prefix_def)

lemma parallel_Cons: "parallel (x # xs) (y # ys) \<longleftrightarrow> x \<noteq> y \<or> parallel xs ys"
  by (auto simp: parallel_def)

lemma le_enc_snoc: "rev (le_enc (Suc n) x) = rev (le_enc n (x div 256)) @ [word_of_nat (x mod 256)]"
  by simp

lemma div_mod_less:
  "(x < y) = (x div 256 < y div 256 \<or> x div 256 = y div 256 \<and> x mod 256 < y mod 256)" for x y :: nat
proof -
  have "(256 * p + r < 256 * q + s) = (p < q \<or> p = q \<and> r < s)" if "r < 256" "s < 256" for p q r s :: nat
    using that by (cases p q rule: linorder_cases) auto
  from this [of "x mod 256" "y mod 256" "x div 256" "y div 256"] show ?thesis by simp
qed

lemma div_mod_eq: "(x = y) = (x div 256 = y div 256 \<and> x mod 256 = y mod 256)" for x y :: nat
  by (metis div_mult_mod_eq)

lemma be_less:
  "x < 256 ^ n \<Longrightarrow> y < 256 ^ n \<Longrightarrow> (rev (le_enc n x) < rev (le_enc n y)) = (x < y) \<and>
   (rev (le_enc n x) = rev (le_enc n y)) = (x = y)"
proof (induction n arbitrary: x y)
  case (Suc n)
  have bounds: "x div 256 < 256 ^ n" "y div 256 < 256 ^ n"
    using Suc.prems by (simp_all add: less_mult_imp_div_less)
  have byte: "(word_of_nat (x mod 256) < (word_of_nat (y mod 256) :: byte)) = (x mod 256 < y mod 256)"
    "((word_of_nat (x mod 256) :: byte) = word_of_nat (y mod 256)) = (x mod 256 = y mod 256)"
    by (simp_all add: word_less_nat_alt unat_of_nat word_unat_eq_iff)
  with Suc.IH [OF bounds] show ?case
    unfolding le_enc_snoc div_mod_less [of x y] div_mod_eq [of x y]
    by (simp only: append1_eq_conv list_less_append_same_length length_rev length_le_enc)
      (auto simp: byte)
qed simp

lemma unat_bounds: "unat (a :: u16) < 65536" "unat (b :: u32) < 4294967296" "unat (c :: u64) < 18446744073709551616"
  using unsigned_less [of a] unsigned_less [of b] unsigned_less [of c] by simp_all

lemma u16_be_less: "(u16_to_be_bytes a < u16_to_be_bytes b) = (a < b)" "(u16_to_be_bytes a = u16_to_be_bytes b) = (a = b)"
  using be_less [of "unat a" 2 "unat b"] unat_bounds
  by (simp_all add: u16_to_be_bytes_def word_less_nat_alt word_unat_eq_iff)
lemma u32_be_less: "(u32_to_be_bytes a < u32_to_be_bytes b) = (a < b)" "(u32_to_be_bytes a = u32_to_be_bytes b) = (a = b)"
  using be_less [of "unat a" 4 "unat b"] unat_bounds
  by (simp_all add: u32_to_be_bytes_def word_less_nat_alt word_unat_eq_iff)
lemma u64_be_less: "(u64_to_be_bytes a < u64_to_be_bytes b) = (a < b)" "(u64_to_be_bytes a = u64_to_be_bytes b) = (a = b)"
  using be_less [of "unat a" 8 "unat b"] unat_bounds
  by (simp_all add: u64_to_be_bytes_def word_less_nat_alt word_unat_eq_iff)

lemmas be_order = u16_be_less u32_be_less u64_be_less

section \<open>Sign flips\<close>

text \<open>Flipping the sign bit adds half the range, and turns signed order into unsigned order.\<close>

lemma xor_top:
  fixes w t :: "'a::len word"
  assumes t: "t = push_bit (LENGTH('a) - 1) 1"
  shows "w XOR t = w + t"
proof (cases "w AND t = 0")
  case True
  then show ?thesis by (simp add: disjunctive_add_eq_xor)
next
  case False
  have "bit w (LENGTH('a) - 1)"
    using False by (rule contrapos_np) (rule bit_word_eqI, auto simp: t bit_simps)
  then have "(w XOR t) AND t = 0"
    by (intro bit_word_eqI) (auto simp: t bit_simps)
  then have "(w XOR t) + t = w"
    by (simp add: disjunctive_add_eq_xor xor.assoc)
  moreover have "t + t = 0"
    by (simp add: t push_bit_eq_mult flip: mult_2 power_Suc)
  ultimately show ?thesis by (metis add.assoc add.right_neutral)
qed

lemma sint_plus_top:
  fixes w t :: "'a::len word"
  assumes t: "t = push_bit (LENGTH('a) - 1) 1"
  shows "sint w = uint (w + t) - 2 ^ (LENGTH('a) - 1)"
proof -
  have "w + t = word_of_int (uint w + 2 ^ (LENGTH('a) - 1))"
    by (simp add: t push_bit_eq_mult)
  then have "uint (w + t) = (uint w + 2 ^ (LENGTH('a) - 1)) mod 2 ^ LENGTH('a)"
    by (simp only: uint_word_of_int take_bit_eq_mod)
  then show ?thesis
    by (simp add: sint_uint signed_take_bit_eq_take_bit_shift take_bit_eq_mod)
qed

text \<open>The flips of the encoder and the signed order they turn into byte order.\<close>

lemma flip_sint_less:
  fixes v w t :: "'a::len word"
  assumes "t = push_bit (LENGTH('a) - 1) 1"
  shows "(v XOR t < w XOR t) = (sint v < sint w)"
  by (simp add: xor_top [OF assms] sint_plus_top [OF assms] word_less_def)

lemma flip_less:
  "(a XOR 0x80 < b XOR 0x80) = (sint a < sint b)" for a b :: "8 word"
  by (rule flip_sint_less) simp
lemma flip_less16: "(a XOR 0x8000 < b XOR 0x8000) = (sint a < sint b)" for a b :: "16 word"
  by (rule flip_sint_less) simp
lemma flip_less32: "(a XOR 0x80000000 < b XOR 0x80000000) = (sint a < sint b)" for a b :: "32 word"
  by (rule flip_sint_less) simp
lemma flip_less64: "(a XOR 0x8000000000000000 < b XOR 0x8000000000000000) = (sint a < sint b)"
  for a b :: "64 word"
  by (rule flip_sint_less) simp

lemma xor_flip [simp]: "(a XOR t) XOR t = a" "(a XOR t = b XOR t) = (a = b)" for a :: "'a::len word"
  by (simp_all add: xor.assoc) (metis xor.assoc xor.right_neutral xor_self_eq)

lemmas flip_order = flip_less flip_less16 flip_less32 flip_less64

section \<open>Floats\<close>

text \<open>
  Both widths at once: \<open>t\<close> is the sign bit.  The code of a number is its place in the order of sign
  and magnitude, shifted to be non-negative, with minus zero just below zero.
\<close>

definition flip_fl :: "'a::len word \<Rightarrow> 'a word \<Rightarrow> 'a word" where
  "flip_fl t u = (if u AND t \<noteq> 0 then NOT u else u XOR t)"

lemma flip_fl_widths: "flip_f32 = flip_fl 0x80000000" "flip_f64 = flip_fl 0x8000000000000000"
  by (simp_all add: fun_eq_iff flip_f32_def flip_f64_def flip_fl_def)

lemma and_top:
  fixes u t :: "'a::len word"
  assumes "LENGTH('a) = Suc (mb + eb)" "t = push_bit (mb + eb) 1"
  shows "(u AND t \<noteq> 0) = fl_sign mb eb (unat u)"
proof -
  have "(u AND t \<noteq> 0) = bit u (mb + eb)"
    by (simp add: assms(2) bit_iff_and_push_bit_not_eq_0)
  also have "\<dots> = bit (unat u) (mb + eb)"
    using assms(1) by (simp add: bit_unsigned_iff)
  finally show ?thesis by (simp add: fl_sign_def bit_iff_odd)
qed

lemma sign_mag:
  fixes u :: "'a::len word"
  assumes "LENGTH('a) = Suc (mb + eb)"
  shows "unat u = fl_mag mb eb (unat u) + (if fl_sign mb eb (unat u) then 2 ^ (mb + eb) else 0)"
proof -
  have "unat u < 2 * 2 ^ (mb + eb)"
    using unsigned_less [of u] assms by simp
  then have "unat u div 2 ^ (mb + eb) < 2"
    by (simp add: less_mult_imp_div_less)
  then have "unat u div 2 ^ (mb + eb) = (if fl_sign mb eb (unat u) then 1 else 0)"
    by (auto simp: fl_sign_def elim: oddE)
  then show ?thesis
    using mod_mult_div_eq [of "unat u" "2 ^ (mb + eb)"] by (auto simp: fl_mag_def split: if_splits)
qed

lemma unat_top:
  fixes t :: "'a::len word"
  assumes "LENGTH('a) = Suc (mb + eb)" "t = push_bit (mb + eb) 1"
  shows "unat t = 2 ^ (mb + eb)"
proof -
  have "t = word_of_nat (2 ^ (mb + eb))" by (simp add: assms(2) push_bit_eq_mult)
  then have "unat t = 2 ^ (mb + eb) mod 2 ^ LENGTH('a)" by (simp only: unat_of_nat)
  then show ?thesis by (simp add: assms(1))
qed

lemma unat_flip_fl:
  fixes u t :: "'a::len word"
  assumes l: "LENGTH('a) = Suc (mb + eb)" and t: "t = push_bit (mb + eb) 1"
  shows "int (unat (flip_fl t u)) =
    2 ^ (mb + eb) + fl_order mb eb (unat u) - (if fl_sign mb eb (unat u) then 1 else 0)"
proof (cases "fl_sign mb eb (unat u)")
  case True
  have "NOT u = - 1 - u" by (simp add: not_eq_complement)
  then have "unat (NOT u) = unat (- 1 :: 'a word) - unat u"
    by (simp add: unat_sub)
  then have "unat (NOT u) = 2 * 2 ^ (mb + eb) - 1 - unat u"
    by (simp add: unsigned_minus_1_eq_mask mask_eq_exp_minus_1 l)
  moreover have "unat u < 2 * 2 ^ (mb + eb)"
    using unsigned_less [of u] l by simp
  ultimately show ?thesis
    using True arg_cong [OF sign_mag [OF l, of u], of int]
    by (simp add: flip_fl_def and_top [OF l t] fl_order_def)
next
  case False
  have "u XOR t = u + t" by (rule xor_top) (simp add: l t)
  moreover have m: "unat u < 2 ^ (mb + eb)"
    using False sign_mag [OF l, of u] by (simp add: fl_mag_def) (metis mod_less_divisor zero_less_power zero_less_numeral)
  moreover note unat_top [OF l t]
  ultimately have "unat (u XOR t) = unat u + 2 ^ (mb + eb)"
    using unat_plus_simple [of u t] l by (simp add: no_olen_add_nat)
  then show ?thesis
    using False sign_mag [OF l, of u] by (simp add: flip_fl_def and_top [OF l t] fl_order_def)
qed

lemma flip_fl_less:
  fixes u v t :: "'a::len word"
  assumes l: "LENGTH('a) = Suc (mb + eb)" and t: "t = push_bit (mb + eb) 1"
    and "u \<noteq> t" "v \<noteq> t"
  shows "(flip_fl t u < flip_fl t v) = (fl_order mb eb (unat u) < fl_order mb eb (unat v)) \<and>
    (flip_fl t u = flip_fl t v) = (fl_order mb eb (unat u) = fl_order mb eb (unat v))"
proof -
  have neg: "fl_order mb eb (unat w) < 0" if "w \<noteq> t" "fl_sign mb eb (unat w)" for w :: "'a word"
  proof -
    from that(1) have "unat w \<noteq> 2 ^ (mb + eb)"
      unfolding unat_top [OF l t, symmetric] by (simp add: word_unat_eq_iff)
    with that(2) sign_mag [OF l, of w] show ?thesis by (auto simp: fl_order_def intro!: Nat.gr0I)
  qed
  have pos: "0 \<le> fl_order mb eb (unat w)" if "\<not> fl_sign mb eb (unat w)" for w :: "'a word"
    using that by (simp add: fl_order_def)
  have order: "(x < y) = (int (unat x) < int (unat y))" "(x = y) = (int (unat x) = int (unat y))" for x y :: "'a word"
    by (simp_all only: word_less_nat_alt word_unat_eq_iff of_nat_less_iff of_nat_eq_iff)
  show ?thesis
    unfolding order [of "flip_fl t u"] unat_flip_fl [OF l t]
    using neg [OF assms(3)] neg [OF assms(4)] pos [of u] pos [of v] by auto
qed

lemma unflip_fl:
  fixes u t :: "'a::len word"
  assumes "t = push_bit n 1" "n < LENGTH('a)"
  shows "(if flip_fl t u AND t = 0 then NOT (flip_fl t u) else flip_fl t u XOR t) = u"
proof -
  have "x AND t = 0 \<longleftrightarrow> \<not> bit x n" for x :: "'a word"
    by (simp add: assms(1) bit_iff_and_push_bit_not_eq_0)
  then show ?thesis
    using assms(2) by (simp add: flip_fl_def bit_simps) (simp add: assms(1) bit_simps)
qed

lemma unflip_f32 [simp]: "unflip_f32 (flip_f32 u) = u"
  unfolding unflip_f32_def flip_fl_widths by (rule unflip_fl [of _ 31]) simp_all

lemma unflip_f64 [simp]: "unflip_f64 (flip_f64 u) = u"
  unfolding unflip_f64_def flip_fl_widths by (rule unflip_fl [of _ 63]) simp_all

lemma flip_f32_less:
  "u \<noteq> 0x80000000 \<Longrightarrow> v \<noteq> 0x80000000 \<Longrightarrow>
   (flip_f32 u < flip_f32 v) = (fl_order 23 8 (unat u) < fl_order 23 8 (unat v)) \<and>
   (flip_f32 u = flip_f32 v) = (fl_order 23 8 (unat u) = fl_order 23 8 (unat v))"
  unfolding flip_fl_widths by (rule flip_fl_less) simp_all

lemma flip_f64_less:
  "u \<noteq> 0x8000000000000000 \<Longrightarrow> v \<noteq> 0x8000000000000000 \<Longrightarrow>
   (flip_f64 u < flip_f64 v) = (fl_order 52 11 (unat u) < fl_order 52 11 (unat v)) \<and>
   (flip_f64 u = flip_f64 v) = (fl_order 52 11 (unat u) = fl_order 52 11 (unat v))"
  unfolding flip_fl_widths by (rule flip_fl_less) simp_all

section \<open>Escaped strings\<close>

lemma escape_order:
  "(escape s < escape t) = (s < t)"
proof (induction s arbitrary: t)
  case Nil
  then show ?case by (cases t) (auto simp: word_neq_0_conv)
next
  case (Cons a s)
  then show ?case by (cases t) (auto simp: word_neq_0_conv)
qed

lemma escape_parallel: "s \<noteq> t \<Longrightarrow> parallel (escape s) (escape t)"
proof (induction s arbitrary: t)
  case Nil
  then show ?case by (cases t) (auto simp: parallel_Cons)
next
  case (Cons a s)
  then show ?case by (cases t) (auto simp: parallel_Cons)
qed

lemma escape_inj [simp]: "escape s = escape t \<longleftrightarrow> s = t"
  using escape_parallel [of s t] by (cases "s = t") (auto simp: parallel_def)

lemma unescape_escape [simp]: "unescape (escape s @ rest) = (s, length (escape s))"
  by (induction s) auto

section \<open>The code of a value\<close>

text \<open>
  \<open>val_ok\<close>: a UUID has sixteen bytes.  \<open>decodable\<close>: the values whose code determines them; the
  encoder gives every \<^verbatim>\<open>Time\<close>, \<^verbatim>\<open>Json\<close>, \<^verbatim>\<open>Array\<close> and \<^verbatim>\<open>Interval\<close> the same byte, sends a \<^verbatim>\<open>Decimal\<close> through
  \<^verbatim>\<open>f64\<close>, and a timestamp outside the range of 64-bit nanoseconds to the epoch.  \<open>comparable\<close>: in
  addition a float is a number and not minus zero.
\<close>

fun val_ok :: "('dec, 'date, 'time, 'ts, 'json) val \<Rightarrow> bool" where
  "val_ok (VUuid u) = (length u = 16)"
| "val_ok _ = True"

fun decodable :: "('dec, 'date, 'time, 'ts, 'json) lib \<Rightarrow> ('dec, 'date, 'time, 'ts, 'json) val \<Rightarrow> bool" where
  "decodable L (VUuid u) = (length u = 16)"
| "decodable L (VString s) = utf8_valid s"
| "decodable L (VTimestamp t) = (timestamp_nanos_opt L t \<noteq> None)"
| "decodable L (VDecimal d) = False"
| "decodable L (VTime t) = False"
| "decodable L (VJson j) = False"
| "decodable L (VArray vs) = False"
| "decodable L (VInterval i) = False"
| "decodable L _ = True"

fun comparable :: "('dec, 'date, 'time, 'ts, 'json) lib \<Rightarrow> ('dec, 'date, 'time, 'ts, 'json) val \<Rightarrow> bool" where
  "comparable L (VFloat f) = (\<not> fl_is_nan 23 8 (unat f) \<and> f \<noteq> 0x80000000)"
| "comparable L (VDouble f) = (\<not> fl_is_nan 52 11 (unat f) \<and> f \<noteq> 0x8000000000000000)"
| "comparable L v = decodable L v"

text \<open>
  What the code relies on in chrono: day numbers and nanoseconds grow with the date and the instant,
  and the constructors invert them.
\<close>

definition lib_ok :: "('dec, 'date::linorder, 'time, 'ts::linorder, 'json) lib \<Rightarrow> bool" where
  "lib_ok L \<longleftrightarrow>
     (\<forall>d e. (sint (num_days_from_ce L d) < sint (num_days_from_ce L e)) = (d < e)) \<and>
     (\<forall>d. from_num_days_from_ce_opt L (num_days_from_ce L d) = Some d) \<and>
     (\<forall>t u m n. timestamp_nanos_opt L t = Some m \<longrightarrow> timestamp_nanos_opt L u = Some n \<longrightarrow>
        (sint m < sint n) = (t < u)) \<and>
     (\<forall>t m. timestamp_nanos_opt L t = Some m \<longrightarrow> from_timestamp_nanos L m = t)"

lemma comparable_decodable: "comparable L v \<Longrightarrow> decodable L v"
  by (cases v) auto

lemma decodable_val_ok: "decodable L v \<Longrightarrow> val_ok v"
  by (cases v) auto

abbreviation enc where
  "enc \<equiv> encode_memcomparable_value"

lemma enc_nonempty: "\<exists>tag rest. enc L v = tag # rest \<and> 0 < tag"
  by (cases v) auto

text \<open>Prefix freedom: two codes are equal or differ at a position both have.\<close>

lemma enc_prefix_free:
  assumes "val_ok v" "val_ok w" "enc L v \<noteq> enc L w"
  shows "parallel (enc L v) (enc L w)"
  using assms
  by (cases v; cases w) (auto simp: parallel_Cons intro: escape_parallel same_length_parallel)

section \<open>Decoding inverts encoding\<close>

lemma decode_encode:
  assumes "lib_ok L" "decodable L v"
  shows "decode_memcomparable_value L (enc L v @ rest) = Some (v, length (enc L v))"
  using assms
  by (cases v)
     (auto simp: decode_memcomparable_value_def field_def lib_ok_def)

lemma decode_values_encode:
  assumes "lib_ok L" "list_all (decodable L) vs"
  shows "decode_memcomparable_values L (concat (map (enc L) vs)) = Some vs"
  using assms(2)
proof (induction vs)
  case Nil
  show ?case by (simp add: decode_memcomparable_values.simps)
next
  case (Cons v vs)
  have "enc L v \<noteq> []" using enc_nonempty [of L v] by auto
  with Cons decode_encode [OF assms(1), of v "concat (map (enc L) vs)"] show ?case
    by (subst decode_memcomparable_values.simps) simp
qed

lemma enc_inj:
  assumes "lib_ok L" "decodable L v" "decodable L w"
  shows "enc L v = enc L w \<longleftrightarrow> v = w"
proof
  assume "enc L v = enc L w"
  with decode_encode [OF assms(1,2), of "[]"] decode_encode [OF assms(1,3), of "[]"]
  show "v = w" by simp
qed simp

lemma map_enc_inj:
  assumes "lib_ok L" "list_all (decodable L) vs" "list_all (decodable L) ws"
  shows "map (enc L) vs = map (enc L) ws \<longleftrightarrow> vs = ws"
proof
  assume "map (enc L) vs = map (enc L) ws"
  then show "vs = ws"
    using decode_values_encode [OF assms(1,2)] decode_values_encode [OF assms(1,3)]
    by (metis option.inject)
qed simp

section \<open>Byte order is value order\<close>

lemma lib_order:
  assumes "lib_ok L"
  shows "(sint (num_days_from_ce L d) < sint (num_days_from_ce L e)) = (d < e)"
    and "(num_days_from_ce L d = num_days_from_ce L e) = (d = e)"
    and "timestamp_nanos_opt L t = Some m \<Longrightarrow> timestamp_nanos_opt L u = Some n \<Longrightarrow> (sint m < sint n) = (t < u)"
    and "timestamp_nanos_opt L t = Some m \<Longrightarrow> timestamp_nanos_opt L u = Some n \<Longrightarrow> (m = n) = (t = u)"
proof -
  show "(sint (num_days_from_ce L d) < sint (num_days_from_ce L e)) = (d < e)"
    and "timestamp_nanos_opt L t = Some m \<Longrightarrow> timestamp_nanos_opt L u = Some n \<Longrightarrow> (sint m < sint n) = (t < u)"
    using assms unfolding lib_ok_def by blast+
  have "from_num_days_from_ce_opt L (num_days_from_ce L c) = Some c" for c
    using assms unfolding lib_ok_def by blast
  then show "(num_days_from_ce L d = num_days_from_ce L e) = (d = e)"
    by (metis option.inject)
  show "(m = n) = (t = u)" if "timestamp_nanos_opt L t = Some m" "timestamp_nanos_opt L u = Some n"
    using assms that unfolding lib_ok_def by (metis option.inject)
qed

lemma enc_order:
  assumes L: "lib_ok L" and "comparable L v" "comparable L w"
    and "value_data_type L v = value_data_type L w"
  shows "partial_cmp L v w = Some (cmp_key (enc L v) (enc L w))"
  using assms(2-)
  by (cases v; cases w; simp add: partial_cmp.simps)
     (auto simp: cmp_key_def be_order flip_order escape_order lib_order [OF L] sint_eq_iff
      flip_f32_less flip_f64_less f32_partial_cmp_def f64_partial_cmp_def fl_partial_cmp_def)

section \<open>Composite keys\<close>

abbreviation encs where
  "encs L vs \<equiv> map (enc L) vs"

text \<open>
  Keys compare as the lists of the column codes, then by row id: a shorter list of columns that is a
  prefix comes first, because no code starts with the separator.
\<close>

lemma composite_key_less:
  assumes "list_all val_ok vs" "list_all val_ok ws"
  shows "(encode_index_prefix L vs @ r < encode_index_prefix L ws @ q) =
         (encs L vs < encs L ws \<or> encs L vs = encs L ws \<and> r < q)"
  using assms
proof (induction vs arbitrary: ws)
  case Nil
  show ?case
  proof (cases ws)
    case (Cons w ws')
    with enc_nonempty [of L w] show ?thesis by (auto simp: encode_index_prefix_def)
  qed (simp add: encode_index_prefix_def)
next
  case (Cons v vs)
  show ?case
  proof (cases ws)
    case Nil
    with enc_nonempty [of L v] show ?thesis by (auto simp: encode_index_prefix_def)
  next
    case w: (Cons w ws')
    with Cons.prems have ok: "val_ok v" "val_ok w" "list_all val_ok vs" "list_all val_ok ws'" by auto
    have split: "encode_index_prefix L (x # xs) @ z = enc L x @ (encode_index_prefix L xs @ z)" for x xs z
      by (simp add: encode_index_prefix_def)
    show ?thesis
    proof (cases "enc L v = enc L w")
      case True
      then have "(encode_index_prefix L (v # vs) @ r < encode_index_prefix L ws @ q) =
          (encode_index_prefix L vs @ r < encode_index_prefix L ws' @ q)"
        unfolding w split by (subst list_less_append_same_length) simp_all
      with Cons.IH [OF ok(3,4)] True show ?thesis by (simp add: w)
    next
      case False
      have "(encode_index_prefix L (v # vs) @ r < encode_index_prefix L ws @ q) = (enc L v < enc L w)"
        unfolding w split by (rule parallel_less_append [OF enc_prefix_free [OF ok(1,2) False]])
      with False show ?thesis by (simp add: w)
    qed
  qed
qed

lemma prefix_of_key:
  assumes "list_all val_ok vs" "list_all val_ok ws"
  shows "prefix (encode_index_prefix L vs) (encode_index_prefix L ws @ r) = (encs L vs = encs L ws)"
  using assms
proof (induction vs arbitrary: ws)
  case Nil
  show ?case
  proof (cases ws)
    case (Cons w ws')
    with enc_nonempty [of L w] show ?thesis by (auto simp: encode_index_prefix_def)
  qed (simp add: encode_index_prefix_def)
next
  case (Cons v vs)
  show ?case
  proof (cases ws)
    case Nil
    with enc_nonempty [of L v] show ?thesis by (auto simp: encode_index_prefix_def)
  next
    case w: (Cons w ws')
    with Cons.prems have ok: "val_ok v" "val_ok w" "list_all val_ok vs" "list_all val_ok ws'" by auto
    have split: "encode_index_prefix L (x # xs) = enc L x @ encode_index_prefix L xs" for x xs
      by (simp add: encode_index_prefix_def)
    show ?thesis
    proof (cases "enc L v = enc L w")
      case True
      with Cons.IH [OF ok(3,4)] show ?thesis by (simp add: w split)
    next
      case False
      from enc_prefix_free [OF ok(1,2) False] have "\<not> prefix (enc L v @ x) (enc L w @ y)" for x y
        by (metis append_prefixD parallel_def prefixI prefix_same_cases)
      with False show ?thesis by (simp add: w split)
    qed
  qed
qed

lemma index_key_decodes:
  assumes "lib_ok L" "list_all (decodable L) vals"
  shows "decode_composite_index_key L (encode_composite_index_key L vals row_id) = Some (vals, row_id) \<and>
    (\<forall>v vs. vals = v # vs \<longrightarrow> decode_index_key L (encode_composite_index_key L vals row_id) = Some (v, row_id))"
proof -
  have cut: "take (length (encode_composite_index_key L vals row_id) - 9) (encode_composite_index_key L vals row_id) =
      concat (encs L vals)"
    "drop (length (encode_composite_index_key L vals row_id) - 8) (encode_composite_index_key L vals row_id) =
      u64_to_be_bytes row_id"
    by (simp_all add: encode_composite_index_key_def encode_index_prefix_def)
  have len: "\<not> length (encode_composite_index_key L vals row_id) < 9"
    by (simp add: encode_composite_index_key_def encode_index_prefix_def)
  have dv: "decode_memcomparable_value L (concat (encs L vals)) = Some (v, length (enc L v))"
    if "vals = v # vs" for v vs
    using decode_encode [OF assms(1), of v "concat (encs L vs)"] assms(2) that by simp
  have "decode_index_key L (encode_composite_index_key L vals row_id) = Some (v, row_id)"
    if "vals = v # vs" for v vs
    unfolding decode_index_key_def Let_def cut if_not_P [OF len] dv [OF that] by simp
  moreover have "decode_composite_index_key L (encode_composite_index_key L vals row_id) = Some (vals, row_id)"
    by (simp add: decode_composite_index_key_def cut len Let_def decode_values_encode [OF assms])
  ultimately show ?thesis by blast
qed

text \<open>The bounds of a range scan on one column.\<close>

lemma le_enc_numeral:
  "le_enc (numeral k) x = word_of_nat (x mod 256) # le_enc (pred_numeral k) (x div 256)"
  by (simp only: numeral_eq_Suc [of k] le_enc.simps)

lemma max_row_id: "u64_to_be_bytes (- 1) = replicate 8 0xFF"
  by (simp add: u64_to_be_bytes_def unsigned_minus_1_eq_mask mask_eq_exp_minus_1 le_enc_numeral)
    (simp add: numeral_eq_Suc)

lemma key_bounds:
  assumes "val_ok v" "val_ok w"
  shows "(encode_index_prefix L [v] \<le> encode_index_key L w r) = (enc L v \<le> enc L w)"
    and "(encode_index_key L w r < encode_index_prefix L [v]) = (enc L w < enc L v)"
    and "(encode_index_key L w r \<le> encode_index_key_max L [v]) = (enc L w \<le> enc L v)"
    and "(encode_index_key_max L [v] < encode_index_key L w r) = (enc L v < enc L w)"
proof -
  have ok: "list_all val_ok [v]" "list_all val_ok [w]" using assms by auto
  show lo: "(encode_index_key L w r < encode_index_prefix L [v]) = (enc L w < enc L v)"
    using composite_key_less [OF ok(2,1), of L "u64_to_be_bytes r" "[]"]
    by (simp add: encode_index_key_def encode_composite_index_key_def)
  then show "(encode_index_prefix L [v] \<le> encode_index_key L w r) = (enc L v \<le> enc L w)"
    by (simp add: not_less [symmetric])
  have "\<not> replicate 8 0xFF < u64_to_be_bytes r"
    using u64_be_less(1) [of "- 1" r] by (simp add: max_row_id)
  then show hi: "(encode_index_key_max L [v] < encode_index_key L w r) = (enc L v < enc L w)"
    using composite_key_less [OF ok, of L "replicate 8 0xFF" "u64_to_be_bytes r"]
    by (simp add: encode_index_key_def encode_composite_index_key_def encode_index_key_max_def)
  then show "(encode_index_key L w r \<le> encode_index_key_max L [v]) = (enc L w \<le> enc L v)"
    by (simp add: not_less [symmetric])
qed

lemma list_all_val_ok: "list_all (decodable L) vs \<Longrightarrow> list_all val_ok vs"
  by (auto simp: list_all_iff decodable_val_ok)

section \<open>The small library instance meets the assumptions\<close>

lemma toy_lib_ok: "lib_ok toy_lib"
proof -
  have days: "sint (ucast d :: 32 word) = uint d" for d :: "8 word"
  proof -
    have "uint d < 256" using unsigned_less [of d] by simp
    moreover have "- 2147483648 \<le> uint d" using uint_ge_0 [of d] by linarith
    ultimately show ?thesis
      by (simp add: sint_uint unsigned_ucast_eq take_bit_int_eq_self signed_take_bit_int_eq_self)
  qed
  have nanos: "sint (word_of_int i :: 64 word) = t" if "in_i64 t = Some i" for t i
    using that by (auto simp: in_i64_def signed_of_int signed_take_bit_int_eq_self split: if_splits)
  have b: "uint d < 256" for d :: "8 word"
    using unsigned_less [of d] by simp
  have b32: "uint d < 4294967296" for d :: "8 word"
    using b [of d] by linarith
  have u: "uint (ucast d :: 32 word) = uint d" for d :: "8 word"
    by (simp add: unsigned_ucast_eq take_bit_int_eq_self_iff b32)
  have b255: "uint d \<le> 255" for d :: "8 word"
    using b [of d] by linarith
  have "ucast d \<le> (255 :: 32 word)" "(ucast (ucast d :: 32 word) :: 8 word) = d" for d :: "8 word"
    by (simp_all add: word_le_def u b255 word_uint_eq_iff)
      (simp add: unsigned_ucast_eq take_bit_word_eq_self)
  then show ?thesis
    unfolding lib_ok_def toy_lib_def
    by (auto simp: days nanos word_less_def)
qed

section \<open>The correctness of index keys\<close>





text \<open>No code is a prefix of another, so a multi-column key compares column by column and then by
  row id, whatever the columns' types and lengths: strings that are prefixes of each other, embedded
  zero bytes and trailing columns never mix.\<close>

theorem composite_keys_lexicographic:
  assumes "list_all val_ok vs" "list_all val_ok ws"
  shows "(encode_composite_index_key L vs r < encode_composite_index_key L ws q) =
    (map (encode_memcomparable_value L) vs < map (encode_memcomparable_value L) ws \<or>
     map (encode_memcomparable_value L) vs = map (encode_memcomparable_value L) ws \<and> r < q)"
  unfolding encode_composite_index_key_def composite_key_less [OF assms] by (simp add: be_order)

theorem composite_keys_lexicographic_witness:
  "encode_composite_index_key toy_lib [VString [0x61], VInteger 9] 5 <
     encode_composite_index_key toy_lib [VString [0x61, 0], VInteger 2] 1"
  using composite_keys_lexicographic [of "[VString [0x61], VInteger 9]" "[VString [0x61, 0], VInteger 2]" toy_lib 5 1]
  by simp

text \<open>Prefix lookup is exact: the scan for the prefix of some column values, as uniqueness checks and
  equality lookups use it, matches the key of a row exactly when that row has these values in the
  indexed columns.\<close>

theorem prefix_lookup_exact:
  assumes "lib_ok L" "list_all (decodable L) vals" "list_all (decodable L) ws"
  shows "prefix (encode_index_prefix L vals) (encode_composite_index_key L ws row_id) \<longleftrightarrow> vals = ws"
  unfolding encode_composite_index_key_def
  using prefix_of_key [of vals ws L] map_enc_inj [OF assms] list_all_val_ok assms(2,3) by blast

theorem prefix_lookup_exact_witness:
  "\<not> prefix (encode_index_prefix toy_lib [VString [0x61]])
       (encode_composite_index_key toy_lib [VString [0x61, 0, 0x62]] 3)"
  using prefix_lookup_exact [OF toy_lib_ok, of "[VString [0x61]]" "[VString [0x61, 0, 0x62]]" 3] by simp

text \<open>Times, JSON values, arrays and intervals all have the one-byte code \<^verbatim>\<open>0xFF\<close>: the prefix of any
  two such values is the same, so an equality lookup on such a column matches every row, and since
  their keys do not decode, the uniqueness check, which compares decoded values, never finds a
  conflict.\<close>

theorem opaque_values_collide:
  fixes t t' :: 'time and i :: interval_value and L :: "('dec, 'date, 'time, 'ts, 'json) lib"
  shows "encode_index_prefix L [VTime t] = encode_index_prefix L [VTime t'] \<and>
    encode_index_prefix L [VTime t] = encode_index_prefix L [VInterval i] \<and>
    decode_composite_index_key L (encode_composite_index_key L [VTime t] r) = None"
  by (simp add: encode_index_prefix_def decode_composite_index_key_def encode_composite_index_key_def
      decode_memcomparable_values.simps decode_memcomparable_value_def Let_def)

end
