(* ===== verification/Sql_Expr.thy ===== *)
theory Sql_Expr
  imports Sql_Value
begin

text \<open>
  Evaluation of SQL expressions on a row (\<^verbatim>\<open>crates/h2-sql/src/expression.rs\<close>): literals, column
  references, comparison, logic, \<^verbatim>\<open>LIKE\<close>, \<^verbatim>\<open>IN\<close>, \<^verbatim>\<open>BETWEEN\<close>, \<^verbatim>\<open>CASE\<close> and tuples.  The syntax tree belongs to the
  \<^verbatim>\<open>sqlparser\<close> crate; its variants and operators that are evaluated elsewhere in the file (functions,
  arithmetic, regular expressions, JSON paths, subqueries) are \<open>EOther\<close> and \<open>OpOther\<close> with the evaluator's
  answer as a parameter.
\<close>

section \<open>Syntax\<close>

datatype sql_value =
    SqlNull
  | SqlBoolean bool
  | SqlNumber bytes
  | SqlSingleQuoted bytes
  | SqlDoubleQuoted bytes
  | SqlOtherValue

datatype binop = OpEq | OpNotEq | OpLt | OpLtEq | OpGt | OpGtEq | OpAnd | OpOr | OpStringConcat | OpOther nat

datatype unop = OpMinus | OpPlus | OpNot | OpUnaryOther

datatype expr =
    EValue sql_value
  | ENested expr
  | EIsNull expr
  | EIsNotNull expr
  | EUnary unop expr
  | EIdent bytes
  | ECompound "bytes list"
  | EBinary expr binop expr
  | ELike bool expr expr
  | EILike bool expr expr
  | EInList expr "expr list" bool
  | EBetween expr bool expr expr
  | ECase "expr option" "expr list" "expr list" "expr option"
  | ETuple "expr list"
  | EInterval expr "bytes option"
  | ETypedString "data_type h2_result" bytes
  | ECast expr "data_type h2_result"
  | EOther nat

section \<open>Rows and their context\<close>

record column_binding =
  cb_table_name :: "bytes option"
  cb_table_alias :: "bytes option"
  cb_column_name :: bytes
  cb_index :: nat

text \<open>
  \<^verbatim>\<open>RowContext\<close>, with what evaluation reads from outside: the sequences of the catalog (\<open>True\<close> for
  \<^verbatim>\<open>NEXTVAL\<close>), the clock, the dialect, lower-casing, and the answers for the other variants.
\<close>

record ('dec, 'date, 'time, 'ts, 'json) row_context =
  ctx_columns :: "column_binding list"
  ctx_catalog :: "(bytes \<Rightarrow> bool \<Rightarrow> 64 word h2_result) option"
  ctx_empty_strings_are_null :: bool
  ctx_mode :: bytes
  ctx_now :: 'ts
  ctx_today :: 'date
  ctx_time :: 'time
  ctx_to_lowercase :: "bytes \<Rightarrow> bytes"
  ctx_other_expr :: "nat \<Rightarrow> ('dec, 'date, 'time, 'ts, 'json) val list \<Rightarrow> ('dec, 'date, 'time, 'ts, 'json) val h2_result"
  ctx_other_op :: "nat \<Rightarrow> ('dec, 'date, 'time, 'ts, 'json) val \<Rightarrow> ('dec, 'date, 'time, 'ts, 'json) val \<Rightarrow>
                   ('dec, 'date, 'time, 'ts, 'json) val h2_result"

definition ascii_lower :: "byte \<Rightarrow> byte" where
  "ascii_lower b = (if 65 \<le> b \<and> b \<le> 90 then b + 32 else b)"

definition eq_ignore_ascii_case :: "bytes \<Rightarrow> bytes \<Rightarrow> bool" where
  "eq_ignore_ascii_case a b \<longleftrightarrow> map ascii_lower a = map ascii_lower b"

fun resolve_column :: "column_binding list \<Rightarrow> bytes option \<Rightarrow> bytes \<Rightarrow> nat option" where
  "resolve_column [] t col_name = None"
| "resolve_column (b # bs) t col_name =
     (if eq_ignore_ascii_case (cb_column_name b) col_name \<and>
         (case t of
            None \<Rightarrow> True
          | Some x \<Rightarrow>
              (case cb_table_alias b of Some a \<Rightarrow> eq_ignore_ascii_case a x | None \<Rightarrow> False) \<or>
              (case cb_table_name b of Some n \<Rightarrow> eq_ignore_ascii_case n x | None \<Rightarrow> False))
      then Some (cb_index b)
      else resolve_column bs t col_name)"

definition from_table_def :: "bytes \<Rightarrow> bytes list \<Rightarrow> bytes option \<Rightarrow> column_binding list" where
  "from_table_def tname cols alias =
     map (\<lambda>(i, c). \<lparr>cb_table_name = Some tname, cb_table_alias = alias, cb_column_name = c, cb_index = i\<rparr>)
       (enumerate 0 cols)"

definition append_table :: "column_binding list \<Rightarrow> bytes \<Rightarrow> bytes list \<Rightarrow> bytes option \<Rightarrow> nat \<Rightarrow> column_binding list" where
  "append_table bs tname cols alias base_idx =
     bs @ map (\<lambda>(i, c). \<lparr>cb_table_name = Some tname, cb_table_alias = alias, cb_column_name = c,
                          cb_index = base_idx + i\<rparr>) (enumerate 0 cols)"

definition row_get :: "('dec, 'date, 'time, 'ts, 'json) val list \<Rightarrow> nat \<Rightarrow> ('dec, 'date, 'time, 'ts, 'json) val" where
  "row_get row i = (if i < length row then row ! i else VNull)"

section \<open>Literals\<close>

definition evaluate_sql_value :: "('dec, 'date, 'time, 'ts, 'json) lib \<Rightarrow> sql_value \<Rightarrow>
    ('dec, 'date, 'time, 'ts, 'json) val h2_result" where
  "evaluate_sql_value L v =
     (case v of
        SqlNull \<Rightarrow> Inr VNull
      | SqlBoolean b \<Rightarrow> Inr (VBoolean b)
      | SqlNumber s \<Rightarrow>
          (case parse_i64 s of
             Some i \<Rightarrow> Inr (if - (2 ^ 31) \<le> sint i \<and> sint i \<le> 2 ^ 31 - 1 then VInteger (ucast i) else VBigInt i)
           | None \<Rightarrow>
          (case dec_from_str L s of
             Some d \<Rightarrow> Inr (VDecimal d)
           | None \<Rightarrow>
          (case parse_f64 L s of
             Some f \<Rightarrow> Inr (VDouble f)
           | None \<Rightarrow> Inl (TypeError ''Invalid number literal''))))
      | SqlSingleQuoted s \<Rightarrow> Inr (VString s)
      | SqlDoubleQuoted s \<Rightarrow> Inr (VString s)
      | SqlOtherValue \<Rightarrow> Inl (TypeError ''Unsupported literal value''))"

text \<open>Unary operators on values; the negation of the smallest integer wraps, as in a release build.\<close>

definition evaluate_unary_op :: "('dec, 'date, 'time, 'ts, 'json) lib \<Rightarrow> unop \<Rightarrow>
    ('dec, 'date, 'time, 'ts, 'json) val \<Rightarrow> ('dec, 'date, 'time, 'ts, 'json) val h2_result" where
  "evaluate_unary_op L op v =
     (case op of
        OpMinus \<Rightarrow>
          (case v of
             VTinyInt n \<Rightarrow> Inr (VTinyInt (- n))
           | VSmallInt n \<Rightarrow> Inr (VSmallInt (- n))
           | VInteger n \<Rightarrow> Inr (VInteger (- n))
           | VBigInt n \<Rightarrow> Inr (VBigInt (- n))
           | VFloat f \<Rightarrow> Inr (VFloat (f32_neg f))
           | VDouble d \<Rightarrow> Inr (VDouble (f64_neg d))
           | VDecimal d \<Rightarrow> Inr (VDecimal (dec_neg L d))
           | _ \<Rightarrow> Inl (TypeError ''Cannot negate non-numeric value''))
      | OpPlus \<Rightarrow> Inr v
      | OpNot \<Rightarrow>
          (case v of
             VBoolean b \<Rightarrow> Inr (VBoolean (\<not> b))
           | _ \<Rightarrow> Inl (TypeError ''NOT requires boolean operand''))
      | OpUnaryOther \<Rightarrow> Inl (Execution ''Unsupported unary operator''))"

text \<open>
  \<^verbatim>\<open>split_whitespace().count()\<close>: the number of maximal runs of characters that are not white space.
\<close>

fun word_count :: "nat \<Rightarrow> bool \<Rightarrow> bytes \<Rightarrow> nat" where
  "word_count 0 in_word s = 0"
| "word_count (Suc n) in_word s =
     (case find (\<lambda>w. take (length w) s = w) white_space of
        Some w \<Rightarrow> word_count n False (drop (length w) s)
      | None \<Rightarrow>
          (case s of
             [] \<Rightarrow> 0
           | _ # r \<Rightarrow> (if in_word then 0 else 1) + word_count n True r))"

definition interval_text :: "('dec, 'date, 'time, 'ts, 'json) lib \<Rightarrow> ('dec, 'date, 'time, 'ts, 'json) val \<Rightarrow>
    bytes option \<Rightarrow> bytes" where
  "interval_text L base leading_field =
     (let s = (case base of
                 VString s \<Rightarrow> s
               | VInteger i \<Rightarrow>
                   (case leading_field of
                      Some f \<Rightarrow> int_to_dec (sint i) @ [32] @ f
                    | None \<Rightarrow> int_to_dec (sint i) @ ascii '' second'')
               | _ \<Rightarrow> value_to_string L base) in
      case leading_field of
        Some f \<Rightarrow> if word_count (Suc (length s)) False s = 1 then s @ [32] @ f else s
      | None \<Rightarrow> s)"

definition interval_literal :: "('dec, 'date, 'time, 'ts, 'json) lib \<Rightarrow> ('dec, 'date, 'time, 'ts, 'json) val \<Rightarrow>
    bytes option \<Rightarrow> ('dec, 'date, 'time, 'ts, 'json) val h2_result" where
  "interval_literal L base leading_field =
     (case interval_parse L (interval_text L base leading_field) of
        Some iv \<Rightarrow> Inr (VInterval iv)
      | None \<Rightarrow> Inl (Execution ''Invalid INTERVAL literal''))"

fun evaluate_literal_or_unary :: "('dec, 'date, 'time, 'ts, 'json) lib \<Rightarrow> expr \<Rightarrow>
    ('dec, 'date, 'time, 'ts, 'json) val h2_result"
and evaluate_literals :: "('dec, 'date, 'time, 'ts, 'json) lib \<Rightarrow> expr list \<Rightarrow>
    ('dec, 'date, 'time, 'ts, 'json) val list h2_result" where
  "evaluate_literal_or_unary L (EValue v) = evaluate_sql_value L v"
| "evaluate_literal_or_unary L (EUnary op e) =
     res_bind (evaluate_literal_or_unary L e) (evaluate_unary_op L op)"
| "evaluate_literal_or_unary L (ETuple es) = res_bind (evaluate_literals L es) (\<lambda>vs. Inr (VArray vs))"
| "evaluate_literal_or_unary L (EInterval e f) =
     res_bind (evaluate_literal_or_unary L e) (\<lambda>base. interval_literal L base f)"
| "evaluate_literal_or_unary L (ETypedString ty s) = res_bind ty (cast_to L (VString s))"
| "evaluate_literal_or_unary L _ = Inl (Execution ''Unsupported literal or unary expression'')"
| "evaluate_literals L [] = Inr []"
| "evaluate_literals L (e # es) =
     res_bind (evaluate_literal_or_unary L e) (\<lambda>v. res_bind (evaluate_literals L es) (\<lambda>vs. Inr (v # vs)))"

section \<open>Operators\<close>

definition as_bool :: "string \<Rightarrow> ('dec, 'date, 'time, 'ts, 'json) val \<Rightarrow> bool h2_result" where
  "as_bool msg v = (case v of VBoolean b \<Rightarrow> Inr b | _ \<Rightarrow> Inl (TypeError msg))"

definition concat_text :: "('dec, 'date, 'time, 'ts, 'json) lib \<Rightarrow> ('dec, 'date, 'time, 'ts, 'json) val \<Rightarrow>
    bytes" where
  "concat_text L v = (case v of VString s \<Rightarrow> s | _ \<Rightarrow> value_to_string L v)"

fun evaluate_binary_op :: "('dec, 'date::linorder, 'time::linorder, 'ts::linorder, 'json) lib \<Rightarrow>
    ('dec, 'date, 'time, 'ts, 'json) row_context \<Rightarrow>
    ('dec, 'date, 'time, 'ts, 'json) val \<Rightarrow> binop \<Rightarrow> ('dec, 'date, 'time, 'ts, 'json) val \<Rightarrow>
    ('dec, 'date, 'time, 'ts, 'json) val h2_result" where
  "evaluate_binary_op L ctx l OpEq r = Inr (VBoolean (value_eq L l r))"
| "evaluate_binary_op L ctx l OpNotEq r = Inr (VBoolean (\<not> value_eq L l r))"
| "evaluate_binary_op L ctx l OpLt r = Inr (VBoolean (cmp_lt L l r))"
| "evaluate_binary_op L ctx l OpLtEq r = Inr (VBoolean (cmp_le L l r))"
| "evaluate_binary_op L ctx l OpGt r = Inr (VBoolean (cmp_gt L l r))"
| "evaluate_binary_op L ctx l OpGtEq r = Inr (VBoolean (cmp_ge L l r))"
| "evaluate_binary_op L ctx l OpAnd r =
     res_bind (as_bool ''AND requires boolean operands'' l) (\<lambda>a.
     res_bind (as_bool ''AND requires boolean operands'' r) (\<lambda>b. Inr (VBoolean (a \<and> b))))"
| "evaluate_binary_op L ctx l OpOr r =
     res_bind (as_bool ''OR requires boolean operands'' l) (\<lambda>a.
     res_bind (as_bool ''OR requires boolean operands'' r) (\<lambda>b. Inr (VBoolean (a \<or> b))))"
| "evaluate_binary_op L ctx l OpStringConcat r =
     Inr (if is_null l \<or> is_null r then VNull else VString (concat_text L l @ concat_text L r))"
| "evaluate_binary_op L ctx l (OpOther k) r = ctx_other_op ctx k l r"

text \<open>
  The pattern arms of \<^verbatim>\<open>LIKE\<close>; \<open>None\<close> is the panic of the slice \<^verbatim>\<open>&p[1..p.len() - 1]\<close>.
\<close>

definition PERCENT :: byte where "PERCENT = 37"

definition like_match :: "bytes \<Rightarrow> bytes \<Rightarrow> bool option" where
  "like_match s p =
     (if p \<noteq> [] \<and> hd p = PERCENT \<and> last p = PERCENT then
        map_option (\<lambda>sub. sublist sub s) (slice p 1 (length p - 1))
      else if p \<noteq> [] \<and> hd p = PERCENT then Some (suffix (tl p) s)
      else if p \<noteq> [] \<and> last p = PERCENT then Some (prefix (butlast p) s)
      else Some (s = p))"

definition like_op :: "bool \<Rightarrow> (bytes \<Rightarrow> bytes) \<Rightarrow> ('dec, 'date, 'time, 'ts, 'json) val \<Rightarrow>
    ('dec, 'date, 'time, 'ts, 'json) val \<Rightarrow> ('dec, 'date, 'time, 'ts, 'json) val h2_result" where
  "like_op negated fold_case v pat =
     res_bind
       (case (v, pat) of
          (VString s, VString p) \<Rightarrow> or_panic (like_match (fold_case s) (fold_case p))
        | _ \<Rightarrow> Inr False)
       (\<lambda>m. Inr (VBoolean (m \<noteq> negated)))"

section \<open>Evaluation\<close>

definition null_test :: "('dec, 'date, 'time, 'ts, 'json) row_context \<Rightarrow> ('dec, 'date, 'time, 'ts, 'json) val \<Rightarrow>
    bool" where
  "null_test ctx v =
     (case v of VNull \<Rightarrow> True | VString s \<Rightarrow> s = [] \<and> ctx_empty_strings_are_null ctx | _ \<Rightarrow> False)"

definition evaluate_ident :: "('dec, 'date, 'time, 'ts, 'json) lib \<Rightarrow>
    ('dec, 'date, 'time, 'ts, 'json) row_context \<Rightarrow> ('dec, 'date, 'time, 'ts, 'json) val list \<Rightarrow> bytes \<Rightarrow>
    ('dec, 'date, 'time, 'ts, 'json) val h2_result" where
  "evaluate_ident L ctx row name =
     (case resolve_column (ctx_columns ctx) None name of
        Some i \<Rightarrow> Inr (row_get row i)
      | None \<Rightarrow>
          (let u = to_uppercase L name in
           if u \<in> set (map ascii [''SYSDATE'', ''CURRENT_TIMESTAMP'', ''NOW'']) then Inr (VTimestamp (ctx_now ctx))
           else if u \<in> set (map ascii [''CURRENT_DATE'', ''CURDATE'']) then Inr (VDate (ctx_today ctx))
           else if u \<in> set (map ascii [''CURRENT_TIME'', ''CURTIME'']) then Inr (VTime (ctx_time ctx))
           else if u = ascii ''CURRENT_MODE'' then Inr (VString (ctx_mode ctx))
           else if u \<in> set (map ascii [''USER'', ''CURRENT_USER'']) then Inr (VString (ascii ''sa''))
           else Inl (Execution ''Column not found'')))"

definition evaluate_compound :: "('dec, 'date, 'time, 'ts, 'json) row_context \<Rightarrow>
    ('dec, 'date, 'time, 'ts, 'json) val list \<Rightarrow> bytes list \<Rightarrow>
    ('dec, 'date, 'time, 'ts, 'json) val h2_result" where
  "evaluate_compound ctx row idents =
     (case idents of
        [tbl, col] \<Rightarrow>
          (let column = (case resolve_column (ctx_columns ctx) (Some tbl) col of
                           Some i \<Rightarrow> Inr (row_get row i)
                         | None \<Rightarrow> Inl (Execution ''Column not found''));
               sequence = (\<lambda>next. case ctx_catalog ctx of
                             Some cat \<Rightarrow> res_bind (cat tbl next) (\<lambda>n. Inr (VBigInt n))
                           | None \<Rightarrow> column) in
           if eq_ignore_ascii_case col (ascii ''NEXTVAL'') then sequence True
           else if eq_ignore_ascii_case col (ascii ''CURRVAL'') then sequence False
           else column)
      | _ \<Rightarrow> Inl (Execution ''Unsupported compound identifier''))"

function evaluate_expr_context :: "('dec, 'date::linorder, 'time::linorder, 'ts::linorder, 'json) lib \<Rightarrow>
    ('dec, 'date, 'time, 'ts, 'json) row_context \<Rightarrow> ('dec, 'date, 'time, 'ts, 'json) val list \<Rightarrow> expr \<Rightarrow>
    ('dec, 'date, 'time, 'ts, 'json) val h2_result"
and evaluate_in_list :: "('dec, 'date::linorder, 'time::linorder, 'ts::linorder, 'json) lib \<Rightarrow>
    ('dec, 'date, 'time, 'ts, 'json) row_context \<Rightarrow> ('dec, 'date, 'time, 'ts, 'json) val list \<Rightarrow>
    ('dec, 'date, 'time, 'ts, 'json) val \<Rightarrow> expr list \<Rightarrow> bool h2_result"
and evaluate_case :: "('dec, 'date::linorder, 'time::linorder, 'ts::linorder, 'json) lib \<Rightarrow>
    ('dec, 'date, 'time, 'ts, 'json) row_context \<Rightarrow> ('dec, 'date, 'time, 'ts, 'json) val list \<Rightarrow>
    ('dec, 'date, 'time, 'ts, 'json) val option \<Rightarrow> expr list \<Rightarrow> expr list \<Rightarrow> expr option \<Rightarrow>
    ('dec, 'date, 'time, 'ts, 'json) val h2_result"
and evaluate_list :: "('dec, 'date::linorder, 'time::linorder, 'ts::linorder, 'json) lib \<Rightarrow>
    ('dec, 'date, 'time, 'ts, 'json) row_context \<Rightarrow> ('dec, 'date, 'time, 'ts, 'json) val list \<Rightarrow>
    expr list \<Rightarrow> ('dec, 'date, 'time, 'ts, 'json) val list h2_result" where
  "evaluate_expr_context L ctx row x =
     (case x of
        EValue v \<Rightarrow>
          (if v \<in> {SqlSingleQuoted [], SqlDoubleQuoted []} \<and> ctx_empty_strings_are_null ctx then Inr VNull
           else evaluate_sql_value L v)
      | ENested e \<Rightarrow> evaluate_expr_context L ctx row e
      | EIsNull e \<Rightarrow>
          res_bind (evaluate_expr_context L ctx row e) (\<lambda>v. Inr (VBoolean (null_test ctx v)))
      | EIsNotNull e \<Rightarrow>
          res_bind (evaluate_expr_context L ctx row e) (\<lambda>v. Inr (VBoolean (\<not> null_test ctx v)))
      | EUnary op e \<Rightarrow>
          res_bind (evaluate_expr_context L ctx row e) (evaluate_unary_op L op)
      | EIdent name \<Rightarrow> evaluate_ident L ctx row name
      | ECompound idents \<Rightarrow> evaluate_compound ctx row idents
      | EBinary l op r \<Rightarrow>
          res_bind (evaluate_expr_context L ctx row l) (\<lambda>a.
          res_bind (evaluate_expr_context L ctx row r) (\<lambda>b. evaluate_binary_op L ctx a op b))
      | ELike negated e pat \<Rightarrow>
          res_bind (evaluate_expr_context L ctx row e) (\<lambda>v.
          res_bind (evaluate_expr_context L ctx row pat) (\<lambda>p. like_op negated id v p))
      | EILike negated e pat \<Rightarrow>
          res_bind (evaluate_expr_context L ctx row e) (\<lambda>v.
          res_bind (evaluate_expr_context L ctx row pat) (\<lambda>p. like_op negated (ctx_to_lowercase ctx) v p))
      | EInList e items negated \<Rightarrow>
          res_bind (evaluate_expr_context L ctx row e) (\<lambda>v.
          res_bind (evaluate_in_list L ctx row v items) (\<lambda>found. Inr (VBoolean (found \<noteq> negated))))
      | EBetween e negated low high \<Rightarrow>
          res_bind (evaluate_expr_context L ctx row e) (\<lambda>v.
          res_bind (evaluate_expr_context L ctx row low) (\<lambda>lo.
          res_bind (evaluate_expr_context L ctx row high) (\<lambda>hi.
            Inr (VBoolean ((cmp_ge L v lo \<and> cmp_le L v hi) \<noteq> negated)))))
      | ECase operand conditions results els \<Rightarrow>
          (case operand of
             Some e \<Rightarrow> res_bind (evaluate_expr_context L ctx row e) (\<lambda>v. evaluate_case L ctx row (Some v) conditions results els)
           | None \<Rightarrow> evaluate_case L ctx row None conditions results els)
      | ETuple es \<Rightarrow> res_bind (evaluate_list L ctx row es) (\<lambda>vs. Inr (VArray vs))
      | EInterval e f \<Rightarrow>
          res_bind (evaluate_expr_context L ctx row e) (\<lambda>base. interval_literal L base f)
      | ETypedString ty s \<Rightarrow> res_bind ty (cast_to L (VString s))
      | ECast e ty \<Rightarrow> res_bind (evaluate_expr_context L ctx row e) (\<lambda>v. res_bind ty (cast_to L v))
      | EOther k \<Rightarrow> ctx_other_expr ctx k row)"
| "evaluate_in_list L ctx row v [] = Inr False"
| "evaluate_in_list L ctx row v (e # es) =
     res_bind (evaluate_expr_context L ctx row e) (\<lambda>w.
       if value_eq L v w then Inr True else evaluate_in_list L ctx row v es)"
| "evaluate_case L ctx row base conditions results els =
     (case (conditions, results) of
        (c # cs, r # rs) \<Rightarrow>
          res_bind (evaluate_expr_context L ctx row c) (\<lambda>w.
            if (case base of Some v \<Rightarrow> value_eq L v w | None \<Rightarrow> w = VBoolean True)
            then evaluate_expr_context L ctx row r
            else evaluate_case L ctx row base cs rs els)
      | _ \<Rightarrow> (case els of Some e \<Rightarrow> evaluate_expr_context L ctx row e | None \<Rightarrow> Inr VNull))"
| "evaluate_list L ctx row [] = Inr []"
| "evaluate_list L ctx row (e # es) =
     res_bind (evaluate_expr_context L ctx row e) (\<lambda>v.
     res_bind (evaluate_list L ctx row es) (\<lambda>vs. Inr (v # vs)))"
  by pat_completeness auto
termination
  by (relation "measure (\<lambda>x. case x of
        Inl (Inl (L, ctx, row, e)) \<Rightarrow> size e
      | Inl (Inr (L, ctx, row, v, es)) \<Rightarrow> size_list size es
      | Inr (Inl (L, ctx, row, base, cs, rs, els)) \<Rightarrow> size_list size cs + size_list size rs + size_option size els
      | Inr (Inr (L, ctx, row, es)) \<Rightarrow> size_list size es)") auto

declare evaluate_expr_context.simps [simp del] evaluate_case.simps [simp del]

lemmas evaluate_simps [simp] =
  evaluate_expr_context.simps [of _ _ _ "EValue v" for v, simplified]
  evaluate_expr_context.simps [of _ _ _ "EIdent n" for n, simplified]
  evaluate_expr_context.simps [of _ _ _ "ECompound is" for "is", simplified]
  evaluate_expr_context.simps [of _ _ _ "EUnary op e" for op e, simplified]
  evaluate_expr_context.simps [of _ _ _ "EBinary l op r" for l op r, simplified]
  evaluate_expr_context.simps [of _ _ _ "EBetween e n l h" for e n l h, simplified]
  evaluate_expr_context.simps [of _ _ _ "ELike n e q" for n e q, simplified]
  evaluate_expr_context.simps [of _ _ _ "ETuple es" for es, simplified]
  evaluate_expr_context.simps [of _ _ _ "EInterval e f" for e f, simplified]
  evaluate_expr_context.simps [of _ _ _ "ETypedString ty t" for ty t, simplified]

text \<open>Literals mean the same in a predicate and to the extractors, unless empty strings are null.\<close>

lemma evaluate_literal:
  assumes "\<not> ctx_empty_strings_are_null ctx"
  shows "evaluate_literal_or_unary L e = Inr v \<Longrightarrow> evaluate_expr_context L ctx row e = Inr v"
    and "evaluate_literals L es = Inr vs \<Longrightarrow> evaluate_list L ctx row es = Inr vs"
proof (induction L e and L es arbitrary: v and vs rule: evaluate_literal_or_unary_evaluate_literals.induct)
qed (use assms in \<open>auto simp: res_bind_eq_Inr\<close>)

section \<open>Pattern matching\<close>

text \<open>The meaning of \<^verbatim>\<open>LIKE\<close>: \<^verbatim>\<open>%\<close> stands for any sequence and \<^verbatim>\<open>_\<close> for one character.\<close>

fun like_ref :: "bytes \<Rightarrow> bytes \<Rightarrow> bool" where
  "like_ref [] s = (s = [])"
| "like_ref (c # p) s =
     (if c = PERCENT then like_ref p s \<or> (case s of [] \<Rightarrow> False | _ # t \<Rightarrow> like_ref (c # p) t)
      else (case s of [] \<Rightarrow> False | d # t \<Rightarrow> (c = 95 \<or> c = d) \<and> like_ref p t))"

abbreviation literal_text :: "bytes \<Rightarrow> bool" where
  "literal_text p \<equiv> list_all (\<lambda>c. c \<noteq> PERCENT \<and> c \<noteq> 95) p"

lemma like_ref_literal_append:
  "literal_text p \<Longrightarrow> like_ref (p @ q) s \<longleftrightarrow> (\<exists>t. s = p @ t \<and> like_ref q t)"
proof (induction p arbitrary: s)
  case (Cons c p)
  then show ?case by (cases s) auto
qed simp

lemma like_ref_percent: "like_ref (PERCENT # p) s \<longleftrightarrow> (\<exists>a t. s = a @ t \<and> like_ref p t)"
proof (induction s)
  case Nil
  show ?case by simp
next
  case (Cons x s)
  have "(\<exists>a t. x # s = a @ t \<and> like_ref p t) \<longleftrightarrow> like_ref p (x # s) \<or> (\<exists>a t. s = a @ t \<and> like_ref p t)"
    by (metis append_Cons append_Nil list.inject neq_Nil_conv)
  with Cons show ?case by simp
qed

lemma like_ref_literal: "literal_text p \<Longrightarrow> like_ref p s \<longleftrightarrow> s = p"
  using like_ref_literal_append [of p "[]" s] by simp

lemma like_ref_any: "like_ref [PERCENT] s"
  by (subst like_ref_percent) (auto intro: exI [of _ s])

definition simple_pattern :: "bytes \<Rightarrow> bool" where
  "simple_pattern p \<longleftrightarrow> p \<noteq> [PERCENT] \<and>
     (\<exists>b. literal_text b \<and> p \<in> {b, PERCENT # b, b @ [PERCENT], PERCENT # b @ [PERCENT]})"

text \<open>For patterns with literal text and \<^verbatim>\<open>%\<close> at most at the two ends, \<^verbatim>\<open>LIKE\<close> computes the standard
  matching relation (and never panics), the pattern consisting of a single \<^verbatim>\<open>%\<close> excepted.\<close>

theorem like_matches_reference:
  assumes "simple_pattern p"
  shows "like_match s p = Some (like_ref p s)"
proof -
  from assms obtain b where b: "literal_text b" "p \<noteq> [PERCENT]"
    and p: "p \<in> {b, PERCENT # b, b @ [PERCENT], PERCENT # b @ [PERCENT]}"
    by (auto simp: simple_pattern_def)
  have hd: "b \<noteq> [] \<Longrightarrow> hd b \<noteq> PERCENT \<and> last b \<noteq> PERCENT"
    using b(1) by (simp add: list_all_iff)
  from p consider "p = b" | "p = PERCENT # b" "b \<noteq> []" | "p = b @ [PERCENT]" "b \<noteq> []" | "p = PERCENT # b @ [PERCENT]"
    using b(2) by auto
  then show ?thesis
  proof cases
    case 1
    with hd like_ref_literal [OF b(1)] show ?thesis by (auto simp del: like_ref.simps simp: like_match_def)
  next
    case 2
    with hd show ?thesis
      by (auto simp del: like_ref.simps simp: like_match_def like_ref_percent like_ref_literal [OF b(1)] suffix_def)
  next
    case 3
    with hd show ?thesis
      by (auto simp del: like_ref.simps simp: like_match_def like_ref_literal_append [OF b(1)] like_ref_any prefix_def)
  next
    case 4
    have "like_ref p s \<longleftrightarrow> (\<exists>a u. s = a @ b @ u)"
      unfolding 4 like_ref_percent [of "b @ [PERCENT]"] like_ref_literal_append [OF b(1)]
      by (auto simp del: like_ref.simps simp: like_ref_any)
    with 4 show ?thesis by (auto simp: like_match_def sublist_def slice_def)
  qed
qed

theorem like_matches_reference_witness:
  "like_match [97, 98, 99] [PERCENT, 98, PERCENT] = Some (like_ref [PERCENT, 98, PERCENT] [97, 98, 99])"
  by (rule like_matches_reference) (auto simp: simple_pattern_def PERCENT_def intro!: exI [of _ "[98]"])

text \<open>Evaluating \<^verbatim>\<open>x LIKE '%'\<close> on a string panics, and a \<^verbatim>\<open>%\<close> inside a pattern is taken literally:
  \<^verbatim>\<open>'abc' LIKE 'a%c'\<close> is false.\<close>

theorem like_percent_panics:
  "like_op False id (VString s) (VString [PERCENT]) = Inl Panic \<and>
   like_match [97, 98, 99] [97, PERCENT, 99] = Some False \<and> like_ref [97, PERCENT, 99] [97, 98, 99]"
  by (simp add: like_op_def like_match_def slice_def or_panic_def PERCENT_def)

text \<open>Comparisons do not follow SQL's three-valued logic: with a \<^verbatim>\<open>NULL\<close> operand \<^verbatim>\<open>NULL = NULL\<close> and
  \<^verbatim>\<open>NULL < x\<close> evaluate to true for every other value \<^verbatim>\<open>x\<close>, so a row whose column is null satisfies \<^verbatim>\<open>col < x\<close>.\<close>

theorem null_compares_as_smallest:
  fixes L :: "('dec, 'date::linorder, 'time::linorder, 'ts::linorder, 'json) lib"
  assumes "\<not> is_null x"
  shows "evaluate_binary_op L ctx VNull OpLt x = Inr (VBoolean True) \<and>
    evaluate_binary_op L ctx VNull OpEq VNull = Inr (VBoolean True)"
  using assms by (cases x) (auto simp: cmp_lt_def partial_cmp.simps value_eq.simps is_null_def)

theorem null_compares_as_smallest_witness:
  "\<forall>ctx. evaluate_binary_op toy_lib ctx VNull OpLt (VInteger 5) = Inr (VBoolean True)"
  using null_compares_as_smallest [of "VInteger 5" toy_lib] by (simp add: is_null_def)

end
