(* ===== verification/Index_Scan.thy ===== *)
theory Index_Scan
  imports Index_Encoding Sql_Expr MV_Tree
begin

text \<open>
  Index use in queries (\<^verbatim>\<open>crates/h2-sql/src/executor/query.rs\<close>, \<^verbatim>\<open>statement.rs\<close>): recognising equality and
  range predicates on an indexed column, turning value bounds into bounds on index keys, looking rows
  up through the index map, and the uniqueness check of an insert.  The theorems connect them with the
  evaluator of \<^verbatim>\<open>expression.rs\<close> and with the scans of the B+ tree.
\<close>

section \<open>Tables\<close>

text \<open>\<open>cd_physical_index\<close> is the position of the column in stored rows; the position in the list is the logical one.\<close>

record column_def =
  cd_name :: bytes
  cd_type :: data_type
  cd_physical_index :: "nat option"

record index_def =
  idx_columns :: "bytes list"
  idx_unique :: bool

definition column_index :: "column_def list \<Rightarrow> bytes \<Rightarrow> nat option" where
  "column_index cols name =
     (case filter (\<lambda>(i, c). eq_ignore_ascii_case (cd_name c) name) (enumerate 0 cols) of
        [] \<Rightarrow> None
      | (i, _) # _ \<Rightarrow> Some i)"

text \<open>
  Stored rows are projected to the columns of the table when they are read; adding a column gives it the
  next position, dropping one leaves the positions of the others (and the stored rows) as they are.
\<close>

definition align_row :: "column_def list \<Rightarrow> ('dec, 'date, 'time, 'ts, 'json) val list \<Rightarrow>
    ('dec, 'date, 'time, 'ts, 'json) val list" where
  "align_row cols row =
     (if list_ex (\<lambda>c. cd_physical_index c \<noteq> None) cols then
        map (\<lambda>c. case cd_physical_index c of
                    Some p \<Rightarrow> if p < length row then row ! p else VNull
                  | None \<Rightarrow> VNull) cols
      else if length row < length cols then row @ replicate (length cols - length row) VNull
      else row)"

definition next_physical_index :: "column_def list \<Rightarrow> nat" where
  "next_physical_index cols =
     (case List.map_filter cd_physical_index cols of
        [] \<Rightarrow> length cols
      | p # ps \<Rightarrow> fold max ps p + 1)"

definition number_columns :: "column_def list \<Rightarrow> column_def list" where
  "number_columns cols =
     map (\<lambda>(i, c). if cd_physical_index c = None then c\<lparr>cd_physical_index := Some i\<rparr> else c) (enumerate 0 cols)"

definition add_column :: "column_def list \<Rightarrow> column_def \<Rightarrow> column_def list h2_result" where
  "add_column cols c =
     (if column_index cols (cd_name c) \<noteq> None then Inl (Catalog ''Column already exists'')
      else Inr (cols @ [c\<lparr>cd_physical_index := Some (next_physical_index cols)\<rparr>]))"

definition drop_column :: "column_def list \<Rightarrow> bytes \<Rightarrow> column_def list h2_result" where
  "drop_column cols name =
     (case column_index cols name of
        None \<Rightarrow> Inl (Catalog ''Column not found'')
      | Some i \<Rightarrow> Inr (take i cols @ drop (Suc i) cols))"

fun get_index_values :: "column_def list \<Rightarrow> bytes list \<Rightarrow> ('dec, 'date, 'time, 'ts, 'json) val list \<Rightarrow>
    ('dec, 'date, 'time, 'ts, 'json) val list option" where
  "get_index_values cols [] row = Some []"
| "get_index_values cols (c # cs) row =
     (case column_index cols c of
        None \<Rightarrow> None
      | Some i \<Rightarrow> map_option ((#) (row_get row i)) (get_index_values cols cs row))"

section \<open>Recognising predicates\<close>

definition get_ident :: "expr \<Rightarrow> bytes option" where
  "get_ident e =
     (case e of
        EIdent n \<Rightarrow> Some n
      | ECompound parts \<Rightarrow> (if length parts = 2 then Some (parts ! 1) else None)
      | _ \<Rightarrow> None)"

definition res_ok :: "'a h2_result \<Rightarrow> 'a option" where
  "res_ok r = (case r of Inr x \<Rightarrow> Some x | Inl _ \<Rightarrow> None)"

definition matches_index_condition :: "('dec, 'date, 'time, 'ts, 'json) lib \<Rightarrow> expr \<Rightarrow> bytes \<Rightarrow> bool" where
  "matches_index_condition L e target_col =
     (case e of
        EBinary (EIdent n) op r \<Rightarrow>
          eq_ignore_ascii_case n target_col \<and> op \<in> {OpEq, OpGt, OpGtEq, OpLt, OpLtEq} \<and>
          res_ok (evaluate_literal_or_unary L r) \<noteq> None
      | EBetween (EIdent n) negated low high \<Rightarrow>
          \<not> negated \<and> eq_ignore_ascii_case n target_col \<and>
          res_ok (evaluate_literal_or_unary L low) \<noteq> None \<and> res_ok (evaluate_literal_or_unary L high) \<noteq> None
      | _ \<Rightarrow> False)"

definition extract_equality_predicate :: "('dec, 'date, 'time, 'ts, 'json) lib \<Rightarrow> expr \<Rightarrow>
    (bytes \<times> ('dec, 'date, 'time, 'ts, 'json) val) option" where
  "extract_equality_predicate L e =
     (case e of
        EBinary l OpEq r \<Rightarrow>
          (case get_ident l of
             Some col \<Rightarrow> map_option (Pair col) (res_ok (evaluate_literal_or_unary L r))
           | None \<Rightarrow>
               (case get_ident r of
                  Some col \<Rightarrow> map_option (Pair col) (res_ok (evaluate_literal_or_unary L l))
                | None \<Rightarrow> None))
      | _ \<Rightarrow> None)"

definition build_index_filter :: "('dec, 'date::linorder, 'time::linorder, 'ts::linorder, 'json) lib \<Rightarrow> expr \<Rightarrow>
    bytes \<Rightarrow> (('dec, 'date, 'time, 'ts, 'json) val \<Rightarrow> bool) option" where
  "build_index_filter L e target_col =
     (case e of
        EBinary (EIdent n) op r \<Rightarrow>
          (if eq_ignore_ascii_case n target_col then
             map_option (\<lambda>sv v.
               (case op of
                  OpEq \<Rightarrow> value_eq L v sv
                | OpGt \<Rightarrow> partial_cmp L v sv = Some Greater
                | OpGtEq \<Rightarrow> partial_cmp L v sv \<in> {Some Greater, Some Equal}
                | OpLt \<Rightarrow> partial_cmp L v sv = Some Less
                | OpLtEq \<Rightarrow> partial_cmp L v sv \<in> {Some Less, Some Equal}
                | _ \<Rightarrow> False)) (res_ok (evaluate_literal_or_unary L r))
           else None)
      | EBetween (EIdent n) negated low high \<Rightarrow>
          (if \<not> negated \<and> eq_ignore_ascii_case n target_col then
             (case (res_ok (evaluate_literal_or_unary L low), res_ok (evaluate_literal_or_unary L high)) of
                (Some lv, Some hv) \<Rightarrow>
                  Some (\<lambda>v. (case partial_cmp L v lv of Some c \<Rightarrow> c \<noteq> Less | None \<Rightarrow> False) \<and>
                            (case partial_cmp L v hv of Some c \<Rightarrow> c \<noteq> Greater | None \<Rightarrow> False))
              | _ \<Rightarrow> None)
           else None)
      | _ \<Rightarrow> None)"

text \<open>\<^verbatim>\<open>std::ops::Bound\<close> over values.\<close>

datatype 'v vbound = VUnbounded | VIncluded 'v | VExcluded 'v

fun combine_start :: "('dec, 'date::linorder, 'time::linorder, 'ts::linorder, 'json) lib \<Rightarrow>
    ('dec, 'date, 'time, 'ts, 'json) val vbound \<Rightarrow> ('dec, 'date, 'time, 'ts, 'json) val vbound \<Rightarrow>
    ('dec, 'date, 'time, 'ts, 'json) val vbound" where
  "combine_start L VUnbounded b = b"
| "combine_start L b VUnbounded = b"
| "combine_start L (VIncluded v1) (VIncluded v2) = (if cmp_ge L v1 v2 then VIncluded v1 else VIncluded v2)"
| "combine_start L (VExcluded v1) (VExcluded v2) = (if cmp_ge L v1 v2 then VExcluded v1 else VExcluded v2)"
| "combine_start L (VIncluded v1) (VExcluded v2) = (if cmp_gt L v1 v2 then VIncluded v1 else VExcluded v2)"
| "combine_start L (VExcluded v1) (VIncluded v2) = (if cmp_ge L v1 v2 then VExcluded v1 else VIncluded v2)"

fun combine_end :: "('dec, 'date::linorder, 'time::linorder, 'ts::linorder, 'json) lib \<Rightarrow>
    ('dec, 'date, 'time, 'ts, 'json) val vbound \<Rightarrow> ('dec, 'date, 'time, 'ts, 'json) val vbound \<Rightarrow>
    ('dec, 'date, 'time, 'ts, 'json) val vbound" where
  "combine_end L VUnbounded b = b"
| "combine_end L b VUnbounded = b"
| "combine_end L (VIncluded v1) (VIncluded v2) = (if cmp_le L v1 v2 then VIncluded v1 else VIncluded v2)"
| "combine_end L (VExcluded v1) (VExcluded v2) = (if cmp_le L v1 v2 then VExcluded v1 else VExcluded v2)"
| "combine_end L (VIncluded v1) (VExcluded v2) = (if cmp_lt L v1 v2 then VIncluded v1 else VExcluded v2)"
| "combine_end L (VExcluded v1) (VIncluded v2) = (if cmp_le L v1 v2 then VExcluded v1 else VIncluded v2)"

text \<open>The arms for \<^verbatim>\<open>col op literal\<close>, and mirrored for \<^verbatim>\<open>literal op col\<close>.\<close>

fun bounds_of :: "binop \<Rightarrow> 'v \<Rightarrow> ('v vbound \<times> 'v vbound) option" where
  "bounds_of OpGt v = Some (VExcluded v, VUnbounded)"
| "bounds_of OpGtEq v = Some (VIncluded v, VUnbounded)"
| "bounds_of OpLt v = Some (VUnbounded, VExcluded v)"
| "bounds_of OpLtEq v = Some (VUnbounded, VIncluded v)"
| "bounds_of _ v = None"

fun mirrored_bounds_of :: "binop \<Rightarrow> 'v \<Rightarrow> ('v vbound \<times> 'v vbound) option" where
  "mirrored_bounds_of OpGt v = Some (VUnbounded, VExcluded v)"
| "mirrored_bounds_of OpGtEq v = Some (VUnbounded, VIncluded v)"
| "mirrored_bounds_of OpLt v = Some (VExcluded v, VUnbounded)"
| "mirrored_bounds_of OpLtEq v = Some (VIncluded v, VUnbounded)"
| "mirrored_bounds_of _ v = None"

definition extract_comparison :: "('dec, 'date, 'time, 'ts, 'json) lib \<Rightarrow> expr \<Rightarrow> binop \<Rightarrow> expr \<Rightarrow> bytes \<Rightarrow>
    (('dec, 'date, 'time, 'ts, 'json) val vbound \<times> ('dec, 'date, 'time, 'ts, 'json) val vbound) option" where
  "extract_comparison L l op r target_col =
     (case get_ident l of
        Some col \<Rightarrow>
          (if eq_ignore_ascii_case col target_col
           then Option.bind (res_ok (evaluate_literal_or_unary L r)) (bounds_of op) else None)
      | None \<Rightarrow>
          (case get_ident r of
             Some col \<Rightarrow>
               (if eq_ignore_ascii_case col target_col
                then Option.bind (res_ok (evaluate_literal_or_unary L l)) (mirrored_bounds_of op) else None)
           | None \<Rightarrow> None))"

fun extract_range_predicate :: "('dec, 'date::linorder, 'time::linorder, 'ts::linorder, 'json) lib \<Rightarrow> expr \<Rightarrow>
    bytes \<Rightarrow>
    (('dec, 'date, 'time, 'ts, 'json) val vbound \<times> ('dec, 'date, 'time, 'ts, 'json) val vbound) option" where
  "extract_range_predicate L (EBetween e negated low high) target_col =
     (if \<not> negated then
        (case get_ident e of
           Some col \<Rightarrow>
             (if eq_ignore_ascii_case col target_col then
                (case (res_ok (evaluate_literal_or_unary L low), res_ok (evaluate_literal_or_unary L high)) of
                   (Some lv, Some hv) \<Rightarrow> Some (VIncluded lv, VIncluded hv)
                 | _ \<Rightarrow> None)
              else None)
         | None \<Rightarrow> None)
      else None)"
| "extract_range_predicate L (EBinary l op r) target_col =
     (if op = OpAnd then
        (case (extract_range_predicate L l target_col, extract_range_predicate L r target_col) of
           (Some (ls, le), Some (rs, re)) \<Rightarrow> Some (combine_start L ls rs, combine_end L le re)
         | (Some res, None) \<Rightarrow> Some res
         | (None, Some res) \<Rightarrow> Some res
         | (None, None) \<Rightarrow> None)
      else extract_comparison L l op r target_col)"
| "extract_range_predicate L _ target_col = None"

section \<open>Bounds on index keys\<close>

definition cast_val :: "('dec, 'date, 'time, 'ts, 'json) lib \<Rightarrow> column_def list \<Rightarrow> bytes \<Rightarrow>
    ('dec, 'date, 'time, 'ts, 'json) val \<Rightarrow> ('dec, 'date, 'time, 'ts, 'json) val" where
  "cast_val L cols col_name v =
     (case column_index cols col_name of
        Some i \<Rightarrow> (case cast_to L v (cd_type (cols ! i)) of Inr w \<Rightarrow> w | Inl _ \<Rightarrow> v)
      | None \<Rightarrow> v)"

definition convert_value_bounds_to_bytes :: "('dec, 'date, 'time, 'ts, 'json) lib \<Rightarrow> column_def list \<Rightarrow> bytes \<Rightarrow>
    ('dec, 'date, 'time, 'ts, 'json) val vbound \<Rightarrow> ('dec, 'date, 'time, 'ts, 'json) val vbound \<Rightarrow>
    bound \<times> bound" where
  "convert_value_bounds_to_bytes L cols col_name start stop =
     ((case start of
         VIncluded v \<Rightarrow> Included (encode_index_prefix L [cast_val L cols col_name v])
       | VExcluded v \<Rightarrow> Excluded (encode_index_key_max L [cast_val L cols col_name v])
       | VUnbounded \<Rightarrow> Unbounded),
      (case stop of
         VIncluded v \<Rightarrow> Included (encode_index_key_max L [cast_val L cols col_name v])
       | VExcluded v \<Rightarrow> Excluded (encode_index_prefix L [cast_val L cols col_name v])
       | VUnbounded \<Rightarrow> Unbounded))"

section \<open>Lookups\<close>

text \<open>
  \<^verbatim>\<open>COUNT(*)\<close> pushed down to the range scan: every matched key whose row exists counts, and the
  rest of the predicate is not evaluated.
\<close>

definition pushdown_count_star :: "(u64 \<Rightarrow> 'row option) \<Rightarrow> bytes list \<Rightarrow> nat" where
  "pushdown_count_star get keys =
     length (filter (\<lambda>k. 8 \<le> length k \<and> get (u64_from_be_bytes (drop (length k - 8) k)) \<noteq> None) keys)"

text \<open>The uniqueness check of \<^verbatim>\<open>INSERT\<close> on one index, from the keys that match the prefix of the new values.\<close>

fun unique_conflict :: "('dec, 'date::linorder, 'time::linorder, 'ts::linorder, 'json) lib \<Rightarrow>
    (u64 \<Rightarrow> 'row option) \<Rightarrow> ('dec, 'date, 'time, 'ts, 'json) val list \<Rightarrow> bytes list \<Rightarrow>
    (u64 \<times> 'row) option" where
  "unique_conflict L get vals [] = None"
| "unique_conflict L get vals (k # ks) =
     (case decode_composite_index_key L k of
        Some (v, r) \<Rightarrow>
          (if values_eq L v vals then
             (case get r of Some row \<Rightarrow> Some (r, row) | None \<Rightarrow> unique_conflict L get vals ks)
           else unique_conflict L get vals ks)
      | None \<Rightarrow> unique_conflict L get vals ks)"

definition check_unique :: "('dec, 'date::linorder, 'time::linorder, 'ts::linorder, 'json) lib \<Rightarrow>
    column_def list \<Rightarrow> index_def \<Rightarrow> (bytes \<Rightarrow> bytes list) \<Rightarrow> (u64 \<Rightarrow> 'row option) \<Rightarrow>
    ('dec, 'date, 'time, 'ts, 'json) val list \<Rightarrow> (u64 \<times> 'row) option" where
  "check_unique L cols idx scan_prefix get row =
     (case get_index_values cols (idx_columns idx) row of
        Some vals \<Rightarrow>
          (if idx_unique idx \<and> \<not> list_ex is_null vals
           then unique_conflict L get vals (scan_prefix (encode_index_prefix L vals)) else None)
      | None \<Rightarrow> None)"

section \<open>Extraction is sound\<close>

fun above :: "('dec, 'date::linorder, 'time::linorder, 'ts::linorder, 'json) lib \<Rightarrow>
    ('dec, 'date, 'time, 'ts, 'json) val vbound \<Rightarrow> ('dec, 'date, 'time, 'ts, 'json) val \<Rightarrow> bool" where
  "above L VUnbounded v = True"
| "above L (VIncluded b) v = cmp_ge L v b"
| "above L (VExcluded b) v = cmp_gt L v b"

fun below :: "('dec, 'date::linorder, 'time::linorder, 'ts::linorder, 'json) lib \<Rightarrow>
    ('dec, 'date, 'time, 'ts, 'json) val vbound \<Rightarrow> ('dec, 'date, 'time, 'ts, 'json) val \<Rightarrow> bool" where
  "below L VUnbounded v = True"
| "below L (VIncluded b) v = cmp_le L v b"
| "below L (VExcluded b) v = cmp_lt L v b"

text \<open>Comparison is antisymmetric when that of decimals is.\<close>

definition reverse :: "ordering \<Rightarrow> ordering" where
  "reverse c = (case c of Less \<Rightarrow> Greater | Equal \<Rightarrow> Equal | Greater \<Rightarrow> Less)"

definition dec_sym :: "('dec, 'date, 'time, 'ts, 'json) lib \<Rightarrow> bool" where
  "dec_sym L \<longleftrightarrow> (\<forall>a b. reverse (dec_cmp L a b) = dec_cmp L b a)"

lemma reverse_simps [simp]: "reverse Less = Greater" "reverse Equal = Equal" "reverse Greater = Less"
  "reverse c = Equal \<longleftrightarrow> c = Equal" "reverse c = Less \<longleftrightarrow> c = Greater" "reverse c = Greater \<longleftrightarrow> c = Less"
  by (cases c; simp add: reverse_def)+

lemma cmp_key_swap: "cmp_key b a = reverse (cmp_key a b)"
  by (auto simp: cmp_key_def reverse_def)

lemma interval_cmp_swap: "interval_cmp b a = reverse (interval_cmp a b)"
  by (simp add: interval_cmp_def cmp_key_def)

lemma f_cmp_swap: "f64_partial_cmp b a = map_option reverse (f64_partial_cmp a b)"
  "f32_partial_cmp d c = map_option reverse (f32_partial_cmp c d)"
  by (simp_all add: f64_partial_cmp_def f32_partial_cmp_def fl_partial_cmp_def cmp_key_def)

lemma bind_swap:
  assumes "\<And>x y. map_option r (h x y) = h y x"
  shows "map_option r (Option.bind p (\<lambda>x. Option.bind q (\<lambda>y. h x y))) = Option.bind q (\<lambda>y. Option.bind p (\<lambda>x. h y x))"
  by (cases p; cases q) (simp_all add: assms)

lemma compare_numeric_swap:
  assumes "dec_sym L"
  shows "map_option reverse (compare_numeric L a b) = compare_numeric L b a"
proof -
  have d: "map_option reverse (Some (dec_cmp L x y)) = Some (dec_cmp L y x)" for x y
    using assms by (simp add: dec_sym_def)
  consider "is_decimal a \<or> is_decimal b" | "\<not> (is_decimal a \<or> is_decimal b)" "is_float a \<or> is_float b"
    | "\<not> (is_decimal a \<or> is_decimal b)" "\<not> (is_float a \<or> is_float b)" by blast
  then show ?thesis
  proof cases
    case 1
    then show ?thesis
      using bind_swap [where h = "\<lambda>x y. Some (dec_cmp L x y)", OF d] by (simp add: compare_numeric_def disj_commute)
  next
    case 2
    then show ?thesis
      using bind_swap [where h = f64_partial_cmp, OF f_cmp_swap(1) [symmetric]] by (simp add: compare_numeric_def disj_commute)
  next
    case 3
    then show ?thesis
      by (cases "to_i64 L a"; cases "to_i64 L b") (simp_all add: compare_numeric_def cmp_key_def)
  qed
qed

lemmas swaps = cmp_key_swap [symmetric] interval_cmp_swap [symmetric] f_cmp_swap [symmetric]

lemma partial_cmp_swap_plain:
  assumes "dec_sym L" "\<nexists>xs ys. b = VArray xs \<and> a = VArray ys"
  shows "map_option reverse (partial_cmp L a b) = partial_cmp L b a"
proof -
  have "reverse (dec_cmp L x y) = dec_cmp L y x" for x y using assms(1) by (simp add: dec_sym_def)
  note rules = this swaps compare_numeric_swap [OF assms(1)] option.map_comp o_def
  show ?thesis
    using assms(2) by (cases b; cases a) (simp_all add: partial_cmp.simps rules)
qed

lemma partial_cmp_swap:
  assumes "dec_sym L"
  shows "map_option reverse (partial_cmp L a b) = partial_cmp L b a"
    and "map_option reverse (partial_cmps L as bs) = partial_cmps L bs as"
  using assms
proof (induction L a b and L as bs rule: partial_cmp_partial_cmps.induct)
  case (1 L a b)
  show ?case
  proof (cases "\<exists>xs ys. b = VArray xs \<and> a = VArray ys")
    case True
    with 1 show ?thesis by (auto simp: partial_cmp.simps)
  qed (rule partial_cmp_swap_plain [OF "1.prems"])
next
  case (5 L x xs y ys)
  from "5.IH"(1) [OF "5.prems"] have "partial_cmp L y x = map_option reverse (partial_cmp L x y)" by simp
  with "5.IH"(2) "5.prems" show ?case
    by (cases "partial_cmp L x y") (auto split: ordering.split)
qed simp_all

lemma cmp_mirror:
  assumes "dec_sym L"
  shows "cmp_gt L a b \<longleftrightarrow> cmp_lt L b a" "cmp_ge L a b \<longleftrightarrow> cmp_le L b a"
  by (auto simp: cmp_gt_def cmp_lt_def cmp_ge_def cmp_le_def partial_cmp_swap(1) [OF assms, of b a, symmetric])

text \<open>
  \<open>column_value\<close>: in this row and context every reference to the column, qualified or not, that can be
  resolved evaluates to the value.
\<close>

definition column_value where
  "column_value L ctx row col v \<longleftrightarrow>
     (\<forall>n w. eq_ignore_ascii_case n col \<longrightarrow> evaluate_ident L ctx row n = Inr w \<longrightarrow> w = v) \<and>
     (\<forall>q n w. eq_ignore_ascii_case n col \<longrightarrow> evaluate_compound ctx row [q, n] = Inr w \<longrightarrow> w = v)"

lemma column_value_ident:
  assumes "column_value L ctx row col v" "get_ident e = Some n" "eq_ignore_ascii_case n col"
    and "evaluate_expr_context L ctx row e = Inr w"
  shows "w = v"
proof (cases e)
  case (ECompound parts)
  with assms(2) have len: "length parts = 2" and n: "parts ! 1 = n"
    by (auto simp: get_ident_def split: if_splits)
  then obtain q where "parts = [q, n]"
    by (cases parts; cases "tl parts") auto
  with assms ECompound show ?thesis by (auto simp: column_value_def)
qed (use assms in \<open>auto simp: get_ident_def column_value_def\<close>)

lemma res_ok_Some [simp]: "res_ok r = Some x \<longleftrightarrow> r = Inr x"
  by (cases r) (auto simp: res_ok_def)

lemma extract_comparison_sound:
  assumes "dec_sym L" "\<not> ctx_empty_strings_are_null ctx" "column_value L ctx row col v"
    and "extract_comparison L l op r col = Some (s, t)"
    and "evaluate_expr_context L ctx row (EBinary l op r) = Inr (VBoolean True)"
  shows "above L s v \<and> below L t v"
proof (cases "get_ident l")
  case (Some n)
  with assms(4) obtain b where n: "eq_ignore_ascii_case n col" and b: "evaluate_literal_or_unary L r = Inr b"
    and st: "bounds_of op b = Some (s, t)"
    by (auto simp: extract_comparison_def bind_eq_Some_conv split: if_splits)
  have "evaluate_binary_op L ctx v op b = Inr (VBoolean True)"
    using assms(5) column_value_ident [OF assms(3) Some n] evaluate_literal(1) [OF assms(2) b, of row]
    by (auto simp: res_bind_eq_Inr)
  with st show ?thesis by (cases op) auto
next
  case None
  with assms(4) obtain n b where r: "get_ident r = Some n" and n: "eq_ignore_ascii_case n col"
    and b: "evaluate_literal_or_unary L l = Inr b" and st: "mirrored_bounds_of op b = Some (s, t)"
    by (auto simp: extract_comparison_def bind_eq_Some_conv split: if_splits option.splits)
  have "evaluate_binary_op L ctx b op v = Inr (VBoolean True)"
    using assms(5) column_value_ident [OF assms(3) r n] evaluate_literal(1) [OF assms(2) b, of row]
    by (auto simp: res_bind_eq_Inr)
  with st show ?thesis by (cases op) (auto simp: cmp_mirror [OF assms(1)])
qed

lemma combine_sound:
  "above L s v \<Longrightarrow> above L s' v \<Longrightarrow> above L (combine_start L s s') v"
  "below L t v \<Longrightarrow> below L t' v \<Longrightarrow> below L (combine_end L t t') v"
  by (cases s; cases s'; simp) (cases t; cases t'; simp)

lemma as_bool_Inr [simp]: "as_bool m v = Inr b \<longleftrightarrow> v = VBoolean b"
  by (cases v) (auto simp: as_bool_def)

lemma evaluate_and:
  "evaluate_expr_context L ctx row (EBinary l OpAnd r) = Inr (VBoolean True) \<Longrightarrow>
   evaluate_expr_context L ctx row l = Inr (VBoolean True) \<and> evaluate_expr_context L ctx row r = Inr (VBoolean True)"
  by (auto simp: res_bind_eq_Inr)


text \<open>A concrete row for the examples: one integer column \<^verbatim>\<open>a\<close> of a table \<^verbatim>\<open>t\<close>.\<close>

definition ex_ctx :: "(int, 8 word, nat, int, bytes) row_context" where
  "ex_ctx =
     \<lparr>ctx_columns = from_table_def (ascii ''t'') [ascii ''a'', ascii ''b''] None, ctx_catalog = None,
      ctx_empty_strings_are_null = False, ctx_mode = ascii ''REGULAR'', ctx_now = 0, ctx_today = 0, ctx_time = 0,
      ctx_to_lowercase = map ascii_lower, ctx_other_expr = (\<lambda>k row. Inl (Execution ''unsupported'')),
      ctx_other_op = (\<lambda>k a b. Inl (Execution ''unsupported''))\<rparr>"

abbreviation num :: "string \<Rightarrow> expr" where
  "num s \<equiv> EValue (SqlNumber (ascii s))"

lemma toy_dec_sym: "dec_sym toy_lib"
  by (simp add: dec_sym_def toy_lib_def cmp_key_swap [symmetric])

section \<open>Range scans of an index\<close>

text \<open>On one column the order of index keys is the order of values, \<^verbatim>\<open>NULL\<close> first.\<close>

definition like_typed where
  "like_typed L v w \<longleftrightarrow> is_null v \<or> is_null w \<or> value_data_type L v = value_data_type L w"

lemma enc_order_null:
  assumes "lib_ok L" "comparable L v" "comparable L w" "like_typed L v w"
  shows "partial_cmp L v w = Some (cmp_key (enc L v) (enc L w))"
proof (cases "is_null v \<or> is_null w")
  case True
  then consider "v = VNull" | "w = VNull" by (cases v; cases w) (auto simp: is_null_def)
  then show ?thesis
  proof cases
    case 1
    show ?thesis unfolding 1 by (cases w) (simp_all add: partial_cmp.simps)
  next
    case 2
    show ?thesis unfolding 2 by (cases v) (simp_all add: partial_cmp.simps)
  qed
next
  case False
  with assms show ?thesis by (intro enc_order) (auto simp: like_typed_def)
qed

lemma cmp_enc:
  assumes "lib_ok L" "comparable L v" "comparable L w" "like_typed L v w"
  shows "cmp_lt L v w \<longleftrightarrow> enc L v < enc L w" "cmp_le L v w \<longleftrightarrow> enc L v \<le> enc L w"
    "cmp_gt L v w \<longleftrightarrow> enc L w < enc L v" "cmp_ge L v w \<longleftrightarrow> enc L w \<le> enc L v"
  by (auto simp: cmp_lt_def cmp_le_def cmp_gt_def cmp_ge_def enc_order_null [OF assms] cmp_key_def
      split: if_splits)

fun bound_value :: "'v vbound \<Rightarrow> 'v option" where
  "bound_value VUnbounded = None"
| "bound_value (VIncluded v) = Some v"
| "bound_value (VExcluded v) = Some v"

text \<open>\<open>bound_ok\<close>: the bound is of the column's type, so that the cast does not change it.\<close>

definition bound_ok where
  "bound_ok L cols col b v \<longleftrightarrow>
     (\<forall>c. bound_value b = Some c \<longrightarrow> comparable L c \<and> cast_val L cols col c = c \<and> like_typed L v c)"

lemma within_bounds:
  assumes "lib_ok L" "comparable L v" "bound_ok L cols col s v" "bound_ok L cols col t v"
    and "convert_value_bounds_to_bytes L cols col s t = (bs, be)"
  shows "in_range bs be (encode_index_key L v r) \<longleftrightarrow> above L s v \<and> below L t v"
proof -
  have ok: "val_ok c" if "comparable L c" for c
    using that by (rule comparable_decodable [THEN decodable_val_ok])
  have "within_start bs (encode_index_key L v r) \<longleftrightarrow> above L s v"
    using assms(5) assms(3) by (cases s)
      (auto simp: convert_value_bounds_to_bytes_def bound_ok_def key_bounds [OF ok ok [OF assms(2)]]
        cmp_enc [OF assms(1,2)])
  moreover have "within_end be (encode_index_key L v r) \<longleftrightarrow> below L t v"
    using assms(5) assms(4) by (cases t)
      (auto simp: convert_value_bounds_to_bytes_def bound_ok_def key_bounds [OF ok ok [OF assms(2)]]
        cmp_enc [OF assms(1,2)])
  ultimately show ?thesis by (simp add: in_range_def)
qed

text \<open>\<open>index_of\<close>: the index map holds exactly the keys of the rows, given by id and column value.\<close>

definition index_of where
  "index_of L t rows \<longleftrightarrow>
     set (map entry_key (tree_scan_all t)) = (\<lambda>(r, v). encode_index_key L v r) ` rows"

lemma decode_index_key_row:
  assumes "lib_ok L" "decodable L v"
  shows "decode_index_key L (encode_index_key L v r) = Some (v, r)"
  using index_key_decodes [OF assms(1), of "[v]" r] assms(2) by (simp add: encode_index_key_def)


text \<open>A tree built by insertion holds the keys inserted.\<close>

lemma built_index:
  assumes "fold_opt tree_apply (mvtree_new 4) (map (\<lambda>(r, v). (encode_index_key L v r, Some [])) rs) = Some t"
  shows "tree_wf t \<and> index_of L t (set rs)"
proof -
  have "tree_inv (mvtree_new 4)"
    by (simp add: tree_inv_def tree_wf_def tree_balanced_def mvtree_new_def new_leaf_def)
  from treer.replay_correct [OF this, of "map (\<lambda>(r, v). (encode_index_key L v r, Some [])) rs"] assms
  have t: "tree_inv t" and m: "map_of (tree_kvs t) =
      upd_all (map (\<lambda>(r, v). (encode_index_key L v r, Some [])) rs) (map_of (tree_kvs (mvtree_new 4)))"
    by auto
  have upd: "dom (upd_all (map (\<lambda>(r, v). (encode_index_key L v r, Some [])) rs) g) =
      dom g \<union> (\<lambda>(r, v). encode_index_key L v r) ` set rs" for g :: "bytes \<rightharpoonup> bytes"
    by (induction rs arbitrary: g) (simp_all add: case_prod_beta)
  have "set (map entry_key (tree_scan_all t)) = dom (map_of (tree_kvs t))"
    by (simp add: tree_scan_all_kvs [symmetric] dom_map_of_conv_image_fst image_image kv_def)
  also have "\<dots> = (\<lambda>(r, v). encode_index_key L v r) ` set rs"
    unfolding m upd by (simp add: mvtree_new_def new_leaf_def tree_kvs_def)
  finally show ?thesis using t by (simp add: index_of_def tree_inv_def)
qed


lemmas ex_eval = extract_comparison_def get_ident_def eq_ignore_ascii_case_def ascii_lower_def ascii_def
  evaluate_sql_value_def parse_i64_def parse_unsigned_def in_i64_def evaluate_ident_def evaluate_compound_def
  ex_ctx_def from_table_def_def row_get_def enumerate_eq_zip res_ok_def as_bool_def


section \<open>Filters on index entries\<close>

text \<open>For equality, the four order comparisons and \<^verbatim>\<open>BETWEEN\<close>, the filter built for an index scan keeps an
  entry exactly when the predicate evaluates to true on the row.\<close>

theorem index_filter_exact:
  assumes "\<not> ctx_empty_strings_are_null ctx" "column_value L ctx row col v"
    and "build_index_filter L e col = Some f" "matches_index_condition L e col"
    and "evaluate_expr_context L ctx row e = Inr b"
  shows "f v \<longleftrightarrow> b = VBoolean True"
proof -
  have lit: "evaluate_expr_context L ctx row x = Inr w \<longleftrightarrow> w = y" if "evaluate_literal_or_unary L x = Inr y" for x w y
    using evaluate_literal(1) [OF assms(1) that] by auto
  have v: "w = v" if "eq_ignore_ascii_case n col" "evaluate_ident L ctx row n = Inr w" for n w
    using assms(2) that by (auto simp: column_value_def)
  have "(\<exists>n op r. e = EBinary (EIdent n) op r) \<or> (\<exists>n neg lo hi. e = EBetween (EIdent n) neg lo hi)"
    using assms(4) by (auto simp: matches_index_condition_def split: expr.splits)
  then show ?thesis
  proof (elim disjE exE)
    fix n op r assume e: "e = EBinary (EIdent n) op r"
    with assms(3) obtain y where n: "eq_ignore_ascii_case n col" and y: "evaluate_literal_or_unary L r = Inr y"
      by (auto simp: build_index_filter_def split: if_splits)
    have "evaluate_binary_op L ctx v op y = Inr b"
      using assms(5) v [OF n] by (auto simp: e res_bind_eq_Inr lit [OF y])
    with assms(3,4) show ?thesis
      by (auto simp: e n y build_index_filter_def matches_index_condition_def cmp_lt_def cmp_le_def cmp_gt_def
          cmp_ge_def res_ok_def)
  next
    fix n neg lo hi assume e: "e = EBetween (EIdent n) neg lo hi"
    with assms(3) obtain x y where n: "eq_ignore_ascii_case n col" "\<not> neg"
      and xy: "evaluate_literal_or_unary L lo = Inr x" "evaluate_literal_or_unary L hi = Inr y"
      by (auto simp: build_index_filter_def split: if_splits option.splits)
    have "b = VBoolean (cmp_ge L v x \<and> cmp_le L v y)"
      using assms(5) v [OF n(1)] n(2) by (auto simp: e res_bind_eq_Inr lit [OF xy(1)] lit [OF xy(2)])
    moreover have "f = (\<lambda>v. (case partial_cmp L v x of Some c \<Rightarrow> c \<noteq> Less | None \<Rightarrow> False) \<and>
                            (case partial_cmp L v y of Some c \<Rightarrow> c \<noteq> Greater | None \<Rightarrow> False))"
      using assms(3) by (simp add: e n xy build_index_filter_def res_ok_def)
    moreover have "c \<noteq> Less \<longleftrightarrow> c = Greater \<or> c = Equal" "c \<noteq> Greater \<longleftrightarrow> c = Less \<or> c = Equal" for c
      by (cases c; simp)+
    ultimately show ?thesis
      by (cases "partial_cmp L v x"; cases "partial_cmp L v y") (simp_all add: cmp_le_def cmp_ge_def)
  qed
qed

theorem index_filter_exact_witness:
  "\<exists>f. build_index_filter toy_lib (EBinary (EIdent (ascii ''a'')) OpGt (num ''5'')) (ascii ''a'') = Some f \<and> f (VInteger 7)"
proof -
  let ?e = "EBinary (EIdent (ascii ''a'')) OpGt (num ''5'')"
  have cv: "column_value toy_lib ex_ctx [VInteger 7] (ascii ''a'') (VInteger 7)"
    unfolding column_value_def by (auto simp: ex_eval split: if_splits option.splits)
  obtain f where f: "build_index_filter toy_lib ?e (ascii ''a'') = Some f"
    by (simp add: build_index_filter_def ex_eval)
  have "matches_index_condition toy_lib ?e (ascii ''a'')"
    by (simp add: matches_index_condition_def ex_eval)
  moreover have "evaluate_expr_context toy_lib ex_ctx [VInteger 7] ?e = Inr (VBoolean True)"
    by (simp add: ex_eval cmp_gt_def partial_cmp.simps cmp_key_def)
  moreover have "\<not> ctx_empty_strings_are_null ex_ctx" by (simp add: ex_ctx_def)
  ultimately have "f (VInteger 7)" using index_filter_exact [OF _ cv f] by blast
  with f show ?thesis by blast
qed

text \<open>For any other operator the filter is constantly false: with an index on \<^verbatim>\<open>a\<close>, the plan for
  \<^verbatim>\<open>a <> 5\<close> returns no row at all, although no range is extracted and the predicate is true of a row
  with \<^verbatim>\<open>a = 7\<close>.\<close>

theorem not_equal_finds_nothing:
  fixes L :: "('dec, 'date::linorder, 'time::linorder, 'ts::linorder, 'json) lib"
  defines "e \<equiv> EBinary (EIdent (ascii ''a'')) OpNotEq (num ''5'')"
  shows "extract_equality_predicate L e = None \<and> extract_range_predicate L e (ascii ''a'') = None \<and>
    build_index_filter L e (ascii ''a'') = Some (\<lambda>v. False) \<and>
    evaluate_binary_op L ctx (VInteger 7) OpNotEq (VInteger 5) = Inr (VBoolean True)"
  by (simp add: e_def extract_equality_predicate_def ex_eval build_index_filter_def value_eq.simps)

section \<open>Uniqueness\<close>

lemma comparable_eq_refl: "comparable L v \<Longrightarrow> value_eq L v v"
  by (cases v) (auto simp: value_eq.simps f32_partial_cmp_def f64_partial_cmp_def fl_partial_cmp_def)

lemma comparable_values_eq_refl: "list_all (comparable L) vs \<Longrightarrow> values_eq L vs vs"
  by (induction vs) (auto simp: comparable_eq_refl)

lemma unique_conflict_None:
  assumes "unique_conflict L get vals ks = None" "k \<in> set ks" "decode_composite_index_key L k = Some (v, r)"
    and "values_eq L v vals"
  shows "get r = None"
  using assms by (induction ks) (auto split: option.splits if_splits)

lemma unique_conflict_Some:
  assumes "unique_conflict L get vals ks = Some (r, row)"
  shows "\<exists>k\<in>set ks. \<exists>v. decode_composite_index_key L k = Some (v, r) \<and> get r = Some row"
  using assms by (induction ks) (auto split: option.splits if_splits)

lemma conflict_scan:
  assumes "lib_ok L" "tree_wf t" "list_all (comparable L) vals"
    and "set (map entry_key (tree_scan_all t)) = (\<lambda>(r, vs). encode_composite_index_key L vs r) ` rows"
    and "\<forall>(r, vs)\<in>rows. list_all (comparable L) vs \<and> get r \<noteq> None"
  shows "\<exists>es. tree_scan_prefix t (encode_index_prefix L vals) = Some es \<and>
    (unique_conflict L get vals (map entry_key es) = None \<longleftrightarrow> (\<forall>r. (r, vals) \<notin> rows)) \<and>
    (\<forall>r row. unique_conflict L get vals (map entry_key es) = Some (r, row) \<longrightarrow> (r, vals) \<in> rows \<and> get r = Some row)"
proof -
  define es where "es = filter (\<lambda>e. prefix (encode_index_prefix L vals) (entry_key e)) (tree_scan_all t)"
  have dec: "list_all (decodable L) vs" if "list_all (comparable L) vs" for vs
    using that by (auto simp: list_all_iff comparable_decodable)
  have keys: "set (map entry_key es) = (\<lambda>r. encode_composite_index_key L vals r) ` {r. (r, vals) \<in> rows}"
  proof -
    have match: "prefix (encode_index_prefix L vals) (encode_composite_index_key L vs r) \<longleftrightarrow> vs = vals"
      if "(r, vs) \<in> rows" for r vs
    proof -
      from that assms(5) have "list_all (decodable L) vs" using dec by fast
      then show ?thesis
        unfolding encode_composite_index_key_def
        using prefix_of_key [of vals vs L] map_enc_inj [OF assms(1) dec [OF assms(3)]]
          list_all_val_ok dec [OF assms(3)] by blast
    qed
    have "set (map entry_key es) =
        {k \<in> set (map entry_key (tree_scan_all t)). prefix (encode_index_prefix L vals) k}"
      by (auto simp: es_def)
    also have "\<dots> = (\<lambda>r. encode_composite_index_key L vals r) ` {r. (r, vals) \<in> rows}"
      unfolding assms(4) using match by force
    finally show ?thesis .
  qed
  have dc: "decode_composite_index_key L (encode_composite_index_key L vals r) = Some (vals, r)" for r
    using index_key_decodes [OF assms(1) dec [OF assms(3)]] by blast
  have rf: "values_eq L vals vals" using assms(3) by (rule comparable_values_eq_refl)
  have found: "(r, vals) \<in> rows \<and> get r = Some row"
    if "unique_conflict L get vals (map entry_key es) = Some (r, row)" for r row
    using unique_conflict_Some [OF that] dc unfolding keys by auto
  have free: "(r, vals) \<notin> rows" if "unique_conflict L get vals (map entry_key es) = None" for r
  proof
    assume in_rows: "(r, vals) \<in> rows"
    then have "encode_composite_index_key L vals r \<in> set (map entry_key es)" unfolding keys by blast
    from unique_conflict_None [OF that this dc rf] in_rows assms(5) show False by blast
  qed
  have "unique_conflict L get vals (map entry_key es) = None \<longleftrightarrow> (\<forall>r. (r, vals) \<notin> rows)"
  proof (cases "unique_conflict L get vals (map entry_key es)")
    case (Some p)
    with found show ?thesis by (cases p) auto
  qed (use free in simp)
  with found tree_scan_prefix_correct [OF assms(2)] show ?thesis by (auto simp: es_def)
qed



section \<open>Where index plans and predicates part\<close>

text \<open>Literals outside the column's range make index scans drop rows: for an \<^verbatim>\<open>INTEGER\<close> column the
  predicate \<^verbatim>\<open>a < 3000000000\<close> is true of a row with \<^verbatim>\<open>a = 5\<close>, but the bound is cast to the column's type, wraps
  to a negative number, and the row's key is outside the scanned range.\<close>

theorem range_scan_drops_rows:
  fixes L :: "('dec, 'date::linorder, 'time::linorder, 'ts::linorder, 'json) lib"
  defines "e \<equiv> EBinary (EIdent (ascii ''a'')) OpLt (num ''3000000000'')"
    and "cols \<equiv> [\<lparr>cd_name = ascii ''a'', cd_type = TInteger, cd_physical_index = Some 0\<rparr>]"
  shows "\<exists>lo hi bs be. extract_range_predicate L e (ascii ''a'') = Some (lo, hi) \<and>
    convert_value_bounds_to_bytes L cols (ascii ''a'') lo hi = (bs, be) \<and> below L hi (VInteger 5) \<and>
    \<not> in_range bs be (encode_index_key L (VInteger 5) r)"
proof -
  let ?v = "VBigInt 3000000000"
  have ex: "extract_range_predicate L e (ascii ''a'') = Some (VUnbounded, VExcluded ?v)"
    by (simp add: e_def ex_eval)
  have cast: "cast_val L cols (ascii ''a'') ?v = VInteger 3000000000"
    by (simp add: cols_def cast_val_def column_index_def eq_ignore_ascii_case_def cast_to_def is_null_def opt_cast_def)
  have "below L (VExcluded ?v) (VInteger 5)"
    by (simp add: cmp_lt_def partial_cmp.simps compare_numeric_def is_decimal_def is_float_def cmp_key_def)
  moreover have "\<not> encode_index_key L (VInteger 5) r < encode_index_prefix L [VInteger 3000000000]"
    by (subst key_bounds(2)) (simp_all add: be_order)
  ultimately show ?thesis
    using ex by (auto simp: convert_value_bounds_to_bytes_def cast in_range_def)
qed

text \<open>An aggregate over an index range ignores the other conjuncts: for \<^verbatim>\<open>a > 5 AND b = 3\<close> with an index on \<^verbatim>\<open>a\<close>
  the pushed-down \<^verbatim>\<open>COUNT(*)\<close> counts a row with \<^verbatim>\<open>a = 7\<close>, \<^verbatim>\<open>b = 0\<close>, of which the predicate is false.\<close>

theorem pushdown_ignores_conjunct:
  defines "e \<equiv> EBinary (EBinary (EIdent (ascii ''a'')) OpGt (num ''5'')) OpAnd
                  (EBinary (EIdent (ascii ''b'')) OpEq (num ''3''))"
    and "cols \<equiv> [\<lparr>cd_name = ascii ''a'', cd_type = TInteger, cd_physical_index = Some 0\<rparr>, \<lparr>cd_name = ascii ''b'', cd_type = TInteger, cd_physical_index = Some 1\<rparr>]"
    and "row \<equiv> [VInteger 7, VInteger 0]"
  shows "\<exists>lo hi bs be. extract_range_predicate toy_lib e (ascii ''a'') = Some (lo, hi) \<and>
    convert_value_bounds_to_bytes toy_lib cols (ascii ''a'') lo hi = (bs, be) \<and>
    in_range bs be (encode_index_key toy_lib (VInteger 7) 1) \<and>
    pushdown_count_star (\<lambda>r. if r = 1 then Some row else None) [encode_index_key toy_lib (VInteger 7) 1] = 1 \<and>
    evaluate_expr_context toy_lib ex_ctx row e = Inr (VBoolean False)"
proof -
  have ex: "extract_range_predicate toy_lib e (ascii ''a'') = Some (VExcluded (VInteger 5), VUnbounded)"
    by (simp add: e_def ex_eval)
  have cast: "cast_val toy_lib cols (ascii ''a'') (VInteger 5) = VInteger 5"
    by (simp add: cols_def cast_val_def column_index_def eq_ignore_ascii_case_def cast_to_def is_null_def opt_cast_def
        ascii_def enumerate_eq_zip)
  have "encode_index_key_max toy_lib [VInteger 5] < encode_index_key toy_lib (VInteger 7) 1"
    by (subst key_bounds(4)) (simp_all add: be_order)
  moreover have "pushdown_count_star (\<lambda>r. if r = 1 then Some row else None) [encode_index_key toy_lib (VInteger 7) 1] = 1"
    by (simp add: pushdown_count_star_def encode_index_key_def encode_composite_index_key_def)
  moreover have "evaluate_expr_context toy_lib ex_ctx row e = Inr (VBoolean False)"
    by (simp add: e_def row_def ex_eval cmp_gt_def value_eq.simps partial_cmp.simps cmp_key_def)
  ultimately show ?thesis
    using ex by (simp add: convert_value_bounds_to_bytes_def cast in_range_def)
qed

text \<open>A point lookup answers for another number: \<^verbatim>\<open>a = 4294967301\<close> on an \<^verbatim>\<open>INTEGER\<close> column is cast to
  \<^verbatim>\<open>a = 5\<close>, so the prefix scan returns the row with \<^verbatim>\<open>a = 5\<close> although the two numbers differ.\<close>

theorem point_lookup_wraps:
  fixes L :: "('dec, 'date::linorder, 'time::linorder, 'ts::linorder, 'json) lib"
  defines "e \<equiv> EBinary (EIdent (ascii ''a'')) OpEq (num ''4294967301'')"
    and "cols \<equiv> [\<lparr>cd_name = ascii ''a'', cd_type = TInteger, cd_physical_index = Some 0\<rparr>]"
  shows "\<exists>v. extract_equality_predicate L e = Some (ascii ''a'', v) \<and> \<not> value_eq L (VInteger 5) v \<and>
    prefix (encode_index_prefix L [cast_val L cols (ascii ''a'') v]) (encode_index_key L (VInteger 5) r)"
proof -
  let ?v = "VBigInt 4294967301"
  have "extract_equality_predicate L e = Some (ascii ''a'', ?v)"
    by (simp add: e_def extract_equality_predicate_def ex_eval)
  moreover have "cast_val L cols (ascii ''a'') ?v = VInteger 5"
    by (simp add: cols_def cast_val_def column_index_def eq_ignore_ascii_case_def cast_to_def is_null_def opt_cast_def)
  moreover have "\<not> value_eq L (VInteger 5) ?v"
    by (simp add: value_eq.simps compare_numeric_def is_decimal_def is_float_def)
  ultimately show ?thesis
    by (auto simp: encode_index_key_def encode_composite_index_key_def)
qed

end
