(* ===== verification/Slotted_Page.thy ===== *)
theory Slotted_Page
  imports H2_Prelude
begin

text \<open>
  Slotted pages (\<^verbatim>\<open>crates/h2-mvstore/src/buffer_pool/slotted_page.rs\<close>): a page of 8192 bytes with a header,
  a slot array growing upwards and tuple data growing downwards.  A page is its bytes; an access out of
  the page's bounds is the value \<open>None\<close>.  The page refines a list of optional tuples: inserting appends,
  deleting clears an entry, defragmenting changes nothing but the free space.
\<close>

section \<open>The page\<close>

definition PAGE_SIZE :: nat where "PAGE_SIZE = 8192"
definition PAGE_HEADER_SIZE :: nat where "PAGE_HEADER_SIZE = 32"
definition SLOT_SIZE :: nat where "SLOT_SIZE = 4"

definition buf_read :: "bytes \<Rightarrow> nat \<Rightarrow> nat \<Rightarrow> bytes" where
  "buf_read buf off n = take n (drop off buf)"

definition buf_get :: "bytes \<Rightarrow> nat \<Rightarrow> nat \<Rightarrow> bytes option" where
  "buf_get buf off n = (if off + n \<le> length buf then Some (buf_read buf off n) else None)"

definition buf_set :: "bytes \<Rightarrow> nat \<Rightarrow> bytes \<Rightarrow> bytes option" where
  "buf_set buf off bs =
     (if off + length bs \<le> length buf then Some (take off buf @ bs @ drop (off + length bs) buf) else None)"

text \<open>\<^verbatim>\<open>BigEndian::read_u16\<close> and \<^verbatim>\<open>write_u16\<close> at an offset; the value is written \<^verbatim>\<open>as u16\<close>.\<close>

definition read_u16 :: "bytes \<Rightarrow> nat \<Rightarrow> nat option" where
  "read_u16 buf off = map_option (\<lambda>bs. unat (u16_from_be_bytes bs)) (buf_get buf off 2)"

definition write_u16 :: "bytes \<Rightarrow> nat \<Rightarrow> nat \<Rightarrow> bytes option" where
  "write_u16 buf off n = buf_set buf off (u16_to_be_bytes (word_of_nat n))"

definition init_page :: "u32 \<Rightarrow> byte \<Rightarrow> bytes option" where
  "init_page page_id page_type =
     do { b1 \<leftarrow> buf_set (replicate PAGE_SIZE 0) 0 (u32_to_be_bytes page_id);
          b2 \<leftarrow> buf_set b1 4 (u64_to_be_bytes 0);
          b3 \<leftarrow> buf_set b2 12 [page_type];
          b4 \<leftarrow> buf_set b3 13 [0];
          b5 \<leftarrow> write_u16 b4 14 0;
          b6 \<leftarrow> write_u16 b5 16 PAGE_HEADER_SIZE;
          b7 \<leftarrow> write_u16 b6 18 PAGE_SIZE;
          buf_set b7 20 (u32_to_be_bytes 0) }"

definition get_page_id :: "bytes \<Rightarrow> u32" where
  "get_page_id buf = u32_from_be_bytes (buf_read buf 0 4)"

definition set_page_id :: "bytes \<Rightarrow> u32 \<Rightarrow> bytes option" where
  "set_page_id buf page_id = buf_set buf 0 (u32_to_be_bytes page_id)"

definition get_lsn :: "bytes \<Rightarrow> u64" where
  "get_lsn buf = u64_from_be_bytes (buf_read buf 4 8)"

definition set_lsn :: "bytes \<Rightarrow> u64 \<Rightarrow> bytes option" where
  "set_lsn buf lsn = buf_set buf 4 (u64_to_be_bytes lsn)"

definition get_page_type :: "bytes \<Rightarrow> byte" where
  "get_page_type buf = buf ! 12"

definition header_u16 :: "bytes \<Rightarrow> nat \<Rightarrow> nat" where
  "header_u16 buf off = unat (u16_from_be_bytes (buf_read buf off 2))"

definition get_tuple_count :: "bytes \<Rightarrow> nat" where
  "get_tuple_count buf = header_u16 buf 14"

definition get_free_space_lower :: "bytes \<Rightarrow> nat" where
  "get_free_space_lower buf = header_u16 buf 16"

definition get_free_space_upper :: "bytes \<Rightarrow> nat" where
  "get_free_space_upper buf = header_u16 buf 18"

definition get_free_space :: "bytes \<Rightarrow> nat" where
  "get_free_space buf =
     (let lower = get_free_space_lower buf; upper = get_free_space_upper buf in
      if lower \<le> upper then upper - lower else 0)"

section \<open>Tuples\<close>

definition insert_tuple :: "bytes \<Rightarrow> bytes \<Rightarrow> (nat option \<times> bytes) option" where
  "insert_tuple buf data =
     (if get_free_space buf < length data + SLOT_SIZE then Some (None, buf)
      else
        let lower = get_free_space_lower buf; upper = get_free_space_upper buf;
            new_upper = upper - length data; new_lower = lower + SLOT_SIZE in
        do { b1 \<leftarrow> buf_set buf new_upper data;
             b2 \<leftarrow> write_u16 b1 lower new_upper;
             b3 \<leftarrow> write_u16 b2 (lower + 2) (length data);
             let tuple_count = get_tuple_count b3;
             b4 \<leftarrow> write_u16 b3 14 (tuple_count + 1);
             b5 \<leftarrow> write_u16 b4 16 new_lower;
             b6 \<leftarrow> write_u16 b5 18 new_upper;
             Some (Some tuple_count, b6) })"

definition slot_offset :: "nat \<Rightarrow> nat" where
  "slot_offset slot_id = PAGE_HEADER_SIZE + slot_id * SLOT_SIZE"

definition read_slot :: "bytes \<Rightarrow> nat \<Rightarrow> (nat \<times> nat) option" where
  "read_slot buf slot_id =
     do { off \<leftarrow> read_u16 buf (slot_offset slot_id); len \<leftarrow> read_u16 buf (slot_offset slot_id + 2);
          Some (off, len) }"

definition live_slot :: "nat \<times> nat \<Rightarrow> bool" where
  "live_slot s \<longleftrightarrow> fst s \<noteq> 0 \<and> snd s \<noteq> 0 \<and> fst s + snd s \<le> PAGE_SIZE"

definition get_tuple :: "bytes \<Rightarrow> nat \<Rightarrow> bytes option option" where
  "get_tuple buf slot_id =
     (if get_tuple_count buf \<le> slot_id then Some None
      else do { s \<leftarrow> read_slot buf slot_id;
                if live_slot s then map_option Some (buf_get buf (fst s) (snd s)) else Some None })"

definition delete_tuple :: "bytes \<Rightarrow> nat \<Rightarrow> (bool \<times> bytes) option" where
  "delete_tuple buf slot_id =
     (if get_tuple_count buf \<le> slot_id then Some (False, buf)
      else do { b1 \<leftarrow> write_u16 buf (slot_offset slot_id) 0;
                b2 \<leftarrow> write_u16 b1 (slot_offset slot_id + 2) 0;
                Some (True, b2) })"

fun live_slots :: "bytes \<Rightarrow> nat list \<Rightarrow> (nat \<times> bytes) list option" where
  "live_slots buf [] = Some []"
| "live_slots buf (i # is) =
     do { s \<leftarrow> read_slot buf i;
          rest \<leftarrow> live_slots buf is;
          if live_slot s then map_option (\<lambda>d. (i, d) # rest) (buf_get buf (fst s) (snd s)) else Some rest }"

text \<open>\<^verbatim>\<open>live_tuple_count\<close> reads the slots only; the first loop of \<^verbatim>\<open>defragment\<close> copies the live tuples out.\<close>

fun count_live :: "bytes \<Rightarrow> nat list \<Rightarrow> nat option" where
  "count_live buf [] = Some 0"
| "count_live buf (i # is) =
     do { s \<leftarrow> read_slot buf i; n \<leftarrow> count_live buf is; Some (if live_slot s then n + 1 else n) }"

definition live_tuple_count :: "bytes \<Rightarrow> nat option" where
  "live_tuple_count buf = count_live buf [0..<get_tuple_count buf]"

definition is_all_dead :: "bytes \<Rightarrow> bool option" where
  "is_all_dead buf = map_option (\<lambda>n. n = 0) (live_tuple_count buf)"

definition mark_as_free :: "bytes \<Rightarrow> bytes option" where
  "mark_as_free buf = init_page (get_page_id buf) 2"

text \<open>The second loop of \<^verbatim>\<open>defragment\<close>; \<^verbatim>\<open>current_upper -= len\<close> panics below zero.\<close>

fun place_tuples :: "(nat \<times> bytes) list \<Rightarrow> nat \<Rightarrow> bytes \<Rightarrow> (nat \<times> bytes) option" where
  "place_tuples [] upper buf = Some (upper, buf)"
| "place_tuples ((i, d) # ts) upper buf =
     (if upper < length d then None
      else do { b1 \<leftarrow> buf_set buf (upper - length d) d;
                b2 \<leftarrow> write_u16 b1 (slot_offset i) (upper - length d);
                b3 \<leftarrow> write_u16 b2 (slot_offset i + 2) (length d);
                place_tuples ts (upper - length d) b3 })"

definition defragment :: "bytes \<Rightarrow> bytes option" where
  "defragment buf =
     do { ts \<leftarrow> live_slots buf [0..<get_tuple_count buf];
          (upper, b1) \<leftarrow> place_tuples ts PAGE_SIZE buf;
          write_u16 b1 18 upper }"

section \<open>Checksums\<close>

definition compute_and_write_checksum :: "(bytes \<Rightarrow> u32) \<Rightarrow> bytes \<Rightarrow> bytes option" where
  "compute_and_write_checksum crc buf =
     do { b1 \<leftarrow> buf_set buf 20 (u32_to_be_bytes 0);
          buf_set b1 20 (u32_to_be_bytes (crc b1)) }"

definition verify_checksum :: "(bytes \<Rightarrow> u32) \<Rightarrow> bytes \<Rightarrow> bool option" where
  "verify_checksum crc buf =
     (let stored = u32_from_be_bytes (buf_read buf 20 4) in
      if stored = 0 then Some True
      else map_option (\<lambda>copy. crc copy = stored) (buf_set buf 20 (u32_to_be_bytes 0)))"

section \<open>Reading and writing bytes\<close>

lemma length_buf_set: "buf_set buf off bs = Some b \<Longrightarrow> length b = length buf"
  by (auto simp: buf_set_def split: if_splits)

lemma buf_set_Some: "off + length bs \<le> length buf \<Longrightarrow> \<exists>b. buf_set buf off bs = Some b"
  by (simp add: buf_set_def)

lemma buf_read_same:
  "buf_set buf off bs = Some b \<Longrightarrow> n = length bs \<Longrightarrow> buf_read b off n = bs"
  by (auto simp: buf_set_def buf_read_def split: if_splits)

lemma buf_read_other:
  assumes "buf_set buf off bs = Some b" "o' + n \<le> off \<or> off + length bs \<le> o'"
  shows "buf_read b o' n = buf_read buf o' n"
proof -
  have b: "b = take off buf @ bs @ drop (off + length bs) buf" "off + length bs \<le> length buf"
    using assms(1) by (auto simp: buf_set_def split: if_splits)
  show ?thesis
  proof (rule nth_equalityI)
    show "length (buf_read b o' n) = length (buf_read buf o' n)"
      using length_buf_set [OF assms(1)] by (simp add: buf_read_def)
    fix i assume "i < length (buf_read b o' n)"
    then have i: "i < n" "o' + i < length buf"
      using length_buf_set [OF assms(1)] by (auto simp: buf_read_def)
    then have "b ! (o' + i) = buf ! (o' + i)"
      using assms(2) b by (auto simp: nth_append)
    with i length_buf_set [OF assms(1)] show "buf_read b o' n ! i = buf_read buf o' n ! i"
      by (simp add: buf_read_def)
  qed
qed

lemma write_u16_Some: "off + 2 \<le> length buf \<Longrightarrow> \<exists>b. write_u16 buf off n = Some b"
  by (simp add: write_u16_def buf_set_def)

lemma length_write_u16: "write_u16 buf off n = Some b \<Longrightarrow> length b = length buf"
  unfolding write_u16_def by (rule length_buf_set)

lemma read_write_u16:
  assumes "write_u16 buf off n = Some b"
  shows "n < 65536 \<Longrightarrow> header_u16 b off = n"
    and "o' + m \<le> off \<or> off + 2 \<le> o' \<Longrightarrow> buf_read b o' m = buf_read buf o' m"
    and "o' + 2 \<le> off \<or> off + 2 \<le> o' \<Longrightarrow> header_u16 b o' = header_u16 buf o'"
proof -
  show *: "buf_read b o' m = buf_read buf o' m" if "o' + m \<le> off \<or> off + 2 \<le> o'" for o' m
    using buf_read_other [OF assms [unfolded write_u16_def]] that by simp
  then show "o' + 2 \<le> off \<or> off + 2 \<le> o' \<Longrightarrow> header_u16 b o' = header_u16 buf o'"
    by (simp add: header_u16_def)
  show "header_u16 b off = n" if "n < 65536"
    using buf_read_same [OF assms [unfolded write_u16_def], of 2] that
    by (simp add: header_u16_def unat_of_nat)
qed

lemma header_u16_bound: "header_u16 buf off < 65536"
  unfolding header_u16_def using unsigned_less [of "u16_from_be_bytes (buf_read buf off 2)"] by simp

lemma read_u16_header: "off + 2 \<le> length buf \<Longrightarrow> read_u16 buf off = Some (header_u16 buf off)"
  by (simp add: read_u16_def header_u16_def buf_get_def)

section \<open>The abstract page\<close>

definition slot :: "bytes \<Rightarrow> nat \<Rightarrow> nat \<times> nat" where
  "slot buf i = (header_u16 buf (slot_offset i), header_u16 buf (slot_offset i + 2))"

definition slots :: "bytes \<Rightarrow> (nat \<times> nat) list" where
  "slots buf = map (slot buf) [0..<get_tuple_count buf]"

definition tuple_at :: "bytes \<Rightarrow> nat \<times> nat \<Rightarrow> bytes option" where
  "tuple_at buf s = (if live_slot s then Some (buf_read buf (fst s) (snd s)) else None)"

definition page_tuples :: "bytes \<Rightarrow> bytes option list" where
  "page_tuples buf = map (tuple_at buf) (slots buf)"

definition live_bytes :: "(nat \<times> nat) list \<Rightarrow> nat" where
  "live_bytes ss = sum_list (map (\<lambda>s. if live_slot s then snd s else 0) ss)"

definition page_wf :: "bytes \<Rightarrow> bool" where
  "page_wf buf \<longleftrightarrow>
     length buf = PAGE_SIZE \<and>
     get_free_space_lower buf = slot_offset (get_tuple_count buf) \<and>
     get_free_space_lower buf \<le> get_free_space_upper buf \<and> get_free_space_upper buf \<le> PAGE_SIZE \<and>
     list_all (\<lambda>s. live_slot s \<longrightarrow> get_free_space_upper buf \<le> fst s) (slots buf) \<and>
     live_bytes (slots buf) \<le> PAGE_SIZE - get_free_space_upper buf"

lemmas sizes = PAGE_SIZE_def PAGE_HEADER_SIZE_def SLOT_SIZE_def slot_offset_def
lemmas fields = get_tuple_count_def get_free_space_lower_def get_free_space_upper_def

lemma page_wfD:
  assumes "page_wf buf"
  shows "length buf = 8192" "header_u16 buf 16 = 32 + 4 * get_tuple_count buf"
    "header_u16 buf 16 \<le> header_u16 buf 18" "header_u16 buf 18 \<le> 8192"
  using assms by (auto simp: page_wf_def sizes fields)

lemma slot_range:
  assumes "page_wf buf" "i < get_tuple_count buf"
  shows "32 \<le> slot_offset i" "slot_offset i + 4 \<le> get_free_space_lower buf"
  using page_wfD [OF assms(1)] assms(2) by (auto simp: sizes fields)

lemma read_slot_wf:
  assumes "page_wf buf" "i < get_tuple_count buf"
  shows "read_slot buf i = Some (slot buf i)"
  using slot_range [OF assms] page_wfD [OF assms(1)] by (simp add: read_slot_def read_u16_header slot_def fields)

lemma live_in_page: "page_wf buf \<Longrightarrow> live_slot s \<Longrightarrow> fst s + snd s \<le> length buf"
  by (simp add: page_wf_def live_slot_def)

lemma get_tuple_wf:
  assumes "page_wf buf"
  shows "get_tuple buf i = Some (if i < length (page_tuples buf) then page_tuples buf ! i else None)"
proof (cases "i < get_tuple_count buf")
  case True
  then show ?thesis
    using read_slot_wf [OF assms True] live_in_page [OF assms, of "slot buf i"]
    by (simp add: get_tuple_def page_tuples_def slots_def tuple_at_def buf_get_def)
qed (simp add: get_tuple_def page_tuples_def slots_def)

section \<open>Insertion\<close>

lemma insert_effect:
  assumes wf: "page_wf buf" and fits: "length data + 4 \<le> get_free_space buf"
  defines "c \<equiv> get_tuple_count buf" and "lo \<equiv> get_free_space_lower buf" and "up \<equiv> get_free_space_upper buf"
  shows "\<exists>b. insert_tuple buf data = Some (Some c, b) \<and> length b = 8192 \<and>
    get_tuple_count b = c + 1 \<and> get_free_space_lower b = lo + 4 \<and> get_free_space_upper b = up - length data \<and>
    slot b c = (up - length data, length data) \<and> buf_read b (up - length data) (length data) = data \<and>
    (\<forall>off n. 20 \<le> off \<and> off + n \<le> lo \<or> up \<le> off \<longrightarrow> buf_read b off n = buf_read buf off n)"
proof -
  let ?n = "length data" and ?nu = "up - length data"
  have lo: "lo = 32 + 4 * c" and len: "length buf = 8192" and up: "up \<le> 8192" and fit: "lo + 4 + ?n \<le> up"
    using page_wfD [OF wf] fits by (auto simp: lo_def c_def up_def fields get_free_space_def Let_def split: if_splits)
  obtain b1 where b1: "buf_set buf ?nu data = Some b1"
    using buf_set_Some [of ?nu data buf] len up fit by auto
  then have l1: "length b1 = 8192" using length_buf_set len by metis
  obtain b2 where b2: "write_u16 b1 lo ?nu = Some b2"
    using write_u16_Some [of lo b1 ?nu] l1 up fit by auto
  then have l2: "length b2 = 8192" using length_write_u16 l1 by metis
  obtain b3 where b3: "write_u16 b2 (lo + 2) ?n = Some b3"
    using write_u16_Some [of "lo + 2" b2 ?n] l2 up fit by auto
  then have l3: "length b3 = 8192" using length_write_u16 l2 by metis
  have c3: "get_tuple_count b3 = c"
    using read_write_u16(3) [OF b3, of 14] read_write_u16(3) [OF b2, of 14] buf_read_other [OF b1, of 14 2] lo fit
    by (simp add: get_tuple_count_def c_def header_u16_def)
  obtain b4 where b4: "write_u16 b3 14 (c + 1) = Some b4"
    using write_u16_Some [of 14 b3 "c + 1"] l3 by auto
  then have l4: "length b4 = 8192" using length_write_u16 l3 by metis
  obtain b5 where b5: "write_u16 b4 16 (lo + 4) = Some b5"
    using write_u16_Some [of 16 b4 "lo + 4"] l4 by auto
  then have l5: "length b5 = 8192" using length_write_u16 l4 by metis
  obtain b6 where b6: "write_u16 b5 18 ?nu = Some b6"
    using write_u16_Some [of 18 b5 ?nu] l5 by auto
  then have l6: "length b6 = 8192" using length_write_u16 l5 by metis
  have run: "insert_tuple buf data = Some (Some c, b6)"
    using fits b1 b2 b3 b4 b5 b6 c3 by (simp add: insert_tuple_def SLOT_SIZE_def Let_def lo_def up_def)
  have hdr: "buf_read b6 off m = buf_read b3 off m" if "20 \<le> off" for off m
    using read_write_u16(2) [OF b6, of off m] read_write_u16(2) [OF b5, of off m]
      read_write_u16(2) [OF b4, of off m] that by simp
  have outside: "buf_read b6 off m = buf_read buf off m"
    if "20 \<le> off \<and> off + m \<le> lo \<or> up \<le> off" for off m
  proof -
    from that fit lo have "20 \<le> off" "off + m \<le> lo \<or> lo + 4 \<le> off" "off + m \<le> ?nu \<or> ?nu + ?n \<le> off" by auto
    with hdr [of off m] read_write_u16(2) [OF b3, of off m] read_write_u16(2) [OF b2, of off m]
      buf_read_other [OF b1, of off m] show ?thesis by auto
  qed
  have "header_u16 b6 14 = c + 1"
    using read_write_u16(3) [OF b6, of 14] read_write_u16(3) [OF b5, of 14] read_write_u16(1) [OF b4] lo fit up by simp
  moreover have "header_u16 b6 16 = lo + 4"
    using read_write_u16(3) [OF b6, of 16] read_write_u16(1) [OF b5] fit up by simp
  moreover have "header_u16 b6 18 = ?nu"
    using read_write_u16(1) [OF b6] up by simp
  moreover have "slot b6 c = (?nu, ?n)"
  proof -
    have "header_u16 b6 lo = header_u16 b3 lo" "header_u16 b6 (lo + 2) = header_u16 b3 (lo + 2)"
      using hdr lo by (simp_all add: header_u16_def)
    moreover have "header_u16 b3 lo = ?nu"
      using read_write_u16(3) [OF b3, of lo] read_write_u16(1) [OF b2] up by simp
    moreover have "header_u16 b3 (lo + 2) = ?n"
      using read_write_u16(1) [OF b3] fit up by simp
    moreover have "slot_offset c = lo" by (simp add: sizes lo)
    ultimately show ?thesis by (simp add: slot_def)
  qed
  moreover have "buf_read b6 ?nu ?n = data"
    using hdr [of ?nu ?n] read_write_u16(2) [OF b3, of ?nu ?n] read_write_u16(2) [OF b2, of ?nu ?n]
      buf_read_same [OF b1, of ?n] fit lo by simp
  ultimately show ?thesis
    using run l6 outside by (auto simp: fields)
qed

text \<open>When slots and live data are read back unchanged, so are the tuples.\<close>

lemma slot_cong:
  assumes "\<And>off n. 20 \<le> off \<and> off + n \<le> lo \<Longrightarrow> buf_read b off n = buf_read buf off n"
    and "slot_offset i + 4 \<le> lo"
  shows "slot b i = slot buf i"
  using assms(1) [of "slot_offset i" 2] assms(1) [of "slot_offset i + 2" 2] assms(2)
  by (simp add: slot_def header_u16_def sizes)

lemma tuple_at_cong:
  assumes "\<And>off n. up \<le> off \<Longrightarrow> buf_read b off n = buf_read buf off n" "live_slot s \<longrightarrow> up \<le> fst s"
  shows "tuple_at b s = tuple_at buf s"
  using assms by (simp add: tuple_at_def)

lemma live_bytes_append [simp]: "live_bytes (xs @ ys) = live_bytes xs + live_bytes ys"
  by (simp add: live_bytes_def)

definition stored :: "bytes \<Rightarrow> bytes option" where
  "stored data = (if data = [] then None else Some data)"

lemma insert_tuple_wf:
  assumes wf: "page_wf buf" and fits: "length data + 4 \<le> get_free_space buf"
  shows "\<exists>b. insert_tuple buf data = Some (Some (length (page_tuples buf)), b) \<and> page_wf b \<and>
    page_tuples b = page_tuples buf @ [stored data]"
proof -
  define c lo up where "c = get_tuple_count buf" "lo = get_free_space_lower buf" "up = get_free_space_upper buf"
  note d = c_lo_up_def
  have fit: "lo + 4 + length data \<le> up" "lo = 32 + 4 * c" "up \<le> 8192"
    using page_wfD [OF wf] fits by (auto simp: d fields get_free_space_def Let_def split: if_splits)
  from insert_effect [OF wf fits] obtain b where b: "insert_tuple buf data = Some (Some c, b)" "length b = 8192"
    "get_tuple_count b = c + 1" "get_free_space_lower b = lo + 4" "get_free_space_upper b = up - length data"
    "slot b c = (up - length data, length data)" "buf_read b (up - length data) (length data) = data"
    and same: "\<And>off n. 20 \<le> off \<and> off + n \<le> lo \<or> up \<le> off \<Longrightarrow> buf_read b off n = buf_read buf off n"
    unfolding d by blast
  have "slot b i = slot buf i" if "i < c" for i
    using slot_cong [of lo b buf i] same slot_range [OF wf, of i] that by (auto simp: d)
  then have sl: "slots b = slots buf @ [(up - length data, length data)]"
    using b(3,6) by (simp add: slots_def d)
  have old: "list_all (\<lambda>s. live_slot s \<longrightarrow> up \<le> fst s) (slots buf)" "live_bytes (slots buf) \<le> 8192 - up"
    using wf by (auto simp: page_wf_def d PAGE_SIZE_def)
  have "map (tuple_at b) (slots buf) = map (tuple_at buf) (slots buf)"
    using old(1) tuple_at_cong [of up b buf] same by (auto simp: list_all_iff)
  moreover have "tuple_at b (up - length data, length data) = stored data"
    using b(7) fit by (auto simp: tuple_at_def stored_def live_slot_def PAGE_SIZE_def)
  ultimately have tup: "page_tuples b = page_tuples buf @ [stored data]"
    by (simp add: page_tuples_def sl)
  have "page_wf b"
    unfolding page_wf_def sl using b fit old
    by (auto simp: PAGE_SIZE_def sizes live_bytes_def list_all_iff)
  with b(1) tup show ?thesis by (auto simp: page_tuples_def slots_def d)
qed

section \<open>Deletion\<close>

lemma slot_offset_disjoint: "j \<noteq> i \<Longrightarrow> slot_offset j + 4 \<le> slot_offset i \<or> slot_offset i + 4 \<le> slot_offset j"
  by (simp add: sizes) linarith

lemma delete_tuple_wf:
  assumes wf: "page_wf buf" and i: "i < length (page_tuples buf)"
  shows "\<exists>b. delete_tuple buf i = Some (True, b) \<and> page_wf b \<and> page_tuples b = (page_tuples buf)[i := None]"
proof -
  have c: "i < get_tuple_count buf" using i by (simp add: page_tuples_def slots_def)
  define k where "k = slot_offset i"
  note r = slot_range [OF wf c]
  have len: "length buf = 8192" "get_free_space_lower buf \<le> get_free_space_upper buf" "get_free_space_upper buf \<le> 8192"
    using page_wfD [OF wf] by (auto simp: fields)
  have k: "32 \<le> k" "k + 4 \<le> get_free_space_lower buf" using r by (simp_all add: k_def)
  obtain b1 where b1: "write_u16 buf k 0 = Some b1"
    using write_u16_Some [of k buf 0] k len by auto
  obtain b where b: "write_u16 b1 (k + 2) 0 = Some b"
    using write_u16_Some [of "k + 2" b1 0] k len length_write_u16 [OF b1] by auto
  have same: "buf_read b off n = buf_read buf off n" if "off + n \<le> k \<or> k + 4 \<le> off" for off n
    using read_write_u16(2) [OF b, of off n] read_write_u16(2) [OF b1, of off n] that by auto
  have hdr: "header_u16 b off = header_u16 buf off" if "off + 2 \<le> 32" for off
    using same [of off 2] that k by (simp add: header_u16_def)
  have zero: "slot b i = (0, 0)"
    using read_write_u16(3) [OF b, of k] read_write_u16(1) [OF b1] read_write_u16(1) [OF b]
    by (simp add: slot_def k_def [symmetric])
  have cnt: "get_tuple_count b = get_tuple_count buf" "get_free_space_lower b = get_free_space_lower buf"
    "get_free_space_upper b = get_free_space_upper buf"
    using hdr by (simp_all add: fields)
  have other: "slot b j = slot buf j" if "j \<noteq> i" for j
    using same [of "slot_offset j" 2] same [of "slot_offset j + 2" 2] slot_offset_disjoint [OF that]
    by (auto simp: slot_def header_u16_def k_def)
  have sl: "slots b = (slots buf)[i := (0, 0)]"
    using c zero other by (intro nth_equalityI) (auto simp: slots_def cnt nth_list_update)
  have dead: "\<not> live_slot (0, 0)" by (simp add: live_slot_def)
  have up: "tuple_at b s = tuple_at buf s" if "live_slot s \<longrightarrow> get_free_space_upper buf \<le> fst s" for s
    using tuple_at_cong [of "get_free_space_upper buf" b buf s] same k len that by auto
  have old: "list_all (\<lambda>s. live_slot s \<longrightarrow> get_free_space_upper buf \<le> fst s) (slots buf)"
    using wf by (simp add: page_wf_def)
  have "map (tuple_at b) (slots buf) = map (tuple_at buf) (slots buf)"
    using old up by (auto simp: list_all_iff)
  moreover have "tuple_at b (0, 0) = None" by (simp add: tuple_at_def dead)
  ultimately have tup: "page_tuples b = (page_tuples buf)[i := None]"
    by (simp only: page_tuples_def sl map_update)
  have "list_all (\<lambda>s. live_slot s \<longrightarrow> get_free_space_upper buf \<le> fst s) (slots b)"
    using old dead unfolding sl list_all_iff by (auto dest!: set_update_subset_insert [THEN subsetD])
  moreover have "live_bytes ((slots buf)[i := (0, 0)]) \<le> live_bytes (slots buf)"
  proof -
    have "i < length (slots buf)" using c by (simp add: slots_def)
    from split_at_nth [OF this] obtain xs ys where "slots buf = xs @ slots buf ! i # ys" "length xs = i" by blast
    then obtain s where x: "slots buf = xs @ s # ys" "length xs = i" by blast
    then have "(slots buf)[i := (0, 0)] = xs @ (0, 0) # ys" by (metis list_update_length)
    with x dead show ?thesis by (simp add: live_bytes_def)
  qed
  ultimately have "page_wf b"
    using wf length_write_u16 [OF b] length_write_u16 [OF b1] unfolding page_wf_def cnt by (auto simp: sl)
  moreover have "delete_tuple buf i = Some (True, b)"
    using c b1 b by (simp add: delete_tuple_def k_def)
  ultimately show ?thesis using tup by blast
qed

section \<open>Defragmentation\<close>

definition total :: "(nat \<times> bytes) list \<Rightarrow> nat" where
  "total ts = sum_list (map (\<lambda>t. length (snd t)) ts)"

lemma total_Cons [simp]: "total [] = 0" "total (t # ts) = length (snd t) + total ts"
  by (simp_all add: total_def)

lemma place_tuples_effect:
  assumes "length buf = 8192" "up \<le> 8192" "lo + total ts \<le> up" "distinct (map fst ts)"
    and "\<forall>i\<in>set (map fst ts). slot_offset i + 4 \<le> lo"
  shows "\<exists>b. place_tuples ts up buf = Some (up - total ts, b) \<and> length b = 8192 \<and>
    (\<forall>off n. off + n \<le> 32 \<or> up \<le> off \<longrightarrow> buf_read b off n = buf_read buf off n) \<and>
    (\<forall>j. j \<notin> set (map fst ts) \<longrightarrow> slot_offset j + 4 \<le> lo \<longrightarrow> slot b j = slot buf j) \<and>
    (\<forall>(i, d)\<in>set ts. \<exists>off. slot b i = (off, length d) \<and> up - total ts \<le> off \<and> off + length d \<le> up \<and>
        buf_read b off (length d) = d)"
  using assms
proof (induction ts arbitrary: up buf)
  case (Cons t ts)
  obtain i d where t: "t = (i, d)" by (cases t)
  let ?n = "length d" and ?nu = "up - length d" and ?k = "slot_offset i"
  have fit: "lo + ?n + total ts \<le> up" "up \<le> 8192" "?k + 4 \<le> lo" "32 \<le> ?k"
    using Cons.prems(2,3,5) by (auto simp: t sizes)
  obtain b1 where b1: "buf_set buf ?nu d = Some b1"
    using buf_set_Some [of ?nu d buf] Cons.prems(1) fit by auto
  then have l1: "length b1 = 8192" using length_buf_set Cons.prems(1) by metis
  obtain b2 where b2: "write_u16 b1 ?k ?nu = Some b2"
    using write_u16_Some [of ?k b1 ?nu] l1 fit by auto
  then have l2: "length b2 = 8192" using length_write_u16 l1 by metis
  obtain b3 where b3: "write_u16 b2 (?k + 2) ?n = Some b3"
    using write_u16_Some [of "?k + 2" b2 ?n] l2 fit by auto
  then have l3: "length b3 = 8192" using length_write_u16 l2 by metis
  have pre: "?nu \<le> 8192" "lo + total ts \<le> ?nu" "distinct (map fst ts)" "\<forall>i\<in>set (map fst ts). slot_offset i + 4 \<le> lo"
    using Cons.prems fit by (auto simp: t)
  from Cons.IH [OF l3 pre] obtain b where
    b: "place_tuples ts ?nu b3 = Some (?nu - total ts, b)" "length b = 8192"
    and same: "\<And>off n. off + n \<le> 32 \<or> ?nu \<le> off \<Longrightarrow> buf_read b off n = buf_read b3 off n"
    and keep: "\<And>j. j \<notin> set (map fst ts) \<Longrightarrow> slot_offset j + 4 \<le> lo \<Longrightarrow> slot b j = slot b3 j"
    and put: "\<forall>(i, d)\<in>set ts. \<exists>off. slot b i = (off, length d) \<and> ?nu - total ts \<le> off \<and> off + length d \<le> ?nu \<and>
        buf_read b off (length d) = d"
    by blast
  have three: "buf_read b3 off n = buf_read buf off n"
    if "off + n \<le> ?k \<or> ?k + 4 \<le> off" "off + n \<le> ?nu \<or> up \<le> off" for off n
    using read_write_u16(2) [OF b3, of off n] read_write_u16(2) [OF b2, of off n] buf_read_other [OF b1, of off n] that fit
    by auto
  have "buf_read b off n = buf_read buf off n" if "off + n \<le> 32 \<or> up \<le> off" for off n
  proof -
    have "off + n \<le> 32 \<or> ?nu \<le> off" "off + n \<le> ?k \<or> ?k + 4 \<le> off" "off + n \<le> ?nu \<or> up \<le> off"
      using that fit by auto
    with same three show ?thesis by metis
  qed
  moreover have "slot b j = slot buf j" if "j \<notin> set (map fst (t # ts))" "slot_offset j + 4 \<le> lo" for j
  proof -
    have "slot_offset j + 4 \<le> ?k \<or> ?k + 4 \<le> slot_offset j" using that(1) by (intro slot_offset_disjoint) (simp add: t)
    then have "slot b3 j = slot buf j"
      using three [of "slot_offset j" 2] three [of "slot_offset j + 2" 2] that(2) fit
      by (auto simp: slot_def header_u16_def)
    with keep [of j] that show ?thesis by simp
  qed
  moreover have "slot b i = (?nu, ?n)"
  proof -
    have "slot b3 i = (?nu, ?n)"
      using read_write_u16(3) [OF b3, of ?k] read_write_u16(1) [OF b2] read_write_u16(1) [OF b3] fit
      by (simp add: slot_def)
    with keep [of i] Cons.prems(4) fit show ?thesis by (simp add: t)
  qed
  moreover have "buf_read b ?nu ?n = d"
    using same [of ?nu ?n] read_write_u16(2) [OF b3, of ?nu ?n] read_write_u16(2) [OF b2, of ?nu ?n]
      buf_read_same [OF b1, of ?n] fit by simp
  moreover have "place_tuples (t # ts) up buf = Some (up - total (t # ts), b)"
    using b(1) b1 b2 b3 fit by (simp add: t)
  moreover have "\<forall>(i, d)\<in>set ts. \<exists>off. slot b i = (off, length d) \<and> up - total (t # ts) \<le> off \<and> off + length d \<le> up \<and>
        buf_read b off (length d) = d"
    using put fit by (force simp: t)
  ultimately show ?case
    using b(2) fit by (intro exI [of _ b]) (auto simp: t)
qed simp

lemma live_slots_effect:
  assumes "page_wf buf" "\<forall>i\<in>set is. i < get_tuple_count buf"
  shows "live_slots buf is =
    Some (map (\<lambda>i. (i, buf_read buf (fst (slot buf i)) (snd (slot buf i)))) (filter (\<lambda>i. live_slot (slot buf i)) is))"
  using assms(2)
proof (induction "is")
  case (Cons i "is")
  then have "read_slot buf i = Some (slot buf i)" using read_slot_wf [OF assms(1)] by simp
  moreover have "live_slot (slot buf i) \<Longrightarrow> buf_get buf (fst (slot buf i)) (snd (slot buf i)) =
      Some (buf_read buf (fst (slot buf i)) (snd (slot buf i)))"
    using live_in_page [OF assms(1), of "slot buf i"] by (simp add: buf_get_def)
  ultimately show ?case using Cons by simp
qed simp

lemma count_live_effect:
  assumes "page_wf buf" "\<forall>i\<in>set is. i < get_tuple_count buf"
  shows "count_live buf is = Some (length (filter (\<lambda>i. live_slot (slot buf i)) is))"
  using assms(2)
proof (induction "is")
  case (Cons i "is")
  then have "read_slot buf i = Some (slot buf i)" using read_slot_wf [OF assms(1)] by simp
  with Cons show ?case by simp
qed simp

lemma length_buf_read: "off + n \<le> length buf \<Longrightarrow> length (buf_read buf off n) = n"
  by (simp add: buf_read_def)

lemma defragment_wf:
  assumes wf: "page_wf buf"
  shows "\<exists>b. defragment buf = Some b \<and> page_wf b \<and> page_tuples b = page_tuples buf \<and>
    get_free_space b = PAGE_SIZE - get_free_space_lower buf - live_bytes (slots buf)"
proof -
  let ?c = "get_tuple_count buf" and ?lo = "get_free_space_lower buf" and ?up = "get_free_space_upper buf"
  let ?tup = "\<lambda>i. buf_read buf (fst (slot buf i)) (snd (slot buf i))"
  define ids ts where "ids = filter (\<lambda>i. live_slot (slot buf i)) [0..<?c]" "ts = map (\<lambda>i. (i, ?tup i)) ids"
  note d = ids_ts_def
  have live: "live_slots buf [0..<?c] = Some ts" using live_slots_effect [OF wf] by (simp add: d)
  have hd: "length buf = 8192" "?lo = 32 + 4 * ?c" "?lo \<le> ?up" "?up \<le> 8192"
    using page_wfD [OF wf] by (simp_all add: fields)
  have lens: "length (?tup i) = snd (slot buf i)" if "live_slot (slot buf i)" for i
    using live_in_page [OF wf that] by (rule length_buf_read)
  have tot: "total ts = live_bytes (slots buf)"
  proof -
    have "total (map (\<lambda>i. (i, ?tup i)) (filter (\<lambda>i. live_slot (slot buf i)) xs)) = live_bytes (map (slot buf) xs)" for xs
      using lens by (induction xs) (auto simp: live_bytes_def)
    then show ?thesis by (simp add: d slots_def)
  qed
  have "live_bytes (slots buf) \<le> 8192 - ?up" using wf by (simp add: page_wf_def PAGE_SIZE_def)
  with tot hd have room: "?lo + total ts \<le> 8192" by linarith
  have "\<forall>i\<in>set (map fst ts). slot_offset i + 4 \<le> ?lo"
    using slot_range(2) [OF wf] by (auto simp: d)
  moreover have "distinct (map fst ts)" by (simp add: d o_def)
  ultimately obtain b1 where b1: "place_tuples ts 8192 buf = Some (8192 - total ts, b1)" "length b1 = 8192"
    and same: "\<And>off n. off + n \<le> 32 \<or> 8192 \<le> off \<Longrightarrow> buf_read b1 off n = buf_read buf off n"
    and keep: "\<And>j. j \<notin> set (map fst ts) \<Longrightarrow> slot_offset j + 4 \<le> ?lo \<Longrightarrow> slot b1 j = slot buf j"
    and put: "\<And>i d. (i, d) \<in> set ts \<Longrightarrow> \<exists>off. slot b1 i = (off, length d) \<and> 8192 - total ts \<le> off \<and> off + length d \<le> 8192 \<and>
        buf_read b1 off (length d) = d"
    using place_tuples_effect [OF hd(1) _ room] by blast
  obtain b where b: "write_u16 b1 18 (8192 - total ts) = Some b"
    using write_u16_Some [of 18 b1] b1(2) by auto
  have b_read: "buf_read b off n = buf_read b1 off n" if "20 \<le> off" for off n
    using read_write_u16(2) [OF b, of off n] that by simp
  have b_slot: "slot b j = slot b1 j" for j
    using b_read by (simp add: slot_def header_u16_def sizes)
  have cnt: "get_tuple_count b = ?c" "get_free_space_lower b = ?lo" "get_free_space_upper b = 8192 - total ts"
    using read_write_u16(3) [OF b, of 14] read_write_u16(3) [OF b, of 16] same [of 14 2] same [of 16 2]
      read_write_u16(1) [OF b] by (simp_all add: fields header_u16_def)
  have each: "tuple_at b (slot b i) = tuple_at buf (slot buf i) \<and>
      (live_slot (slot b i) \<longrightarrow> 8192 - total ts \<le> fst (slot b i)) \<and>
      (if live_slot (slot b i) then snd (slot b i) else 0) = (if live_slot (slot buf i) then snd (slot buf i) else 0)"
    if i: "i < ?c" for i
  proof (cases "live_slot (slot buf i)")
    case True
    with i have "(i, ?tup i) \<in> set ts" by (auto simp: d)
    from put [OF this] obtain off where off: "slot b1 i = (off, length (?tup i))" "8192 - total ts \<le> off"
      "off + length (?tup i) \<le> 8192" "buf_read b1 off (length (?tup i)) = ?tup i" by blast
    have n: "length (?tup i) = snd (slot buf i)" "snd (slot buf i) \<noteq> 0"
      using lens [OF True] True by (auto simp: live_slot_def)
    have "32 \<le> off" using off(2) room hd by linarith
    then have "live_slot (slot b i)" "buf_read b off (length (?tup i)) = ?tup i"
      using off n b_read [of off] by (auto simp: b_slot live_slot_def PAGE_SIZE_def)
    with off n True show ?thesis by (auto simp: tuple_at_def b_slot)
  next
    case False
    with i have "slot b1 i = slot buf i" using keep [of i] slot_range(2) [OF wf] by (auto simp: d)
    with False show ?thesis by (simp add: tuple_at_def b_slot)
  qed
  have tup: "page_tuples b = page_tuples buf"
    using each by (simp add: page_tuples_def slots_def cnt)
  have lb: "live_bytes (slots b) = live_bytes (slots buf)"
    using each unfolding live_bytes_def slots_def cnt map_map o_def
    by (intro arg_cong [where f = sum_list] map_cong refl) auto
  have "page_wf b"
    unfolding page_wf_def cnt lb using each length_write_u16 [OF b] b1(2) hd room tot wf
    by (auto simp: PAGE_SIZE_def slots_def cnt list_all_iff page_wf_def)
  moreover have "defragment buf = Some b"
    using live b1(1) b by (simp add: defragment_def PAGE_SIZE_def)
  moreover have "get_free_space b = PAGE_SIZE - ?lo - live_bytes (slots buf)"
    using room tot by (simp add: get_free_space_def cnt PAGE_SIZE_def Let_def add.commute)
  ultimately show ?thesis using tup by blast
qed

section \<open>Fresh pages\<close>

lemma init_page_wf: "\<exists>b. init_page page_id page_type = Some b \<and> page_wf b \<and> page_tuples b = [] \<and>
  get_page_id b = page_id \<and> get_page_type b = page_type \<and> get_free_space b = 8160"
proof -
  define z where "z = replicate PAGE_SIZE (0 :: byte)"
  have lz: "length z = 8192" by (simp add: z_def PAGE_SIZE_def)
  obtain b1 where b1: "buf_set z 0 (u32_to_be_bytes page_id) = Some b1" using buf_set_Some [of 0] lz by fastforce
  then have l1: "length b1 = 8192" using length_buf_set lz by metis
  obtain b2 where b2: "buf_set b1 4 (u64_to_be_bytes 0) = Some b2" using buf_set_Some [of 4] l1 by fastforce
  then have l2: "length b2 = 8192" using length_buf_set l1 by metis
  obtain b3 where b3: "buf_set b2 12 [page_type] = Some b3" using buf_set_Some [of 12] l2 by fastforce
  then have l3: "length b3 = 8192" using length_buf_set l2 by metis
  obtain b4 where b4: "buf_set b3 13 [0] = Some b4" using buf_set_Some [of 13] l3 by fastforce
  then have l4: "length b4 = 8192" using length_buf_set l3 by metis
  obtain b5 where b5: "write_u16 b4 14 0 = Some b5" using write_u16_Some [of 14] l4 by fastforce
  then have l5: "length b5 = 8192" using length_write_u16 l4 by metis
  obtain b6 where b6: "write_u16 b5 16 32 = Some b6" using write_u16_Some [of 16] l5 by fastforce
  then have l6: "length b6 = 8192" using length_write_u16 l5 by metis
  obtain b7 where b7: "write_u16 b6 18 8192 = Some b7" using write_u16_Some [of 18] l6 by fastforce
  then have l7: "length b7 = 8192" using length_write_u16 l6 by metis
  obtain b where b: "buf_set b7 20 (u32_to_be_bytes 0) = Some b" using buf_set_Some [of 20] l7 by fastforce
  then have l: "length b = 8192" using length_buf_set l7 by metis
  have up: "buf_read b off n = buf_read b7 off n" if "off + n \<le> 20" for off n
    using buf_read_other [OF b, of off n] that by simp
  have u16: "header_u16 b off = header_u16 b7 off" if "off + 2 \<le> 20" for off
    using up [of off 2] that by (simp add: header_u16_def)
  have "header_u16 b 14 = 0"
    using u16 [of 14] read_write_u16(3) [OF b7, of 14] read_write_u16(3) [OF b6, of 14] read_write_u16(1) [OF b5] by simp
  moreover have "header_u16 b 16 = 32"
    using u16 [of 16] read_write_u16(3) [OF b7, of 16] read_write_u16(1) [OF b6] by simp
  moreover have "header_u16 b 18 = 8192"
    using u16 [of 18] read_write_u16(1) [OF b7] by simp
  moreover have low: "buf_read b off n = buf_read b4 off n" if "off + n \<le> 14" for off n
    using up [of off n] read_write_u16(2) [OF b7, of off n] read_write_u16(2) [OF b6, of off n]
      read_write_u16(2) [OF b5, of off n] that by simp
  moreover have "get_page_id b = page_id"
    using low [of 0 4] buf_read_other [OF b4, of 0 4] buf_read_other [OF b3, of 0 4] buf_read_other [OF b2, of 0 4]
      buf_read_same [OF b1, of 4] by (simp add: get_page_id_def)
  moreover have "get_page_type b = page_type"
  proof -
    have "buf_read b 12 1 = [page_type]"
      using low [of 12 1] buf_read_other [OF b4, of 12 1] buf_read_same [OF b3, of 1] by simp
    then have "take 1 (drop 12 b) = [page_type]" by (simp add: buf_read_def)
    then show ?thesis using l by (simp add: get_page_type_def take_Suc hd_drop_conv_nth)
  qed
  moreover have "init_page page_id page_type = Some b"
    using b1 b2 b3 b4 b5 b6 b7 b by (simp add: init_page_def z_def sizes)
  ultimately show ?thesis
    using l by (intro exI [of _ b]) (simp add: page_wf_def page_tuples_def slots_def fields sizes live_bytes_def get_free_space_def)
qed

section \<open>The page refines a list of tuples\<close>

datatype page_op = Insert bytes | DeleteSlot nat | Defragment

definition page_step :: "bytes \<Rightarrow> page_op \<Rightarrow> bytes option" where
  "page_step buf a =
     (case a of
        Insert data \<Rightarrow> map_option snd (insert_tuple buf data)
      | DeleteSlot i \<Rightarrow> map_option snd (delete_tuple buf i)
      | Defragment \<Rightarrow> defragment buf)"

text \<open>The specification; an insert is refused when \<open>full\<close> says so.\<close>

definition spec_step :: "bool \<Rightarrow> bytes option list \<Rightarrow> page_op \<Rightarrow> bytes option list" where
  "spec_step full ts a =
     (case a of
        Insert data \<Rightarrow> if full then ts else ts @ [stored data]
      | DeleteSlot i \<Rightarrow> ts[i := None]
      | Defragment \<Rightarrow> ts)"

definition page_full :: "bytes \<Rightarrow> page_op \<Rightarrow> bool" where
  "page_full buf a = (case a of Insert data \<Rightarrow> get_free_space buf < length data + 4 | _ \<Rightarrow> False)"

lemma page_step_wf:
  assumes "page_wf buf"
  shows "\<exists>b. page_step buf a = Some b \<and> page_wf b \<and> page_tuples b = spec_step (page_full buf a) (page_tuples buf) a"
proof (cases a)
  case (Insert data)
  show ?thesis
  proof (cases "page_full buf a")
    case True
    with assms show ?thesis
      by (simp add: Insert page_step_def insert_tuple_def page_full_def spec_step_def SLOT_SIZE_def)
  next
    case False
    with insert_tuple_wf [OF assms, of data] show ?thesis
      by (auto simp: Insert page_step_def page_full_def spec_step_def)
  qed
next
  case (DeleteSlot i)
  show ?thesis
  proof (cases "i < length (page_tuples buf)")
    case True
    with delete_tuple_wf [OF assms True] show ?thesis
      by (auto simp: DeleteSlot page_step_def spec_step_def)
  next
    case False
    with assms show ?thesis
      by (simp add: DeleteSlot page_step_def spec_step_def delete_tuple_def page_tuples_def slots_def list_update_beyond)
  qed
next
  case Defragment
  with defragment_wf [OF assms] show ?thesis by (auto simp: page_step_def spec_step_def)
qed

inductive page_run :: "bytes \<Rightarrow> page_op list \<Rightarrow> bytes \<Rightarrow> bool" where
  page_run_Nil: "page_run buf [] buf"
| page_run_Cons: "page_step buf a = Some b \<Longrightarrow> page_run b as c \<Longrightarrow> page_run buf (a # as) c"

fun spec_run :: "bytes \<Rightarrow> bytes option list \<Rightarrow> page_op list \<Rightarrow> bytes option list" where
  "spec_run buf ts [] = ts"
| "spec_run buf ts (a # as) =
     spec_run (the (page_step buf a)) (spec_step (page_full buf a) ts a) as"

lemma page_run_total:
  "page_wf buf \<Longrightarrow> \<exists>b. page_run buf as b \<and> page_wf b \<and> page_tuples b = spec_run buf (page_tuples buf) as"
proof (induction as arbitrary: buf)
  case (Cons a as)
  from page_step_wf [OF Cons.prems, of a] obtain b where
    b: "page_step buf a = Some b" "page_wf b" "page_tuples b = spec_step (page_full buf a) (page_tuples buf) a" by blast
  from Cons.IH [OF b(2)] b show ?case by (auto intro: page_run_Cons)
qed (auto intro: page_run_Nil)


text \<open>Defragmentation reclaims all the space of deleted tuples: afterwards the free space is the page
  less the header, the slot array and the live tuples, every tuple still reads the same, and the page
  counts as dead exactly when no slot holds a tuple.\<close>

theorem defragment_reclaims:
  assumes "page_wf buf"
  shows "\<exists>b. defragment buf = Some b \<and> page_wf b \<and> (\<forall>i. get_tuple b i = get_tuple buf i) \<and>
    get_free_space b = PAGE_SIZE - get_free_space_lower buf - sum_list (map (\<lambda>t. case t of Some d \<Rightarrow> length d | None \<Rightarrow> 0) (page_tuples buf)) \<and>
    is_all_dead buf = Some (\<forall>i. get_tuple buf i = Some None)"
proof -
  have "live_bytes (slots buf) = sum_list (map (\<lambda>t. case t of Some d \<Rightarrow> length d | None \<Rightarrow> 0) (page_tuples buf))"
    using live_in_page [OF assms] length_buf_read
    by (auto simp: live_bytes_def page_tuples_def tuple_at_def intro!: arg_cong [where f = sum_list])
  moreover have "is_all_dead buf = Some (\<forall>i. get_tuple buf i = Some None)"
    using count_live_effect [OF assms, of "[0..<get_tuple_count buf]"]
    by (auto simp: is_all_dead_def live_tuple_count_def get_tuple_wf [OF assms] page_tuples_def slots_def tuple_at_def
        filter_empty_conv)
  moreover from defragment_wf [OF assms] obtain b where "defragment buf = Some b" "page_wf b" "page_tuples b = page_tuples buf"
    "get_free_space b = PAGE_SIZE - get_free_space_lower buf - live_bytes (slots buf)" by blast
  ultimately show ?thesis by (auto simp: get_tuple_wf assms)
qed

theorem defragment_reclaims_witness:
  "\<exists>p b. init_page 7 0 = Some p \<and> defragment p = Some b \<and> get_free_space b = 8192 - 32"
proof -
  from init_page_wf obtain p where p: "init_page 7 0 = Some p" "page_wf p" "page_tuples p = []" by blast
  then have "get_free_space_lower p = 32" by (simp add: page_wf_def page_tuples_def slots_def sizes)
  with defragment_reclaims [OF p(2)] p show ?thesis by (auto simp: PAGE_SIZE_def)
qed

text \<open>An empty tuple is accepted and given a slot, but the slot reads as deleted.\<close>

theorem empty_tuple_lost:
  "\<exists>p b. init_page page_id page_type = Some p \<and> insert_tuple p [] = Some (Some 0, b) \<and> get_tuple b 0 = Some None"
proof -
  from init_page_wf obtain p where p: "init_page page_id page_type = Some p" "page_wf p" "page_tuples p = []"
    "get_free_space p = 8160" by blast
  with insert_tuple_wf [OF p(2), of "[]"] p show ?thesis by (auto simp: get_tuple_wf stored_def)
qed

text \<open>A page whose checksum was written verifies, and a checksum of zero disables the check.\<close>

theorem checksum_verifies:
  assumes "length buf = PAGE_SIZE"
  shows "\<exists>b. compute_and_write_checksum crc buf = Some b \<and> verify_checksum crc b = Some True \<and>
    (\<forall>off n. off + n \<le> 20 \<or> 24 \<le> off \<longrightarrow> buf_read b off n = buf_read buf off n)"
proof -
  obtain b1 where b1: "buf_set buf 20 (u32_to_be_bytes 0) = Some b1"
    using buf_set_Some [of 20 "u32_to_be_bytes 0" buf] assms by (auto simp: PAGE_SIZE_def)
  obtain b where b: "buf_set b1 20 (u32_to_be_bytes (crc b1)) = Some b"
    using buf_set_Some [of 20 "u32_to_be_bytes (crc b1)" b1] assms length_buf_set [OF b1] by (auto simp: PAGE_SIZE_def)
  have "buf_set b 20 (u32_to_be_bytes 0) = Some b1"
    using b1 b by (auto simp: buf_set_def split: if_splits)
  then have "verify_checksum crc b = Some True"
    using buf_read_same [OF b, of 4] by (simp add: verify_checksum_def Let_def)
  moreover have "buf_read b off n = buf_read buf off n" if "off + n \<le> 20 \<or> 24 \<le> off" for off n
    using buf_read_other [OF b, of off n] buf_read_other [OF b1, of off n] that by simp
  ultimately show ?thesis using b1 b by (auto simp: compute_and_write_checksum_def)
qed

end
