(* ===== verification/Buffer_Pool.thy ===== *)
theory Buffer_Pool
  imports Slotted_Page KV_Interface
begin

text \<open>
  The buffer pool (\<^verbatim>\<open>crates/h2-mvstore/src/buffer_pool\<close>): the clock replacer, the disk manager and the
  manager that caches pages in frames.  Every operation holds the locks it needs and is one step on the
  record of the pool.  The pool promises to be transparent: what a client reads from a page it has pinned is
  what was last written to it, whatever was evicted in between.
\<close>

section \<open>Clock replacement\<close>

record clock_replacer =
  clock_hand :: nat
  ref_bits :: "bool list"
  in_replacer :: "bool list"

definition replacer_new :: "nat \<Rightarrow> clock_replacer" where
  "replacer_new n = \<lparr>clock_hand = 0, ref_bits = replicate n False, in_replacer = replicate n False\<rparr>"

definition num_frames :: "clock_replacer \<Rightarrow> nat" where
  "num_frames r = length (in_replacer r)"

fun victim_loop :: "nat \<Rightarrow> clock_replacer \<Rightarrow> nat option \<times> clock_replacer" where
  "victim_loop 0 r = (None, r)"
| "victim_loop (Suc k) r =
     (let cur = clock_hand r; r1 = r\<lparr>clock_hand := (cur + 1) mod num_frames r\<rparr> in
      if in_replacer r ! cur then
        (if ref_bits r ! cur then victim_loop k (r1\<lparr>ref_bits := (ref_bits r)[cur := False]\<rparr>)
         else (Some cur, r1\<lparr>in_replacer := (in_replacer r)[cur := False]\<rparr>))
      else victim_loop k r1)"

definition victim :: "clock_replacer \<Rightarrow> nat option \<times> clock_replacer" where
  "victim r = victim_loop (num_frames r * 2) r"

definition replacer_pin :: "clock_replacer \<Rightarrow> nat \<Rightarrow> clock_replacer" where
  "replacer_pin r f =
     (if f < num_frames r
      then r\<lparr>in_replacer := (in_replacer r)[f := False], ref_bits := (ref_bits r)[f := False]\<rparr> else r)"

definition replacer_unpin :: "clock_replacer \<Rightarrow> nat \<Rightarrow> clock_replacer" where
  "replacer_unpin r f =
     (if f < num_frames r
      then r\<lparr>in_replacer := (in_replacer r)[f := True], ref_bits := (ref_bits r)[f := True]\<rparr> else r)"

definition replacer_size :: "clock_replacer \<Rightarrow> nat" where
  "replacer_size r = length (filter id (in_replacer r))"

section \<open>Disk manager\<close>

text \<open>
  An \<^verbatim>\<open>io::Error\<close> is its message.  \<open>dm_file\<close> is the page file, or \<open>None\<close> for the manager in memory.  \<open>write_fails\<close> makes the next write to
  the file fail; a read fails when the file is too short.
\<close>

type_synonym 'a io_result = "string + 'a"

record disk_manager =
  dm_file :: "bytes option"
  dm_memory :: "(u32, bytes) hashmap"
  dm_num_pages :: u32
  dm_free_pages :: "u32 list"
  write_fails :: bool

definition disk_in_memory :: disk_manager where
  "disk_in_memory = \<lparr>dm_file = None, dm_memory = [], dm_num_pages = 0, dm_free_pages = [], write_fails = False\<rparr>"

definition disk_open :: "bytes \<Rightarrow> disk_manager" where
  "disk_open content =
     \<lparr>dm_file = Some content, dm_memory = [], dm_num_pages = word_of_nat (length content div PAGE_SIZE),
      dm_free_pages = [], write_fails = False\<rparr>"

definition read_page :: "disk_manager \<Rightarrow> u32 \<Rightarrow> bytes io_result" where
  "read_page dm page_id =
     (case dm_file dm of
        Some content \<Rightarrow>
          (let off = unat page_id * PAGE_SIZE in
           if off + PAGE_SIZE \<le> length content then Inr (take PAGE_SIZE (drop off content))
           else Inl ''failed to fill whole buffer'')
      | None \<Rightarrow>
          Inr (case map_of (dm_memory dm) page_id of Some d \<Rightarrow> d | None \<Rightarrow> replicate PAGE_SIZE 0))"

text \<open>Writing past the end of the file fills the gap with zeros.\<close>

definition file_write :: "bytes \<Rightarrow> nat \<Rightarrow> bytes \<Rightarrow> bytes" where
  "file_write content off bs =
     take off (content @ replicate (off - length content) 0) @ bs @ drop (off + length bs) content"

definition write_page :: "disk_manager \<Rightarrow> u32 \<Rightarrow> bytes \<Rightarrow> disk_manager io_result" where
  "write_page dm page_id buf =
     (if dm_file dm \<noteq> None \<and> write_fails dm then Inl ''write failed''
      else
        let dm1 = (case dm_file dm of
                     Some content \<Rightarrow> dm\<lparr>dm_file := Some (file_write content (unat page_id * PAGE_SIZE) buf)\<rparr>
                   | None \<Rightarrow> dm\<lparr>dm_memory := AList.update page_id buf (dm_memory dm)\<rparr>) in
        Inr (if dm_num_pages dm1 \<le> page_id then dm1\<lparr>dm_num_pages := page_id + 1\<rparr> else dm1))"

definition allocate_page :: "disk_manager \<Rightarrow> u32 \<times> disk_manager" where
  "allocate_page dm =
     (if dm_free_pages dm \<noteq> [] then (last (dm_free_pages dm), dm\<lparr>dm_free_pages := butlast (dm_free_pages dm)\<rparr>)
      else (dm_num_pages dm, dm\<lparr>dm_num_pages := dm_num_pages dm + 1\<rparr>))"

definition deallocate_page :: "disk_manager \<Rightarrow> u32 \<Rightarrow> disk_manager" where
  "deallocate_page dm page_id =
     (if page_id \<in> set (dm_free_pages dm) then dm else dm\<lparr>dm_free_pages := dm_free_pages dm @ [page_id]\<rparr>)"

section \<open>Buffer pool manager\<close>

record page_frame =
  pf_data :: bytes
  pf_page_id :: u32
  pf_pin_count :: u32
  pf_is_dirty :: bool

definition NO_PAGE :: u32 where "NO_PAGE = - 1"

definition page_frame_new :: page_frame where
  "page_frame_new = \<lparr>pf_data = replicate PAGE_SIZE 0, pf_page_id = NO_PAGE, pf_pin_count = 0, pf_is_dirty = False\<rparr>"

record buffer_pool =
  bp_disk :: disk_manager
  bp_replacer :: clock_replacer
  bp_frames :: "page_frame list"
  bp_table :: "(u32, nat) hashmap"

definition pool_new :: "disk_manager \<Rightarrow> nat \<Rightarrow> buffer_pool" where
  "pool_new dm n =
     \<lparr>bp_disk = dm, bp_replacer = fold (\<lambda>f r. replacer_unpin r f) [0..<n] (replacer_new n),
      bp_frames = replicate n page_frame_new, bp_table = []\<rparr>"

text \<open>Writing a dirty page of a victim frame back to disk, without a fresh checksum.\<close>

definition evict :: "string \<Rightarrow> buffer_pool \<Rightarrow> nat \<Rightarrow> unit h2_result \<times> buffer_pool" where
  "evict msg bp f =
     (let fr = bp_frames bp ! f in
      if pf_is_dirty fr \<and> pf_page_id fr \<noteq> NO_PAGE then
        (case write_page (bp_disk bp) (pf_page_id fr) (pf_data fr) of
           Inl e \<Rightarrow> (Inl (Storage (msg @ e)), bp)
         | Inr dm \<Rightarrow>
             (Inr (), bp\<lparr>bp_disk := dm, bp_frames := (bp_frames bp)[f := fr\<lparr>pf_is_dirty := False\<rparr>]\<rparr>))
      else (Inr (), bp))"

definition unmap_frame :: "buffer_pool \<Rightarrow> nat \<Rightarrow> buffer_pool" where
  "unmap_frame bp f =
     (let fr = bp_frames bp ! f in
      if pf_page_id fr \<noteq> NO_PAGE then bp\<lparr>bp_table := AList.delete (pf_page_id fr) (bp_table bp)\<rparr> else bp)"

definition fetch_page :: "buffer_pool \<Rightarrow> u32 \<Rightarrow> nat h2_result \<times> buffer_pool" where
  "fetch_page bp page_id =
     (case map_of (bp_table bp) page_id of
        Some f \<Rightarrow>
          (let fr = bp_frames bp ! f in
           (Inr f, bp\<lparr>bp_frames := (bp_frames bp)[f := fr\<lparr>pf_pin_count := pf_pin_count fr + 1\<rparr>],
                      bp_replacer := replacer_pin (bp_replacer bp) f\<rparr>))
      | None \<Rightarrow>
          (case victim (bp_replacer bp) of
             (None, r) \<Rightarrow> (Inl (Storage ''All buffer pool frames are currently pinned; out of memory''),
                            bp\<lparr>bp_replacer := r\<rparr>)
           | (Some f, r) \<Rightarrow>
               (case evict ''Disk write error during page flush: '' (bp\<lparr>bp_replacer := r\<rparr>) f of
                  (Inl e, bp1) \<Rightarrow> (Inl e, bp1)
                | (Inr _, bp1) \<Rightarrow>
                    (let bp2 = unmap_frame bp1 f in
                     case read_page (bp_disk bp2) page_id of
                       Inl e \<Rightarrow> (Inl (Storage (''Disk read error during page fetch: '' @ e)), bp2)
                     | Inr data \<Rightarrow>
                         (Inr f, bp2\<lparr>bp_frames := (bp_frames bp2)[f :=
                                       \<lparr>pf_data = data, pf_page_id = page_id, pf_pin_count = 1, pf_is_dirty = False\<rparr>],
                                     bp_table := AList.update page_id f (bp_table bp2),
                                     bp_replacer := replacer_pin (bp_replacer bp2) f\<rparr>)))))"

definition new_page :: "buffer_pool \<Rightarrow> byte \<Rightarrow> (u32 \<times> nat) h2_result \<times> buffer_pool" where
  "new_page bp page_type =
     (case victim (bp_replacer bp) of
        (None, r) \<Rightarrow> (Inl (Storage ''All buffer pool frames are pinned; cannot allocate new page''), bp\<lparr>bp_replacer := r\<rparr>)
      | (Some f, r) \<Rightarrow>
          (case allocate_page (bp_disk bp) of (page_id, dm) \<Rightarrow>
          (case evict ''Disk write error: '' (bp\<lparr>bp_replacer := r, bp_disk := dm\<rparr>) f of
             (Inl e, bp1) \<Rightarrow> (Inl e, bp1)
           | (Inr _, bp1) \<Rightarrow>
               (let bp2 = unmap_frame bp1 f in
                case init_page page_id page_type of
                  None \<Rightarrow> (Inl Panic, bp2)
                | Some data \<Rightarrow>
                    (Inr (page_id, f),
                     bp2\<lparr>bp_frames := (bp_frames bp2)[f :=
                           \<lparr>pf_data = data, pf_page_id = page_id, pf_pin_count = 1, pf_is_dirty = True\<rparr>],
                         bp_table := AList.update page_id f (bp_table bp2),
                         bp_replacer := replacer_pin (bp_replacer bp2) f\<rparr>)))))"

text \<open>The decimal digits of a number, as \<^verbatim>\<open>format!\<close> prints it.\<close>

fun decimal :: "nat \<Rightarrow> string" where
  "decimal n = (if n < 10 then [char_of (48 + n)] else decimal (n div 10) @ [char_of (48 + n mod 10)])"

declare decimal.simps [simp del]

definition unpin_page :: "buffer_pool \<Rightarrow> u32 \<Rightarrow> bool \<Rightarrow> unit h2_result \<times> buffer_pool" where
  "unpin_page bp page_id dirty =
     (case map_of (bp_table bp) page_id of
        Some f \<Rightarrow>
          (let fr = bp_frames bp ! f;
               fr1 = fr\<lparr>pf_is_dirty := pf_is_dirty fr \<or> dirty, pf_pin_count := pf_pin_count fr - 1\<rparr>;
               bp1 = bp\<lparr>bp_frames := (bp_frames bp)[f := fr1]\<rparr> in
           (Inr (), if pf_pin_count fr = 1 then bp1\<lparr>bp_replacer := replacer_unpin (bp_replacer bp) f\<rparr> else bp1))
      | None \<Rightarrow> (Inl (Storage (''Page '' @ decimal (unat page_id) @ '' not found in buffer pool'')), bp))"

text \<open>One dirty page written back with its checksum, as \<^verbatim>\<open>flush_page\<close> and the loop of \<^verbatim>\<open>flush_all\<close> do it.\<close>

definition flush_frame :: "(bytes \<Rightarrow> u32) \<Rightarrow> string \<Rightarrow> buffer_pool \<Rightarrow> u32 \<times> nat \<Rightarrow> unit h2_result \<times> buffer_pool" where
  "flush_frame crc msg bp e =
     (case e of (page_id, f) \<Rightarrow>
        (let fr = bp_frames bp ! f in
         if pf_is_dirty fr then
           (case compute_and_write_checksum crc (pf_data fr) of
              None \<Rightarrow> (Inl Panic, bp)
            | Some data \<Rightarrow>
                (case write_page (bp_disk bp) page_id data of
                   Inl err \<Rightarrow> (Inl (Storage (msg @ err)),
                                bp\<lparr>bp_frames := (bp_frames bp)[f := fr\<lparr>pf_data := data\<rparr>]\<rparr>)
                 | Inr dm \<Rightarrow>
                     (Inr (), bp\<lparr>bp_disk := dm,
                                 bp_frames := (bp_frames bp)[f := fr\<lparr>pf_data := data, pf_is_dirty := False\<rparr>]\<rparr>)))
         else (Inr (), bp)))"

definition flush_page :: "(bytes \<Rightarrow> u32) \<Rightarrow> buffer_pool \<Rightarrow> u32 \<Rightarrow> unit h2_result \<times> buffer_pool" where
  "flush_page crc bp page_id =
     (case map_of (bp_table bp) page_id of
        Some f \<Rightarrow> flush_frame crc ''Flush error: '' bp (page_id, f)
      | None \<Rightarrow> (Inr (), bp))"

fun flush_loop :: "(bytes \<Rightarrow> u32) \<Rightarrow> (u32 \<times> nat) list \<Rightarrow> buffer_pool \<Rightarrow> unit h2_result \<times> buffer_pool" where
  "flush_loop crc [] bp = (Inr (), bp)"
| "flush_loop crc (e # es) bp =
     (case flush_frame crc ''Flush all error: '' bp e of
        (Inl err, bp1) \<Rightarrow> (Inl err, bp1)
      | (Inr _, bp1) \<Rightarrow> flush_loop crc es bp1)"

definition flush_all :: "(bytes \<Rightarrow> u32) \<Rightarrow> buffer_pool \<Rightarrow> unit h2_result \<times> buffer_pool" where
  "flush_all crc bp = flush_loop crc (bp_table bp) bp"

text \<open>A client's write to the data of a frame it holds pinned.\<close>

definition write_frame :: "buffer_pool \<Rightarrow> nat \<Rightarrow> (page_frame \<Rightarrow> page_frame) \<Rightarrow> buffer_pool" where
  "write_frame bp f g = bp\<lparr>bp_frames := (bp_frames bp)[f := g (bp_frames bp ! f)]\<rparr>"

definition release :: "buffer_pool \<Rightarrow> u32 \<Rightarrow> nat \<Rightarrow> (bytes \<Rightarrow> bytes option) \<Rightarrow> bool \<Rightarrow> bool h2_result \<times> buffer_pool" where
  "release bp page_id f g dealloc =
     (case g (pf_data (bp_frames bp ! f)) of
        None \<Rightarrow> (Inl Panic, bp)
      | Some data \<Rightarrow>
          (case unpin_page (write_frame bp f (\<lambda>fr. fr\<lparr>pf_data := data, pf_is_dirty := True\<rparr>)) page_id True of
             (Inl e, bp1) \<Rightarrow> (Inl e, bp1)
           | (Inr _, bp1) \<Rightarrow>
               (Inr dealloc, if dealloc then bp1\<lparr>bp_disk := deallocate_page (bp_disk bp1) page_id\<rparr> else bp1)))"

definition free_page :: "buffer_pool \<Rightarrow> u32 \<Rightarrow> unit h2_result \<times> buffer_pool" where
  "free_page bp page_id =
     (case fetch_page bp page_id of
        (Inl e, bp1) \<Rightarrow> (Inl e, bp1)
      | (Inr f, bp1) \<Rightarrow>
          (case release bp1 page_id f mark_as_free True of
             (Inl e, bp2) \<Rightarrow> (Inl e, bp2)
           | (Inr _, bp2) \<Rightarrow> (Inr (), bp2)))"

definition vacuum_page :: "buffer_pool \<Rightarrow> u32 \<Rightarrow> bool h2_result \<times> buffer_pool" where
  "vacuum_page bp page_id =
     (case fetch_page bp page_id of
        (Inl e, bp1) \<Rightarrow> (Inl e, bp1)
      | (Inr f, bp1) \<Rightarrow>
          (case is_all_dead (pf_data (bp_frames bp1 ! f)) of
             None \<Rightarrow> (Inl Panic, bp1)
           | Some True \<Rightarrow> release bp1 page_id f mark_as_free True
           | Some False \<Rightarrow> release bp1 page_id f defragment False))"

section \<open>The replacer\<close>

definition replacer_wf :: "nat \<Rightarrow> clock_replacer \<Rightarrow> bool" where
  "replacer_wf n r \<longleftrightarrow> length (in_replacer r) = n \<and> length (ref_bits r) = n \<and> (0 < n \<longrightarrow> clock_hand r < n)"

lemma replacer_wf_ops:
  "replacer_wf n r \<Longrightarrow> replacer_wf n (replacer_pin r f)"
  "replacer_wf n r \<Longrightarrow> replacer_wf n (replacer_unpin r f)"
  "replacer_wf n (replacer_new n)"
  by (auto simp: replacer_wf_def replacer_pin_def replacer_unpin_def replacer_new_def num_frames_def)

lemma in_replacer_ops:
  "f < num_frames r \<Longrightarrow> in_replacer (replacer_pin r f) = (in_replacer r)[f := False]"
  "f < num_frames r \<Longrightarrow> in_replacer (replacer_unpin r f) = (in_replacer r)[f := True]"
  by (simp_all add: replacer_pin_def replacer_unpin_def)

lemma victim_loop_split:
  "victim_loop (a + b) r = (case victim_loop a r of (None, r1) \<Rightarrow> victim_loop b r1 | (Some f, r1) \<Rightarrow> (Some f, r1))"
  by (induction a arbitrary: r) (simp_all add: Let_def)

lemma victim_loop_Some:
  assumes "victim_loop k r = (Some f, r')" "replacer_wf n r" "0 < n"
  shows "f < n \<and> in_replacer r ! f \<and> in_replacer r' = (in_replacer r)[f := False] \<and> replacer_wf n r'"
  using assms
proof (induction k arbitrary: r)
  case (Suc k)
  define r1 where "r1 = r\<lparr>clock_hand := (clock_hand r + 1) mod num_frames r\<rparr>"
  have hand: "clock_hand r < n" "replacer_wf n r1"
    using Suc.prems(2,3) by (auto simp: replacer_wf_def r1_def num_frames_def)
  have wf: "replacer_wf n (r1\<lparr>ref_bits := bs\<rparr>)" if "length bs = n" for bs
    using hand(2) that by (simp add: replacer_wf_def)
  have len: "length (ref_bits r) = n" using Suc.prems(2) by (simp add: replacer_wf_def)
  consider "in_replacer r ! clock_hand r" "ref_bits r ! clock_hand r" | "in_replacer r ! clock_hand r" "\<not> ref_bits r ! clock_hand r"
    | "\<not> in_replacer r ! clock_hand r" by blast
  then show ?case
  proof cases
    case 1
    with Suc.prems(1) have "victim_loop k (r1\<lparr>ref_bits := (ref_bits r)[clock_hand r := False]\<rparr>) = (Some f, r')"
      by (simp add: Let_def r1_def)
    from Suc.IH [OF this wf Suc.prems(3)] show ?thesis using len by (simp add: r1_def)
  next
    case 2
    with Suc.prems(1) hand show ?thesis by (auto simp: Let_def r1_def replacer_wf_def)
  next
    case 3
    with Suc.prems(1) have "victim_loop k r1 = (Some f, r')" by (simp add: Let_def r1_def)
    from Suc.IH [OF this hand(2) Suc.prems(3)] show ?thesis by (simp add: r1_def)
  qed
qed simp

text \<open>An unsuccessful sweep of \<open>k\<close> steps has passed only frames with their reference bit set, and cleared it.\<close>

lemma victim_loop_None:
  assumes "victim_loop k r = (None, r')" "replacer_wf n r" "0 < n"
  shows "in_replacer r' = in_replacer r \<and> replacer_wf n r' \<and> clock_hand r' = (clock_hand r + k) mod n \<and>
    (\<forall>j. ref_bits r' ! j \<longrightarrow> ref_bits r ! j) \<and>
    (\<forall>i<k. in_replacer r ! ((clock_hand r + i) mod n) \<longrightarrow>
       ref_bits r ! ((clock_hand r + i) mod n) \<and> \<not> ref_bits r' ! ((clock_hand r + i) mod n))"
  using assms
proof (induction k arbitrary: r)
  case 0
  then show ?case by (auto simp: replacer_wf_def)
next
  case (Suc k)
  let ?h = "clock_hand r"
  define r1 where "r1 = r\<lparr>clock_hand := (?h + 1) mod n\<rparr>"
  define r2 where "r2 = (if in_replacer r ! ?h then r1\<lparr>ref_bits := (ref_bits r)[?h := False]\<rparr> else r1)"
  have n: "num_frames r = n" "?h < n" "length (ref_bits r) = n"
    using Suc.prems(2,3) by (auto simp: replacer_wf_def num_frames_def)
  have run: "victim_loop k r2 = (None, r')" and ref: "in_replacer r ! ?h \<longrightarrow> ref_bits r ! ?h"
    using Suc.prems(1) by (auto simp: Let_def n r1_def r2_def split: if_splits)
  have wf: "replacer_wf n r2" using Suc.prems(2,3) by (auto simp: replacer_wf_def r1_def r2_def)
  have r2: "in_replacer r2 = in_replacer r" "clock_hand r2 = (?h + 1) mod n"
    "\<And>j. ref_bits r2 ! j \<Longrightarrow> ref_bits r ! j" "in_replacer r ! ?h \<longrightarrow> \<not> ref_bits r2 ! ?h"
    using n by (auto simp: r1_def r2_def nth_list_update split: if_splits)
  note ih = Suc.IH [OF run wf Suc.prems(3)]
  have hand: "(clock_hand r2 + i) mod n = (?h + Suc i) mod n" for i
    by (simp add: r2(2) mod_simps)
  have "in_replacer r ! ((?h + i) mod n) \<longrightarrow> ref_bits r ! ((?h + i) mod n) \<and> \<not> ref_bits r' ! ((?h + i) mod n)"
    if "i < Suc k" for i
  proof (cases i)
    case 0
    with n(2) ref r2(4) ih show ?thesis by auto
  next
    case (Suc i')
    with that ih r2(1,3) hand [of i'] show ?thesis by (metis Suc_less_SucD)
  qed
  moreover have "(clock_hand r2 + k) mod n = (?h + Suc k) mod n" by (rule hand)
  ultimately show ?case using ih r2 by auto
qed

text \<open>Second-chance replacement finds a victim whenever there is one: the two sweeps fail only if no
  frame is evictable, and otherwise return an evictable frame and take just that one out.\<close>

lemma victim_complete:
  assumes "replacer_wf n r"
  shows "case victim r of
      (Some f, r') \<Rightarrow> f < n \<and> in_replacer r ! f \<and> in_replacer r' = (in_replacer r)[f := False] \<and> replacer_wf n r'
    | (None, r') \<Rightarrow> in_replacer r' = in_replacer r \<and> replacer_wf n r' \<and> (\<forall>f<n. \<not> in_replacer r ! f)"
proof (cases "n = 0")
  case True
  with assms show ?thesis by (simp add: victim_def num_frames_def replacer_wf_def)
next
  case False
  then have n: "0 < n" "num_frames r = n" using assms by (auto simp: num_frames_def replacer_wf_def)
  have two: "victim r = victim_loop (n + n) r" by (simp add: victim_def n mult_2_right)
  show ?thesis
  proof (cases "victim r")
    case (Pair fo r')
    show ?thesis
    proof (cases fo)
      case (Some f)
      with Pair two victim_loop_Some [OF _ assms n(1)] show ?thesis by simp
    next
      case None
      with Pair two have "victim_loop (n + n) r = (None, r')" by simp
      then obtain r1 where r1: "victim_loop n r = (None, r1)" "victim_loop n r1 = (None, r')"
        unfolding victim_loop_split by (auto split: prod.splits option.splits)
      note a = victim_loop_None [OF r1(1) assms n(1)]
      from a have wf1: "replacer_wf n r1" by blast
      note b = victim_loop_None [OF r1(2) wf1 n(1)]
      have hand: "clock_hand r < n" "clock_hand r1 = clock_hand r"
        using a assms n(1) by (auto simp: replacer_wf_def)
      have "\<not> in_replacer r ! f" if f: "f < n" for f
      proof -
        define i where "i = (f + n - clock_hand r) mod n"
        have "(clock_hand r + i) mod n = f" "i < n"
          using f hand(1) by (simp_all add: i_def mod_simps)
        with a b hand show ?thesis by metis
      qed
      with a b Pair None show ?thesis by simp
    qed
  qed
qed

section \<open>What the pool stores\<close>

definition byte_at :: "bytes \<Rightarrow> nat \<Rightarrow> byte" where
  "byte_at c i = (if i < length c then c ! i else 0)"

text \<open>The content of a page on disk; what lies beyond the end of the file counts as zeros.\<close>

definition dm_content :: "disk_manager \<Rightarrow> u32 \<Rightarrow> bytes" where
  "dm_content dm p =
     (case dm_file dm of
        Some c \<Rightarrow> map (byte_at c) [unat p * PAGE_SIZE..<unat p * PAGE_SIZE + PAGE_SIZE]
      | None \<Rightarrow> (case map_of (dm_memory dm) p of Some d \<Rightarrow> d | None \<Rightarrow> replicate PAGE_SIZE 0))"

definition dm_ok :: "disk_manager \<Rightarrow> bool" where
  "dm_ok dm \<longleftrightarrow> (\<forall>(p, d) \<in> set (dm_memory dm). length d = PAGE_SIZE)"

lemma length_dm_content: "dm_ok dm \<Longrightarrow> length (dm_content dm p) = PAGE_SIZE"
  by (auto simp: dm_content_def dm_ok_def dest: map_of_SomeD split: option.split)

lemma read_page_content: "read_page dm p = Inr d \<Longrightarrow> d = dm_content dm p"
  by (auto simp: read_page_def dm_content_def byte_at_def Let_def split: option.splits if_splits
      intro!: nth_equalityI)

lemma byte_at_file_write:
  "byte_at (file_write c off bs) i = (if off \<le> i \<and> i < off + length bs then bs ! (i - off) else byte_at c i)"
proof -
  have "min (length c) off + (off - length c) = off" by simp
  then show ?thesis by (auto simp: byte_at_def file_write_def nth_append)
qed

lemma page_ranges_disjoint:
  assumes "p \<noteq> (q :: u32)" "unat q * PAGE_SIZE \<le> i" "i < unat q * PAGE_SIZE + PAGE_SIZE"
  shows "\<not> (unat p * PAGE_SIZE \<le> i \<and> i < unat p * PAGE_SIZE + PAGE_SIZE)"
proof -
  have "i div PAGE_SIZE = unat q" using assms(2,3) by (simp add: PAGE_SIZE_def)
  moreover have "unat p \<noteq> unat q" using assms(1) unsigned_word_eqI [of p q] by blast
  ultimately show ?thesis by (auto simp: PAGE_SIZE_def)
qed

lemma in_set_update: "x \<in> set (AList.update k v xs) \<Longrightarrow> x = (k, v) \<or> x \<in> set xs"
  by (induction xs) (auto split: if_splits)

lemma write_page_effect:
  assumes "write_page dm p d = Inr dm'" "length d = PAGE_SIZE" "dm_ok dm"
  shows "dm_content dm' q = (if q = p then d else dm_content dm q)" "dm_ok dm'"
    "dm_free_pages dm' = dm_free_pages dm" "p < dm_num_pages dm \<Longrightarrow> dm_num_pages dm' = dm_num_pages dm"
proof -
  show "dm_content dm' q = (if q = p then d else dm_content dm q)"
  proof (cases "dm_file dm")
    case None
    with assms(1) show ?thesis
      by (auto simp: write_page_def dm_content_def Let_def update_conv' split: if_splits)
  next
    case (Some c)
    then have f: "dm_file dm' = Some (file_write c (unat p * PAGE_SIZE) d)"
      using assms(1) by (auto simp: write_page_def Let_def split: if_splits)
    show ?thesis using page_ranges_disjoint [of p q] assms(2)
      by (auto simp: dm_content_def Some f byte_at_file_write intro!: nth_equalityI)
  qed
  show "dm_ok dm'" using assms
    by (auto simp: write_page_def dm_ok_def Let_def split: if_splits option.splits
        dest!: in_set_update)
qed (use assms(1) in \<open>auto simp: write_page_def Let_def split: if_splits option.splits\<close>)

text \<open>A page as the pool stores it, and the part of it that a flush leaves alone (all but the checksum).\<close>

definition content :: "buffer_pool \<Rightarrow> u32 \<Rightarrow> bytes" where
  "content bp p = (case map_of (bp_table bp) p of Some f \<Rightarrow> pf_data (bp_frames bp ! f) | None \<Rightarrow> dm_content (bp_disk bp) p)"

definition page_body :: "bytes \<Rightarrow> bytes" where
  "page_body d = take 20 d @ drop 24 d"

lemma checksum_body:
  assumes "length d = PAGE_SIZE"
  shows "\<exists>d'. compute_and_write_checksum crc d = Some d' \<and> length d' = PAGE_SIZE \<and> page_body d' = page_body d"
  using assms by (simp add: compute_and_write_checksum_def buf_set_def page_body_def PAGE_SIZE_def)

section \<open>The invariant\<close>

text \<open>
  Mapped frames hold their page, evictable frames are unpinned and mapped or empty, clean frames agree with the
  disk, and no page of the free list or beyond the end is cached.
\<close>

definition mapped_ok :: "buffer_pool \<Rightarrow> bool" where
  "mapped_ok bp \<longleftrightarrow>
     (\<forall>p f. map_of (bp_table bp) p = Some f \<longrightarrow>
        f < length (bp_frames bp) \<and> pf_page_id (bp_frames bp ! f) = p \<and> p \<noteq> NO_PAGE \<and> p < dm_num_pages (bp_disk bp) \<and>
        (pf_is_dirty (bp_frames bp ! f) \<or> pf_data (bp_frames bp ! f) = dm_content (bp_disk bp) p))"

definition evictable_ok :: "buffer_pool \<Rightarrow> bool" where
  "evictable_ok bp \<longleftrightarrow>
     (\<forall>f < length (bp_frames bp). in_replacer (bp_replacer bp) ! f \<longrightarrow>
        pf_pin_count (bp_frames bp ! f) = 0 \<and>
        (pf_page_id (bp_frames bp ! f) = NO_PAGE \<or> map_of (bp_table bp) (pf_page_id (bp_frames bp ! f)) = Some f))"

definition bp_inv :: "buffer_pool \<Rightarrow> bool" where
  "bp_inv bp \<longleftrightarrow>
     replacer_wf (length (bp_frames bp)) (bp_replacer bp) \<and> dm_ok (bp_disk bp) \<and> dm_free_pages (bp_disk bp) = [] \<and>
     distinct (map fst (bp_table bp)) \<and> (\<forall>fr \<in> set (bp_frames bp). length (pf_data fr) = PAGE_SIZE) \<and>
     mapped_ok bp \<and> evictable_ok bp"

lemma bp_invD:
  assumes "bp_inv bp"
  shows "replacer_wf (length (bp_frames bp)) (bp_replacer bp)" "dm_ok (bp_disk bp)" "dm_free_pages (bp_disk bp) = []"
    "distinct (map fst (bp_table bp))" "f < length (bp_frames bp) \<Longrightarrow> length (pf_data (bp_frames bp ! f)) = PAGE_SIZE"
    "mapped_ok bp" "evictable_ok bp" "\<forall>fr \<in> set (bp_frames bp). length (pf_data fr) = PAGE_SIZE"
  using assms by (auto simp: bp_inv_def)

lemma mapped_okD:
  assumes "bp_inv bp" "map_of (bp_table bp) p = Some f"
  shows "f < length (bp_frames bp)" "pf_page_id (bp_frames bp ! f) = p" "p \<noteq> NO_PAGE" "p < dm_num_pages (bp_disk bp)"
    "pf_is_dirty (bp_frames bp ! f) \<or> pf_data (bp_frames bp ! f) = dm_content (bp_disk bp) p"
  using assms by (auto simp: bp_inv_def mapped_ok_def)

lemma mapped_inj:
  assumes "bp_inv bp" "map_of (bp_table bp) p = Some f" "map_of (bp_table bp) q = Some f"
  shows "p = q"
  using mapped_okD(2) [OF assms(1,2)] mapped_okD(2) [OF assms(1,3)] by simp

lemma replacer_fold_wf: "replacer_wf n r \<Longrightarrow> replacer_wf n (fold (\<lambda>f r. replacer_unpin r f) fs r)"
  by (induction fs arbitrary: r) (auto intro: replacer_wf_ops)

lemma pool_new_inv:
  assumes "dm_ok dm" "dm_free_pages dm = []"
  shows "bp_inv (pool_new dm n)" "content (pool_new dm n) p = dm_content dm p"
  using assms replacer_fold_wf [OF replacer_wf_ops(3)]
  by (auto simp: bp_inv_def pool_new_def mapped_ok_def evictable_ok_def page_frame_new_def content_def)

text \<open>Changing the pin count and the dirty bit of a frame, with its place in the replacer.\<close>

lemma touch_frame_inv:
  assumes inv: "bp_inv bp" and f: "map_of (bp_table bp) p = Some f"
    and fr: "pf_page_id fr = p" "length (pf_data fr) = PAGE_SIZE"
      "pf_is_dirty fr \<or> pf_data fr = dm_content dm p"
    and r: "replacer_wf (length (bp_frames bp)) r"
      "in_replacer r = in_replacer (bp_replacer bp) \<or> in_replacer r = (in_replacer (bp_replacer bp))[f := b]"
      "in_replacer r ! f \<Longrightarrow> pf_pin_count fr = 0"
    and dm: "dm_ok dm" "dm_free_pages dm = []" "dm_num_pages dm = dm_num_pages (bp_disk bp)"
      "\<And>q. q \<noteq> p \<Longrightarrow> dm_content dm q = dm_content (bp_disk bp) q"
  shows "bp_inv (bp\<lparr>bp_disk := dm, bp_replacer := r, bp_frames := (bp_frames bp)[f := fr]\<rparr>)"
proof -
  let ?bp = "bp\<lparr>bp_disk := dm, bp_replacer := r, bp_frames := (bp_frames bp)[f := fr]\<rparr>"
  have n: "f < length (bp_frames bp)" using mapped_okD [OF inv f] by simp
  have other: "in_replacer r ! g = in_replacer (bp_replacer bp) ! g" if "g \<noteq> f" for g
    using r(2) that by auto
  have "mapped_ok ?bp"
    unfolding mapped_ok_def
  proof (intro allI impI)
    fix q g assume "map_of (bp_table ?bp) q = Some g"
    then have g: "map_of (bp_table bp) q = Some g" by simp
    note q = mapped_okD [OF inv g]
    show "g < length (bp_frames ?bp) \<and> pf_page_id (bp_frames ?bp ! g) = q \<and> q \<noteq> NO_PAGE \<and>
        q < dm_num_pages (bp_disk ?bp) \<and>
        (pf_is_dirty (bp_frames ?bp ! g) \<or> pf_data (bp_frames ?bp ! g) = dm_content (bp_disk ?bp) q)"
    proof (cases "q = p")
      case True
      with f g q n fr dm show ?thesis by simp
    next
      case False
      then have "g \<noteq> f" using mapped_inj [OF inv f] g by blast
      with False q dm show ?thesis by simp
    qed
  qed
  moreover have "evictable_ok ?bp"
    unfolding evictable_ok_def
  proof (intro allI impI)
    fix g assume g: "g < length (bp_frames ?bp)" "in_replacer (bp_replacer ?bp) ! g"
    show "pf_pin_count (bp_frames ?bp ! g) = 0 \<and>
      (pf_page_id (bp_frames ?bp ! g) = NO_PAGE \<or> map_of (bp_table ?bp) (pf_page_id (bp_frames ?bp ! g)) = Some g)"
    proof (cases "g = f")
      case True
      with g n fr(1) r(3) f show ?thesis by simp
    next
      case False
      with g other [OF False] bp_invD(7) [OF inv] show ?thesis by (simp add: evictable_ok_def)
    qed
  qed
  moreover have "\<forall>fr' \<in> set (bp_frames ?bp). length (pf_data fr') = PAGE_SIZE"
    using inv fr(2) by (auto simp: bp_inv_def dest!: set_mp [OF set_update_subset_insert])
  ultimately show ?thesis using bp_invD [OF inv] r dm by (simp add: bp_inv_def)
qed

lemma touch_frame_content:
  assumes inv: "bp_inv bp" and f: "map_of (bp_table bp) p = Some f"
    and dm: "\<And>q. q \<noteq> p \<Longrightarrow> dm_content dm q = dm_content (bp_disk bp) q"
  shows "content (bp\<lparr>bp_disk := dm, bp_replacer := r, bp_frames := (bp_frames bp)[f := fr]\<rparr>) q =
    (if q = p then pf_data fr else content bp q)"
proof (cases "q = p")
  case True
  with f mapped_okD(1) [OF inv f] show ?thesis by (simp add: content_def)
next
  case False
  then have "map_of (bp_table bp) q \<noteq> Some f" using mapped_inj [OF inv f] by blast
  then have "(bp_frames bp)[f := fr] ! g = bp_frames bp ! g" if "map_of (bp_table bp) q = Some g" for g
    using that by (intro nth_list_update_neq) blast
  with False dm [OF False] show ?thesis by (simp add: content_def split: option.split)
qed

section \<open>Replacing the page of a victim frame\<close>

definition owns :: "buffer_pool \<Rightarrow> nat \<Rightarrow> bool" where
  "owns bp f \<longleftrightarrow> f < length (bp_frames bp) \<and> \<not> in_replacer (bp_replacer bp) ! f \<and>
     (pf_page_id (bp_frames bp ! f) = NO_PAGE \<or> map_of (bp_table bp) (pf_page_id (bp_frames bp ! f)) = Some f)"

lemma take_victim:
  assumes inv: "bp_inv bp" and v: "victim (bp_replacer bp) = (Some f, r)"
    and dm: "dm_ok dm" "dm_free_pages dm = []" "dm_num_pages (bp_disk bp) \<le> dm_num_pages dm"
      "\<And>q. dm_content dm q = dm_content (bp_disk bp) q"
  shows "bp_inv (bp\<lparr>bp_replacer := r, bp_disk := dm\<rparr>)" "owns (bp\<lparr>bp_replacer := r, bp_disk := dm\<rparr>) f"
    "content (bp\<lparr>bp_replacer := r, bp_disk := dm\<rparr>) q = content bp q" "pf_pin_count (bp_frames bp ! f) = 0"
proof -
  let ?n = "length (bp_frames bp)"
  have c: "f < ?n" "in_replacer (bp_replacer bp) ! f" "in_replacer r = (in_replacer (bp_replacer bp))[f := False]"
    "replacer_wf ?n r"
    using victim_complete [OF bp_invD(1) [OF inv]] v by simp_all
  then have len: "length (in_replacer (bp_replacer bp)) = ?n"
    using bp_invD(1) [OF inv] by (simp add: replacer_wf_def)
  have e: "pf_pin_count (bp_frames bp ! f) = 0"
    "pf_page_id (bp_frames bp ! f) = NO_PAGE \<or> map_of (bp_table bp) (pf_page_id (bp_frames bp ! f)) = Some f"
    using bp_invD(7) [OF inv] c by (auto simp: evictable_ok_def)
  show "pf_pin_count (bp_frames bp ! f) = 0" by (rule e)
  show "owns (bp\<lparr>bp_replacer := r, bp_disk := dm\<rparr>) f" using c e len by (simp add: owns_def)
  show "content (bp\<lparr>bp_replacer := r, bp_disk := dm\<rparr>) q = content bp q"
    by (simp add: content_def dm split: option.split)
  have "evictable_ok (bp\<lparr>bp_replacer := r, bp_disk := dm\<rparr>)"
    using bp_invD(7) [OF inv] c len by (simp add: evictable_ok_def nth_list_update)
  moreover have "mapped_ok (bp\<lparr>bp_replacer := r, bp_disk := dm\<rparr>)"
    using bp_invD(6) [OF inv] dm(3) by (fastforce simp: mapped_ok_def dm(4))
  ultimately show "bp_inv (bp\<lparr>bp_replacer := r, bp_disk := dm\<rparr>)"
    using bp_invD [OF inv] c dm by (simp add: bp_inv_def)
qed

lemma evict_effect:
  assumes inv: "bp_inv bp" and own: "owns bp f" and ev: "evict msg bp f = (res, bp')"
  shows "bp_inv bp'" "content bp' q = content bp q" "owns bp' f" "bp_replacer bp' = bp_replacer bp"
    "bp_table bp' = bp_table bp" "dm_num_pages (bp_disk bp') = dm_num_pages (bp_disk bp)"
    "length (bp_frames bp') = length (bp_frames bp)" "g \<noteq> f \<Longrightarrow> bp_frames bp' ! g = bp_frames bp ! g"
    "res = Inr () \<Longrightarrow> pf_page_id (bp_frames bp' ! f) = NO_PAGE \<or> \<not> pf_is_dirty (bp_frames bp' ! f)"
proof -
  let ?fr = "bp_frames bp ! f" and ?p = "pf_page_id (bp_frames bp ! f)"
  have n: "f < length (bp_frames bp)" using own by (simp add: owns_def)
  consider (same) "bp' = bp" "res = Inr () \<longrightarrow> pf_page_id ?fr = NO_PAGE \<or> \<not> pf_is_dirty ?fr"
    | (written) dm where "?p \<noteq> NO_PAGE" "write_page (bp_disk bp) ?p (pf_data ?fr) = Inr dm"
        "bp' = bp\<lparr>bp_disk := dm, bp_frames := (bp_frames bp)[f := ?fr\<lparr>pf_is_dirty := False\<rparr>]\<rparr>"
  proof (cases "pf_is_dirty ?fr \<and> ?p \<noteq> NO_PAGE")
    case True
    show ?thesis
    proof (cases "write_page (bp_disk bp) ?p (pf_data ?fr)")
      case (Inl e)
      with ev True have "bp' = bp" "res \<noteq> Inr ()" by (auto simp: evict_def)
      then show ?thesis by (intro same) simp_all
    next
      case (Inr dm)
      with ev True show ?thesis by (intro written [of dm]) (simp_all add: evict_def)
    qed
  next
    case False
    with ev have "bp' = bp" by (simp add: evict_def)
    with False show ?thesis by (intro same) auto
  qed
  then have "bp_inv bp' \<and> (\<forall>q. content bp' q = content bp q) \<and> owns bp' f \<and> bp_replacer bp' = bp_replacer bp \<and>
    bp_table bp' = bp_table bp \<and> dm_num_pages (bp_disk bp') = dm_num_pages (bp_disk bp) \<and>
    length (bp_frames bp') = length (bp_frames bp) \<and> (\<forall>g. g \<noteq> f \<longrightarrow> bp_frames bp' ! g = bp_frames bp ! g) \<and>
    (res = Inr () \<longrightarrow> pf_page_id (bp_frames bp' ! f) = NO_PAGE \<or> \<not> pf_is_dirty (bp_frames bp' ! f))"
  proof cases
    case same
    with inv own show ?thesis by simp
  next
    case written
    then have m: "map_of (bp_table bp) ?p = Some f" using own by (simp add: owns_def)
    note w = write_page_effect [OF written(2) bp_invD(5) [OF inv n] bp_invD(2) [OF inv]]
    have eq: "bp' = bp\<lparr>bp_disk := dm, bp_replacer := bp_replacer bp, bp_frames := (bp_frames bp)[f := ?fr\<lparr>pf_is_dirty := False\<rparr>]\<rparr>"
      using written by simp
    have "bp_inv bp'" unfolding eq
      by (rule touch_frame_inv [OF inv m]) (use own in \<open>simp_all add: w bp_invD(1-3,5) [OF inv] n mapped_okD(4) [OF inv m] owns_def\<close>)
    moreover have "content bp' q = content bp q" for q unfolding eq
      by (subst touch_frame_content [OF inv m]) (simp_all add: w content_def m)
    ultimately show ?thesis using own n w mapped_okD(4) [OF inv m] by (simp add: owns_def written)
  qed
  then show "bp_inv bp'" "content bp' q = content bp q" "owns bp' f" "bp_replacer bp' = bp_replacer bp"
    "bp_table bp' = bp_table bp" "dm_num_pages (bp_disk bp') = dm_num_pages (bp_disk bp)"
    "length (bp_frames bp') = length (bp_frames bp)" "g \<noteq> f \<Longrightarrow> bp_frames bp' ! g = bp_frames bp ! g"
    "res = Inr () \<Longrightarrow> pf_page_id (bp_frames bp' ! f) = NO_PAGE \<or> \<not> pf_is_dirty (bp_frames bp' ! f)"
    by blast+
qed

lemma unmap_effect:
  assumes inv: "bp_inv bp" and own: "owns bp f"
    and clean: "pf_page_id (bp_frames bp ! f) = NO_PAGE \<or> \<not> pf_is_dirty (bp_frames bp ! f)"
  shows "bp_inv (unmap_frame bp f)" "content (unmap_frame bp f) q = content bp q"
    "map_of (bp_table (unmap_frame bp f)) q \<noteq> Some f" "\<not> in_replacer (bp_replacer (unmap_frame bp f)) ! f"
    "map_of (bp_table bp) q = None \<Longrightarrow> map_of (bp_table (unmap_frame bp f)) q = None"
    "bp_frames (unmap_frame bp f) = bp_frames bp" "bp_disk (unmap_frame bp f) = bp_disk bp"
    "bp_replacer (unmap_frame bp f) = bp_replacer bp"
proof -
  let ?p = "pf_page_id (bp_frames bp ! f)"
  have tab: "map_of (bp_table (unmap_frame bp f)) q =
      (if q = ?p \<and> ?p \<noteq> NO_PAGE then None else map_of (bp_table bp) q)" for q
    by (simp add: unmap_frame_def Let_def delete_conv' restrict_complement_singleton_eq)
  show same: "bp_frames (unmap_frame bp f) = bp_frames bp" "bp_disk (unmap_frame bp f) = bp_disk bp"
    "bp_replacer (unmap_frame bp f) = bp_replacer bp"
    by (simp_all add: unmap_frame_def Let_def)
  show "map_of (bp_table (unmap_frame bp f)) q \<noteq> Some f" for q
    unfolding tab using mapped_okD [OF inv, of q f] by auto
  show "\<not> in_replacer (bp_replacer (unmap_frame bp f)) ! f" using own by (simp add: same owns_def)
  show "content (unmap_frame bp f) q = content bp q"
  proof (cases "q = ?p \<and> ?p \<noteq> NO_PAGE")
    case True
    with clean own have "map_of (bp_table bp) ?p = Some f" "\<not> pf_is_dirty (bp_frames bp ! f)"
      by (auto simp: owns_def)
    with True mapped_okD(5) [OF inv this(1)] show ?thesis by (simp add: content_def tab same)
  next
    case False
    then have "map_of (bp_table (unmap_frame bp f)) q = map_of (bp_table bp) q" unfolding tab by (rule if_not_P)
    then show ?thesis by (simp add: content_def same split: option.split)
  qed
  show "map_of (bp_table bp) q = None \<Longrightarrow> map_of (bp_table (unmap_frame bp f)) q = None" by (simp add: tab)
  have "evictable_ok (unmap_frame bp f)"
    using bp_invD(7) [OF inv] own by (auto simp: evictable_ok_def same tab owns_def)
  moreover have "mapped_ok (unmap_frame bp f)"
    using bp_invD(6) [OF inv] by (simp add: mapped_ok_def same tab)
  moreover have "distinct (map fst (bp_table (unmap_frame bp f)))"
    using bp_invD(4) [OF inv] by (simp add: unmap_frame_def Let_def distinct_delete)
  ultimately show "bp_inv (unmap_frame bp f)" using bp_invD [OF inv] by (auto simp: bp_inv_def same)
qed

lemma load_effect:
  assumes inv: "bp_inv bp" and f: "f < length (bp_frames bp)" "\<not> in_replacer (bp_replacer bp) ! f"
      "\<And>q. map_of (bp_table bp) q \<noteq> Some f"
    and p: "map_of (bp_table bp) p = None" "p \<noteq> NO_PAGE" "p < dm_num_pages (bp_disk bp)"
    and fr: "pf_page_id fr = p" "length (pf_data fr) = PAGE_SIZE" "pf_is_dirty fr \<or> pf_data fr = dm_content (bp_disk bp) p"
    and bp': "bp' = bp\<lparr>bp_frames := (bp_frames bp)[f := fr], bp_table := AList.update p f (bp_table bp),
                       bp_replacer := replacer_pin (bp_replacer bp) f\<rparr>"
  shows "bp_inv bp'" "content bp' q = (if q = p then pf_data fr else content bp q)"
proof -
  have tab: "map_of (bp_table bp') q = (if q = p then Some f else map_of (bp_table bp) q)" for q
    by (simp add: bp' update_conv')
  have same: "bp_disk bp' = bp_disk bp" "bp_frames bp' = (bp_frames bp)[f := fr]" by (simp_all add: bp')
  have other: "g \<noteq> f" if "map_of (bp_table bp) q = Some g" for q g using that f(3) by blast
  show "content bp' q = (if q = p then pf_data fr else content bp q)"
    using f(1) nth_list_update_neq [of f _ "bp_frames bp" fr] other [of q]
    by (auto simp: content_def tab same split: option.split)
  have n: "num_frames (bp_replacer bp) = length (bp_frames bp)"
    using bp_invD(1) [OF inv] by (simp add: replacer_wf_def num_frames_def)
  have r: "in_replacer (bp_replacer bp') = (in_replacer (bp_replacer bp))[f := False]"
    using f(1) n by (simp add: bp' in_replacer_ops)
  have "mapped_ok bp'"
    unfolding mapped_ok_def
  proof (intro allI impI)
    fix q g assume "map_of (bp_table bp') q = Some g"
    then consider "q = p" "g = f" | "q \<noteq> p" "map_of (bp_table bp) q = Some g" by (auto simp: tab split: if_splits)
    then show "g < length (bp_frames bp') \<and> pf_page_id (bp_frames bp' ! g) = q \<and> q \<noteq> NO_PAGE \<and>
        q < dm_num_pages (bp_disk bp') \<and>
        (pf_is_dirty (bp_frames bp' ! g) \<or> pf_data (bp_frames bp' ! g) = dm_content (bp_disk bp') q)"
      using f(1) p fr mapped_okD [OF inv, of q g] other [of q g] by cases (simp_all add: same)
  qed
  moreover have "evictable_ok bp'"
    unfolding evictable_ok_def
  proof (intro allI impI)
    fix g assume g: "g < length (bp_frames bp')" "in_replacer (bp_replacer bp') ! g"
    have len: "length (in_replacer (bp_replacer bp)) = length (bp_frames bp)" using n by (simp add: num_frames_def)
    from g f(1) len have "g \<noteq> f" by (auto simp: r)
    with g bp_invD(7) [OF inv] p(1)
    show "pf_pin_count (bp_frames bp' ! g) = 0 \<and>
      (pf_page_id (bp_frames bp' ! g) = NO_PAGE \<or> map_of (bp_table bp') (pf_page_id (bp_frames bp' ! g)) = Some g)"
      by (auto simp: evictable_ok_def same r tab)
  qed
  moreover have "\<forall>fr' \<in> set (bp_frames bp'). length (pf_data fr') = PAGE_SIZE"
    using bp_invD(8) [OF inv] fr(2) by (auto simp: same dest!: set_mp [OF set_update_subset_insert])
  moreover have "replacer_wf (length (bp_frames bp')) (bp_replacer bp')" "distinct (map fst (bp_table bp'))"
    using bp_invD(1,4) [OF inv] by (simp_all add: bp' replacer_wf_ops distinct_update)
  ultimately show "bp_inv bp'" using bp_invD(2,3) [OF inv] by (simp add: bp_inv_def same)
qed

section \<open>Transparency\<close>

text \<open>
  The calls of a client that fetches allocated pages, writes to pages it holds pinned (setting the dirty bit),
  unpins no more often than it pinned, and keeps the counters from overflowing.
\<close>

datatype pool_op = Fetch u32 | New byte | Unpin u32 bool | Flush u32 | FlushAll | Write u32 bytes

definition write_pinned :: "buffer_pool \<Rightarrow> u32 \<Rightarrow> bytes \<Rightarrow> buffer_pool" where
  "write_pinned bp p d =
     (case map_of (bp_table bp) p of
        Some f \<Rightarrow> write_frame bp f (\<lambda>fr. fr\<lparr>pf_data := d, pf_is_dirty := True\<rparr>)
      | None \<Rightarrow> bp)"

definition pool_do :: "(bytes \<Rightarrow> u32) \<Rightarrow> buffer_pool \<Rightarrow> pool_op \<Rightarrow> (u32 \<times> nat) option h2_result \<times> buffer_pool" where
  "pool_do crc bp op =
     (case op of
        Fetch p \<Rightarrow> map_prod (map_sum id (\<lambda>f. Some (p, f))) id (fetch_page bp p)
      | New t \<Rightarrow> map_prod (map_sum id Some) id (new_page bp t)
      | Unpin p d \<Rightarrow> map_prod (map_sum id (\<lambda>_. None)) id (unpin_page bp p d)
      | Flush p \<Rightarrow> map_prod (map_sum id (\<lambda>_. None)) id (flush_page crc bp p)
      | FlushAll \<Rightarrow> map_prod (map_sum id (\<lambda>_. None)) id (flush_all crc bp)
      | Write p d \<Rightarrow> (Inr None, write_pinned bp p d))"

definition pinned :: "buffer_pool \<Rightarrow> nat \<Rightarrow> bool" where
  "pinned bp f \<longleftrightarrow> pf_pin_count (bp_frames bp ! f) \<noteq> 0"

definition op_ok :: "buffer_pool \<Rightarrow> pool_op \<Rightarrow> bool" where
  "op_ok bp op =
     (case op of
        Fetch p \<Rightarrow> p < dm_num_pages (bp_disk bp) \<and>
          (case map_of (bp_table bp) p of Some f \<Rightarrow> pf_pin_count (bp_frames bp ! f) + 1 \<noteq> 0 | None \<Rightarrow> True)
      | New t \<Rightarrow> dm_num_pages (bp_disk bp) < NO_PAGE
      | Unpin p d \<Rightarrow> (case map_of (bp_table bp) p of Some f \<Rightarrow> pinned bp f | None \<Rightarrow> True)
      | Write p d \<Rightarrow> length d = PAGE_SIZE \<and> (case map_of (bp_table bp) p of Some f \<Rightarrow> pinned bp f | None \<Rightarrow> False)
      | _ \<Rightarrow> True)"

text \<open>What each call does to the pages: only creating and writing a page changes it.\<close>

definition spec_pages ::
  "pool_op \<Rightarrow> (u32 \<times> nat) option h2_result \<Rightarrow> (u32 \<Rightarrow> bytes) \<Rightarrow> (u32 \<Rightarrow> bytes)" where
  "spec_pages op res m =
     (case op of
        Write p d \<Rightarrow> m(p := page_body d)
      | New t \<Rightarrow> (case res of Inr (Some (p, f)) \<Rightarrow> m(p := page_body (the (init_page p t))) | _ \<Rightarrow> m)
      | _ \<Rightarrow> m)"

definition pages :: "buffer_pool \<Rightarrow> u32 \<Rightarrow> bytes" where
  "pages bp p = page_body (content bp p)"

text \<open>A step keeps the pinned frames: their pages stay where the clients hold them.\<close>

definition keeps_pins :: "buffer_pool \<Rightarrow> buffer_pool \<Rightarrow> bool" where
  "keeps_pins bp bp' \<longleftrightarrow>
     (\<forall>(p, f) \<in> set (bp_table bp). pinned bp f \<longrightarrow> map_of (bp_table bp') p = Some f)"

lemma keeps_pinsI:
  assumes "bp_inv bp" "\<And>p f. map_of (bp_table bp) p = Some f \<Longrightarrow> pinned bp f \<Longrightarrow> map_of (bp_table bp') p = Some f"
  shows "keeps_pins bp bp'"
  using assms(2) bp_invD(4) [OF assms(1)] by (auto simp: keeps_pins_def)

lemma keeps_pins_same: "bp_inv bp \<Longrightarrow> bp_table bp' = bp_table bp \<Longrightarrow> keeps_pins bp bp'"
  by (rule keeps_pinsI) simp_all

text \<open>Evicting a victim and unmapping it, the part that \<^verbatim>\<open>fetch_page\<close> and \<^verbatim>\<open>new_page\<close> share.\<close>

lemma free_victim:
  assumes inv: "bp_inv bp" and v: "victim (bp_replacer bp) = (Some f, r)"
    and dm: "dm_ok dm" "dm_free_pages dm = []" "dm_num_pages (bp_disk bp) \<le> dm_num_pages dm"
      "\<And>q. dm_content dm q = dm_content (bp_disk bp) q"
    and ev: "evict msg (bp\<lparr>bp_replacer := r, bp_disk := dm\<rparr>) f = (Inr u, bp1)"
  defines "bp2 \<equiv> unmap_frame bp1 f"
  shows "bp_inv bp2" "content bp2 q = content bp q" "map_of (bp_table bp2) q \<noteq> Some f"
    "f < length (bp_frames bp2)" "\<not> in_replacer (bp_replacer bp2) ! f"
    "map_of (bp_table bp) q = None \<Longrightarrow> map_of (bp_table bp2) q = None" "dm_num_pages (bp_disk bp2) = dm_num_pages dm"
    "map_of (bp_table bp) q = Some g \<Longrightarrow> pinned bp g \<Longrightarrow> map_of (bp_table bp2) q = Some g"
proof -
  note t = take_victim [OF inv v dm]
  note e = evict_effect [OF t(1,2) ev]
  have clean: "pf_page_id (bp_frames bp1 ! f) = NO_PAGE \<or> \<not> pf_is_dirty (bp_frames bp1 ! f)"
    by (rule e(9)) simp
  note u = unmap_effect [OF e(1,3) clean, folded bp2_def]
  show "bp_inv bp2" by (rule u)
  show "content bp2 q = content bp q" using u(2) e(2) t(3) by simp
  show "map_of (bp_table bp2) q \<noteq> Some f" "\<not> in_replacer (bp_replacer bp2) ! f" using u(3,4) by auto
  show "map_of (bp_table bp) q = None \<Longrightarrow> map_of (bp_table bp2) q = None" using u(5) e(5) by simp
  show "dm_num_pages (bp_disk bp2) = dm_num_pages dm" using u(7) e(6) by simp
  show "f < length (bp_frames bp2)" using e(3) u(6) by (simp add: owns_def)
  assume g: "map_of (bp_table bp) q = Some g" "pinned bp g"
  then have "g \<noteq> f" using t(4) by (auto simp: pinned_def)
  moreover have g1: "map_of (bp_table bp1) q = Some g" using e(5) g by simp
  moreover have "pf_page_id (bp_frames bp1 ! f) = q \<Longrightarrow> q = NO_PAGE \<or> g = f"
    using e(3) g1 by (auto simp: owns_def)
  moreover have "q \<noteq> NO_PAGE" using mapped_okD [OF inv g(1)] by simp
  ultimately show "map_of (bp_table bp2) q = Some g"
    by (auto simp: bp2_def unmap_frame_def Let_def delete_conv' restrict_complement_singleton_eq)
qed

lemma no_victim:
  assumes inv: "bp_inv bp" and v: "victim (bp_replacer bp) = (None, r)"
  shows "bp_inv (bp\<lparr>bp_replacer := r\<rparr>)" "content (bp\<lparr>bp_replacer := r\<rparr>) q = content bp q"
    "\<forall>f < length (bp_frames bp). \<not> in_replacer (bp_replacer bp) ! f"
proof -
  have c: "in_replacer r = in_replacer (bp_replacer bp)" "replacer_wf (length (bp_frames bp)) r"
    "\<forall>f < length (bp_frames bp). \<not> in_replacer (bp_replacer bp) ! f"
    using victim_complete [OF bp_invD(1) [OF inv]] v by simp_all
  show "\<forall>f < length (bp_frames bp). \<not> in_replacer (bp_replacer bp) ! f" by (rule c)
  show "content (bp\<lparr>bp_replacer := r\<rparr>) q = content bp q" by (simp add: content_def split: option.split)
  show "bp_inv (bp\<lparr>bp_replacer := r\<rparr>)"
    using inv c by (simp add: bp_inv_def mapped_ok_def evictable_ok_def)
qed

lemma below_NO_PAGE: "p < (n :: u32) \<Longrightarrow> p \<noteq> NO_PAGE"
  using word_n1_ge [of n] by (auto simp: NO_PAGE_def)

lemma replacer_length:
  assumes "bp_inv bp"
  shows "num_frames (bp_replacer bp) = length (bp_frames bp)" "length (in_replacer (bp_replacer bp)) = length (bp_frames bp)"
  using bp_invD(1) [OF assms] by (simp_all add: replacer_wf_def num_frames_def)

lemma fetch_hit:
  assumes inv: "bp_inv bp" and ok: "op_ok bp (Fetch p)" and f: "map_of (bp_table bp) p = Some f"
    and run: "fetch_page bp p = (res, bp')"
  shows "bp_inv bp'" "content bp' q = content bp q" "keeps_pins bp bp'" "res = Inr f" "map_of (bp_table bp') p = Some f"
    "pinned bp' f"
proof -
  let ?fr = "bp_frames bp ! f"
  note m = mapped_okD [OF inv f]
  have bp': "res = Inr f" "bp' = bp\<lparr>bp_disk := bp_disk bp, bp_replacer := replacer_pin (bp_replacer bp) f,
      bp_frames := (bp_frames bp)[f := ?fr\<lparr>pf_pin_count := pf_pin_count ?fr + 1\<rparr>]\<rparr>"
    using run by (auto simp: fetch_page_def f Let_def)
  show "bp_inv bp'" unfolding bp'
    by (rule touch_frame_inv [OF inv f, where b = False])
      (use m replacer_length [OF inv] in \<open>simp_all add: bp_invD(1-3,5) [OF inv] replacer_wf_ops in_replacer_ops\<close>)
  show "content bp' q = content bp q" unfolding bp'
    by (subst touch_frame_content [OF inv f]) (simp_all add: content_def f)
  show "keeps_pins bp bp'" by (rule keeps_pins_same [OF inv]) (simp add: bp')
  show "pinned bp' f" using ok f m(1) by (simp add: bp' pinned_def op_ok_def)
  show "res = Inr f" "map_of (bp_table bp') p = Some f" by (simp_all add: bp' f)
qed

lemma fetch_page_effect:
  assumes inv: "bp_inv bp" and ok: "op_ok bp (Fetch p)" and run: "fetch_page bp p = (res, bp')"
  shows "bp_inv bp' \<and> (\<forall>q. content bp' q = content bp q) \<and> keeps_pins bp bp' \<and>
    (\<forall>f. res = Inr f \<longrightarrow> map_of (bp_table bp') p = Some f \<and> pinned bp' f)"
proof (cases "map_of (bp_table bp) p")
  case (Some f)
  with fetch_hit [OF inv ok Some run] show ?thesis by auto
next
  case None
  let ?dm = "bp_disk bp"
  have dm: "dm_ok ?dm" "dm_free_pages ?dm = []" "dm_num_pages ?dm \<le> dm_num_pages ?dm" "\<And>q. dm_content ?dm q = dm_content ?dm q"
    using bp_invD(2,3) [OF inv] by simp_all
  obtain vo r where v: "victim (bp_replacer bp) = (vo, r)" by force
  show ?thesis
  proof (cases vo)
    case vn: None
    with run None v have "bp' = bp\<lparr>bp_replacer := r\<rparr>" "\<forall>f. res \<noteq> Inr f" by (auto simp: fetch_page_def)
    with no_victim [OF inv v [unfolded vn]] keeps_pins_same [OF inv, of bp'] show ?thesis by simp
  next
    case (Some f)
    note v = v [unfolded Some]
    let ?msg = "''Disk write error during page flush: ''"
    obtain ev bp1 where e: "evict ?msg (bp\<lparr>bp_replacer := r, bp_disk := ?dm\<rparr>) f = (ev, bp1)" by force
    then have e': "evict ?msg (bp\<lparr>bp_replacer := r\<rparr>) f = (ev, bp1)" by simp
    show ?thesis
    proof (cases ev)
      case (Inl err)
      with run None v e' have "res = Inl err" "bp' = bp1" by (simp_all add: fetch_page_def)
      with take_victim(3) [OF inv v dm] evict_effect [OF take_victim(1,2) [OF inv v dm] e] keeps_pins_same [OF inv, of bp']
      show ?thesis by simp
    next
      case (Inr u)
      define bp2 where "bp2 = unmap_frame bp1 f"
      note fv = free_victim [OF inv v dm e [unfolded Inr], folded bp2_def]
      have run': "fetch_page bp p =
          (case read_page (bp_disk bp2) p of
             Inl e \<Rightarrow> (Inl (Storage (''Disk read error during page fetch: '' @ e)), bp2)
           | Inr data \<Rightarrow> (Inr f, bp2\<lparr>bp_frames := (bp_frames bp2)[f :=
                   \<lparr>pf_data = data, pf_page_id = p, pf_pin_count = 1, pf_is_dirty = False\<rparr>],
                 bp_table := AList.update p f (bp_table bp2), bp_replacer := replacer_pin (bp_replacer bp2) f\<rparr>))"
        using None v e' Inr unfolding bp2_def by (simp add: fetch_page_def Let_def)
      show ?thesis
      proof (cases "read_page (bp_disk bp2) p")
        case (Inl err)
        with run run' have "bp' = bp2" "\<forall>f. res \<noteq> Inr f" by auto
        with fv(1,2,8) keeps_pinsI [OF inv, of bp'] show ?thesis by simp
      next
        case (Inr data)
        have res: "res = Inr f" and bp': "bp' = bp2\<lparr>bp_frames := (bp_frames bp2)[f :=
              \<lparr>pf_data = data, pf_page_id = p, pf_pin_count = 1, pf_is_dirty = False\<rparr>],
            bp_table := AList.update p f (bp_table bp2), bp_replacer := replacer_pin (bp_replacer bp2) f\<rparr>"
          using run run' Inr by auto
        have data: "data = dm_content (bp_disk bp2) p" using read_page_content [OF Inr] .
        have p: "p < dm_num_pages ?dm" using ok by (simp add: op_ok_def)
        have p2: "map_of (bp_table bp2) p = None" by (rule fv(6) [OF None])
        note ld = load_effect [OF fv(1,4,5,3) p2 below_NO_PAGE [OF p] _ _ _ _ bp', simplified,
            unfolded fv(7), OF p]
        have "length (dm_content (bp_disk bp2) p) = PAGE_SIZE" using length_dm_content bp_invD(2) [OF fv(1)] by blast
        note ld = ld [OF this data]
        have "content bp2 p = data" unfolding content_def p2 using data by simp
        then have "content bp' q = content bp q" for q
          using ld(2) [of q] fv(2) [of q] by (cases "q = p") simp_all
        moreover have "map_of (bp_table bp') q = Some g" if "map_of (bp_table bp) q = Some g" "pinned bp g" for q g
          using fv(8) [OF that] None that(1) by (auto simp: bp' update_conv')
        ultimately show ?thesis using ld(1) keeps_pinsI [OF inv, of bp'] fv(4)
          by (simp add: res pinned_def bp' update_conv')
      qed
    qed
  qed
qed

lemma allocate_effect:
  assumes inv: "bp_inv bp" and ok: "op_ok bp (New t)" and al: "allocate_page (bp_disk bp) = (p, dm)"
  shows "dm_ok dm" "dm_free_pages dm = []" "dm_num_pages (bp_disk bp) \<le> dm_num_pages dm"
    "dm_content dm q = dm_content (bp_disk bp) q" "p < dm_num_pages dm" "map_of (bp_table bp) p = None"
proof -
  have dm: "p = dm_num_pages (bp_disk bp)" "dm = (bp_disk bp)\<lparr>dm_num_pages := dm_num_pages (bp_disk bp) + 1\<rparr>"
    using al bp_invD(3) [OF inv] by (auto simp: allocate_page_def)
  have lt: "dm_num_pages (bp_disk bp) < NO_PAGE" using ok by (simp add: op_ok_def)
  have less: "x < x + 1" if "x < NO_PAGE" for x :: u32
  proof -
    have "1 + x \<noteq> 0" using that eq_neg_iff_add_eq_0 [of x 1] by (auto simp: NO_PAGE_def add.commute)
    from unatSuc [OF this] show ?thesis by (simp add: word_less_nat_alt add.commute)
  qed
  show "dm_ok dm" "dm_free_pages dm = []" using bp_invD(2,3) [OF inv] by (simp_all add: dm dm_ok_def)
  show "dm_num_pages (bp_disk bp) \<le> dm_num_pages dm" "p < dm_num_pages dm" using less [OF lt] by (simp_all add: dm)
  show "dm_content dm q = dm_content (bp_disk bp) q" by (simp add: dm dm_content_def split: option.split)
  show "map_of (bp_table bp) p = None" using mapped_okD(4) [OF inv, of p] by (cases "map_of (bp_table bp) p") (auto simp: dm)
qed

lemma new_page_effect:
  assumes inv: "bp_inv bp" and ok: "op_ok bp (New t)" and run: "new_page bp t = (res, bp')"
  shows "bp_inv bp' \<and> keeps_pins bp bp' \<and>
    (case res of
       Inr (p, f) \<Rightarrow> (\<forall>q. content bp' q = (if q = p then the (init_page p t) else content bp q)) \<and>
         map_of (bp_table bp') p = Some f \<and> pinned bp' f \<and> map_of (bp_table bp) p = None
     | Inl _ \<Rightarrow> \<forall>q. content bp' q = content bp q)"
proof -
  obtain vo r where v: "victim (bp_replacer bp) = (vo, r)" by force
  show ?thesis
  proof (cases vo)
    case None
    with run v have "bp' = bp\<lparr>bp_replacer := r\<rparr>" "\<exists>e. res = Inl e" by (auto simp: new_page_def)
    with no_victim [OF inv v [unfolded None]] keeps_pins_same [OF inv, of bp'] show ?thesis by auto
  next
    case (Some f)
    note v = v [unfolded Some]
    obtain p dm where al: "allocate_page (bp_disk bp) = (p, dm)" by force
    note dm = allocate_effect [OF inv ok al]
    let ?msg = "''Disk write error: ''"
    obtain ev bp1 where e: "evict ?msg (bp\<lparr>bp_replacer := r, bp_disk := dm\<rparr>) f = (ev, bp1)" by force
    show ?thesis
    proof (cases ev)
      case (Inl err)
      with run v al e have "res = Inl err" "bp' = bp1" by (simp_all add: new_page_def)
      with take_victim(3) [OF inv v dm(1-4)] evict_effect [OF take_victim(1,2) [OF inv v dm(1-4)] e]
        keeps_pins_same [OF inv, of bp']
      show ?thesis by simp
    next
      case (Inr u)
      define bp2 where "bp2 = unmap_frame bp1 f"
      note fv = free_victim [OF inv v dm(1-4) e [unfolded Inr], folded bp2_def]
      obtain data where data: "init_page p t = Some data" "page_wf data" using init_page_wf by blast
      have res: "res = Inr (p, f)" and bp': "bp' = bp2\<lparr>bp_frames := (bp_frames bp2)[f :=
            \<lparr>pf_data = data, pf_page_id = p, pf_pin_count = 1, pf_is_dirty = True\<rparr>],
          bp_table := AList.update p f (bp_table bp2), bp_replacer := replacer_pin (bp_replacer bp2) f\<rparr>"
        using run v al e Inr data(1) unfolding bp2_def by (auto simp: new_page_def Let_def)
      have p2: "map_of (bp_table bp2) p = None" by (rule fv(6) [OF dm(6)])
      note ld = load_effect [OF fv(1,4,5,3) p2 below_NO_PAGE [OF dm(5)] _ _ _ _ bp', simplified,
          unfolded fv(7), OF dm(5)]
      have "length data = PAGE_SIZE" using data(2) by (simp add: page_wf_def)
      note ld = ld [OF this]
      have "map_of (bp_table bp') q = Some g" if "map_of (bp_table bp) q = Some g" "pinned bp g" for q g
        using fv(8) [OF that] dm(6) that(1) by (auto simp: bp' update_conv')
      with ld keeps_pinsI [OF inv, of bp'] fv(2,4) dm(6) data(1) show ?thesis
        by (simp add: res pinned_def bp' update_conv')
    qed
  qed
qed

lemma unpin_page_effect:
  assumes inv: "bp_inv bp" and ok: "op_ok bp (Unpin p d)" and run: "unpin_page bp p d = (res, bp')"
  shows "bp_inv bp'" "content bp' q = content bp q" "keeps_pins bp bp'"
proof -
  have "bp_inv bp' \<and> (\<forall>q. content bp' q = content bp q) \<and> bp_table bp' = bp_table bp"
  proof (cases "map_of (bp_table bp) p")
    case None
    with run inv show ?thesis by (simp add: unpin_page_def)
  next
    case (Some f)
    let ?fr = "bp_frames bp ! f"
    let ?fr1 = "?fr\<lparr>pf_is_dirty := pf_is_dirty ?fr \<or> d, pf_pin_count := pf_pin_count ?fr - 1\<rparr>"
    let ?r = "if pf_pin_count ?fr = 1 then replacer_unpin (bp_replacer bp) f else bp_replacer bp"
    have bp': "bp' = bp\<lparr>bp_disk := bp_disk bp, bp_replacer := ?r, bp_frames := (bp_frames bp)[f := ?fr1]\<rparr>"
      using run by (auto simp: unpin_page_def Some Let_def)
    note m = mapped_okD [OF inv Some]
    have pin: "pf_pin_count ?fr \<noteq> 0" using ok Some by (simp add: op_ok_def pinned_def)
    then have out: "\<not> in_replacer (bp_replacer bp) ! f"
      using bp_invD(7) [OF inv] m(1) by (auto simp: evictable_ok_def)
    have r: "replacer_wf (length (bp_frames bp)) ?r"
      "in_replacer ?r = in_replacer (bp_replacer bp) \<or> in_replacer ?r = (in_replacer (bp_replacer bp))[f := True]"
      "in_replacer ?r ! f \<Longrightarrow> pf_pin_count ?fr1 = 0"
      using m(1) out bp_invD(1) [OF inv] replacer_length [OF inv] by (auto simp: replacer_wf_ops in_replacer_ops split: if_splits)
    have "bp_inv bp'" unfolding bp'
      by (rule touch_frame_inv [OF inv Some _ _ _ r])
        (use m in \<open>auto simp: bp_invD(2,3,5) [OF inv]\<close>)
    moreover have "content bp' q = content bp q" for q unfolding bp'
      by (subst touch_frame_content [OF inv Some]) (simp_all add: content_def Some)
    ultimately show ?thesis by (simp add: bp')
  qed
  then show "bp_inv bp'" "content bp' q = content bp q" "keeps_pins bp bp'"
    using keeps_pins_same [OF inv] by blast+
qed

lemma flush_frame_effect:
  assumes inv: "bp_inv bp" and f: "map_of (bp_table bp) p = Some f" and run: "flush_frame crc msg bp (p, f) = (res, bp')"
  shows "bp_inv bp'" "pages bp' q = pages bp q" "bp_table bp' = bp_table bp"
proof -
  let ?fr = "bp_frames bp ! f"
  note m = mapped_okD [OF inv f]
  obtain d where d: "compute_and_write_checksum crc (pf_data ?fr) = Some d" "length d = PAGE_SIZE"
      "page_body d = page_body (pf_data ?fr)"
    using checksum_body [OF bp_invD(5) [OF inv m(1)]] by blast
  consider (clean) "bp' = bp"
    | (failed) "pf_is_dirty ?fr" "bp' = bp\<lparr>bp_disk := bp_disk bp, bp_replacer := bp_replacer bp, bp_frames := (bp_frames bp)[f := ?fr\<lparr>pf_data := d\<rparr>]\<rparr>"
    | (written) dm where "write_page (bp_disk bp) p d = Inr dm"
        "bp' = bp\<lparr>bp_disk := dm, bp_replacer := bp_replacer bp, bp_frames := (bp_frames bp)[f := ?fr\<lparr>pf_data := d, pf_is_dirty := False\<rparr>]\<rparr>"
  proof (cases "pf_is_dirty ?fr")
    case True
    with run d(1) show ?thesis
      by (cases "write_page (bp_disk bp) p d") (auto simp: flush_frame_def Let_def intro: failed written)
  next
    case False
    with run show ?thesis by (intro clean) (auto simp: flush_frame_def Let_def)
  qed
  then have "bp_inv bp' \<and> (\<forall>q. pages bp' q = pages bp q) \<and> bp_table bp' = bp_table bp"
  proof cases
    case clean
    with inv show ?thesis by simp
  next
    case failed
    have "bp_inv bp'" unfolding failed
      by (rule touch_frame_inv [OF inv f])
        (use m failed(1) bp_invD(7) [OF inv] in \<open>auto simp: bp_invD(1-3,5) [OF inv] d evictable_ok_def\<close>)
    moreover have "pages bp' q = pages bp q" for q unfolding failed pages_def
      by (subst touch_frame_content [OF inv f]) (simp_all add: content_def f d)
    ultimately show ?thesis by (simp add: failed)
  next
    case written
    note w = write_page_effect [OF written(1) d(2) bp_invD(2) [OF inv]]
    have "bp_inv bp'" unfolding written
      by (rule touch_frame_inv [OF inv f])
        (use m bp_invD(7) [OF inv] in \<open>auto simp: w bp_invD(1-3,5) [OF inv] d evictable_ok_def\<close>)
    moreover have "pages bp' q = pages bp q" for q unfolding written pages_def
      by (subst touch_frame_content [OF inv f]) (simp_all add: w content_def f d)
    ultimately show ?thesis by (simp add: written)
  qed
  then show "bp_inv bp'" "pages bp' q = pages bp q" "bp_table bp' = bp_table bp" by blast+
qed

lemma flush_loop_effect:
  assumes "bp_inv bp" "\<forall>(p, f) \<in> set es. map_of (bp_table bp) p = Some f" "flush_loop crc es bp = (res, bp')"
  shows "bp_inv bp' \<and> (\<forall>q. pages bp' q = pages bp q) \<and> bp_table bp' = bp_table bp"
  using assms
proof (induction es arbitrary: bp)
  case (Cons e es)
  obtain p f where e: "e = (p, f)" by force
  obtain rs bp1 where s: "flush_frame crc ''Flush all error: '' bp (p, f) = (rs, bp1)" by force
  have f: "map_of (bp_table bp) p = Some f" using Cons.prems(2) e by simp
  note fx = flush_frame_effect [OF Cons.prems(1) f s]
  show ?case
  proof (cases rs)
    case (Inl err)
    with Cons.prems(3) e s fx show ?thesis by simp
  next
    case (Inr u)
    with Cons.prems(3) e s have "flush_loop crc es bp1 = (res, bp')" by simp
    with Cons.IH [OF fx(1) _ this] Cons.prems(2) fx show ?thesis by simp
  qed
qed simp

lemma write_pinned_effect:
  assumes inv: "bp_inv bp" and ok: "op_ok bp (Write p d)"
  shows "bp_inv (write_pinned bp p d)" "content (write_pinned bp p d) q = (if q = p then d else content bp q)"
    "keeps_pins bp (write_pinned bp p d)"
proof -
  from ok obtain f where f: "map_of (bp_table bp) p = Some f" "pinned bp f" "length d = PAGE_SIZE"
    by (auto simp: op_ok_def split: option.splits)
  note m = mapped_okD [OF inv f(1)]
  have eq: "write_pinned bp p d = bp\<lparr>bp_disk := bp_disk bp, bp_replacer := bp_replacer bp,
      bp_frames := (bp_frames bp)[f := (bp_frames bp ! f)\<lparr>pf_data := d, pf_is_dirty := True\<rparr>]\<rparr>"
    by (simp add: write_pinned_def write_frame_def f)
  show "bp_inv (write_pinned bp p d)" unfolding eq
    by (rule touch_frame_inv [OF inv f(1)])
      (use m f bp_invD(7) [OF inv] in \<open>auto simp: bp_invD(1-3) [OF inv] evictable_ok_def\<close>)
  show "content (write_pinned bp p d) q = (if q = p then d else content bp q)" unfolding eq
    by (subst touch_frame_content [OF inv f(1)]) simp_all
  show "keeps_pins bp (write_pinned bp p d)" by (rule keeps_pins_same [OF inv]) (simp add: eq)
qed

lemma pool_do_effect:
  assumes inv: "bp_inv bp" and ok: "op_ok bp op" and run: "pool_do crc bp op = (res, bp')"
  shows "bp_inv bp' \<and> pages bp' = spec_pages op res (pages bp) \<and> keeps_pins bp bp' \<and>
    (\<forall>p f. res = Inr (Some (p, f)) \<longrightarrow> map_of (bp_table bp') p = Some f \<and> pinned bp' f)"
proof (cases op)
  case (Fetch p)
  obtain rs where "fetch_page bp p = (rs, bp')" "res = map_sum id (\<lambda>f. Some (p, f)) rs"
    using run by (cases "fetch_page bp p") (auto simp: pool_do_def Fetch)
  with fetch_page_effect [OF inv ok [unfolded Fetch], of rs bp'] show ?thesis
    by (cases rs) (auto simp: Fetch spec_pages_def pages_def)
next
  case (New t)
  obtain rs where "new_page bp t = (rs, bp')" "res = map_sum id Some rs"
    using run by (cases "new_page bp t") (auto simp: pool_do_def New)
  with new_page_effect [OF inv ok [unfolded New], of rs bp'] show ?thesis
    by (cases rs) (auto simp: New spec_pages_def pages_def fun_eq_iff)
next
  case (Unpin p d)
  obtain rs where "unpin_page bp p d = (rs, bp')" "res = map_sum id (\<lambda>_. None) rs"
    using run by (cases "unpin_page bp p d") (auto simp: pool_do_def Unpin)
  with unpin_page_effect [OF inv ok [unfolded Unpin], of rs bp'] show ?thesis
    by (cases rs) (auto simp: Unpin spec_pages_def pages_def)
next
  case (Flush p)
  obtain rs where rs: "flush_page crc bp p = (rs, bp')" "res = map_sum id (\<lambda>_. None) rs"
    using run by (cases "flush_page crc bp p") (auto simp: pool_do_def Flush)
  have "bp_inv bp' \<and> (\<forall>q. pages bp' q = pages bp q) \<and> bp_table bp' = bp_table bp"
  proof (cases "map_of (bp_table bp) p")
    case None
    with rs inv show ?thesis by (simp add: flush_page_def)
  next
    case (Some f)
    with rs(1) have "flush_frame crc ''Flush error: '' bp (p, f) = (rs, bp')" by (simp add: flush_page_def)
    from flush_frame_effect [OF inv Some this] show ?thesis by blast
  qed
  with keeps_pins_same [OF inv, of bp'] rs(2) show ?thesis by (cases rs) (auto simp: Flush spec_pages_def)
next
  case FlushAll
  obtain rs where rs: "flush_loop crc (bp_table bp) bp = (rs, bp')" "res = map_sum id (\<lambda>_. None) rs"
    using run by (cases "flush_all crc bp") (auto simp: pool_do_def FlushAll flush_all_def)
  have "\<forall>(p, f) \<in> set (bp_table bp). map_of (bp_table bp) p = Some f" using bp_invD(4) [OF inv] by auto
  from flush_loop_effect [OF inv this rs(1)] keeps_pins_same [OF inv, of bp'] rs(2) show ?thesis
    by (cases rs) (auto simp: FlushAll spec_pages_def)
next
  case (Write p d)
  with run have "bp' = write_pinned bp p d" "res = Inr None" by (auto simp: pool_do_def)
  with write_pinned_effect [OF inv ok [unfolded Write]] show ?thesis
    by (auto simp: Write spec_pages_def pages_def)
qed

definition pool_start :: "buffer_pool \<Rightarrow> bool" where
  "pool_start bp \<longleftrightarrow> (\<exists>dm n. bp = pool_new dm n \<and> (dm = disk_in_memory \<or> (\<exists>c. dm = disk_open c)))"

definition pool_step :: "(bytes \<Rightarrow> u32) \<Rightarrow> buffer_pool \<Rightarrow> buffer_pool \<Rightarrow> bool" where
  "pool_step crc bp bp' \<longleftrightarrow> (\<exists>op. op_ok bp op \<and> bp' = snd (pool_do crc bp op))"

interpretation pool: invariant_system pool_start "pool_step crc" bp_inv
proof
  show "bp_inv bp" if "pool_start bp" for bp
    using that by (auto simp: pool_start_def disk_in_memory_def disk_open_def dm_ok_def intro!: pool_new_inv)
  show "bp_inv bp'" if "bp_inv bp" "pool_step crc bp bp'" for bp bp'
    using that pool_do_effect [OF that(1)] by (auto simp: pool_step_def) (metis prod.collapse)
qed



text \<open>A fetch that fails to read its page loses the frame: in a pool of one frame every later fetch or
  allocation of another page fails as if the frame were pinned.\<close>

theorem failed_fetch_leaks_frame:
  "let (res, bp) = fetch_page (pool_new (disk_open []) 1) 0 in
     res = Inl (Storage ''Disk read error during page fetch: failed to fill whole buffer'') \<and>
     pf_pin_count (bp_frames bp ! 0) = 0 \<and>
     fst (new_page bp t) = Inl (Storage ''All buffer pool frames are pinned; cannot allocate new page'') \<and>
     fst (fetch_page bp p) = Inl (Storage ''All buffer pool frames are currently pinned; out of memory'')"
  by (simp add: fetch_page_def new_page_def pool_new_def disk_open_def victim_def num_frames_def replacer_new_def
      replacer_unpin_def evict_def unmap_frame_def page_frame_new_def NO_PAGE_def read_page_def PAGE_SIZE_def
      numeral_2_eq_2 Let_def)

text \<open>
  The life of page 0 in a pool of two frames: created, freed, created again, written and flushed; then page 1
  is created and page 0 fetched.
\<close>

definition reuse_run :: "(bytes \<Rightarrow> u32) \<Rightarrow> bytes \<Rightarrow> buffer_pool" where
  "reuse_run crc d =
     (let b1 = snd (new_page (pool_new disk_in_memory 2) 0);
          b2 = snd (free_page (snd (unpin_page b1 0 True)) 0);
          b3 = snd (new_page b2 0);
          b4 = snd (unpin_page (write_pinned b3 0 d) 0 True);
          b5 = snd (flush_page crc b4 0);
          b6 = snd (new_page b5 0) in
      snd (fetch_page b6 0))"

lemmas pool_exec = unpin_page_def release_def write_frame_def evict_def unmap_frame_def victim_def replacer_pin_def
  replacer_unpin_def num_frames_def read_page_def write_page_def NO_PAGE_def eval_nat_numeral Let_def

text \<open>A pool of two frames over a disk in memory, written out.\<close>

abbreviation pool_of where
  "pool_of mem np fl hand ref inr frs tab \<equiv>
     \<lparr>bp_disk = \<lparr>dm_file = None, dm_memory = mem, dm_num_pages = np, dm_free_pages = fl, write_fails = False\<rparr>,
      bp_replacer = \<lparr>clock_hand = hand, ref_bits = ref, in_replacer = inr\<rparr>, bp_frames = frs, bp_table = tab\<rparr>"

abbreviation frame_of where
  "frame_of d p pin dirty \<equiv> \<lparr>pf_data = d, pf_page_id = p, pf_pin_count = pin, pf_is_dirty = dirty\<rparr>"

lemma reuse_run_create:
  assumes "init_page 0 0 = Some i0" "mark_as_free i0 = Some fr"
  shows "free_page (snd (unpin_page (snd (new_page (pool_new disk_in_memory 2) 0)) 0 True)) 0 =
    (Inr (), pool_of [] 1 [0] 1 [True, False] [True, True] [frame_of fr 0 0 True, page_frame_new] [(0, 0)])"
proof -
  have "new_page (pool_new disk_in_memory 2) 0 =
      (Inr (0, 0), pool_of [] 1 [] 1 [False, False] [False, True] [frame_of i0 0 1 True, page_frame_new] [(0, 0)])"
    by (simp add: assms new_page_def allocate_page_def pool_new_def disk_in_memory_def replacer_new_def
        page_frame_new_def pool_exec)
  then show ?thesis by (simp add: assms free_page_def fetch_page_def deallocate_page_def pool_exec)
qed

lemma reuse_run_write:
  assumes "init_page 0 0 = Some i0" "compute_and_write_checksum crc d = Some d'"
  shows "flush_page crc (snd (unpin_page (write_pinned (snd (new_page
       (pool_of [] 1 [0] 1 [True, False] [True, True] [frame_of fr 0 0 True, page_frame_new] [(0, 0)]) 0)) 0 d) 0 True)) 0 =
    (Inr (), pool_of [(0, d')] 1 [] 0 [True, True] [True, True] [frame_of fr 0 0 True, frame_of d' 0 0 False] [(0, 1)])"
proof -
  have "new_page (pool_of [] 1 [0] 1 [True, False] [True, True] [frame_of fr 0 0 True, page_frame_new] [(0, 0)]) 0 =
      (Inr (0, 1), pool_of [] 1 [] 0 [True, False] [True, False] [frame_of fr 0 0 True, frame_of i0 0 1 True] [(0, 1)])"
    by (simp add: assms new_page_def allocate_page_def page_frame_new_def pool_exec)
  then show ?thesis by (simp add: assms flush_page_def flush_frame_def write_pinned_def pool_exec)
qed

lemma reuse_run_evict:
  assumes "init_page 1 0 = Some i1"
  shows "snd (fetch_page (snd (new_page
      (pool_of [(0, d')] 1 [] 0 [True, True] [True, True] [frame_of fr 0 0 True, frame_of d' 0 0 False] [(0, 1)]) 0)) 0) =
    pool_of [(0, fr)] 2 [] 0 [False, False] [False, False] [frame_of i1 1 1 True, frame_of fr 0 1 False] [(1, 0), (0, 1)]"
proof -
  have "new_page (pool_of [(0, d')] 1 [] 0 [True, True] [True, True] [frame_of fr 0 0 True, frame_of d' 0 0 False] [(0, 1)]) 0 =
      (Inr (1, 0), pool_of [(0, fr)] 2 [] 1 [False, False] [False, True] [frame_of i1 1 1 True, frame_of d' 0 0 False] [(1, 0)])"
    by (simp add: assms new_page_def allocate_page_def pool_exec)
  then show ?thesis by (simp add: fetch_page_def pool_exec)
qed

text \<open>Freeing a page and reusing its number loses data.  The frame of the freed page keeps the page's
  number and stays dirty, so that the pool has two frames for one page; when the stale frame is evicted, it
  overwrites the page on disk and removes the mapping of the live frame.  The page written and flushed by the
  client then reads as the free page.\<close>

theorem freed_page_overwrites_reused:
  "length d = PAGE_SIZE \<Longrightarrow> content (reuse_run crc d) 0 = the (init_page 0 2)"
proof -
  assume len: "length d = PAGE_SIZE"
  obtain i0 i1 fr where i: "init_page 0 0 = Some i0" "get_page_id i0 = 0" "init_page 1 0 = Some i1" "init_page 0 2 = Some fr"
    using init_page_wf by metis
  then have m: "mark_as_free i0 = Some fr" by (simp add: mark_as_free_def)
  obtain d' where d': "compute_and_write_checksum crc d = Some d'" using checksum_body [OF len] by blast
  show ?thesis
    unfolding reuse_run_def Let_def reuse_run_create [OF i(1) m] snd_conv reuse_run_write [OF i(1) d']
      reuse_run_evict [OF i(3)] by (simp add: content_def i(4))
qed

theorem freed_page_overwrites_reused_witness:
  "content (reuse_run (\<lambda>_. 0) (replicate PAGE_SIZE 7)) 0 = the (init_page 0 2)"
  by (rule freed_page_overwrites_reused) simp

end
