(* ===== verification/Storage_Node.thy ===== *)
theory Storage_Node
  imports MV_Store
begin

text \<open>
  Log-structured storage: the records and tokens of \<^verbatim>\<open>crates/h2-types/src/storage.rs\<close>, the storage node of
  \<^verbatim>\<open>crates/h2/src/storage/smart_node.rs\<close>, and the local engine of
  \<^verbatim>\<open>crates/h2-mvstore/src/storage_engine.rs\<close>.  A node keeps a log of records and applies it in the
  background to a store; reads overlay the records not applied yet.  What both engines promise of fencing
  tokens is the locale \<open>fenced\<close>.  The theorem of the theory is that a node that receives its log in order
  reads exactly what replaying the log gives, whatever was applied in the background.
\<close>

section \<open>Log records\<close>

datatype log_op = OpPut | OpDelete | OpCommit | OpRollback | OpCreateMap | OpDropMap | OpTruncateMap

record log_record =
  lr_lsn :: u64
  lr_prev_lsn :: u64
  lr_tx_id :: u64
  lr_op :: log_op
  lr_map :: string
  lr_key :: bytes
  lr_value :: "bytes option"
  lr_timestamp :: u64

definition log_put :: "u64 \<Rightarrow> u64 \<Rightarrow> u64 \<Rightarrow> string \<Rightarrow> bytes \<Rightarrow> bytes \<Rightarrow> u64 \<Rightarrow> log_record" where
  "log_put lsn prev tx name key val now =
     \<lparr>lr_lsn = lsn, lr_prev_lsn = prev, lr_tx_id = tx, lr_op = OpPut, lr_map = name, lr_key = key,
      lr_value = Some val, lr_timestamp = now\<rparr>"

definition log_delete :: "u64 \<Rightarrow> u64 \<Rightarrow> u64 \<Rightarrow> string \<Rightarrow> bytes \<Rightarrow> u64 \<Rightarrow> log_record" where
  "log_delete lsn prev tx name key now =
     \<lparr>lr_lsn = lsn, lr_prev_lsn = prev, lr_tx_id = tx, lr_op = OpDelete, lr_map = name, lr_key = key,
      lr_value = None, lr_timestamp = now\<rparr>"

definition log_commit :: "u64 \<Rightarrow> u64 \<Rightarrow> u64 \<Rightarrow> u64 \<Rightarrow> log_record" where
  "log_commit lsn prev tx now =
     \<lparr>lr_lsn = lsn, lr_prev_lsn = prev, lr_tx_id = tx, lr_op = OpCommit, lr_map = [], lr_key = [],
      lr_value = None, lr_timestamp = now\<rparr>"

definition log_rollback :: "u64 \<Rightarrow> u64 \<Rightarrow> u64 \<Rightarrow> u64 \<Rightarrow> log_record" where
  "log_rollback lsn prev tx now =
     \<lparr>lr_lsn = lsn, lr_prev_lsn = prev, lr_tx_id = tx, lr_op = OpRollback, lr_map = [], lr_key = [],
      lr_value = None, lr_timestamp = now\<rparr>"

definition token_next :: "u64 \<Rightarrow> u64" where
  "token_next t = t + 1"

section \<open>Storage node\<close>

datatype node_state = Online | Paused | Offline

text \<open>
  The simulated delay only lets time pass and is left out.  Each operation is one step; the store of a node
  is in memory and has no listener.
\<close>

record smart_node =
  node_id :: nat
  az :: string
  wal_buffer :: "log_record list"
  flushed_lsn :: u64
  applied_lsn :: u64
  materialized_store :: mvstore
  node_token :: u64
  node_state :: node_state

definition node_new :: "nat \<Rightarrow> string \<Rightarrow> smart_node" where
  "node_new i zone =
     \<lparr>node_id = i, az = zone, wal_buffer = [], flushed_lsn = 0, applied_lsn = 0,
      materialized_store = store_open_in_memory, node_token = 1, node_state = Online\<rparr>"

definition acquire_lease :: "smart_node \<Rightarrow> u64 \<Rightarrow> unit h2_result \<times> smart_node" where
  "acquire_lease nd token =
     (if token < node_token nd then (Inl (Storage ''Rejected fencing token''), nd)
      else (Inr (), nd\<lparr>node_token := token\<rparr>))"

definition set_state :: "smart_node \<Rightarrow> node_state \<Rightarrow> smart_node" where
  "set_state nd s = nd\<lparr>node_state := s\<rparr>"

definition append_logs :: "smart_node \<Rightarrow> log_record list \<Rightarrow> u64 \<Rightarrow> u64 h2_result \<times> smart_node" where
  "append_logs nd records token =
     (if node_state nd = Offline then (Inl (Storage ''Node is OFFLINE''), nd)
      else if token < node_token nd then (Inl (Storage ''Fencing token violation''), nd)
      else
        let max_lsn = foldl (\<lambda>m r. max m (lr_lsn r)) (flushed_lsn nd) records in
        (Inr max_lsn, nd\<lparr>wal_buffer := wal_buffer nd @ records, flushed_lsn := max_lsn\<rparr>))"

text \<open>One record applied to the store; \<open>None\<close> is a panic of the store.\<close>

definition redo :: "codecs \<Rightarrow> mvstore \<Rightarrow> log_record \<Rightarrow> mvstore option" where
  "redo C st r =
     (case lr_op r of
        OpPut \<Rightarrow> (case lr_value r of Some val \<Rightarrow> store_put st (lr_map r) (lr_key r) val | None \<Rightarrow> Some st)
      | OpDelete \<Rightarrow> store_remove st (lr_map r) (lr_key r)
      | OpTruncateMap \<Rightarrow> Some (clear_map (snd (open_map st (lr_map r))) (lr_map r))
      | OpDropMap \<Rightarrow> Some (clear_map (snd (open_map st (lr_map r))) (lr_map r))
      | OpCommit \<Rightarrow> Some (snd (checkpoint C False None st))
      | OpRollback \<Rightarrow> Some st
      | OpCreateMap \<Rightarrow> Some st)"

definition materialize_pending :: "codecs \<Rightarrow> smart_node \<Rightarrow> (nat \<times> smart_node) option" where
  "materialize_pending C nd =
     (if node_state nd = Offline \<or> flushed_lsn nd \<le> applied_lsn nd then Some (0, nd)
      else
        let logs = filter (\<lambda>r. applied_lsn nd < lr_lsn r \<and> lr_lsn r \<le> flushed_lsn nd) (wal_buffer nd) in
        do { st \<leftarrow> fold_opt (redo C) (materialized_store nd) logs;
             Some (length logs, nd\<lparr>materialized_store := st,
                                   applied_lsn := foldl (\<lambda>m r. max m (lr_lsn r)) (applied_lsn nd) logs\<rparr>) })"

text \<open>The records that a read overlays on the store.\<close>

definition overlay_logs :: "smart_node \<Rightarrow> string \<Rightarrow> u64 \<Rightarrow> log_record list" where
  "overlay_logs nd name read_version =
     (if applied_lsn nd < read_version
      then filter (\<lambda>r. applied_lsn nd < lr_lsn r \<and> lr_lsn r \<le> read_version \<and> lr_map r = name) (wal_buffer nd)
      else [])"

definition overlay_key :: "bytes \<Rightarrow> bytes option \<Rightarrow> log_record \<Rightarrow> bytes option" where
  "overlay_key key base r =
     (if lr_key r = key then
        (case lr_op r of OpPut \<Rightarrow> lr_value r | OpDelete \<Rightarrow> None | _ \<Rightarrow> base)
      else base)"

definition get_key :: "smart_node \<Rightarrow> string \<Rightarrow> bytes \<Rightarrow> u64 \<Rightarrow> bytes option h2_result \<times> smart_node" where
  "get_key nd name key read_version =
     (if node_state nd = Offline then (Inl (Storage ''Node is OFFLINE''), nd)
      else
        (case open_map (materialized_store nd) name of (m, st) \<Rightarrow>
           (res_bind (or_panic (map_get m key)) (\<lambda>base.
              Inr (foldl (overlay_key key) base (overlay_logs nd name read_version))),
            nd\<lparr>materialized_store := st\<rparr>)))"

definition overlay_map :: "(bytes, bytes) kvs \<Rightarrow> log_record \<Rightarrow> (bytes, bytes) kvs" where
  "overlay_map ps r =
     (case lr_op r of
        OpPut \<Rightarrow> (case lr_value r of Some val \<Rightarrow> put_sorted (lr_key r) val ps | None \<Rightarrow> ps)
      | OpDelete \<Rightarrow> del_key (lr_key r) ps
      | OpTruncateMap \<Rightarrow> []
      | OpDropMap \<Rightarrow> []
      | _ \<Rightarrow> ps)"

definition within_keys :: "bytes option \<Rightarrow> bytes option \<Rightarrow> bytes \<Rightarrow> bool" where
  "within_keys start stop k \<longleftrightarrow>
     (case start of Some s \<Rightarrow> s \<le> k | None \<Rightarrow> True) \<and> (case stop of Some e \<Rightarrow> k \<le> e | None \<Rightarrow> True)"

definition scan_range :: "smart_node \<Rightarrow> string \<Rightarrow> bytes option \<Rightarrow> bytes option \<Rightarrow> u64 \<Rightarrow>
    (bytes, bytes) kvs h2_result \<times> smart_node" where
  "scan_range nd name start stop read_version =
     (if node_state nd = Offline then (Inl (Storage ''Node is OFFLINE''), nd)
      else
        (case open_map (materialized_store nd) name of (m, st) \<Rightarrow>
           (Inr (filter (\<lambda>(k, v). within_keys start stop k)
                   (foldl overlay_map (map kv (map_scan_all m)) (overlay_logs nd name read_version))),
            nd\<lparr>materialized_store := st\<rparr>)))"

definition get_page :: "smart_node \<Rightarrow> u32 \<times> u32 \<Rightarrow> bytes h2_result" where
  "get_page nd page_id =
     (if node_state nd = Offline then Inl (Storage ''Node is OFFLINE'')
      else Inr (u32_to_be_bytes (fst page_id) @ u32_to_be_bytes (snd page_id)))"

definition gossip_sync_from :: "codecs \<Rightarrow> smart_node \<Rightarrow> smart_node \<Rightarrow> (nat h2_result \<times> smart_node) option" where
  "gossip_sync_from C nd peer =
     (if node_state nd = Offline then Some (Inl (Storage ''Node is OFFLINE''), nd)
      else if flushed_lsn peer \<le> flushed_lsn nd then Some (Inr 0, nd)
      else
        let missing = filter (\<lambda>r. flushed_lsn nd < lr_lsn r \<and> lr_lsn r \<le> flushed_lsn peer) (wal_buffer peer) in
        if missing = [] then Some (Inr 0, nd)
        else
          do { (_, nd') \<leftarrow> materialize_pending C
                 (nd\<lparr>wal_buffer := wal_buffer nd @ missing,
                     flushed_lsn := foldl (\<lambda>m r. max m (lr_lsn r)) (flushed_lsn nd) missing\<rparr>);
               Some (Inr (length missing), nd') })"

section \<open>Local engine\<close>

record local_engine =
  engine_store :: mvstore
  engine_lsn :: u64
  engine_token :: u64

definition engine_new :: "mvstore \<Rightarrow> local_engine" where
  "engine_new st = \<lparr>engine_store = st, engine_lsn = version st, engine_token = 1\<rparr>"

definition engine_acquire_lease :: "local_engine \<Rightarrow> u64 \<Rightarrow> unit h2_result \<times> local_engine" where
  "engine_acquire_lease e token =
     (if token < engine_token e then (Inl (Storage ''Fencing token rejection''), e)
      else (Inr (), e\<lparr>engine_token := token\<rparr>))"

text \<open>The store under the engine may have a replication listener, called at each commit record.\<close>

definition engine_redo :: "codecs \<Rightarrow> bool \<Rightarrow> listener \<Rightarrow> mvstore \<Rightarrow> log_record \<Rightarrow> mvstore option" where
  "engine_redo C wal_sync_fault lst st r =
     (case lr_op r of
        OpCommit \<Rightarrow> Some (snd (checkpoint C wal_sync_fault lst st))
      | OpCreateMap \<Rightarrow> Some (snd (open_map st (lr_map r)))
      | _ \<Rightarrow> redo C st r)"

definition engine_append_logs :: "codecs \<Rightarrow> bool \<Rightarrow> listener \<Rightarrow> local_engine \<Rightarrow> log_record list \<Rightarrow> u64 \<Rightarrow>
    u64 h2_result \<times> local_engine" where
  "engine_append_logs C wal_sync_fault lst e records token =
     (if token < engine_token e then (Inl (Storage ''Fencing token violation''), e)
      else
        (case fold_opt (engine_redo C wal_sync_fault lst) (engine_store e) records of
           None \<Rightarrow> (Inl Panic, e)
         | Some st \<Rightarrow>
             (let max_lsn = foldl (\<lambda>m r. max m (lr_lsn r)) (engine_lsn e) records in
              (Inr max_lsn, e\<lparr>engine_store := st, engine_lsn := max_lsn\<rparr>))))"

definition engine_get_key :: "local_engine \<Rightarrow> string \<Rightarrow> bytes \<Rightarrow> bytes option h2_result \<times> local_engine" where
  "engine_get_key e name key =
     (case open_map (engine_store e) name of (m, st) \<Rightarrow> (or_panic (map_get m key), e\<lparr>engine_store := st\<rparr>))"

definition engine_scan_range :: "local_engine \<Rightarrow> string \<Rightarrow> bytes option \<Rightarrow> bytes option \<Rightarrow>
    (bytes, bytes) kvs \<times> local_engine" where
  "engine_scan_range e name start stop =
     (case open_map (engine_store e) name of (m, st) \<Rightarrow>
        (filter (\<lambda>(k, v). within_keys start stop k) (map kv (map_scan_all m)), e\<lparr>engine_store := st\<rparr>))"

section \<open>Fencing tokens\<close>

text \<open>
  What a storage engine promises: its token never decreases, a lease is granted for tokens that are not
  smaller, and an append with a smaller token is refused.
\<close>

locale fenced =
  fixes token_of :: "'s \<Rightarrow> u64"
    and acquire :: "'s \<Rightarrow> u64 \<Rightarrow> unit h2_result \<times> 's"
    and append :: "'s \<Rightarrow> 'r \<Rightarrow> u64 \<Rightarrow> u64 h2_result \<times> 's"
  assumes acquire_ok: "acquire s t = (Inr u, s') \<Longrightarrow> token_of s \<le> t \<and> token_of s' = t"
    and acquire_fails: "acquire s t = (Inl e, s') \<Longrightarrow> t < token_of s \<and> s' = s"
    and append_token: "append s rs t = (r, s') \<Longrightarrow> token_of s' = token_of s"
    and append_ok: "append s rs t = (Inr l, s') \<Longrightarrow> token_of s \<le> t"
begin

definition writes :: "'s \<Rightarrow> 's \<Rightarrow> bool" where
  "writes s s' \<longleftrightarrow> (\<exists>t. s' = snd (acquire s t)) \<or> (\<exists>rs t. s' = snd (append s rs t))"

lemma acquire_mono: "token_of s \<le> token_of (snd (acquire s t))"
  using acquire_ok [of s t] acquire_fails [of s t] by (cases "acquire s t"; cases "fst (acquire s t)") auto

lemma append_same: "token_of (snd (append s rs t)) = token_of s"
  using append_token [of s rs t] by (cases "append s rs t") auto

lemma writes_mono: "writes\<^sup>*\<^sup>* s s' \<Longrightarrow> token_of s \<le> token_of s'"
proof (induction rule: rtranclp_induct)
  case (step y z)
  then have "token_of y \<le> token_of z" using acquire_mono append_same by (auto simp: writes_def)
  with step.IH show ?case by simp
qed simp

text \<open>Once a lease was granted, a writer with an older token is refused for ever.\<close>

lemma fenced_off:
  assumes "acquire s t = (Inr u, s1)" "writes\<^sup>*\<^sup>* s1 s2" "t' < t"
  shows "\<exists>e. fst (append s2 rs t') = Inl e"
proof (cases "append s2 rs t'")
  case (Pair r s')
  have "t' < token_of s2" using acquire_ok [OF assms(1)] writes_mono [OF assms(2)] assms(3) by simp
  with append_ok [of s2 rs t'] Pair show ?thesis by (cases r) (auto simp: not_le)
qed

end

interpretation node: fenced node_token acquire_lease append_logs
  by unfold_locales (auto simp: acquire_lease_def append_logs_def Let_def split: if_splits)

interpretation local_store: fenced engine_token engine_acquire_lease "engine_append_logs C wal_sync_fault lst"
  by unfold_locales (auto simp: engine_acquire_lease_def engine_append_logs_def Let_def split: if_splits option.splits)

section \<open>Redo\<close>

text \<open>The effect of a record on the rows of a store.\<close>

definition redo_spec :: "((string \<times> bytes) \<rightharpoonup> bytes) \<Rightarrow> log_record \<Rightarrow> ((string \<times> bytes) \<rightharpoonup> bytes)" where
  "redo_spec w r =
     (case lr_op r of
        OpPut \<Rightarrow> (case lr_value r of Some val \<Rightarrow> w((lr_map r, lr_key r) \<mapsto> val) | None \<Rightarrow> w)
      | OpDelete \<Rightarrow> w((lr_map r, lr_key r) := None)
      | OpTruncateMap \<Rightarrow> (\<lambda>(n, k). if n = lr_map r then None else w (n, k))
      | OpDropMap \<Rightarrow> (\<lambda>(n, k). if n = lr_map r then None else w (n, k))
      | _ \<Rightarrow> w)"

text \<open>A checkpoint changes journals and caches of the maps, not their content.\<close>

definition same_map :: "string \<times> mvmap \<Rightarrow> string \<times> mvmap \<Rightarrow> bool" where
  "same_map a b \<longleftrightarrow> fst b = fst a \<and> map_wf (snd b) \<and> map_content (snd b) = map_content (snd a)"

lemma checkpoint_map_same:
  assumes "map_wf m"
  shows "checkpoint_map C first previous (n, m) = Inl (e, m') \<Longrightarrow> same_map (n, m) (n, m')"
    and "checkpoint_map C first previous (n, m) = Inr s \<Longrightarrow>
      same_map (n, m) (ms_name s, ms_map s) \<and> same_map (n, m) (restore_snapshot s)"
proof -
  define m1 where "m1 = (if first then set_journaling m True else m)"
  define j where "j = journal m1"
  define m2 where "m2 = snd (take_journal m1)"
  have m1: "map_wf m1" "map_content m1 = map_content m" using assms by (auto simp: m1_def)
  have tj: "take_journal m1 = (j, m2)" by (simp add: m2_def j_def take_journal_def)
  have m2: "map_wf m2" "map_content m2 = map_content m" "distinct (map fst (changes j))"
    using m1 by (auto simp: m2_def j_def take_journal_def map_wf_def map_content_def journal_default_def)
  have root: "map_wf m3 \<and> map_content m3 = map_content m" if "get_serialized_root sp m2 = (r, m3)" for sp r m3
    using get_serialized_root_map [OF that] m2 by (simp add: map_wf_def map_content_def)
  have rest: "same_map (n, m) (n, restore_journal m3 j)" if "map_wf m3 \<and> map_content m3 = map_content m" for m3
    using that m2(3) by (auto simp: same_map_def intro: restore_journal_wf)
  show "checkpoint_map C first previous (n, m) = Inl (e, m') \<Longrightarrow> same_map (n, m) (n, m')"
    using root rest by (auto simp: checkpoint_map_def m1_def [symmetric] tj Let_def split: if_splits sum.splits prod.splits)
  show "checkpoint_map C first previous (n, m) = Inr s \<Longrightarrow>
      same_map (n, m) (ms_name s, ms_map s) \<and> same_map (n, m) (restore_snapshot s)"
    using root rest m2
    by (auto simp: checkpoint_map_def m1_def [symmetric] tj Let_def restore_snapshot_def same_map_def
        split: if_splits sum.splits prod.splits)
qed

lemma same_maps:
  assumes "list_all2 same_map ms ms'" "maps_wf ms"
  shows "maps_wf ms'" "content_of ms' = content_of ms"
proof -
  have "map fst ms' = map fst ms \<and> (\<forall>(n, m) \<in> set ms'. map_wf m) \<and> (\<forall>n. map_option map_content (map_of ms' n) = map_option map_content (map_of ms n))"
    using assms(1) by (induction rule: list_all2_induct) (auto simp: same_map_def)
  then have names: "map fst ms' = map fst ms" and wfs: "\<forall>(n, m) \<in> set ms'. map_wf m"
    and eq: "map_option map_content (map_of ms' n) = map_option map_content (map_of ms n)" for n
    by blast+
  show "maps_wf ms'" using assms(2) names wfs by (simp add: maps_wf_def)
  show "content_of ms' = content_of ms"
  proof (rule ext)
    fix x :: "string \<times> bytes"
    obtain n k where x: "x = (n, k)" by force
    have "content_of ms (n, k) = Option.bind (map_option map_content (map_of ms n)) (\<lambda>f. f k)" for ms
      by (simp add: content_of_Pair split: option.split)
    then show "content_of ms' x = content_of ms x" using eq by (simp add: x)
  qed
qed

lemma list_all2_same_refl: "\<forall>nm \<in> set ms. map_wf (snd nm) \<Longrightarrow> list_all2 same_map ms ms"
  by (induction ms) (auto simp: same_map_def)

lemma checkpoint_maps_same:
  assumes "\<forall>nm \<in> set ms. map_wf (snd nm)" "list_all2 same_map base (map (\<lambda>s. (ms_name s, ms_map s)) acc)"
    "list_all2 same_map base (map restore_snapshot acc)"
  shows "case checkpoint_maps C first previous ms acc of
      Inl (e, ms') \<Rightarrow> list_all2 same_map (base @ ms) ms'
    | Inr ss \<Rightarrow> list_all2 same_map (base @ ms) (map (\<lambda>s. (ms_name s, ms_map s)) ss) \<and>
        list_all2 same_map (base @ ms) (map restore_snapshot ss)"
  using assms
proof (induction ms arbitrary: base acc)
  case (Cons nm ms)
  obtain n m where nm: "nm = (n, m)" by force
  with Cons.prems(1) have wf: "map_wf m" by simp
  note cm = checkpoint_map_same [OF wf, of C first previous n]
  show ?case
  proof (cases "checkpoint_map C first previous nm")
    case (Inl em)
    obtain e m' where em: "em = (e, m')" by force
    have "list_all2 same_map ms ms" using Cons.prems(1) by (intro list_all2_same_refl) simp
    then show ?thesis using Inl em cm(1) nm Cons.prems(3) by (auto intro!: list_all2_appendI)
  next
    case (Inr s)
    with cm(2) nm have s: "same_map nm (ms_name s, ms_map s)" "same_map nm (restore_snapshot s)" by auto
    have acc: "\<forall>nm \<in> set ms. map_wf (snd nm)"
      "list_all2 same_map (base @ [nm]) (map (\<lambda>s. (ms_name s, ms_map s)) (acc @ [s]))"
      "list_all2 same_map (base @ [nm]) (map restore_snapshot (acc @ [s]))"
      using Cons.prems s by (auto intro!: list_all2_appendI)
    from Cons.IH [OF acc] have
      "case checkpoint_maps C first previous ms (acc @ [s]) of
         Inl (e, ms') \<Rightarrow> list_all2 same_map (base @ nm # ms) ms'
       | Inr ss \<Rightarrow> list_all2 same_map (base @ nm # ms) (map (\<lambda>s. (ms_name s, ms_map s)) ss) \<and>
           list_all2 same_map (base @ nm # ms) (map restore_snapshot ss)"
      by (simp only: append_assoc append_Cons append_Nil)
    with Inr show ?thesis by simp
  qed
qed simp

lemma checkpoint_content:
  assumes "store_wf st"
  shows "store_wf (snd (checkpoint C sf lst st))" "store_content (snd (checkpoint C sf lst st)) = store_content st"
proof -
  let ?cp = "checkpoint_maps C (\<not> has_checkpoint st) (checkpointed_maps st) (maps st) []"
  have wf: "\<forall>nm \<in> set (maps st). map_wf (snd nm)" using assms by (auto simp: maps_wf_def)
  have "list_all2 same_map (maps st) (maps (snd (checkpoint C sf lst st)))"
  proof (cases ?cp)
    case (Inl em)
    with checkpoint_maps_same [OF wf, of "[]" "[]" C "\<not> has_checkpoint st" "checkpointed_maps st"] show ?thesis
      by (cases em) (simp add: checkpoint_def Let_def)
  next
    case (Inr ss)
    with checkpoint_maps_same [OF wf, of "[]" "[]" C "\<not> has_checkpoint st" "checkpointed_maps st"] show ?thesis
      by (auto simp: checkpoint_def Let_def split: prod.splits sum.splits option.splits)
  qed
  from same_maps [OF this assms] show "store_wf (snd (checkpoint C sf lst st))"
    "store_content (snd (checkpoint C sf lst st)) = store_content st" by auto
qed

lemma store_ops_content:
  assumes "store_wf st"
  shows "\<exists>st'. store_put st n k v = Some st' \<and> store_wf st' \<and> store_content st' = (store_content st)((n, k) \<mapsto> v)"
    and "\<exists>st'. store_remove st n k = Some st' \<and> store_wf st' \<and> store_content st' = (store_content st)((n, k) := None)"
  using store_apply_step [OF assms, of "((n, k), Some v)"] store_apply_step [OF assms, of "((n, k), None)"]
  by (simp_all add: store_apply_def)

lemma open_clear_content:
  fixes n :: string
  assumes "store_wf st"
  defines "st' \<equiv> clear_map (snd (open_map st n)) n"
  shows "store_wf st'" "store_content st' = (\<lambda>(n', k). if n' = n then None else store_content st (n', k))"
proof -
  obtain m st1 where om: "open_map st n = (m, st1)" by force
  note o = open_map_step [OF assms(1) om]
  note c = clear_map_view [OF o(2,3)]
  have st': "st' = clear_map st1 n" by (simp add: st'_def om)
  show "store_wf st'" using c(1) by (simp add: st')
  have "content_of (maps st') (n', k) = (if n' = n then None else content_of (maps st1) (n', k))" for n' k
    by (simp add: st' content_view c(2))
  then show "store_content st' = (\<lambda>(n', k). if n' = n then None else store_content st (n', k))"
    by (auto simp: fun_eq_iff o(4))
qed

lemma redo_step:
  assumes "store_wf st"
  shows "\<exists>st'. redo C st r = Some st' \<and> store_wf st' \<and> store_content st' = redo_spec (store_content st) r"
  using store_ops_content [OF assms, of "lr_map r" "lr_key r"] open_clear_content [OF assms, of "lr_map r"]
    checkpoint_content [OF assms, of C False None] assms
  by (auto simp: redo_def redo_spec_def split: log_op.split option.split)

lemma redo_all:
  assumes "store_wf st"
  shows "\<exists>st'. fold_opt (redo C) st rs = Some st' \<and> store_wf st' \<and> store_content st' = foldl redo_spec (store_content st) rs"
  using assms
proof (induction rs arbitrary: st)
  case (Cons r rs)
  from redo_step [OF Cons.prems, of C r] obtain st1 where
    st1: "redo C st r = Some st1" "store_wf st1" "store_content st1 = redo_spec (store_content st) r" by blast
  from Cons.IH [OF st1(2)] show ?case by (simp add: st1)
qed simp

section \<open>Reading a node\<close>

text \<open>What replaying the log up to a version gives.\<close>

definition log_upto :: "u64 \<Rightarrow> log_record list \<Rightarrow> log_record list" where
  "log_upto v rs = filter (\<lambda>r. lr_lsn r \<le> v) rs"

definition replay :: "log_record list \<Rightarrow> (string \<times> bytes) \<rightharpoonup> bytes" where
  "replay rs = foldl redo_spec Map.empty rs"

text \<open>
  A node that received its log in the order of the sequence numbers: its store holds the log up to
  \<open>applied_lsn\<close>.
\<close>

definition node_ok :: "smart_node \<Rightarrow> bool" where
  "node_ok nd \<longleftrightarrow>
     sorted_wrt (\<lambda>a b. lr_lsn a < lr_lsn b) (wal_buffer nd) \<and> (\<forall>r \<in> set (wal_buffer nd). lr_lsn r \<le> flushed_lsn nd) \<and>
     applied_lsn nd \<le> flushed_lsn nd \<and> store_wf (materialized_store nd) \<and>
     store_content (materialized_store nd) = replay (log_upto (applied_lsn nd) (wal_buffer nd))"

lemma foldl_max:
  fixes m :: "'a::linorder" and rs :: "'b list"
  shows "m \<le> foldl (\<lambda>m r. max m (f r)) m rs" "r \<in> set rs \<Longrightarrow> f r \<le> foldl (\<lambda>m r. max m (f r)) m rs"
    "\<forall>r \<in> set rs. f r \<le> b \<Longrightarrow> m \<le> b \<Longrightarrow> foldl (\<lambda>m r. max m (f r)) m rs \<le> b"
proof -
  show a: "m \<le> foldl (\<lambda>m r. max m (f r)) m rs" for m and rs :: "'b list"
    by (induction rs arbitrary: m) (auto intro: order_trans [OF max.cobounded1])
  show "r \<in> set rs \<Longrightarrow> f r \<le> foldl (\<lambda>m r. max m (f r)) m rs" for m
    by (induction rs arbitrary: m) (auto intro: order_trans [OF max.cobounded2 a])
  show "\<forall>r \<in> set rs. f r \<le> b \<Longrightarrow> m \<le> b \<Longrightarrow> foldl (\<lambda>m r. max m (f r)) m rs \<le> b"
    by (induction rs arbitrary: m) auto
qed

text \<open>A sorted log splits at the applied position.\<close>

lemma log_split:
  assumes "sorted_wrt (\<lambda>a b. lr_lsn a < lr_lsn b) rs" "a \<le> v"
  shows "log_upto v rs = log_upto a rs @ filter (\<lambda>r. a < lr_lsn r \<and> lr_lsn r \<le> v) rs"
  using assms(1)
proof (induction rs)
  case (Cons r rs)
  show ?case
  proof (cases "lr_lsn r \<le> a")
    case True
    with Cons assms(2) show ?thesis by (auto simp: log_upto_def)
  next
    case False
    then have "\<not> lr_lsn r' \<le> a" if "r' \<in> set rs" for r' using Cons.prems that by fastforce
    then have "filter (\<lambda>r'. lr_lsn r' \<le> a) rs = []" by (auto simp: filter_empty_conv)
    moreover have "filter (\<lambda>r'. a < lr_lsn r' \<and> lr_lsn r' \<le> v) rs = filter (\<lambda>r'. lr_lsn r' \<le> v) rs"
      using \<open>\<And>r'. r' \<in> set rs \<Longrightarrow> \<not> lr_lsn r' \<le> a\<close> by (auto simp: not_le intro!: filter_cong)
    ultimately show ?thesis using False by (auto simp: log_upto_def)
  qed
qed (simp add: log_upto_def)

lemma replay_append: "replay (rs @ rs') = foldl redo_spec (replay rs) rs'"
  by (simp add: replay_def)

text \<open>Records of other maps do not matter for a map.\<close>

lemma redo_other_maps:
  assumes "\<And>k. w (n, k) = w' (n, k)"
  shows "foldl redo_spec w rs (n, k) = foldl redo_spec w' (filter (\<lambda>r. lr_map r = n) rs) (n, k)"
  using assms
proof (induction rs arbitrary: w w')
  case (Cons r rs)
  show ?case
  proof (cases "lr_map r = n")
    case True
    have "redo_spec w r (n, k) = redo_spec w' r (n, k)" for k
      using Cons.prems by (auto simp: redo_spec_def split: log_op.split option.split)
    with Cons.IH [of "redo_spec w r" "redo_spec w' r"] True show ?thesis by simp
  next
    case False
    have "redo_spec w r (n, k) = w' (n, k)" for k
      using Cons.prems False by (auto simp: redo_spec_def split: log_op.split option.split)
    with Cons.IH [of "redo_spec w r" w'] False show ?thesis by simp
  qed
qed simp

lemma overlay_map_step:
  assumes "sorted_keys fst ps" "map_of ps = (\<lambda>k. w (n, k))" "lr_map r = n"
  shows "sorted_keys fst (overlay_map ps r)" "map_of (overlay_map ps r) = (\<lambda>k. redo_spec w r (n, k))"
proof -
  show "sorted_keys fst (overlay_map ps r)"
    using assms(1) sorted_put_sorted [OF assms(1)] sorted_del_key [OF assms(1)]
    by (auto simp: overlay_map_def split: log_op.split option.split)
  show "map_of (overlay_map ps r) = (\<lambda>k. redo_spec w r (n, k))"
    using assms(2,3) by (auto simp: overlay_map_def redo_spec_def fun_eq_iff split: log_op.split option.split)
qed

lemma overlay_map_all:
  assumes "sorted_keys fst ps" "map_of ps = (\<lambda>k. w (n, k))" "\<forall>r \<in> set rs. lr_map r = n"
  shows "sorted_keys fst (foldl overlay_map ps rs) \<and> map_of (foldl overlay_map ps rs) = (\<lambda>k. foldl redo_spec w rs (n, k))"
  using assms
proof (induction rs arbitrary: ps w)
  case (Cons r rs)
  from Cons.prems(3) have "lr_map r = n" by simp
  note st = overlay_map_step [OF Cons.prems(1,2) this]
  from Cons.IH [OF st] Cons.prems(3) show ?case by simp
qed simp

definition plain :: "log_record \<Rightarrow> bool" where
  "plain r \<longleftrightarrow> lr_op r \<noteq> OpTruncateMap \<and> lr_op r \<noteq> OpDropMap \<and> (lr_op r = OpPut \<longrightarrow> lr_value r \<noteq> None)"

lemma overlay_key_all:
  assumes "\<forall>r \<in> set rs. lr_map r = n \<and> plain r" "base = w (n, k)"
  shows "foldl (overlay_key k) base rs = foldl redo_spec w rs (n, k)"
  using assms
proof (induction rs arbitrary: base w)
  case (Cons r rs)
  have "overlay_key k base r = redo_spec w r (n, k)"
    using Cons.prems by (auto simp: overlay_key_def redo_spec_def plain_def split: log_op.split option.split)
  with Cons.IH [of "overlay_key k base r" "redo_spec w r"] Cons.prems(1) show ?case by simp
qed simp

lemma overlay_replay:
  assumes ok: "node_ok nd" and v: "applied_lsn nd \<le> v"
  shows "replay (log_upto v (wal_buffer nd)) (n, k) =
    foldl redo_spec (store_content (materialized_store nd)) (overlay_logs nd n v) (n, k)"
proof -
  let ?new = "filter (\<lambda>r. applied_lsn nd < lr_lsn r \<and> lr_lsn r \<le> v) (wal_buffer nd)"
  have "overlay_logs nd n v = filter (\<lambda>r. lr_map r = n) ?new"
  proof (cases "applied_lsn nd < v")
    case True
    then show ?thesis by (simp add: overlay_logs_def conj_commute conj_left_commute conj_assoc cong: filter_cong)
  next
    case False
    then have "?new = []" by (auto simp: filter_empty_conv)
    with False show ?thesis by (simp add: overlay_logs_def)
  qed
  moreover have "replay (log_upto v (wal_buffer nd)) = foldl redo_spec (store_content (materialized_store nd)) ?new"
  proof -
    have "sorted_wrt (\<lambda>a b. lr_lsn a < lr_lsn b) (wal_buffer nd)" using ok by (simp add: node_ok_def)
    from log_split [OF this v] show ?thesis using ok unfolding node_ok_def by (metis replay_append)
  qed
  moreover have "foldl redo_spec w ?new (n, k) = foldl redo_spec w (filter (\<lambda>r. lr_map r = n) ?new) (n, k)" for w
    by (rule redo_other_maps) simp
  ultimately show ?thesis by simp
qed

lemma map_scan_sorted:
  assumes "map_wf m"
  shows "sorted_keys fst (map kv (map_scan_all m))" "map_of (map kv (map_scan_all m)) = map_content m"
  using assms by (simp_all add: map_scan_all_def tree_scan_all_kvs map_content_def map_wf_def tree_kvs_sorted)

lemma sorted_keys_filter: "sorted_keys fst ps \<Longrightarrow> sorted_keys fst (filter P ps)"
  by (induction ps) auto

lemma map_of_filter_key: "map_of (filter (\<lambda>(k, v). P k) ps) k = (if P k then map_of ps k else None)"
  by (induction ps) auto

lemma node_reads:
  assumes ok: "node_ok nd" and on: "node_state nd \<noteq> Offline" and v: "applied_lsn nd \<le> v"
  defines "w \<equiv> replay (log_upto v (wal_buffer nd))"
  shows "\<exists>ps nd'. scan_range nd n lo hi v = (Inr ps, nd') \<and> sorted_keys fst ps \<and>
      (\<forall>k. map_of ps k = (if within_keys lo hi k then w (n, k) else None))"
    and "\<forall>r \<in> set (overlay_logs nd n v). plain r \<Longrightarrow> fst (get_key nd n k v) = Inr (w (n, k))"
proof -
  let ?st = "materialized_store nd" and ?logs = "overlay_logs nd n v"
  obtain m st1 where om: "open_map ?st n = (m, st1)" by force
  have wf: "store_wf ?st" using ok by (simp add: node_ok_def)
  note o = open_map_step [OF wf om]
  have mc: "map_content m = (\<lambda>k. store_content ?st (n, k))"
    using o(5) by (auto simp: content_of_Pair fun_eq_iff split: option.split)
  have maps: "\<forall>r \<in> set ?logs. lr_map r = n" by (auto simp: overlay_logs_def)
  have base: "map_of (map kv (map_scan_all m)) = (\<lambda>k. store_content ?st (n, k))"
    using map_scan_sorted(2) [OF o(1)] mc by simp
  define ps where "ps = foldl overlay_map (map kv (map_scan_all m)) ?logs"
  have ps: "sorted_keys fst ps" "map_of ps k = w (n, k)" for k
    using overlay_map_all [OF map_scan_sorted(1) [OF o(1)] base maps] overlay_replay [OF ok v]
    by (simp_all add: ps_def w_def)
  have run: "scan_range nd n lo hi v = (Inr (filter (\<lambda>(k, v). within_keys lo hi k) ps), nd\<lparr>materialized_store := st1\<rparr>)"
    using on by (simp add: scan_range_def om ps_def)
  show "\<exists>ps nd'. scan_range nd n lo hi v = (Inr ps, nd') \<and> sorted_keys fst ps \<and>
      (\<forall>k. map_of ps k = (if within_keys lo hi k then w (n, k) else None))"
    using run ps by (auto simp: map_of_filter_key intro!: sorted_keys_filter)
  show "fst (get_key nd n k v) = Inr (w (n, k))" if "\<forall>r \<in> set ?logs. plain r"
    using on that maps overlay_key_all [of ?logs n "map_content m k" "store_content ?st" k]
      overlay_replay [OF ok v, of n k] map_get_content [OF o(1), of k]
    by (simp add: get_key_def om mc w_def)
qed

section \<open>Nodes that receive their log in order\<close>

definition in_order :: "smart_node \<Rightarrow> log_record list \<Rightarrow> bool" where
  "in_order nd records \<longleftrightarrow>
     sorted_wrt (\<lambda>a b. lr_lsn a < lr_lsn b) records \<and> (\<forall>r \<in> set records. flushed_lsn nd < lr_lsn r)"

inductive node_step :: "codecs \<Rightarrow> smart_node \<Rightarrow> smart_node \<Rightarrow> bool" for C where
  n_append: "in_order nd records \<Longrightarrow> node_step C nd (snd (append_logs nd records token))"
| n_materialize: "materialize_pending C nd = Some (k, nd') \<Longrightarrow> node_step C nd nd'"
| n_lease: "node_step C nd (snd (acquire_lease nd token))"
| n_state: "node_step C nd (set_state nd s)"
| n_get: "node_step C nd (snd (get_key nd name key v))"
| n_scan: "node_step C nd (snd (scan_range nd name lo hi v))"
| n_gossip: "node_ok peer \<Longrightarrow> gossip_sync_from C nd peer = Some (res, nd') \<Longrightarrow> node_step C nd nd'"

lemma log_upto_append: "log_upto v (xs @ ys) = log_upto v xs @ log_upto v ys"
  by (simp add: log_upto_def)

lemma extend_log_ok:
  assumes ok: "node_ok nd" and o: "in_order nd records"
    and nd': "nd' = nd\<lparr>wal_buffer := wal_buffer nd @ records,
                        flushed_lsn := foldl (\<lambda>m r. max m (lr_lsn r)) (flushed_lsn nd) records\<rparr>"
  shows "node_ok nd'"
proof -
  let ?mx = "foldl (\<lambda>m r. max m (lr_lsn r)) (flushed_lsn nd) records"
  note mx = foldl_max [where m = "flushed_lsn nd" and f = lr_lsn and rs = records]
  have "log_upto (applied_lsn nd) records = []"
    using ok o by (fastforce simp: log_upto_def filter_empty_conv node_ok_def in_order_def)
  moreover have "\<forall>r \<in> set (wal_buffer nd). lr_lsn r \<le> ?mx" using ok mx(1) by (auto simp: node_ok_def intro: order_trans)
  moreover have "sorted_wrt (\<lambda>a b. lr_lsn a < lr_lsn b) (wal_buffer nd @ records)"
    using ok o by (fastforce simp: node_ok_def in_order_def sorted_wrt_append)
  moreover have "applied_lsn nd \<le> ?mx" using ok mx(1) by (auto simp: node_ok_def intro: order_trans)
  ultimately show ?thesis using ok mx(2) by (auto simp: node_ok_def nd' log_upto_append)
qed

lemma materialize_ok:
  assumes ok: "node_ok nd"
  shows "\<exists>k nd'. materialize_pending C nd = Some (k, nd') \<and> node_ok nd' \<and> wal_buffer nd' = wal_buffer nd \<and>
    flushed_lsn nd' = flushed_lsn nd \<and> node_token nd' = node_token nd \<and> node_state nd' = node_state nd"
proof (cases "node_state nd = Offline \<or> flushed_lsn nd \<le> applied_lsn nd")
  case True
  with ok show ?thesis by (simp add: materialize_pending_def)
next
  case False
  let ?a = "applied_lsn nd" and ?f = "flushed_lsn nd"
  define logs where "logs = filter (\<lambda>r. ?a < lr_lsn r \<and> lr_lsn r \<le> ?f) (wal_buffer nd)"
  define mx where "mx = foldl (\<lambda>m r. max m (lr_lsn r)) ?a logs"
  have sorted: "sorted_wrt (\<lambda>a b. lr_lsn a < lr_lsn b) (wal_buffer nd)" and af: "?a \<le> ?f"
    and below: "\<forall>r \<in> set (wal_buffer nd). lr_lsn r \<le> ?f" and wf: "store_wf (materialized_store nd)"
    and held: "store_content (materialized_store nd) = replay (log_upto ?a (wal_buffer nd))"
    using ok by (auto simp: node_ok_def)
  obtain st where st: "fold_opt (redo C) (materialized_store nd) logs = Some st" "store_wf st"
      "store_content st = foldl redo_spec (store_content (materialized_store nd)) logs"
    using redo_all [OF wf] by blast
  have mx: "?a \<le> mx" "mx \<le> ?f" "\<And>r. r \<in> set logs \<Longrightarrow> lr_lsn r \<le> mx"
    using foldl_max [where m = ?a and f = lr_lsn and rs = logs] foldl_max(3) [where m = ?a and f = lr_lsn and rs = logs and b = ?f] af by (auto simp: mx_def logs_def)
  have eq: "log_upto mx (wal_buffer nd) = log_upto ?f (wal_buffer nd)"
    unfolding log_upto_def
  proof (rule filter_cong [OF refl])
    fix r assume r: "r \<in> set (wal_buffer nd)"
    show "(lr_lsn r \<le> mx) = (lr_lsn r \<le> ?f)"
    proof (cases "?a < lr_lsn r")
      case True
      with r below mx(3) [of r] show ?thesis by (auto simp: logs_def)
    next
      case False
      with mx(1) af show ?thesis by (auto simp: not_less intro: order_trans)
    qed
  qed
  have "store_content st = replay (log_upto mx (wal_buffer nd))"
    unfolding st(3) held eq using log_split [OF sorted af] by (simp add: logs_def replay_append)
  then have "node_ok (nd\<lparr>materialized_store := st, applied_lsn := mx\<rparr>)"
    using sorted below mx(2) st(2) by (simp add: node_ok_def)
  moreover have "materialize_pending C nd = Some (length logs, nd\<lparr>materialized_store := st, applied_lsn := mx\<rparr>)"
    using False st(1) by (simp add: materialize_pending_def logs_def [symmetric] mx_def [symmetric])
  ultimately show ?thesis by simp
qed

lemma open_map_ok:
  assumes "node_ok nd" "open_map (materialized_store nd) n = (m, st)"
  shows "node_ok (nd\<lparr>materialized_store := st\<rparr>)"
  using assms(1) open_map_step [OF _ assms(2)] by (simp add: node_ok_def)

lemma gossip_ok:
  assumes ok: "node_ok nd" and peer: "node_ok peer" and g: "gossip_sync_from C nd peer = Some (res, nd')"
  shows "node_ok nd'"
proof (cases "node_state nd = Offline \<or> flushed_lsn peer \<le> flushed_lsn nd")
  case True
  with g ok show ?thesis by (auto simp: gossip_sync_from_def split: if_splits)
next
  case False
  define missing where "missing = filter (\<lambda>r. flushed_lsn nd < lr_lsn r \<and> lr_lsn r \<le> flushed_lsn peer) (wal_buffer peer)"
  define nd1 where "nd1 = nd\<lparr>wal_buffer := wal_buffer nd @ missing,
      flushed_lsn := foldl (\<lambda>m r. max m (lr_lsn r)) (flushed_lsn nd) missing\<rparr>"
  have "in_order nd missing"
    using peer by (auto simp: in_order_def missing_def node_ok_def intro: sorted_wrt_filter)
  from extend_log_ok [OF ok this nd1_def] have ok1: "node_ok nd1" .
  from g False ok materialize_ok [OF ok1, of C] show ?thesis
    by (auto simp: gossip_sync_from_def missing_def [symmetric] nd1_def [symmetric] Let_def split: if_splits)
qed

definition node_start :: "smart_node \<Rightarrow> bool" where
  "node_start nd \<longleftrightarrow> (\<exists>i zone. nd = node_new i zone)"

interpretation node_sys: invariant_system node_start "node_step C" node_ok
proof
  show "node_ok nd" if "node_start nd" for nd
    using that by (auto simp: node_start_def node_new_def node_ok_def log_upto_def replay_def store_open_in_memory_def
        content_of_def fun_eq_iff)
  show "node_ok nd'" if "node_ok nd" "node_step C nd nd'" for nd nd'
    using that(2,1)
  proof cases
    case (n_append records token)
    then show ?thesis using that(1) extend_log_ok [OF that(1)]
      by (auto simp: append_logs_def Let_def)
  next
    case (n_materialize k)
    then show ?thesis using materialize_ok [OF that(1), of C] by auto
  next
    case (n_lease token)
    then show ?thesis using that(1) by (auto simp: acquire_lease_def node_ok_def)
  next
    case (n_state s)
    then show ?thesis using that(1) by (simp add: set_state_def node_ok_def)
  next
    case (n_get name key v)
    then show ?thesis using that(1) open_map_ok [OF that(1)] by (auto simp: get_key_def split: prod.splits)
  next
    case (n_scan name lo hi v)
    then show ?thesis using that(1) open_map_ok [OF that(1)] by (auto simp: scan_range_def split: prod.splits)
  next
    case (n_gossip peer res)
    then show ?thesis using gossip_ok [OF that(1)] by blast
  qed
qed



text \<open>A single read ignores a truncation that is not applied yet, which a scan of the same version
  respects: the deleted row is still returned.\<close>

theorem get_ignores_truncation:
  "let nd = (node_new 1 [])\<lparr>wal_buffer := [log_put 1 0 1 ''t'' [1] [7] 0,
                (log_commit 2 1 1 0)\<lparr>lr_op := OpTruncateMap, lr_map := ''t''\<rparr>], flushed_lsn := 2\<rparr> in
   fst (get_key nd ''t'' [1] 2) = Inr (Some [7]) \<and> fst (scan_range nd ''t'' None None 2) = Inr []"
proof -
  obtain m st where om: "open_map store_open_in_memory ''t'' = (m, st)" by force
  have wf: "store_wf store_open_in_memory" by (simp add: store_open_in_memory_def)
  note o = open_map_step [OF wf om]
  show ?thesis
    using map_get_content [OF o(1)] o(5)
    by (simp add: get_key_def scan_range_def node_new_def om overlay_logs_def log_put_def log_commit_def overlay_key_def
        overlay_map_def Let_def)
qed

end
