(* ===== verification/Storage_Fleet.thy ===== *)
theory Storage_Fleet
  imports Storage_Node "HOL-Library.Char_ord"
begin

text \<open>
  The storage fleet (\<^verbatim>\<open>crates/h2/src/storage/quorum.rs\<close>): leases and log records are sent to all nodes by one
  thread per node, and the caller returns as soon as a write quorum has answered.  A call in progress is a
  record with the nodes whose thread has not run yet and the replies in the order of the channel; threads of
  several calls run in any order, also after their call has returned.  One node operation, and one receipt
  that decides a call, is one step.  The theorems: a call never ends undecided, a write that was acknowledged
  is on some node of every read quorum, and after a lease was granted no writer with an older token succeeds
  if write quorums are majorities.
\<close>

section \<open>Quorum configuration\<close>

record quorum_config =
  total_nodes :: nat
  write_quorum :: nat
  read_quorum :: nat

definition three_nodes :: quorum_config where
  "three_nodes = \<lparr>total_nodes = 3, write_quorum = 2, read_quorum = 2\<rparr>"

definition six_nodes :: quorum_config where
  "six_nodes = \<lparr>total_nodes = 6, write_quorum = 4, read_quorum = 3\<rparr>"

definition validate :: "quorum_config \<Rightarrow> unit h2_result" where
  "validate cfg =
     (if total_nodes cfg < write_quorum cfg then Inl (Storage ''Invalid quorum config'')
      else if write_quorum cfg + read_quorum cfg \<le> total_nodes cfg then Inl (Storage ''Invalid quorum config'')
      else Inr ())"

section \<open>Waiting for replies\<close>

text \<open>
  The receive loops over the replies so far; \<open>None\<close> while the caller waits for more.
\<close>

fun lease_wait :: "nat \<Rightarrow> nat \<Rightarrow> nat \<Rightarrow> nat \<Rightarrow> unit h2_result list \<Rightarrow> unit h2_result option" where
  "lease_wait wq nn acks rejections [] =
     (if acks + rejections < nn then None else Some (Inl (Storage ''Quorum lease acquisition timeout'')))"
| "lease_wait wq nn acks rejections (r # rs) =
     (case r of
        Inr _ \<Rightarrow> if wq \<le> acks + 1 then Some (Inr ()) else lease_wait wq nn (acks + 1) rejections rs
      | Inl _ \<Rightarrow> if nn - (rejections + 1) < wq
                 then Some (Inl (Storage ''Failed to acquire lease: rejected by majority''))
                 else lease_wait wq nn acks (rejections + 1) rs)"

fun append_wait :: "nat \<Rightarrow> nat \<Rightarrow> nat \<Rightarrow> nat \<Rightarrow> u64 \<Rightarrow> u64 h2_result list \<Rightarrow> u64 h2_result option" where
  "append_wait wq nn acks errors max_lsn [] =
     (if acks + errors < nn then None else Some (Inl (Storage ''Write quorum timeout'')))"
| "append_wait wq nn acks errors max_lsn (r # rs) =
     (case r of
        Inr lsn \<Rightarrow>
          (let m = max max_lsn lsn in
           if wq \<le> acks + 1 then Some (Inr m) else append_wait wq nn (acks + 1) errors m rs)
      | Inl _ \<Rightarrow> if nn - (errors + 1) < wq then Some (Inl (Storage ''Write quorum unachievable''))
                 else append_wait wq nn acks (errors + 1) max_lsn rs)"

section \<open>The fleet\<close>

datatype request = Lease | Append "log_record list"

record call =
  c_token :: u64
  c_req :: request
  c_todo :: "nat list"
  c_replies :: "(nat \<times> u64 h2_result) list"
  c_done :: bool

record fleet =
  fl_nodes :: "smart_node list"
  fl_config :: quorum_config
  fl_latest_lsn :: u64
  fl_token :: u64
  fl_calls :: "call list"

definition fleet_new :: "smart_node list \<Rightarrow> quorum_config \<Rightarrow> fleet h2_result" where
  "fleet_new nodes cfg =
     res_bind (validate cfg) (\<lambda>_.
       if length nodes \<noteq> total_nodes cfg then Inl (Storage ''Fleet node count mismatch'')
       else Inr \<lparr>fl_nodes = nodes, fl_config = cfg, fl_latest_lsn = 0, fl_token = 1, fl_calls = []\<rparr>)"

definition start_call :: "fleet \<Rightarrow> request \<Rightarrow> u64 \<Rightarrow> fleet" where
  "start_call fl req token =
     fl\<lparr>fl_calls := fl_calls fl @
          [\<lparr>c_token = token, c_req = req, c_todo = [0..<length (fl_nodes fl)], c_replies = [], c_done = False\<rparr>]\<rparr>"

definition node_request :: "smart_node \<Rightarrow> request \<Rightarrow> u64 \<Rightarrow> u64 h2_result \<times> smart_node" where
  "node_request nd req token =
     (case req of
        Lease \<Rightarrow> map_prod (map_sum id (\<lambda>_. 0)) id (acquire_lease nd token)
      | Append records \<Rightarrow> append_logs nd records token)"

text \<open>The thread of call \<open>c\<close> for node \<open>i\<close> runs and sends its reply.\<close>

definition run_task :: "fleet \<Rightarrow> nat \<Rightarrow> nat \<Rightarrow> fleet" where
  "run_task fl c i =
     (let cl = fl_calls fl ! c in
      case node_request (fl_nodes fl ! i) (c_req cl) (c_token cl) of (res, nd) \<Rightarrow>
        fl\<lparr>fl_nodes := (fl_nodes fl)[i := nd],
           fl_calls := (fl_calls fl)[c := cl\<lparr>c_todo := remove1 i (c_todo cl), c_replies := c_replies cl @ [(i, res)]\<rparr>]\<rparr>)"

definition verdict :: "fleet \<Rightarrow> call \<Rightarrow> u64 h2_result option" where
  "verdict fl cl =
     (let wq = write_quorum (fl_config fl); n = length (fl_nodes fl) in
      case c_req cl of
        Lease \<Rightarrow> map_option (map_sum id (\<lambda>_. 0)) (lease_wait wq n 0 0 (map (map_sum id (\<lambda>_. ()) \<circ> snd) (c_replies cl)))
      | Append _ \<Rightarrow> append_wait wq n 0 0 0 (map snd (c_replies cl)))"

text \<open>The caller has received the deciding reply: it publishes the token or the position, and returns.\<close>

definition finish :: "fleet \<Rightarrow> nat \<Rightarrow> fleet" where
  "finish fl c =
     (let cl = fl_calls fl ! c; fl1 = fl\<lparr>fl_calls := (fl_calls fl)[c := cl\<lparr>c_done := True\<rparr>]\<rparr> in
      case (c_req cl, verdict fl cl) of
        (Lease, Some (Inr _)) \<Rightarrow> fl1\<lparr>fl_token := c_token cl\<rparr>
      | (Append _, Some (Inr lsn)) \<Rightarrow> fl1\<lparr>fl_latest_lsn := lsn\<rparr>
      | _ \<Rightarrow> fl1)"

text \<open>
  A whole call, with the threads running in the order \<open>order\<close> until the call returns; the threads that are
  left stay in the list of calls.
\<close>

definition run_call :: "fleet \<Rightarrow> request \<Rightarrow> u64 \<Rightarrow> nat list \<Rightarrow> u64 h2_result option \<times> fleet" where
  "run_call fl req token order =
     (let c = length (fl_calls fl);
          fl1 = foldl (\<lambda>fl i. run_task fl c i) (start_call fl req token) order in
      (verdict fl1 (fl_calls fl1 ! c), finish fl1 c))"

definition acquire_lease_quorum :: "fleet \<Rightarrow> u64 \<Rightarrow> nat list \<Rightarrow> u64 h2_result option \<times> fleet" where
  "acquire_lease_quorum fl token order = run_call fl Lease token order"

definition append_logs_quorum :: "fleet \<Rightarrow> log_record list \<Rightarrow> u64 \<Rightarrow> nat list \<Rightarrow> u64 h2_result option \<times> fleet" where
  "append_logs_quorum fl records token order =
     (if records = [] then (Some (Inr (fl_latest_lsn fl)), fl) else run_call fl (Append records) token order)"

section \<open>Reads and repair\<close>

fun first_ok :: "(smart_node \<Rightarrow> 'a h2_result \<times> smart_node) \<Rightarrow> smart_node list \<Rightarrow> h2_error option \<Rightarrow>
    'a h2_result \<times> smart_node list" where
  "first_ok f [] last_err =
     (Inl (case last_err of Some e \<Rightarrow> e | None \<Rightarrow> Storage ''No accessible storage nodes''), [])"
| "first_ok f (nd # nds) last_err =
     (case f nd of
        (Inr v, nd') \<Rightarrow> (Inr v, nd' # nds)
      | (Inl e, nd') \<Rightarrow> map_prod id (\<lambda>nds'. nd' # nds') (first_ok f nds (Some e)))"

definition get_key_quorum :: "fleet \<Rightarrow> string \<Rightarrow> bytes \<Rightarrow> u64 \<Rightarrow> bytes option h2_result \<times> fleet" where
  "get_key_quorum fl name key read_version =
     (case first_ok (\<lambda>nd. get_key nd name key read_version) (fl_nodes fl) None of (res, nds) \<Rightarrow>
        (res, fl\<lparr>fl_nodes := nds\<rparr>))"

definition scan_range_quorum :: "fleet \<Rightarrow> string \<Rightarrow> bytes option \<Rightarrow> bytes option \<Rightarrow> u64 \<Rightarrow>
    (bytes, bytes) kvs h2_result \<times> fleet" where
  "scan_range_quorum fl name lo hi read_version =
     (case first_ok (\<lambda>nd. scan_range nd name lo hi read_version) (fl_nodes fl) None of (res, nds) \<Rightarrow>
        (res, fl\<lparr>fl_nodes := nds\<rparr>))"

definition materialize_node :: "codecs \<Rightarrow> nat \<times> fleet \<Rightarrow> nat \<Rightarrow> (nat \<times> fleet) option" where
  "materialize_node C acc i =
     (case acc of (nn, fl) \<Rightarrow>
        do { (k, nd) \<leftarrow> materialize_pending C (fl_nodes fl ! i);
             Some (nn + k, fl\<lparr>fl_nodes := (fl_nodes fl)[i := nd]\<rparr>) })"

definition run_background_materialization :: "codecs \<Rightarrow> fleet \<Rightarrow> (nat \<times> fleet) option" where
  "run_background_materialization C fl =
     fold_opt (materialize_node C) (0, fl) [0..<length (fl_nodes fl)]"

definition gossip_pair :: "codecs \<Rightarrow> nat \<times> fleet \<Rightarrow> nat \<times> nat \<Rightarrow> (nat \<times> fleet) option" where
  "gossip_pair C acc ij =
     (case (acc, ij) of ((nn, fl), (i, j)) \<Rightarrow>
        if i = j then Some (nn, fl)
        else
          do { (res, nd) \<leftarrow> gossip_sync_from C (fl_nodes fl ! i) (fl_nodes fl ! j);
               Some (case res of Inr k \<Rightarrow> nn + k | Inl _ \<Rightarrow> nn, fl\<lparr>fl_nodes := (fl_nodes fl)[i := nd]\<rparr>) })"

definition run_gossip_repair :: "codecs \<Rightarrow> fleet \<Rightarrow> (nat \<times> fleet) option" where
  "run_gossip_repair C fl =
     (let n = length (fl_nodes fl) in
      fold_opt (gossip_pair C) (0, fl) (concat (map (\<lambda>i. map (Pair i) [0..<n]) [0..<n])))"

definition fleet_get_page :: "fleet \<Rightarrow> u32 \<times> u32 \<Rightarrow> bytes h2_result" where
  "fleet_get_page fl page_id =
     (case fl_nodes fl of nd # _ \<Rightarrow> get_page nd page_id | [] \<Rightarrow> Inl (Storage ''No storage nodes available''))"

definition get_all_map_names :: "fleet \<Rightarrow> string list" where
  "get_all_map_names fl =
     sort (remdups (filter (\<lambda>n. n \<noteq> []) (map lr_map (concat (map wal_buffer (fl_nodes fl))))))"

section \<open>Deciding a call\<close>

definition acks :: "('e + 'a) list \<Rightarrow> nat" where
  "acks rs = length (filter (\<lambda>r. \<not> isl r) rs)"

lemma acks_simps [simp]: "acks [] = 0" "acks (Inr x # rs) = Suc (acks rs)" "acks (Inl e # rs) = acks rs"
  by (simp_all add: acks_def)

lemma acks_le: "acks rs \<le> length rs"
  by (simp add: acks_def)

lemma append_wait_ok: "append_wait wq n a e m rs = Some (Inr l) \<Longrightarrow> wq \<le> a + acks rs"
  by (induction wq n a e m rs rule: append_wait.induct) (auto simp: Let_def split: if_splits sum.splits)

lemma lease_wait_ok: "lease_wait wq n a e rs = Some (Inr u) \<Longrightarrow> wq \<le> a + acks rs"
  by (induction wq n a e rs rule: lease_wait.induct) (auto split: if_splits sum.splits)

lemma append_wait_decides:
  assumes "a + e + length rs = n" "a < wq" "wq + e \<le> n"
  shows "\<exists>v. append_wait wq n a e m rs = Some v \<and> (\<not> isl v \<longleftrightarrow> wq \<le> a + acks rs) \<and>
    v \<noteq> Inl (Storage ''Write quorum timeout'')"
  using assms
proof (induction rs arbitrary: a e m)
  case (Cons r rs)
  show ?case
  proof (cases r)
    case (Inl err)
    show ?thesis
    proof (cases "n - (e + 1) < wq")
      case True
      have "\<not> wq \<le> a + acks rs" using True Cons.prems acks_le [of rs] by auto
      with True Inl show ?thesis by simp
    next
      case False
      with Cons.prems Inl Cons.IH [of a "e + 1" m] show ?thesis by auto
    qed
  next
    case (Inr l)
    with Cons.prems Cons.IH [of "a + 1" e "max m l"] show ?thesis by (auto simp: Let_def)
  qed
qed simp

text \<open>C34: A quorum write is decided exactly.  When every node has replied, in whatever order, the caller has
  returned without a timeout, and it reports success if and only if a write quorum has acknowledged the
  records.\<close>

theorem quorum_decision_exact:
  assumes "1 \<le> write_quorum cfg" "validate cfg = Inr ()" "length rs = total_nodes cfg"
  shows "\<exists>v. append_wait (write_quorum cfg) (total_nodes cfg) 0 0 0 rs = Some v \<and>
    (\<not> isl v \<longleftrightarrow> write_quorum cfg \<le> acks rs) \<and> v \<noteq> Inl (Storage ''Write quorum timeout'')"
proof -
  have "write_quorum cfg \<le> total_nodes cfg" using assms(2) by (auto simp: validate_def split: if_splits)
  with append_wait_decides [of 0 0 rs "total_nodes cfg" "write_quorum cfg" 0] assms(1,3) show ?thesis by simp
qed

theorem quorum_decision_exact_witness:
  "\<exists>v. append_wait 2 3 0 0 0 [Inr 5, Inl (Storage ''x''), Inr 6] = Some v \<and> \<not> isl v"
  using quorum_decision_exact [of three_nodes "[Inr 5, Inl (Storage ''x''), Inr 6]"]
  by (simp add: three_nodes_def validate_def)

section \<open>Steps of the fleet\<close>

inductive fleet_step :: "codecs \<Rightarrow> fleet \<Rightarrow> fleet \<Rightarrow> bool" for C where
  f_lease: "fleet_step C fl (start_call fl Lease token)"
| f_append: "records \<noteq> [] \<Longrightarrow> fleet_step C fl (start_call fl (Append records) token)"
| f_run: "c < length (fl_calls fl) \<Longrightarrow> i \<in> set (c_todo (fl_calls fl ! c)) \<Longrightarrow> fleet_step C fl (run_task fl c i)"
| f_finish: "c < length (fl_calls fl) \<Longrightarrow> \<not> c_done (fl_calls fl ! c) \<Longrightarrow> verdict fl (fl_calls fl ! c) \<noteq> None \<Longrightarrow>
    fleet_step C fl (finish fl c)"
| f_state: "i < length (fl_nodes fl) \<Longrightarrow>
    fleet_step C fl (fl\<lparr>fl_nodes := (fl_nodes fl)[i := set_state (fl_nodes fl ! i) s]\<rparr>)"
| f_get: "fleet_step C fl (snd (get_key_quorum fl name key v))"
| f_scan: "fleet_step C fl (snd (scan_range_quorum fl name lo hi v))"
| f_materialize: "i < length (fl_nodes fl) \<Longrightarrow> materialize_node C (k, fl) i = Some (k', fl') \<Longrightarrow> fleet_step C fl fl'"
| f_gossip: "i < length (fl_nodes fl) \<Longrightarrow> j < length (fl_nodes fl) \<Longrightarrow>
    gossip_pair C (k, fl) (i, j) = Some (k', fl') \<Longrightarrow> fleet_step C fl fl'"

text \<open>Tokens and logs of the nodes only grow.\<close>

definition grows :: "smart_node \<Rightarrow> smart_node \<Rightarrow> bool" where
  "grows nd nd' \<longleftrightarrow> node_token nd \<le> node_token nd' \<and> set (wal_buffer nd) \<subseteq> set (wal_buffer nd')"

lemma grows_refl [simp]: "grows nd nd"
  by (simp add: grows_def)

lemma grows_request: "node_request nd req token = (res, nd') \<Longrightarrow> grows nd nd'"
  by (auto simp: node_request_def grows_def acquire_lease_def append_logs_def Let_def split: request.splits if_splits)

lemma grows_materialize: "materialize_pending C nd = Some (k, nd') \<Longrightarrow> grows nd nd'"
  by (auto simp: materialize_pending_def grows_def Let_def split: if_splits option.splits bind_splits)

lemma grows_gossip:
  assumes "gossip_sync_from C nd peer = Some (res, nd')"
  shows "grows nd nd'"
  using assms by (auto simp: gossip_sync_from_def grows_def Let_def split: if_splits bind_splits dest!: grows_materialize)

lemma grows_read:
  "grows nd (snd (get_key nd n k v))" "grows nd (snd (scan_range nd n lo hi v))"
  by (auto simp: get_key_def scan_range_def grows_def split: prod.splits)

lemma first_ok_grows:
  assumes "\<And>nd. grows nd (snd (f nd))"
  shows "list_all2 grows nds (snd (first_ok f nds le))"
proof (induction nds arbitrary: le)
  case (Cons nd nds)
  have "grows nd (snd (f nd))" by (rule assms)
  with Cons.IH show ?case
    by (auto simp: list_all2_same intro!: list.rel_refl split: prod.split sum.split)
qed simp

definition nodes_grow :: "fleet \<Rightarrow> fleet \<Rightarrow> bool" where
  "nodes_grow fl fl' \<longleftrightarrow> list_all2 grows (fl_nodes fl) (fl_nodes fl')"

lemma nodes_grow_update:
  "i < length (fl_nodes fl) \<Longrightarrow> grows (fl_nodes fl ! i) nd \<Longrightarrow> nodes_grow fl (fl\<lparr>fl_nodes := (fl_nodes fl)[i := nd]\<rparr>)"
  by (auto simp: nodes_grow_def list_all2_conv_all_nth nth_list_update)

lemma nodes_grow_same: "fl_nodes fl' = fl_nodes fl \<Longrightarrow> nodes_grow fl fl'"
  by (simp add: nodes_grow_def list_all2_conv_all_nth)

text \<open>
  Each reply is backed by its node: a granted lease by its token, an acknowledged write by its log.
\<close>

definition reply_ok :: "smart_node list \<Rightarrow> call \<Rightarrow> nat \<times> u64 h2_result \<Rightarrow> bool" where
  "reply_ok nds cl ir \<longleftrightarrow>
     (\<not> isl (snd ir) \<longrightarrow>
        (case c_req cl of
           Lease \<Rightarrow> c_token cl \<le> node_token (nds ! fst ir)
         | Append records \<Rightarrow> set records \<subseteq> set (wal_buffer (nds ! fst ir))))"

definition call_ok :: "smart_node list \<Rightarrow> call \<Rightarrow> bool" where
  "call_ok nds cl \<longleftrightarrow>
     distinct (map fst (c_replies cl) @ c_todo cl) \<and> set (map fst (c_replies cl) @ c_todo cl) \<subseteq> {..<length nds} \<and>
     list_all (reply_ok nds cl) (c_replies cl)"

definition fleet_ok :: "fleet \<Rightarrow> bool" where
  "fleet_ok fl \<longleftrightarrow>
     validate (fl_config fl) = Inr () \<and> length (fl_nodes fl) = total_nodes (fl_config fl) \<and>
     list_all (call_ok (fl_nodes fl)) (fl_calls fl)"

lemma reply_ok_fields: "c_req cl' = c_req cl \<Longrightarrow> c_token cl' = c_token cl \<Longrightarrow> reply_ok nds cl' = reply_ok nds cl"
  by (simp add: reply_ok_def fun_eq_iff split: request.split)

lemma reply_ok_grow:
  assumes "list_all2 grows nds nds'" "fst ir < length nds" "reply_ok nds cl ir"
  shows "reply_ok nds' cl ir"
proof -
  have "grows (nds ! fst ir) (nds' ! fst ir)" using assms(1,2) by (simp add: list_all2_conv_all_nth)
  with assms(3) show ?thesis by (auto simp: reply_ok_def grows_def split: request.splits)
qed

lemma call_ok_grow:
  assumes "list_all2 grows nds nds'" "call_ok nds cl"
  shows "call_ok nds' cl"
proof -
  have "reply_ok nds' cl ir" if "ir \<in> set (c_replies cl)" for ir
    using reply_ok_grow [OF assms(1), of ir cl] that assms(2) by (auto simp: call_ok_def list_all_iff)
  then show ?thesis using assms(2) list_all2_lengthD [OF assms(1)] by (auto simp: call_ok_def list_all_iff)
qed

lemma fleet_ok_grow:
  assumes "fleet_ok fl" "nodes_grow fl fl'" "fl_config fl' = fl_config fl" "fl_calls fl' = fl_calls fl"
  shows "fleet_ok fl'"
  using assms call_ok_grow [of "fl_nodes fl" "fl_nodes fl'"] list_all2_lengthD [of grows "fl_nodes fl" "fl_nodes fl'"]
  by (auto simp: fleet_ok_def nodes_grow_def list_all_iff)

lemma request_reply_ok:
  assumes "node_request (nds ! i) (c_req cl) (c_token cl) = (res, nd)" "i < length nds"
  shows "reply_ok (nds[i := nd]) cl (i, res)"
  using assms by (auto simp: reply_ok_def node_request_def acquire_lease_def append_logs_def Let_def
      split: request.splits if_splits)

lemma run_task_ok:
  assumes ok: "fleet_ok fl" and c: "c < length (fl_calls fl)" "i \<in> set (c_todo (fl_calls fl ! c))"
  shows "fleet_ok (run_task fl c i)" "nodes_grow fl (run_task fl c i)"
proof -
  let ?cl = "fl_calls fl ! c" and ?nds = "fl_nodes fl"
  obtain res nd where nr: "node_request (?nds ! i) (c_req ?cl) (c_token ?cl) = (res, nd)" by force
  have cl: "call_ok ?nds ?cl" using ok c(1) by (simp add: fleet_ok_def list_all_length)
  then have i: "i < length ?nds" using c(2) by (auto simp: call_ok_def)
  have gr: "list_all2 grows ?nds (?nds[i := nd])"
    using grows_request [OF nr] i by (auto simp: list_all2_conv_all_nth nth_list_update)
  let ?cl' = "?cl\<lparr>c_todo := remove1 i (c_todo ?cl), c_replies := c_replies ?cl @ [(i, res)]\<rparr>"
  have "call_ok (?nds[i := nd]) ?cl'"
    using call_ok_grow [OF gr cl] request_reply_ok [OF nr i] c(2) i
    by (auto simp: call_ok_def reply_ok_fields [of ?cl' ?cl] list_all_iff dest: notin_set_remove1)
  moreover have "call_ok (?nds[i := nd]) cl'" if "cl' \<in> set (fl_calls fl)" for cl'
    using ok that call_ok_grow [OF gr] by (auto simp: fleet_ok_def list_all_iff)
  ultimately show "fleet_ok (run_task fl c i)"
    using ok nr by (auto simp: run_task_def Let_def fleet_ok_def list_all_iff dest!: set_mp [OF set_update_subset_insert])
  show "nodes_grow fl (run_task fl c i)" using gr nr by (simp add: run_task_def Let_def nodes_grow_def)
qed

lemma fleet_step_ok:
  assumes ok: "fleet_ok fl" and step: "fleet_step C fl fl'"
  shows "fleet_ok fl' \<and> nodes_grow fl fl' \<and> fl_config fl' = fl_config fl"
  using step
proof cases
  case (f_lease token)
  with ok show ?thesis by (auto simp: start_call_def fleet_ok_def call_ok_def nodes_grow_same)
next
  case (f_append records token)
  with ok show ?thesis by (auto simp: start_call_def fleet_ok_def call_ok_def nodes_grow_same)
next
  case (f_run c i)
  with run_task_ok [OF ok, of c i] show ?thesis by (auto simp: run_task_def Let_def split: prod.splits)
next
  case (f_finish c)
  have "fl_nodes fl' = fl_nodes fl" "fl_config fl' = fl_config fl"
    "fl_calls fl' = (fl_calls fl)[c := (fl_calls fl ! c)\<lparr>c_done := True\<rparr>]"
    using f_finish by (auto simp: finish_def Let_def split: request.splits option.splits sum.splits)
  moreover have "call_ok (fl_nodes fl) ((fl_calls fl ! c)\<lparr>c_done := True\<rparr>)"
  proof -
    have "call_ok (fl_nodes fl) (fl_calls fl ! c)" using ok f_finish by (simp add: fleet_ok_def list_all_length)
    then show ?thesis by (simp add: call_ok_def reply_ok_fields [of "(fl_calls fl ! c)\<lparr>c_done := True\<rparr>" "fl_calls fl ! c"])
  qed
  ultimately show ?thesis
    using ok by (auto simp: fleet_ok_def nodes_grow_same list_all_iff dest!: set_mp [OF set_update_subset_insert])
next
  case (f_state i s)
  have "nodes_grow fl fl'" unfolding f_state by (rule nodes_grow_update) (use f_state in \<open>simp_all add: set_state_def grows_def\<close>)
  with fleet_ok_grow [OF ok] f_state show ?thesis by simp
next
  case (f_get name key v)
  obtain res nds where fo: "first_ok (\<lambda>nd. get_key nd name key v) (fl_nodes fl) None = (res, nds)" by force
  then have fl': "fl' = fl\<lparr>fl_nodes := nds\<rparr>" using f_get by (simp add: get_key_quorum_def)
  have "nodes_grow fl fl'"
    using first_ok_grows [where f = "\<lambda>nd. get_key nd name key v", OF grows_read(1), of "fl_nodes fl" None] fo
    by (simp add: nodes_grow_def fl')
  with fleet_ok_grow [OF ok this] show ?thesis by (simp add: fl')
next
  case (f_scan name lo hi v)
  obtain res nds where fo: "first_ok (\<lambda>nd. scan_range nd name lo hi v) (fl_nodes fl) None = (res, nds)" by force
  then have fl': "fl' = fl\<lparr>fl_nodes := nds\<rparr>" using f_scan by (simp add: scan_range_quorum_def)
  have "nodes_grow fl fl'"
    using first_ok_grows [where f = "\<lambda>nd. scan_range nd name lo hi v", OF grows_read(2), of "fl_nodes fl" None] fo
    by (simp add: nodes_grow_def fl')
  with fleet_ok_grow [OF ok this] show ?thesis by (simp add: fl')
next
  case (f_materialize i k k')
  then obtain kk nd where "materialize_pending C (fl_nodes fl ! i) = Some (kk, nd)" "fl' = fl\<lparr>fl_nodes := (fl_nodes fl)[i := nd]\<rparr>"
    by (auto simp: materialize_node_def split: bind_splits)
  with nodes_grow_update [OF f_materialize(1) grows_materialize] fleet_ok_grow [OF ok, of fl'] show ?thesis by auto
next
  case (f_gossip i j k k')
  then have "fl' = fl \<or> (\<exists>res nd. gossip_sync_from C (fl_nodes fl ! i) (fl_nodes fl ! j) = Some (res, nd) \<and>
      fl' = fl\<lparr>fl_nodes := (fl_nodes fl)[i := nd]\<rparr>)"
    by (auto simp: gossip_pair_def split: if_splits bind_splits)
  with nodes_grow_update [OF f_gossip(1) grows_gossip] fleet_ok_grow [OF ok, of fl'] nodes_grow_same [of fl fl] ok
  show ?thesis by auto
qed

section \<open>Quorums\<close>

definition acked :: "call \<Rightarrow> nat set" where
  "acked cl = set (map fst (filter (\<lambda>ir. \<not> isl (snd ir)) (c_replies cl)))"

lemma acked_card:
  assumes "call_ok nds cl"
  shows "card (acked cl) = acks (map snd (c_replies cl))" "acked cl \<subseteq> {..<length nds}"
proof -
  let ?rs = "filter (\<lambda>ir. \<not> isl (snd ir)) (c_replies cl)"
  have "distinct (map fst ?rs)" using assms by (auto simp: call_ok_def distinct_map_filter)
  then have "card (acked cl) = length ?rs" unfolding acked_def by (metis distinct_card length_map)
  then show "card (acked cl) = acks (map snd (c_replies cl))" by (simp add: acks_def filter_map comp_def)
  show "acked cl \<subseteq> {..<length nds}" using assms by (auto simp: acked_def call_ok_def)
qed

lemma map_sum_Inr: "map_sum f g v = Inr y \<Longrightarrow> (\<And>x. v = Inr x \<Longrightarrow> P) \<Longrightarrow> P"
  by (cases v) auto

lemma verdict_ok:
  assumes "call_ok (fl_nodes fl) cl" "verdict fl cl = Some (Inr l)"
  shows "write_quorum (fl_config fl) \<le> card (acked cl)"
proof -
  let ?wq = "write_quorum (fl_config fl)" and ?n = "length (fl_nodes fl)" and ?rs = "map snd (c_replies cl)"
  have units: "acks (map (map_sum id (\<lambda>_. ()) \<circ> snd) rs) = acks (map snd rs)" for rs :: "(nat \<times> u64 h2_result) list"
  proof (induction rs)
    case (Cons ir rs)
    then show ?case by (cases "snd ir") simp_all
  qed simp
  show ?thesis
  proof (cases "c_req cl")
    case Lease
    with assms(2) obtain u where "lease_wait ?wq ?n 0 0 (map (map_sum id (\<lambda>_. ()) \<circ> snd) (c_replies cl)) = Some (Inr u)"
      by (auto simp: verdict_def Let_def elim!: map_sum_Inr)
    from lease_wait_ok [OF this] show ?thesis by (simp add: units acked_card(1) [OF assms(1)])
  next
    case (Append records)
    with assms(2) have "append_wait ?wq ?n 0 0 0 ?rs = Some (Inr l)" by (simp add: verdict_def Let_def)
    from append_wait_ok [OF this] show ?thesis by (simp add: acked_card(1) [OF assms(1)])
  qed
qed

lemma quorums_meet:
  assumes "A \<subseteq> {..<n}" "B \<subseteq> {..<n}" "n < card A + card B"
  shows "A \<inter> B \<noteq> {}"
proof
  assume "A \<inter> B = {}"
  then have "card (A \<union> B) = card A + card B" using assms(1,2) by (intro card_Un_disjoint) (auto intro: finite_subset)
  moreover have "card (A \<union> B) \<le> n" using card_mono [of "{..<n}" "A \<union> B"] assms(1,2) by auto
  ultimately show False using assms(3) by simp
qed

definition fleet_start :: "fleet \<Rightarrow> bool" where
  "fleet_start fl \<longleftrightarrow> (\<exists>nds cfg. fleet_new nds cfg = Inr fl)"

interpretation fleet_sys: invariant_system fleet_start "fleet_step C" fleet_ok
proof
  show "fleet_ok fl" if "fleet_start fl" for fl
    using that by (auto simp: fleet_start_def fleet_new_def fleet_ok_def res_bind_eq_Inr split: if_splits)
  show "fleet_ok fl'" if "fleet_ok fl" "fleet_step C fl fl'" for fl fl'
    using fleet_step_ok [OF that] by blast
qed

text \<open>C32: Acknowledged writes survive.  In every state of the fleet, whatever the interleaving of threads,
  crashes, repairs and reads, the records of a write that was reported as successful are in the log of at
  least one node of every read quorum.\<close>

theorem quorum_write_durable:
  assumes "reachable fleet_start (fleet_step C) fl" "cl \<in> set (fl_calls fl)" "c_req cl = Append records"
    "verdict fl cl = Some (Inr l)"
    "S \<subseteq> {..<length (fl_nodes fl)}" "read_quorum (fl_config fl) \<le> card S"
  shows "\<exists>i\<in>S. set records \<subseteq> set (wal_buffer (fl_nodes fl ! i))"
proof -
  have ok: "fleet_ok fl" by (rule fleet_sys.reachable_inv [OF assms(1)])
  with assms(2) have cl: "call_ok (fl_nodes fl) cl" by (auto simp: fleet_ok_def list_all_iff)
  have "length (fl_nodes fl) < card (acked cl) + card S"
    using ok verdict_ok [OF cl assms(4)] assms(6) by (auto simp: fleet_ok_def validate_def split: if_splits)
  then obtain i where "i \<in> acked cl" "i \<in> S" using quorums_meet [OF acked_card(2) [OF cl] assms(5)] by blast
  moreover then have "set records \<subseteq> set (wal_buffer (fl_nodes fl ! i))"
    using cl assms(3) by (auto simp: acked_def call_ok_def reply_ok_def list_all_iff)
  ultimately show ?thesis by blast
qed

section \<open>Fencing\<close>

text \<open>The nodes of \<open>Q\<close> have granted the token \<open>t\<close>; calls from \<open>k\<close> on started after that.\<close>

definition fenced_nodes :: "fleet \<Rightarrow> nat set \<Rightarrow> u64 \<Rightarrow> nat \<Rightarrow> bool" where
  "fenced_nodes fl Q t k \<longleftrightarrow>
     k \<le> length (fl_calls fl) \<and> Q \<subseteq> {..<length (fl_nodes fl)} \<and> (\<forall>i\<in>Q. t \<le> node_token (fl_nodes fl ! i)) \<and>
     (\<forall>c<length (fl_calls fl). k \<le> c \<longrightarrow> c_req (fl_calls fl ! c) \<noteq> Lease \<longrightarrow> c_token (fl_calls fl ! c) < t \<longrightarrow>
        acked (fl_calls fl ! c) \<inter> Q = {})"

lemma request_refused:
  "node_request nd (Append records) token = (res, nd') \<Longrightarrow> token < node_token nd \<Longrightarrow> isl res"
  by (auto simp: node_request_def append_logs_def split: if_splits)

lemma fenced_nodes_step:
  assumes fen: "fenced_nodes fl Q t k" and ok: "fleet_ok fl" and step: "fleet_step C fl fl'"
  shows "fenced_nodes fl' Q t k"
proof -
  have grow: "nodes_grow fl fl'" using fleet_step_ok [OF ok step] by blast
  have len: "length (fl_nodes fl') = length (fl_nodes fl)" using grow list_all2_lengthD by (fastforce simp: nodes_grow_def)
  have tok: "t \<le> node_token (fl_nodes fl' ! i)" if "i \<in> Q" for i
  proof -
    have "i < length (fl_nodes fl)" "t \<le> node_token (fl_nodes fl ! i)" using fen that by (auto simp: fenced_nodes_def)
    with grow show ?thesis by (auto simp: nodes_grow_def list_all2_conv_all_nth grows_def intro: order_trans)
  qed
  have same: ?thesis if "\<And>c. c < length (fl_calls fl) \<Longrightarrow> c_req (fl_calls fl' ! c) = c_req (fl_calls fl ! c) \<and>
      c_token (fl_calls fl' ! c) = c_token (fl_calls fl ! c) \<and> acked (fl_calls fl' ! c) \<inter> Q = acked (fl_calls fl ! c) \<inter> Q"
      "length (fl_calls fl') = length (fl_calls fl)"
    using that fen tok len by (simp add: fenced_nodes_def)
  have new: ?thesis if "fl' = start_call fl req token" for req token
  proof -
    have "acked (fl_calls fl' ! length (fl_calls fl)) = {}" by (simp add: that start_call_def acked_def nth_append)
    moreover have "fl_calls fl' ! c = fl_calls fl ! c" if "c < length (fl_calls fl)" for c
      using that \<open>fl' = start_call fl req token\<close> by (simp add: start_call_def nth_append)
    moreover have "length (fl_calls fl') = Suc (length (fl_calls fl))" using that by (simp add: start_call_def)
    ultimately show ?thesis using fen tok len by (auto simp: fenced_nodes_def less_Suc_eq)
  qed
  show ?thesis
    using step
  proof cases
    case (f_run c i)
    let ?cl = "fl_calls fl ! c"
    obtain res nd where nr: "node_request (fl_nodes fl ! i) (c_req ?cl) (c_token ?cl) = (res, nd)" by force
    have calls: "fl_calls fl' = (fl_calls fl)[c := ?cl\<lparr>c_todo := remove1 i (c_todo ?cl), c_replies := c_replies ?cl @ [(i, res)]\<rparr>]"
      using f_run nr by (simp add: run_task_def Let_def)
    have acked': "acked (fl_calls fl' ! c) = (if isl res then acked ?cl else insert i (acked ?cl))"
      unfolding calls using f_run(2) by (auto simp: acked_def)
    have "acked (fl_calls fl' ! c) \<inter> Q = {}"
      if c: "k \<le> c" "c_req ?cl \<noteq> Lease" "c_token ?cl < t"
    proof -
      have "acked ?cl \<inter> Q = {}" using fen f_run(2) c by (simp add: fenced_nodes_def)
      moreover have "isl res" if "i \<in> Q"
      proof -
        obtain records where "c_req ?cl = Append records" using c(2) by (cases "c_req ?cl") auto
        moreover have "c_token ?cl < node_token (fl_nodes fl ! i)" using fen that c(3) by (auto simp: fenced_nodes_def)
        ultimately show ?thesis using request_refused nr by metis
      qed
      ultimately show ?thesis unfolding acked' by auto
    qed
    moreover have "fl_calls fl' ! c' = fl_calls fl ! c'" if "c' \<noteq> c" for c' using that by (simp add: calls)
    moreover have "c_req (fl_calls fl' ! c) = c_req ?cl" "c_token (fl_calls fl' ! c) = c_token ?cl"
      "length (fl_calls fl') = length (fl_calls fl)" using f_run(2) by (simp_all add: calls)
    ultimately show ?thesis using fen tok len unfolding fenced_nodes_def by metis
  next
    case (f_finish c)
    have "fl_calls fl' = (fl_calls fl)[c := (fl_calls fl ! c)\<lparr>c_done := True\<rparr>]"
      using f_finish by (auto simp: finish_def Let_def split: request.splits option.splits sum.splits)
    then show ?thesis using f_finish(2) by (intro same) (simp_all add: nth_list_update acked_def)
  next
    case (f_lease token)
    then show ?thesis by (rule new)
  next
    case (f_append records token)
    then show ?thesis by (intro new)
  next
    case (f_state i s)
    then show ?thesis by (intro same) simp_all
  next
    case (f_get name key v)
    then have "fl_calls fl' = fl_calls fl" by (simp add: get_key_quorum_def split: prod.split)
    then show ?thesis by (intro same) simp_all
  next
    case (f_scan name lo hi v)
    then have "fl_calls fl' = fl_calls fl" by (simp add: scan_range_quorum_def split: prod.split)
    then show ?thesis by (intro same) simp_all
  next
    case (f_materialize i k k')
    then have "fl_calls fl' = fl_calls fl" by (auto simp: materialize_node_def split: bind_splits)
    then show ?thesis by (intro same) simp_all
  next
    case (f_gossip i j k k')
    then have "fl_calls fl' = fl_calls fl" by (auto simp: gossip_pair_def split: if_splits bind_splits)
    then show ?thesis by (intro same) simp_all
  qed
qed

lemma fenced_nodes_run:
  assumes "(fleet_step C)\<^sup>*\<^sup>* fl fl'" "fleet_ok fl" "fenced_nodes fl Q t k"
  shows "fenced_nodes fl' Q t k \<and> fleet_ok fl' \<and> length (fl_nodes fl') = length (fl_nodes fl) \<and> fl_config fl' = fl_config fl"
  using assms
proof (induction rule: rtranclp_induct)
  case (step fl1 fl2)
  then have ok: "fleet_ok fl1" "fenced_nodes fl1 Q t k" by auto
  from fleet_step_ok [OF ok(1) step.hyps(2)] fenced_nodes_step [OF ok(2,1) step.hyps(2)] step show ?case
    by (auto simp: fleet_ok_def)
qed simp


section \<open>Small fleets\<close>

abbreviation fleet_of :: "quorum_config \<Rightarrow> smart_node \<Rightarrow> smart_node \<Rightarrow> smart_node \<Rightarrow> fleet" where
  "fleet_of cfg a b c \<equiv>
     \<lparr>fl_nodes = [a, b, c], fl_config = cfg, fl_latest_lsn = 0, fl_token = 1, fl_calls = []\<rparr>"

definition fleet3 :: fleet where
  "fleet3 = fleet_of three_nodes (node_new 1 ''az-1'') (node_new 2 ''az-2'') (node_new 3 ''az-3'')"

lemma fleet3_start: "reachable fleet_start (fleet_step C) fleet3"
proof (rule reach_init)
  have "fleet_new [node_new 1 ''az-1'', node_new 2 ''az-2'', node_new 3 ''az-3''] three_nodes = Inr fleet3"
    by (simp add: fleet_new_def fleet3_def three_nodes_def validate_def)
  then show "fleet_start fleet3" unfolding fleet_start_def by blast
qed

lemma node_new_fields [simp]:
  "node_token (node_new i z) = 1" "node_state (node_new i z) = Online" "wal_buffer (node_new i z) = []"
  "flushed_lsn (node_new i z) = 0" "applied_lsn (node_new i z) = 0" "materialized_store (node_new i z) = store_open_in_memory"
  by (simp_all add: node_new_def)

lemmas fleet_exec = start_call_def run_task_def finish_def verdict_def node_request_def append_logs_def acquire_lease_def
  set_state_def three_nodes_def fleet3_def Let_def

abbreviation call_of :: "u64 \<Rightarrow> request \<Rightarrow> nat list \<Rightarrow> (nat \<times> u64 h2_result) list \<Rightarrow> call" where
  "call_of t req todo replies \<equiv> \<lparr>c_token = t, c_req = req, c_todo = todo, c_replies = replies, c_done = False\<rparr>"

definition first_rec :: log_record where
  "first_rec = log_put 1 0 1 ''t'' [1] [7] 0"

definition second_rec :: log_record where
  "second_rec = log_put 2 1 2 ''t'' [2] [8] 0"

lemma rec_lsns [simp]: "lr_lsn first_rec = 1" "lr_lsn second_rec = 2"
  by (simp_all add: first_rec_def second_rec_def log_put_def)

definition toy_written :: fleet where
  "toy_written = run_task (run_task (start_call fleet3 (Append [first_rec]) 1) 0 0) 0 2"

lemma toy_written_reachable: "reachable fleet_start (fleet_step C) toy_written"
proof -
  let ?a = "start_call fleet3 (Append [first_rec]) 1"
  have "fleet_step C fleet3 ?a" by (rule f_append) simp
  from reach_step [OF fleet3_start this] have a: "reachable fleet_start (fleet_step C) ?a" .
  have "fleet_step C ?a (run_task ?a 0 0)" by (rule f_run) (simp_all add: fleet_exec)
  from reach_step [OF a this] have b: "reachable fleet_start (fleet_step C) (run_task ?a 0 0)" .
  have "fleet_step C (run_task ?a 0 0) (run_task (run_task ?a 0 0) 0 2)" by (rule f_run) (simp_all add: fleet_exec)
  from reach_step [OF b this] show ?thesis by (simp add: toy_written_def)
qed

theorem quorum_write_durable_witness:
  "\<exists>i\<in>{1, 2}. {first_rec} \<subseteq> set (wal_buffer (fl_nodes toy_written ! i))"
proof -
  have cl: "fl_calls toy_written ! 0 \<in> set (fl_calls toy_written)" "c_req (fl_calls toy_written ! 0) = Append [first_rec]"
    "verdict toy_written (fl_calls toy_written ! 0) = Some (Inr 1)" "length (fl_nodes toy_written) = 3"
    "read_quorum (fl_config toy_written) = 2"
    by (simp_all add: toy_written_def fleet_exec)
  have "\<exists>i\<in>{1, 2}. set [first_rec] \<subseteq> set (wal_buffer (fl_nodes toy_written ! i))"
    by (rule quorum_write_durable [OF toy_written_reachable [of undefined] cl(1-3)]) (auto simp: cl)
  then show ?thesis by simp
qed

definition toy_leased :: fleet where
  "toy_leased = run_task (run_task (start_call fleet3 Lease 2) 0 0) 0 1"

lemma toy_leased_reachable: "reachable fleet_start (fleet_step C) toy_leased"
proof -
  let ?a = "start_call fleet3 Lease 2"
  from reach_step [OF fleet3_start f_lease] have a: "reachable fleet_start (fleet_step C) ?a" .
  have "fleet_step C ?a (run_task ?a 0 0)" by (rule f_run) (simp_all add: fleet_exec)
  from reach_step [OF a this] have b: "reachable fleet_start (fleet_step C) (run_task ?a 0 0)" .
  have "fleet_step C (run_task ?a 0 0) (run_task (run_task ?a 0 0) 0 1)" by (rule f_run) (simp_all add: fleet_exec)
  from reach_step [OF b this] show ?thesis by (simp add: toy_leased_def)
qed


section \<open>What quorums do not give\<close>

abbreviation holds :: "smart_node \<Rightarrow> log_record list \<Rightarrow> u64 \<Rightarrow> smart_node" where
  "holds nd rs l \<equiv> nd\<lparr>wal_buffer := rs, flushed_lsn := l\<rparr>"

lemma first_append:
  "append_logs_quorum (fleet_of three_nodes ((node_new 1 z)\<lparr>node_state := Offline\<rparr>) (node_new 2 z') (node_new 3 z'')) [first_rec] 1 [0, 1, 2] =
    (Some (Inr 1), (fleet_of three_nodes ((node_new 1 z)\<lparr>node_state := Offline\<rparr>) (holds (node_new 2 z') [first_rec] 1)
       (holds (node_new 3 z'') [first_rec] 1))
     \<lparr>fl_latest_lsn := 1, fl_calls := [(call_of 1 (Append [first_rec]) []
       [(0, Inl (Storage ''Node is OFFLINE'')), (1, Inr 1), (2, Inr 1)])\<lparr>c_done := True\<rparr>]\<rparr>)"
  by (simp add: append_logs_quorum_def run_call_def fleet_exec)

lemma second_append:
  assumes "fl_config fl = three_nodes" "length (fl_calls fl) = 1"
    "fl_nodes fl = [node_new 1 z, holds (node_new 2 z') [first_rec] 1, holds (node_new 3 z'') [first_rec] 1]"
  shows "fst (append_logs_quorum fl [second_rec] 1 [0, 1, 2]) = Some (Inr 2)"
    "fl_nodes (snd (append_logs_quorum fl [second_rec] 1 [0, 1, 2])) =
      [holds (node_new 1 z) [second_rec] 2, holds (node_new 2 z') [first_rec, second_rec] 2,
       holds (node_new 3 z'') [first_rec, second_rec] 2]"
    "fl_latest_lsn (snd (append_logs_quorum fl [second_rec] 1 [0, 1, 2])) = 2"
proof -
  obtain cl where cl: "fl_calls fl = [cl]" using assms(2) by (cases "fl_calls fl") auto
  have "\<exists>fl'. append_logs_quorum fl [second_rec] 1 [0, 1, 2] = (Some (Inr 2), fl') \<and>
      fl_nodes fl' = [holds (node_new 1 z) [second_rec] 2, holds (node_new 2 z') [first_rec, second_rec] 2,
        holds (node_new 3 z'') [first_rec, second_rec] 2] \<and> fl_latest_lsn fl' = 2"
    using assms(1,3) by (simp add: append_logs_quorum_def run_call_def fleet_exec cl)
  then show "fst (append_logs_quorum fl [second_rec] 1 [0, 1, 2]) = Some (Inr 2)"
    "fl_nodes (snd (append_logs_quorum fl [second_rec] 1 [0, 1, 2])) =
      [holds (node_new 1 z) [second_rec] 2, holds (node_new 2 z') [first_rec, second_rec] 2,
       holds (node_new 3 z'') [first_rec, second_rec] 2]"
    "fl_latest_lsn (snd (append_logs_quorum fl [second_rec] 1 [0, 1, 2])) = 2"
    by auto
qed

lemma first_node_misses:
  assumes "fl_nodes fl = nd # nds" "node_state nd = Online" "materialized_store nd = store_open_in_memory"
    "wal_buffer nd = [] \<or> wal_buffer nd = [second_rec]"
  shows "fst (get_key_quorum fl ''t'' [1] v) = Inr None"
proof -
  obtain m st where om: "open_map store_open_in_memory ''t'' = (m, st)" by force
  note o = open_map_step [OF _ om]
  have "map_get m [1] = Some None"
    using o(5) map_get_content [OF o(1)] by (simp add: store_open_in_memory_def)
  with assms show ?thesis
    by (auto simp: get_key_quorum_def get_key_def om overlay_logs_def overlay_key_def second_rec_def log_put_def split: prod.splits)
qed

text \<open>Quorum reads are not quorum reads: the first node that answers decides.  A node that was offline
  during a write acknowledged by the two others answers that the key does not exist, and gossip does not
  repair it once the node has received a later record.\<close>

theorem acknowledged_write_not_read:
  "let fl0 = fleet3\<lparr>fl_nodes := (fl_nodes fleet3)[0 := set_state (fl_nodes fleet3 ! 0) Offline]\<rparr>;
       (r1, fl1) = append_logs_quorum fl0 [first_rec] 1 [0, 1, 2];
       fl2 = fl1\<lparr>fl_nodes := (fl_nodes fl1)[0 := set_state (fl_nodes fl1 ! 0) Online]\<rparr>;
       (r2, fl3) = append_logs_quorum fl2 [second_rec] 1 [0, 1, 2] in
   r1 = Some (Inr 1) \<and> r2 = Some (Inr 2) \<and> fl_latest_lsn fl3 = 2 \<and>
   fst (get_key_quorum fl2 ''t'' [1] 1) = Inr None \<and>
   run_gossip_repair C fl3 = Some (0, fl3) \<and> fst (get_key_quorum fl3 ''t'' [1] 2) = Inr None"
proof -
  define fl0 where "fl0 = fleet3\<lparr>fl_nodes := (fl_nodes fleet3)[0 := set_state (fl_nodes fleet3 ! 0) Offline]\<rparr>"
  have fl0: "fl0 = fleet_of three_nodes ((node_new 1 ''az-1'')\<lparr>node_state := Offline\<rparr>) (node_new 2 ''az-2'') (node_new 3 ''az-3'')"
    by (simp add: fl0_def fleet3_def set_state_def)
  obtain r1 fl1 where a1: "append_logs_quorum fl0 [first_rec] 1 [0, 1, 2] = (r1, fl1)" by force
  note a1' = a1 [unfolded fl0 first_append]
  define fl2 where "fl2 = fl1\<lparr>fl_nodes := (fl_nodes fl1)[0 := set_state (fl_nodes fl1 ! 0) Online]\<rparr>"
  have on: "(node_new 1 z)\<lparr>node_state := Online\<rparr> = node_new 1 z" for z by (simp add: node_new_def)
  have fl2: "fl_config fl2 = three_nodes" "length (fl_calls fl2) = 1"
    "fl_nodes fl2 = [node_new 1 ''az-1'', holds (node_new 2 ''az-2'') [first_rec] 1, holds (node_new 3 ''az-3'') [first_rec] 1]"
    using a1' by (auto simp: fl2_def set_state_def on)
  obtain r2 fl3 where a2: "append_logs_quorum fl2 [second_rec] 1 [0, 1, 2] = (r2, fl3)" by force
  note s = second_append [OF fl2, unfolded a2, simplified]
  have "fold_opt (gossip_pair C) (0, fl3) ps = Some (0, fl3)" if "\<forall>(i, j) \<in> set ps. i < 3 \<and> j < 3" for ps
    using that
  proof (induction ps)
    case (Cons p ps)
    obtain i j where p: "p = (i, j)" by force
    with Cons.prems have "i \<in> {0, 1, 2}" "j \<in> {0, 1, 2}" by auto
    then have "fl_nodes fl3 ! i \<in> set (fl_nodes fl3)" "fl_nodes fl3 ! j \<in> set (fl_nodes fl3)" by (auto simp: s)
    then have "flushed_lsn (fl_nodes fl3 ! i) = 2" "flushed_lsn (fl_nodes fl3 ! j) = 2" "node_state (fl_nodes fl3 ! i) = Online"
      by (auto simp: s)
    then have "gossip_pair C (0, fl3) p = Some (0, fl3)" by (simp add: p gossip_pair_def gossip_sync_from_def)
    with Cons show ?case by simp
  qed simp
  moreover have "length (fl_nodes fl3) = 3" by (simp add: s)
  ultimately have "run_gossip_repair C fl3 = Some (0, fl3)" unfolding run_gossip_repair_def Let_def by auto
  moreover have "fst (get_key_quorum fl2 ''t'' [1] 1) = Inr None" by (rule first_node_misses [OF fl2(3)]) simp_all
  moreover have "fst (get_key_quorum fl3 ''t'' [1] 2) = Inr None" by (rule first_node_misses [OF s(2)]) simp_all
  moreover have "r1 = Some (Inr 1)" using a1' by simp
  ultimately show ?thesis using s(1,3) unfolding Let_def fl0_def [symmetric] a1 prod.case fl2_def [symmetric] a2 by blast
qed

text \<open>\<^verbatim>\<open>validate\<close> accepts write quorums that are not majorities, with which fencing fails: after a lease for
  token 2 was granted, a write with token 1 still succeeds.\<close>

theorem minority_quorum_split_brain:
  "let cfg = \<lparr>total_nodes = 3, write_quorum = 1, read_quorum = 3\<rparr>;
       (r1, fl1) = acquire_lease_quorum (fleet_of cfg (node_new 1 ''az-1'') (node_new 2 ''az-2'') (node_new 3 ''az-3'')) 2 [0];
       (r2, fl2) = append_logs_quorum fl1 [first_rec] 1 [1] in
   validate cfg = Inr () \<and> r1 = Some (Inr 0) \<and> fl_token fl1 = 2 \<and> r2 = Some (Inr 1)"
proof -
  let ?cfg = "\<lparr>total_nodes = 3, write_quorum = 1, read_quorum = 3\<rparr>"
  let ?fl1 = "(fleet_of ?cfg ((node_new 1 ''az-1'')\<lparr>node_token := 2\<rparr>) (node_new 2 ''az-2'') (node_new 3 ''az-3''))
      \<lparr>fl_token := 2, fl_calls := [(call_of 2 Lease [1, 2] [(0, Inr 0)])\<lparr>c_done := True\<rparr>]\<rparr>"
  have "acquire_lease_quorum (fleet_of ?cfg (node_new 1 ''az-1'') (node_new 2 ''az-2'') (node_new 3 ''az-3'')) 2 [0] = (Some (Inr 0), ?fl1)"
    by (simp add: acquire_lease_quorum_def run_call_def fleet_exec)
  moreover have "fst (append_logs_quorum ?fl1 [first_rec] 1 [1]) = Some (Inr 1)"
    by (simp add: append_logs_quorum_def run_call_def fleet_exec)
  ultimately show ?thesis by (auto simp: validate_def Let_def split: prod.split)
qed

end
