(* ===== verification/Compute_Cluster.thy ===== *)
theory Compute_Cluster
  imports Storage_Fleet
begin

text \<open>
  Compute nodes over the storage fleet (\<^verbatim>\<open>crates/h2/src/storage/compute.rs\<close> and \<^verbatim>\<open>cluster.rs\<close>): the cache,
  the commit listener that turns the changes of a commit into log records, sends them to the fleet and
  forwards them to the read replicas, the operations of a node, and the cluster with failover.  The nodes of a
  cluster share the fleet and refer to each other, so the cluster keeps them in a list and references are
  positions.  The SQL engine of a node and its connections are left out: a node is its store.  \<open>order\<close> is the
  order in which the threads of a quorum call run.
\<close>

section \<open>Cache\<close>

type_synonym cache_pool = "(string, (bytes, bytes \<times> u64) hashmap) hashmap"

definition cache_get :: "cache_pool \<Rightarrow> string \<Rightarrow> bytes \<Rightarrow> bytes option" where
  "cache_get c name key = map_option fst (Option.bind (map_of c name) (\<lambda>m. map_of m key))"

definition cache_insert :: "cache_pool \<Rightarrow> string \<Rightarrow> bytes \<Rightarrow> bytes \<Rightarrow> u64 \<Rightarrow> cache_pool" where
  "cache_insert c name key val lsn =
     AList.update name
       (AList.update key (val, lsn) (case map_of c name of Some m \<Rightarrow> m | None \<Rightarrow> [])) c"

definition cache_invalidate :: "cache_pool \<Rightarrow> string \<Rightarrow> bytes option \<Rightarrow> cache_pool" where
  "cache_invalidate c name key =
     (case map_of c name of
        None \<Rightarrow> c
      | Some m \<Rightarrow> AList.update name (case key of Some k \<Rightarrow> AList.delete k m | None \<Rightarrow> []) c)"

definition count_cached_keys :: "cache_pool \<Rightarrow> string \<Rightarrow> nat" where
  "count_cached_keys c name = (case map_of c name of Some m \<Rightarrow> length m | None \<Rightarrow> 0)"

section \<open>Compute nodes\<close>

datatype compute_role = Primary | ReadReplica

record compute_node =
  comp_role :: compute_role
  comp_store :: mvstore
  comp_cache :: cache_pool
  comp_lsn :: u64
  comp_token :: u64
  comp_replicas :: "nat list"

record cluster =
  cl_fleet :: fleet
  cl_computes :: "compute_node list"
  cl_primary :: nat
  cl_replicas :: "nat list"

definition new_primary :: "fleet \<Rightarrow> u64 \<Rightarrow> compute_node" where
  "new_primary fl token =
     \<lparr>comp_role = Primary, comp_store = set_change_sink store_open_in_memory (Some []), comp_cache = [],
      comp_lsn = fl_latest_lsn fl, comp_token = token, comp_replicas = []\<rparr>"

definition new_read_replica :: "fleet \<Rightarrow> compute_node" where
  "new_read_replica fl =
     \<lparr>comp_role = ReadReplica, comp_store = store_open_in_memory, comp_cache = [], comp_lsn = fl_latest_lsn fl,
      comp_token = 0, comp_replicas = []\<rparr>"

definition register_replica :: "compute_node \<Rightarrow> nat \<Rightarrow> compute_node" where
  "register_replica nd r = nd\<lparr>comp_replicas := comp_replicas nd @ [r]\<rparr>"

definition set_compute :: "cluster \<Rightarrow> nat \<Rightarrow> compute_node \<Rightarrow> cluster" where
  "set_compute cl i nd = cl\<lparr>cl_computes := (cl_computes cl)[i := nd]\<rparr>"

text \<open>The records of a commit: one per change with consecutive positions, then the commit marker.\<close>

definition change_record :: "u64 \<Rightarrow> u64 \<Rightarrow> u64 \<Rightarrow> replication_change \<Rightarrow> log_record" where
  "change_record lsn commit_version now ch =
     (if is_clear ch then
        \<lparr>lr_lsn = lsn, lr_prev_lsn = lsn - 1, lr_tx_id = commit_version, lr_op = OpTruncateMap,
         lr_map = change_map ch, lr_key = [], lr_value = None, lr_timestamp = now\<rparr>
      else case change_value ch of
             Some val \<Rightarrow> log_put lsn (lsn - 1) commit_version (change_map ch) (change_key ch) val now
           | None \<Rightarrow> log_delete lsn (lsn - 1) commit_version (change_map ch) (change_key ch) now)"

fun commit_records :: "u64 \<Rightarrow> u64 \<Rightarrow> u64 \<Rightarrow> replication_change list \<Rightarrow> log_record list" where
  "commit_records cur commit_version now [] = [log_commit (cur + 1) cur commit_version now]"
| "commit_records cur commit_version now (ch # chs) =
     change_record (cur + 1) commit_version now ch # commit_records (cur + 1) commit_version now chs"

definition apply_change :: "u64 \<Rightarrow> compute_node \<Rightarrow> replication_change \<Rightarrow> compute_node option" where
  "apply_change acked_lsn nd ch =
     (let name = change_map ch in
      if is_clear ch then
        Some (nd\<lparr>comp_store := clear_map (snd (open_map (comp_store nd) name)) name,
                 comp_cache := cache_invalidate (comp_cache nd) name None\<rparr>)
      else case change_value ch of
             Some val \<Rightarrow>
               do { st \<leftarrow> store_put (comp_store nd) name (change_key ch) val;
                    Some (nd\<lparr>comp_store := st,
                             comp_cache := cache_insert (comp_cache nd) name (change_key ch) val acked_lsn\<rparr>) }
           | None \<Rightarrow>
               do { st \<leftarrow> store_remove (comp_store nd) name (change_key ch);
                    Some (nd\<lparr>comp_store := st,
                             comp_cache := cache_invalidate (comp_cache nd) name (Some (change_key ch))\<rparr>) })"

definition apply_remote_commit :: "u64 \<Rightarrow> replication_change list \<Rightarrow> u64 \<Rightarrow> compute_node \<Rightarrow> compute_node option" where
  "apply_remote_commit commit_version chs acked_lsn nd =
     do { nd1 \<leftarrow> fold_opt (apply_change acked_lsn) nd chs;
          Some (nd1\<lparr>comp_store := set_version (comp_store nd1) commit_version, comp_lsn := acked_lsn\<rparr>) }"

text \<open>The listener of the primary \<open>i\<close>; \<open>None\<close> is a panic of a store or a call that is still waiting.\<close>

definition on_commit :: "cluster \<Rightarrow> nat \<Rightarrow> u64 \<Rightarrow> replication_change list \<Rightarrow> u64 \<Rightarrow> nat list \<Rightarrow>
    (unit h2_result \<times> cluster) option" where
  "on_commit cl i commit_version chs now order =
     (let nd = cl_computes cl ! i in
      case append_logs_quorum (cl_fleet cl) (commit_records (comp_lsn nd) commit_version now chs) (comp_token nd) order of
        (None, fl) \<Rightarrow> None
      | (Some (Inl e), fl) \<Rightarrow> Some (Inl e, cl\<lparr>cl_fleet := fl\<rparr>)
      | (Some (Inr acked_lsn), fl) \<Rightarrow>
          do { cl' \<leftarrow> fold_opt (\<lambda>cl r. do { nd' \<leftarrow> apply_remote_commit commit_version chs acked_lsn (cl_computes cl ! r);
                                           Some (set_compute cl r nd') })
                        (set_compute (cl\<lparr>cl_fleet := fl\<rparr>) i (nd\<lparr>comp_lsn := acked_lsn\<rparr>)) (comp_replicas nd);
               Some (Inr (), cl') })"

definition handle_invalidation :: "compute_node \<Rightarrow> u64 \<Rightarrow> string \<Rightarrow> bytes option \<Rightarrow> compute_node" where
  "handle_invalidation nd lsn name key =
     nd\<lparr>comp_cache := cache_invalidate (comp_cache nd) name key, comp_lsn := max (comp_lsn nd) lsn\<rparr>"

text \<open>
  \<^verbatim>\<open>store.commit()\<close> with the listener above: the checkpoint drains the changes and calls the listener last.
\<close>

definition compute_commit :: "codecs \<Rightarrow> cluster \<Rightarrow> nat \<Rightarrow> u64 \<Rightarrow> nat list \<Rightarrow> (u64 h2_result \<times> cluster) option" where
  "compute_commit C cl i now order =
     (let nd = cl_computes cl ! i; chs = sink_changes (comp_store nd) in
      case checkpoint C False None (comp_store nd) of
        (Inl e, st) \<Rightarrow> Some (Inl e, set_compute cl i (nd\<lparr>comp_store := st\<rparr>))
      | (Inr v, st) \<Rightarrow>
          do { (res, cl') \<leftarrow> on_commit (set_compute cl i (nd\<lparr>comp_store := st\<rparr>)) i v chs now order;
               Some (map_sum id (\<lambda>_. v) res, cl') })"

definition compute_write :: "codecs \<Rightarrow> cluster \<Rightarrow> nat \<Rightarrow> string \<Rightarrow> bytes \<Rightarrow> bytes option \<Rightarrow> u64 \<Rightarrow> nat list \<Rightarrow>
    (u64 h2_result \<times> cluster) option" where
  "compute_write C cl i name key val now order =
     (let nd = cl_computes cl ! i in
      if comp_role nd \<noteq> Primary then Some (Inl (ReadOnly ''Cannot write on Read Replica''), cl)
      else
        do { st \<leftarrow> (case val of Some v \<Rightarrow> store_put (comp_store nd) name key v
                               | None \<Rightarrow> store_remove (comp_store nd) name key);
             compute_commit C (set_compute cl i (nd\<lparr>comp_store := st\<rparr>)) i now order })"

definition compute_put :: "codecs \<Rightarrow> cluster \<Rightarrow> nat \<Rightarrow> string \<Rightarrow> bytes \<Rightarrow> bytes \<Rightarrow> u64 \<Rightarrow> nat list \<Rightarrow>
    (u64 h2_result \<times> cluster) option" where
  "compute_put C cl i name key val now order = compute_write C cl i name key (Some val) now order"

definition compute_delete :: "codecs \<Rightarrow> cluster \<Rightarrow> nat \<Rightarrow> string \<Rightarrow> bytes \<Rightarrow> u64 \<Rightarrow> nat list \<Rightarrow>
    (u64 h2_result \<times> cluster) option" where
  "compute_delete C cl i name key now order = compute_write C cl i name key None now order"

definition compute_get :: "cluster \<Rightarrow> nat \<Rightarrow> string \<Rightarrow> bytes \<Rightarrow> (bytes option h2_result \<times> cluster) option" where
  "compute_get cl i name key =
     (let nd = cl_computes cl ! i in
      case open_map (comp_store nd) name of (m, st) \<Rightarrow>
        let cl1 = set_compute cl i (nd\<lparr>comp_store := st\<rparr>) in
        do { local \<leftarrow> map_get m key;
             case local of
               Some val \<Rightarrow> Some (Inr (Some val), cl1)
             | None \<Rightarrow>
                 (case get_key_quorum (cl_fleet cl1) name key (comp_lsn nd) of
                    (Inl e, fl) \<Rightarrow> Some (Inl e, cl1\<lparr>cl_fleet := fl\<rparr>)
                  | (Inr None, fl) \<Rightarrow> Some (Inr None, cl1\<lparr>cl_fleet := fl\<rparr>)
                  | (Inr (Some val), fl) \<Rightarrow>
                      do { st' \<leftarrow> store_put st name key val;
                           Some (Inr (Some val), set_compute (cl1\<lparr>cl_fleet := fl\<rparr>) i (nd\<lparr>comp_store := st'\<rparr>)) }) })"

definition promote_to_primary :: "cluster \<Rightarrow> nat \<Rightarrow> nat list \<Rightarrow> (u64 h2_result \<times> cluster) option" where
  "promote_to_primary cl i order =
     (let nd = cl_computes cl ! i in
      if comp_role nd = Primary then Some (Inr (comp_token nd), cl)
      else
        let new_token = token_next (fl_token (cl_fleet cl)) in
        case acquire_lease_quorum (cl_fleet cl) new_token order of
          (None, fl) \<Rightarrow> None
        | (Some (Inl e), fl) \<Rightarrow> Some (Inl e, cl\<lparr>cl_fleet := fl\<rparr>)
        | (Some (Inr _), fl) \<Rightarrow>
            Some (Inr new_token,
                  set_compute (cl\<lparr>cl_fleet := fl\<rparr>) i
                    (nd\<lparr>comp_role := Primary, comp_token := new_token, comp_lsn := fl_latest_lsn fl,
                        comp_store := set_change_sink (comp_store nd) (Some [])\<rparr>)))"

section \<open>Clusters\<close>

definition add_read_replica :: "cluster \<Rightarrow> cluster" where
  "add_read_replica cl =
     (let r = length (cl_computes cl) in
      cl\<lparr>cl_computes := (cl_computes cl)[cl_primary cl := register_replica (cl_computes cl ! cl_primary cl) r] @
                         [new_read_replica (cl_fleet cl)],
         cl_replicas := cl_replicas cl @ [r]\<rparr>)"

definition cluster_new :: "smart_node list \<Rightarrow> quorum_config \<Rightarrow> nat \<Rightarrow> cluster h2_result" where
  "cluster_new nodes cfg num_replicas =
     res_bind (fleet_new nodes cfg) (\<lambda>fl.
       Inr ((add_read_replica ^^ num_replicas)
              \<lparr>cl_fleet = fl, cl_computes = [new_primary fl 1], cl_primary = 0, cl_replicas = []\<rparr>))"

definition new_3nodes :: "nat \<Rightarrow> cluster h2_result" where
  "new_3nodes num_replicas =
     cluster_new [node_new 1 ''az-1'', node_new 2 ''az-2'', node_new 3 ''az-3''] three_nodes num_replicas"

definition new_6nodes :: "nat \<Rightarrow> cluster h2_result" where
  "new_6nodes num_replicas =
     cluster_new [node_new 1 ''az-1'', node_new 2 ''az-1'', node_new 3 ''az-2'', node_new 4 ''az-2'',
                  node_new 5 ''az-3'', node_new 6 ''az-3''] six_nodes num_replicas"

definition vec_remove_at :: "'a list \<Rightarrow> nat \<Rightarrow> 'a list" where
  "vec_remove_at xs i = take i xs @ drop (i + 1) xs"

definition failover_to_replica :: "cluster \<Rightarrow> nat \<Rightarrow> nat list \<Rightarrow> (u64 h2_result \<times> cluster) option" where
  "failover_to_replica cl idx order =
     (if length (cl_replicas cl) \<le> idx then Some (Inl (Storage ''Replica index out of bounds''), cl)
      else
        let new_primary = cl_replicas cl ! idx;
            cl1 = cl\<lparr>cl_replicas := vec_remove_at (cl_replicas cl) idx\<rparr> in
        do { (res, cl2) \<leftarrow> promote_to_primary cl1 new_primary order;
             Some (case res of
                     Inl e \<Rightarrow> (Inl e, cl2)
                   | Inr token \<Rightarrow>
                       (Inr token,
                        (set_compute cl2 new_primary
                           (foldl register_replica (cl_computes cl2 ! new_primary) (cl_replicas cl2)))
                        \<lparr>cl_primary := new_primary\<rparr>)) })"

section \<open>Commits as log records\<close>

text \<open>The listener is called last, with what the checkpoint drained: \<open>compute_commit\<close> is \<^verbatim>\<open>commit\<close> with it.\<close>

lemma checkpoint_listener:
  "checkpoint C sf (Some f) st =
     (case checkpoint C sf None st of
        (Inl e, st') \<Rightarrow> (Inl e, st')
      | (Inr v, st') \<Rightarrow> (case f v (sink_changes st) of Inl e \<Rightarrow> (Inl e, st') | Inr _ \<Rightarrow> (Inr v, st')))"
proof (cases "checkpoint_maps C (\<not> has_checkpoint st) (checkpointed_maps st) (maps st) []")
  case (Inl em)
  then show ?thesis by (cases em) (simp add: checkpoint_def Let_def)
next
  case (Inr ss)
  let ?st = "st\<lparr>chunk_id_counter := chunk_id_counter st + 1, change_sink := map_option (\<lambda>_. []) (change_sink st)\<rparr>"
  have sink: "sink_changes (st\<lparr>chunk_id_counter := chunk_id_counter st + 1\<rparr>) = sink_changes st" by (simp add: sink_changes_def)
  obtain w d where w: "write_checkpoint C (\<not> has_checkpoint st) ?st (chunk_id_counter st + 1) (version st + 1) ss = (w, d)" by force
  show ?thesis
  proof (cases w)
    case w': (Inl e)
    show ?thesis using Inr w unfolding w' by (simp add: checkpoint_def Let_def)
  next
    case w': (Inr fs)
    show ?thesis using Inr w unfolding w' by (auto simp: checkpoint_def Let_def sink)
  qed
qed

definition change_effect :: "((string \<times> bytes) \<rightharpoonup> bytes) \<Rightarrow> replication_change \<Rightarrow> ((string \<times> bytes) \<rightharpoonup> bytes)" where
  "change_effect w ch =
     (if is_clear ch then (\<lambda>(n, k). if n = change_map ch then None else w (n, k))
      else w((change_map ch, change_key ch) := change_value ch))"

lemma redo_change_record: "redo_spec w (change_record l v now ch) = change_effect w ch"
  by (auto simp: change_record_def change_effect_def redo_spec_def log_put_def log_delete_def fun_eq_iff split: option.split)

lemma redo_commit_records: "foldl redo_spec w (commit_records cur v now chs) = foldl change_effect w chs"
  by (induction cur v now chs arbitrary: w rule: commit_records.induct)
    (simp_all add: redo_change_record, simp add: redo_spec_def log_commit_def)

lemma change_record_lsn [simp]: "lr_lsn (change_record l v now ch) = l"
  by (simp add: change_record_def log_put_def log_delete_def split: option.split)

lemma apply_change_content:
  assumes "store_wf (comp_store nd)"
  shows "\<exists>nd'. apply_change l nd ch = Some nd' \<and> store_wf (comp_store nd') \<and>
    store_content (comp_store nd') = change_effect (store_content (comp_store nd)) ch"
proof (cases "is_clear ch")
  case True
  with open_clear_content [OF assms, of "change_map ch"] show ?thesis by (simp add: apply_change_def change_effect_def Let_def)
next
  case False
  show ?thesis
  proof (cases "change_value ch")
    case None
    with False store_ops_content(2) [OF assms, of "change_map ch" "change_key ch"] show ?thesis
      by (auto simp: apply_change_def change_effect_def Let_def)
  next
    case (Some val)
    with False store_ops_content(1) [OF assms, of "change_map ch" "change_key ch" val] show ?thesis
      by (auto simp: apply_change_def change_effect_def Let_def)
  qed
qed

lemma apply_changes_content:
  assumes "store_wf (comp_store nd)"
  shows "\<exists>nd'. fold_opt (apply_change l) nd chs = Some nd' \<and> store_wf (comp_store nd') \<and>
    store_content (comp_store nd') = foldl change_effect (store_content (comp_store nd)) chs"
  using assms
proof (induction chs arbitrary: nd)
  case (Cons ch chs)
  from apply_change_content [OF Cons.prems, of l ch] obtain nd1 where nd1: "apply_change l nd ch = Some nd1"
    "store_wf (comp_store nd1)" "store_content (comp_store nd1) = change_effect (store_content (comp_store nd)) ch" by blast
  from Cons.IH [OF nd1(2)] show ?case by (simp add: nd1)
qed simp

lemma apply_remote_commit_content:
  assumes "store_wf (comp_store nd)"
  shows "\<exists>nd'. apply_remote_commit v chs l nd = Some nd' \<and> store_wf (comp_store nd') \<and> comp_lsn nd' = l \<and>
    store_content (comp_store nd') = foldl change_effect (store_content (comp_store nd)) chs"
  using apply_changes_content [OF assms, of l chs] by (auto simp: apply_remote_commit_def set_version_def)

section \<open>Replicas follow the log\<close>

lemma forward_replicas:
  assumes "distinct rs" "\<forall>r \<in> set rs. r < length (cl_computes cl) \<and> store_wf (comp_store (cl_computes cl ! r))"
  shows "\<exists>cl'. fold_opt (\<lambda>cl r. do { nd' \<leftarrow> apply_remote_commit v chs l (cl_computes cl ! r); Some (set_compute cl r nd') }) cl rs = Some cl' \<and>
    cl_fleet cl' = cl_fleet cl \<and> length (cl_computes cl') = length (cl_computes cl) \<and>
    (\<forall>r < length (cl_computes cl). if r \<in> set rs then
       comp_lsn (cl_computes cl' ! r) = l \<and> store_wf (comp_store (cl_computes cl' ! r)) \<and>
       store_content (comp_store (cl_computes cl' ! r)) = foldl change_effect (store_content (comp_store (cl_computes cl ! r))) chs
     else cl_computes cl' ! r = cl_computes cl ! r)"
  using assms
proof (induction rs arbitrary: cl)
  case (Cons r rs)
  from Cons.prems have r: "r < length (cl_computes cl)" "store_wf (comp_store (cl_computes cl ! r))" "r \<notin> set rs" by auto
  from apply_remote_commit_content [OF r(2), of v chs l] obtain nd' where nd': "apply_remote_commit v chs l (cl_computes cl ! r) = Some nd'"
    "store_wf (comp_store nd')" "comp_lsn nd' = l"
    "store_content (comp_store nd') = foldl change_effect (store_content (comp_store (cl_computes cl ! r))) chs" by blast
  define cl1 where "cl1 = set_compute cl r nd'"
  have cl1: "cl_fleet cl1 = cl_fleet cl" "length (cl_computes cl1) = length (cl_computes cl)"
    "\<And>q. q \<noteq> r \<Longrightarrow> cl_computes cl1 ! q = cl_computes cl ! q" "cl_computes cl1 ! r = nd'"
    using r(1) by (simp_all add: cl1_def set_compute_def)
  have "\<forall>q \<in> set rs. q < length (cl_computes cl1) \<and> store_wf (comp_store (cl_computes cl1 ! q))"
  proof
    fix q assume "q \<in> set rs"
    with r(3) Cons.prems(2) show "q < length (cl_computes cl1) \<and> store_wf (comp_store (cl_computes cl1 ! q))"
      by (metis cl1(2,3) list.set_intros(2))
  qed
  with Cons.IH [of cl1] Cons.prems(1) obtain cl' where cl':
    "fold_opt (\<lambda>cl r. do { nd' \<leftarrow> apply_remote_commit v chs l (cl_computes cl ! r); Some (set_compute cl r nd') }) cl1 rs = Some cl'"
    "cl_fleet cl' = cl_fleet cl1" "length (cl_computes cl') = length (cl_computes cl1)"
    "\<forall>r < length (cl_computes cl1). if r \<in> set rs then
       comp_lsn (cl_computes cl' ! r) = l \<and> store_wf (comp_store (cl_computes cl' ! r)) \<and>
       store_content (comp_store (cl_computes cl' ! r)) = foldl change_effect (store_content (comp_store (cl_computes cl1 ! r))) chs
     else cl_computes cl' ! r = cl_computes cl1 ! r" by auto
  show ?case
  proof (intro exI [of _ cl'] conjI allI impI)
    show "fold_opt (\<lambda>cl r. do { nd' \<leftarrow> apply_remote_commit v chs l (cl_computes cl ! r); Some (set_compute cl r nd') }) cl (r # rs) = Some cl'"
      using cl'(1) by (simp add: nd'(1) cl1_def)
    show "cl_fleet cl' = cl_fleet cl" "length (cl_computes cl') = length (cl_computes cl)" using cl' cl1 by auto
    fix q assume q: "q < length (cl_computes cl)"
    show "if q \<in> set (r # rs) then comp_lsn (cl_computes cl' ! q) = l \<and> store_wf (comp_store (cl_computes cl' ! q)) \<and>
        store_content (comp_store (cl_computes cl' ! q)) = foldl change_effect (store_content (comp_store (cl_computes cl ! q))) chs
      else cl_computes cl' ! q = cl_computes cl ! q"
    proof (cases "q = r")
      case True
      then have "cl_computes cl' ! q = nd'" using cl'(4) r cl1 q by auto
      with True nd' show ?thesis by simp
    next
      case False
      with cl'(4) cl1 q show ?thesis by (metis set_ConsD list.set_intros(2))
    qed
  qed
qed simp

text \<open>The threads of a call that have run have changed their nodes, and no others.\<close>

lemma run_tasks_nodes:
  assumes "distinct order" "set order \<subseteq> {..<length (fl_nodes fl)}" "c < length (fl_calls fl)"
    "c_req (fl_calls fl ! c) = req" "c_token (fl_calls fl ! c) = token" "j < length (fl_nodes fl)"
  shows "fl_nodes (foldl (\<lambda>fl i. run_task fl c i) fl order) ! j =
    (if j \<in> set order then snd (node_request (fl_nodes fl ! j) req token) else fl_nodes fl ! j)"
  using assms
proof (induction order arbitrary: fl)
  case (Cons i order)
  obtain res nd where nr: "node_request (fl_nodes fl ! i) req token = (res, nd)" by force
  let ?fl = "run_task fl c i"
  have fl: "fl_nodes ?fl = (fl_nodes fl)[i := nd]" "length (fl_calls ?fl) = length (fl_calls fl)"
    "c_req (fl_calls ?fl ! c) = req" "c_token (fl_calls ?fl ! c) = token"
    using Cons.prems nr by (simp_all add: run_task_def Let_def)
  have "fl_nodes (foldl (\<lambda>fl i. run_task fl c i) ?fl order) ! j =
    (if j \<in> set order then snd (node_request (fl_nodes ?fl ! j) req token) else fl_nodes ?fl ! j)"
    by (rule Cons.IH) (use Cons.prems fl in simp_all)
  with Cons.prems nr show ?case by (auto simp: fl(1) nth_list_update)
qed simp

lemma append_quorum_node:
  assumes "distinct order" "j \<in> set order" "set order \<subseteq> {..<length (fl_nodes fl)}" "records \<noteq> []"
  shows "fl_nodes (snd (append_logs_quorum fl records token order)) ! j = snd (append_logs (fl_nodes fl ! j) records token)"
proof -
  let ?c = "length (fl_calls fl)" and ?s = "start_call fl (Append records) token"
  have s: "fl_nodes ?s = fl_nodes fl" "c_req (fl_calls ?s ! ?c) = Append records" "c_token (fl_calls ?s ! ?c) = token"
    "?c < length (fl_calls ?s)" by (simp_all add: start_call_def)
  have fin: "fl_nodes (finish f c) = fl_nodes f" for f c
    by (simp add: finish_def Let_def split: request.split option.split sum.split)
  have "j < length (fl_nodes ?s)" "set order \<subseteq> {..<length (fl_nodes ?s)}" using assms s by auto
  from run_tasks_nodes [OF assms(1) this(2) s(4,2,3) this(1)] assms show ?thesis
    by (simp add: append_logs_quorum_def run_call_def Let_def fin s node_request_def)
qed

lemma append_logs_buffer:
  "node_state nd \<noteq> Offline \<Longrightarrow> node_token nd \<le> token \<Longrightarrow>
   wal_buffer (snd (append_logs nd records token)) = wal_buffer nd @ records"
  by (simp add: append_logs_def Let_def not_less)

lemma commit_records_nonempty: "commit_records cur v now chs \<noteq> []"
  by (cases chs) auto

lemma append_quorum_lsn:
  assumes "append_logs_quorum fl records token order = (Some (Inr l), fl')" "records \<noteq> []"
  shows "fl_latest_lsn fl' = l"
proof -
  let ?c = "length (fl_calls fl)"
  define fl1 where "fl1 = foldl (\<lambda>fl i. run_task fl ?c i) (start_call fl (Append records) token) order"
  have "length (fl_calls (foldl (\<lambda>fl i. run_task fl ?c i) f order)) = length (fl_calls f) \<and>
    (?c < length (fl_calls f) \<longrightarrow> c_req (fl_calls (foldl (\<lambda>fl i. run_task fl ?c i) f order) ! ?c) = c_req (fl_calls f ! ?c))" for f
    by (induction order arbitrary: f) (auto simp: run_task_def Let_def split: prod.split)
  from this [of "start_call fl (Append records) token"] have "c_req (fl_calls fl1 ! ?c) = Append records"
    by (simp add: fl1_def start_call_def)
  moreover have "verdict fl1 (fl_calls fl1 ! ?c) = Some (Inr l)" "fl' = finish fl1 ?c"
    using assms by (auto simp: append_logs_quorum_def run_call_def Let_def fl1_def)
  ultimately show ?thesis by (simp add: finish_def Let_def)
qed

lemma on_commit_effect:
  fixes i :: nat
  assumes run: "on_commit cl i v chs now order = Some (Inr (), cl')" and i: "i < length (cl_computes cl)"
    and rs: "distinct (comp_replicas (cl_computes cl ! i))" "i \<notin> set (comp_replicas (cl_computes cl ! i))"
      "\<forall>r \<in> set (comp_replicas (cl_computes cl ! i)). r < length (cl_computes cl) \<and> store_wf (comp_store (cl_computes cl ! r))"
  defines "recs \<equiv> commit_records (comp_lsn (cl_computes cl ! i)) v now chs"
  shows "cl_fleet cl' = snd (append_logs_quorum (cl_fleet cl) recs (comp_token (cl_computes cl ! i)) order)"
    and "comp_store (cl_computes cl' ! i) = comp_store (cl_computes cl ! i)"
    and "comp_lsn (cl_computes cl' ! i) = fl_latest_lsn (cl_fleet cl')"
    and "\<forall>r \<in> set (comp_replicas (cl_computes cl ! i)).
      store_content (comp_store (cl_computes cl' ! r)) = foldl change_effect (store_content (comp_store (cl_computes cl ! r))) chs \<and>
      comp_lsn (cl_computes cl' ! r) = fl_latest_lsn (cl_fleet cl')"
proof -
  let ?nd = "cl_computes cl ! i"
  obtain q fl where q: "append_logs_quorum (cl_fleet cl) recs (comp_token ?nd) order = (q, fl)" by force
  have "recs \<noteq> []" unfolding recs_def by (rule commit_records_nonempty)
  from run q obtain l where l: "q = Some (Inr l)"
    by (auto simp: on_commit_def Let_def recs_def split: option.splits sum.splits)
  define cl1 where "cl1 = set_compute (cl\<lparr>cl_fleet := fl\<rparr>) i (?nd\<lparr>comp_lsn := l\<rparr>)"
  have cl1: "length (cl_computes cl1) = length (cl_computes cl)" "cl_fleet cl1 = fl"
    "\<And>r. r \<noteq> i \<Longrightarrow> cl_computes cl1 ! r = cl_computes cl ! r" "cl_computes cl1 ! i = ?nd\<lparr>comp_lsn := l\<rparr>"
    using i by (simp_all add: cl1_def set_compute_def)
  have lsn: "fl_latest_lsn fl = l" using append_quorum_lsn [OF q [unfolded l] \<open>recs \<noteq> []\<close>] .
  have same: "cl_computes cl1 ! r = cl_computes cl ! r" if "r \<in> set (comp_replicas ?nd)" for r using rs(2) that by (intro cl1(3)) auto
  have "\<forall>r \<in> set (comp_replicas ?nd). r < length (cl_computes cl1) \<and> store_wf (comp_store (cl_computes cl1 ! r))"
    using rs(3) same by (simp add: cl1(1))
  from forward_replicas [OF rs(1) this, of v chs l] run q l obtain
    fw: "cl_fleet cl' = cl_fleet cl1"
    "\<forall>r < length (cl_computes cl1). if r \<in> set (comp_replicas ?nd) then
       comp_lsn (cl_computes cl' ! r) = l \<and> store_wf (comp_store (cl_computes cl' ! r)) \<and>
       store_content (comp_store (cl_computes cl' ! r)) = foldl change_effect (store_content (comp_store (cl_computes cl1 ! r))) chs
     else cl_computes cl' ! r = cl_computes cl1 ! r"
    by (auto simp: on_commit_def Let_def recs_def cl1_def [symmetric] split: bind_splits)
  show "cl_fleet cl' = snd (append_logs_quorum (cl_fleet cl) recs (comp_token ?nd) order)" using fw(1) cl1(2) q by simp
  have "cl_computes cl' ! i = cl_computes cl1 ! i" using fw(2) i rs(2) by (simp add: cl1(1))
  then show "comp_store (cl_computes cl' ! i) = comp_store ?nd" "comp_lsn (cl_computes cl' ! i) = fl_latest_lsn (cl_fleet cl')"
    using cl1 fw(1) lsn by simp_all
  show "\<forall>r \<in> set (comp_replicas ?nd).
      store_content (comp_store (cl_computes cl' ! r)) = foldl change_effect (store_content (comp_store (cl_computes cl ! r))) chs \<and>
      comp_lsn (cl_computes cl' ! r) = fl_latest_lsn (cl_fleet cl')"
  proof
    fix r assume r: "r \<in> set (comp_replicas ?nd)"
    with rs(3) fw(2) have "comp_lsn (cl_computes cl' ! r) = l \<and>
       store_content (comp_store (cl_computes cl' ! r)) = foldl change_effect (store_content (comp_store (cl_computes cl1 ! r))) chs"
      by (auto simp: cl1(1))
    with same [OF r] fw(1) cl1(2) lsn show
      "store_content (comp_store (cl_computes cl' ! r)) = foldl change_effect (store_content (comp_store (cl_computes cl ! r))) chs \<and>
       comp_lsn (cl_computes cl' ! r) = fl_latest_lsn (cl_fleet cl')" by simp
  qed
qed

definition replicas_ok :: "cluster \<Rightarrow> nat \<Rightarrow> bool" where
  "replicas_ok cl i \<longleftrightarrow>
     i < length (cl_computes cl) \<and> distinct (comp_replicas (cl_computes cl ! i)) \<and> i \<notin> set (comp_replicas (cl_computes cl ! i)) \<and>
     (\<forall>r \<in> set (comp_replicas (cl_computes cl ! i)). r < length (cl_computes cl) \<and> store_wf (comp_store (cl_computes cl ! r)))"

text \<open>Replicas and storage see the same commit.  When the commit of a primary succeeds, every registered
  read replica that held what the log of an acknowledging storage node gives still does: forwarding the
  changes to the replica has the effect of replaying the records that the node received, and the replica's
  position is the committed one.\<close>

theorem replica_follows_storage:
  assumes "on_commit cl i v chs now order = Some (Inr (), cl')" "replicas_ok cl i"
    "r \<in> set (comp_replicas (cl_computes cl ! i))"
    "distinct order" "j \<in> set order" "set order \<subseteq> {..<length (fl_nodes (cl_fleet cl))}"
    "node_state (fl_nodes (cl_fleet cl) ! j) \<noteq> Offline" "node_token (fl_nodes (cl_fleet cl) ! j) \<le> comp_token (cl_computes cl ! i)"
    "store_content (comp_store (cl_computes cl ! r)) = replay (wal_buffer (fl_nodes (cl_fleet cl) ! j))"
  shows "store_content (comp_store (cl_computes cl' ! r)) = replay (wal_buffer (fl_nodes (cl_fleet cl') ! j)) \<and>
    comp_lsn (cl_computes cl' ! r) = fl_latest_lsn (cl_fleet cl')"
proof -
  have ok: "i < length (cl_computes cl)" "distinct (comp_replicas (cl_computes cl ! i))" "i \<notin> set (comp_replicas (cl_computes cl ! i))"
    "\<forall>r \<in> set (comp_replicas (cl_computes cl ! i)). r < length (cl_computes cl) \<and> store_wf (comp_store (cl_computes cl ! r))"
    using assms(2) by (simp_all add: replicas_ok_def)
  note e = on_commit_effect [OF assms(1) ok]
  have "wal_buffer (fl_nodes (cl_fleet cl') ! j) =
      wal_buffer (fl_nodes (cl_fleet cl) ! j) @ commit_records (comp_lsn (cl_computes cl ! i)) v now chs"
    unfolding e(1) using append_quorum_node [OF assms(4,5,6) commit_records_nonempty] append_logs_buffer [OF assms(7,8)] by simp
  then show ?thesis using e(4) assms(3,9) by (simp add: replay_append redo_commit_records)
qed

definition cluster3 :: cluster where
  "cluster3 =
     \<lparr>cl_fleet = fleet3, cl_computes = [register_replica (new_primary fleet3 1) 1, new_read_replica fleet3],
      cl_primary = 0, cl_replicas = [1]\<rparr>"

lemma cluster3_new: "new_3nodes 1 = Inr cluster3"
  by (simp add: new_3nodes_def cluster_new_def fleet_new_def three_nodes_def validate_def cluster3_def fleet3_def
      add_read_replica_def Let_def)

lemma small_store: "store_wf store_open_in_memory" "store_content store_open_in_memory = Map.empty"
  by (simp_all add: store_open_in_memory_def content_of_def fun_eq_iff)

lemma cluster3_fields:
  "cl_fleet cluster3 = fleet3" "comp_lsn (cl_computes cluster3 ! 0) = 0" "comp_token (cl_computes cluster3 ! 0) = 1"
  "comp_replicas (cl_computes cluster3 ! 0) = [1]" "length (cl_computes cluster3) = 2"
  "comp_store (cl_computes cluster3 ! 1) = store_open_in_memory"
  by (simp_all add: cluster3_def register_replica_def new_primary_def new_read_replica_def fleet3_def)

lemmas cluster3_simps = cluster3_fields cluster3_fields [unfolded One_nat_def]

theorem replica_follows_storage_witness:
  "\<exists>cl'. on_commit cluster3 0 1 [change_put ''t'' [1] [7]] 0 [0, 1, 2] = Some (Inr (), cl') \<and>
     store_content (comp_store (cl_computes cl' ! 1)) = replay (wal_buffer (fl_nodes (cl_fleet cl') ! 2))"
proof -
  let ?chs = "[change_put ''t'' [1] [7]]"
  have ok: "replicas_ok cluster3 0" by (simp add: replicas_ok_def cluster3_simps small_store)
  obtain q fl where q: "append_logs_quorum fleet3 (commit_records 0 1 0 ?chs) 1 [0, 1, 2] = (q, fl)" by force
  have "\<exists>l. fst (append_logs_quorum fleet3 (r # recs) 1 [0, 1, 2]) = Some (Inr l)" for r recs
    by (simp add: append_logs_quorum_def run_call_def fleet_exec)
  then obtain l where l: "q = Some (Inr l)" using q by (metis commit_records.simps(2) fst_conv)
  have "\<exists>cl'. on_commit cluster3 0 1 ?chs 0 [0, 1, 2] = Some (Inr (), cl')"
  proof -
    have "store_wf (comp_store (cl_computes cluster3 ! 1))" by (simp add: cluster3_simps small_store)
    from apply_remote_commit_content [OF this, of 1 ?chs l] obtain nd' where
      "apply_remote_commit 1 ?chs l (cl_computes cluster3 ! 1) = Some nd'" by blast
    then show ?thesis using q l by (simp add: on_commit_def cluster3_simps set_compute_def Let_def)
  qed
  then obtain cl' where run: "on_commit cluster3 0 1 ?chs 0 [0, 1, 2] = Some (Inr (), cl')" by blast
  have "store_content (comp_store (cl_computes cl' ! 1)) = replay (wal_buffer (fl_nodes (cl_fleet cl') ! 2)) \<and>
      comp_lsn (cl_computes cl' ! 1) = fl_latest_lsn (cl_fleet cl')"
    by (rule replica_follows_storage [OF run ok])
      (auto simp: cluster3_simps small_store fleet3_def replay_def)
  with run show ?thesis by blast
qed

section \<open>Failed commits\<close>

text \<open>
  A commit is refused because two of three nodes are offline; they come back, and the next commit succeeds.
\<close>

definition failing :: cluster where
  "failing = cluster3\<lparr>cl_fleet := fleet3\<lparr>fl_nodes := [node_new 1 ''az-1'', (node_new 2 ''az-2'')\<lparr>node_state := Offline\<rparr>,
     (node_new 3 ''az-3'')\<lparr>node_state := Offline\<rparr>]\<rparr>\<rparr>"

definition back_online :: "cluster \<Rightarrow> cluster" where
  "back_online cl = cl\<lparr>cl_fleet := (cl_fleet cl)\<lparr>fl_nodes := map (\<lambda>nd. set_state nd Online) (fl_nodes (cl_fleet cl))\<rparr>\<rparr>"

lemma failing_fields:
  "cl_fleet failing = fleet3\<lparr>fl_nodes := [node_new 1 ''az-1'', (node_new 2 ''az-2'')\<lparr>node_state := Offline\<rparr>,
     (node_new 3 ''az-3'')\<lparr>node_state := Offline\<rparr>]\<rparr>" "cl_computes failing = cl_computes cluster3"
  by (simp_all add: failing_def)

lemma refused_append:
  "append_logs_quorum (fleet3\<lparr>fl_nodes := [node_new 1 z, (node_new 2 z')\<lparr>node_state := Offline\<rparr>, (node_new 3 z'')\<lparr>node_state := Offline\<rparr>]\<rparr>)
     [a, b] 1 [0, 1, 2] = (res, fl) \<Longrightarrow>
   res = Some (Inl (Storage ''Write quorum unachievable'')) \<and> fl_config fl = three_nodes \<and> length (fl_calls fl) = 1 \<and>
   fl_nodes fl = [holds (node_new 1 z) [a, b] (max (max 0 (lr_lsn a)) (lr_lsn b)),
     (node_new 2 z')\<lparr>node_state := Offline\<rparr>, (node_new 3 z'')\<lparr>node_state := Offline\<rparr>]"
  by (auto simp: append_logs_quorum_def run_call_def fleet_exec)

lemma all_acknowledge:
  assumes "append_logs n0 recs t = (Inr l0, m0)" "append_logs n1 recs t = (Inr l1, m1)" "append_logs n2 recs t = (Inr l2, m2)"
    "recs \<noteq> []" "fl_config fl = three_nodes" "fl_nodes fl = [n0, n1, n2]" "fl_calls fl = [cl]"
  shows "fst (append_logs_quorum fl recs t [0, 1, 2]) = Some (Inr (max l0 l1))"
    "fl_nodes (snd (append_logs_quorum fl recs t [0, 1, 2])) = [m0, m1, m2]"
  using assms by (simp_all add: append_logs_quorum_def run_call_def start_call_def run_task_def finish_def verdict_def
      node_request_def three_nodes_def Let_def max.assoc)

lemma retried_append:
  assumes "lr_lsn c = 1" "lr_lsn d = 2" "fl_config fl = three_nodes" "length (fl_calls fl) = 1"
    "fl_nodes fl = [holds (node_new 1 z) [a, b] 2, node_new 2 z', node_new 3 z'']"
  shows "fst (append_logs_quorum fl [c, d] 1 [0, 1, 2]) = Some (Inr 2)"
    "fl_nodes (snd (append_logs_quorum fl [c, d] 1 [0, 1, 2])) =
      [holds (node_new 1 z) [a, b, c, d] 2, holds (node_new 2 z') [c, d] 2, holds (node_new 3 z'') [c, d] 2]"
proof -
  obtain cl where cl: "fl_calls fl = [cl]" using assms(4) by (cases "fl_calls fl") auto
  have n: "append_logs (holds (node_new 1 z) [a, b] 2) [c, d] 1 = (Inr 2, holds (node_new 1 z) [a, b, c, d] 2)"
    "append_logs (node_new k y) [c, d] 1 = (Inr 2, holds (node_new k y) [c, d] 2)" for k y
    using assms(1,2) by (simp_all add: append_logs_def)
  from all_acknowledge [OF n(1) n(2) n(2) _ assms(3,5) cl] show
    "fst (append_logs_quorum fl [c, d] 1 [0, 1, 2]) = Some (Inr 2)"
    "fl_nodes (snd (append_logs_quorum fl [c, d] 1 [0, 1, 2])) =
      [holds (node_new 1 z) [a, b, c, d] 2, holds (node_new 2 z') [c, d] 2, holds (node_new 3 z'') [c, d] 2]"
    by simp_all
qed

lemma first_ok_head: "fst (f nd) = Inr v \<Longrightarrow> fst (first_ok f (nd # nds) le) = Inr v"
  by (cases "f nd") simp

lemma read_in_memory:
  assumes "node_state nd = Online" "materialized_store nd = store_open_in_memory"
  shows "fst (get_key nd ''t'' k v) = Inr (foldl (overlay_key k) None (overlay_logs nd ''t'' v))"
proof -
  obtain m st where om: "open_map store_open_in_memory ''t'' = (m, st)" by force
  note o = open_map_step [OF small_store(1) om]
  have "map_get m k = Some None"
    using o(5) map_get_content [OF o(1)] by (simp add: store_open_in_memory_def)
  with assms show ?thesis by (simp add: get_key_def om)
qed

text \<open>A commit that was reported as failed can come back.  The node that received its records keeps them,
  and since the primary reuses their positions for the next commit, reading at the position of that commit
  returns the row of the failed one, which the other nodes and the replica do not have.\<close>

theorem failed_commit_resurfaces:
  "\<exists>cl1 cl2 e.
     on_commit failing 0 1 [change_put ''t'' [1] [7]] 0 [0, 1, 2] = Some (Inl e, cl1) \<and>
     on_commit (back_online cl1) 0 2 [change_put ''t'' [2] [8]] 0 [0, 1, 2] = Some (Inr (), cl2) \<and>
     fst (get_key_quorum (cl_fleet cl2) ''t'' [1] 2) = Inr (Some [7]) \<and>
     store_content (comp_store (cl_computes cl2 ! 1)) (''t'', [1]) = None \<and>
     fst (get_key (fl_nodes (cl_fleet cl2) ! 1) ''t'' [1] 2) = Inr None"
proof -
  let ?c1 = "[change_put ''t'' [1] [7]]" and ?c2 = "[change_put ''t'' [2] [8]]"
  define a where "a = change_record 1 1 0 (change_put ''t'' [1] [7])"
  define b where "b = log_commit 2 1 1 0"
  define c where "c = change_record 1 2 0 (change_put ''t'' [2] [8])"
  define d where "d = log_commit 2 1 2 0"
  have lsns: "lr_lsn a = 1" "lr_lsn b = 2" "lr_lsn c = 1" "lr_lsn d = 2"
    by (simp_all add: a_def b_def c_def d_def log_commit_def)
  have recs: "commit_records 0 1 0 ?c1 = [a, b]" "commit_records 0 2 0 ?c2 = [c, d]" by (simp_all add: a_def b_def c_def d_def)
  obtain res fl where q1: "append_logs_quorum (cl_fleet failing) [a, b] 1 [0, 1, 2] = (res, fl)" by force
  note r1 = refused_append [OF q1 [unfolded failing_fields]]
  define cl1 where "cl1 = failing\<lparr>cl_fleet := fl\<rparr>"
  have run1: "on_commit failing 0 1 ?c1 0 [0, 1, 2] = Some (Inl (Storage ''Write quorum unachievable''), cl1)"
    unfolding on_commit_def failing_fields(2) cluster3_fields recs Let_def q1 using r1 by (simp add: cl1_def)
  define bk where "bk = back_online cl1"
  have on: "(node_new n z)\<lparr>node_state := Online\<rparr> = node_new n z" for n z by (simp add: node_new_def)
  have on': "(holds (node_new n z) rs l)\<lparr>node_state := Online\<rparr> = holds (node_new n z) rs l" for n z rs l by (simp add: node_new_def)
  have bk: "fl_config (cl_fleet bk) = three_nodes" "length (fl_calls (cl_fleet bk)) = 1"
    "fl_nodes (cl_fleet bk) = [holds (node_new 1 ''az-1'') [a, b] 2, node_new 2 ''az-2'', node_new 3 ''az-3'']"
    "cl_computes bk = cl_computes cluster3"
    using r1 lsns by (simp_all add: bk_def back_online_def cl1_def set_state_def on on' failing_fields)
  note r2 = retried_append [OF lsns(3,4) bk(1-3)]
  define fl2 where "fl2 = snd (append_logs_quorum (cl_fleet bk) [c, d] 1 [0, 1, 2])"
  have q2: "append_logs_quorum (cl_fleet bk) [c, d] 1 [0, 1, 2] = (Some (Inr 2), fl2)" using r2(1) by (simp add: fl2_def prod_eq_iff)
  have "store_wf (comp_store (cl_computes cluster3 ! 1))" by (simp add: cluster3_simps small_store)
  from apply_remote_commit_content [OF this, of 2 ?c2 2] obtain nd' where
    nd': "apply_remote_commit 2 ?c2 2 (cl_computes cluster3 ! 1) = Some nd'"
    "store_content (comp_store nd') = foldl change_effect (store_content (comp_store (cl_computes cluster3 ! 1))) ?c2" by blast
  define cl2 where "cl2 = set_compute (set_compute (bk\<lparr>cl_fleet := fl2\<rparr>) 0 ((cl_computes cluster3 ! 0)\<lparr>comp_lsn := 2\<rparr>)) 1 nd'"
  have run2: "on_commit bk 0 2 ?c2 0 [0, 1, 2] = Some (Inr (), cl2)"
    unfolding on_commit_def bk(4) cluster3_fields recs Let_def q2
    using nd'(1) by (simp add: cl2_def set_compute_def bk(4))
  have nodes: "fl_nodes (cl_fleet cl2) =
      [holds (node_new 1 ''az-1'') [a, b, c, d] 2, holds (node_new 2 ''az-2'') [c, d] 2, holds (node_new 3 ''az-3'') [c, d] 2]"
    using r2(2) by (simp add: cl2_def set_compute_def fl2_def)
  have recs': "lr_map a = ''t''" "lr_key a = [1]" "lr_op a = OpPut" "lr_value a = Some [7]" "lr_map b = []"
    "lr_map c = ''t''" "lr_key c = [2]" "lr_map d = []"
    by (simp_all add: a_def b_def c_def d_def change_record_def change_put_def log_put_def log_commit_def)
  have "fst (get_key (holds (node_new 1 ''az-1'') [a, b, c, d] 2) ''t'' [1] 2) = Inr (Some [7])"
    by (subst read_in_memory) (simp_all add: overlay_logs_def overlay_key_def lsns recs')
  moreover have "fst (get_key (holds (node_new 2 ''az-2'') [c, d] 2) ''t'' [1] 2) = Inr None"
    by (subst read_in_memory) (simp_all add: overlay_logs_def overlay_key_def lsns recs')
  ultimately have "fst (get_key_quorum (cl_fleet cl2) ''t'' [1] 2) = Inr (Some [7])"
    "fst (get_key (fl_nodes (cl_fleet cl2) ! 1) ''t'' [1] 2) = Inr None"
    using first_ok_head [where f = "\<lambda>nd. get_key nd ''t'' [1] 2"] by (simp_all add: get_key_quorum_def nodes split_def)
  moreover have "store_content (comp_store (cl_computes cl2 ! 1)) (''t'', [1]) = None"
    using nd'(2) by (simp add: cl2_def set_compute_def bk(4) cluster3_simps small_store change_effect_def change_put_def)
  ultimately show ?thesis using run1 run2 [unfolded bk_def] by blast
qed

section \<open>Writing through the primary\<close>

text \<open>On a primary the sink is set and every map reports its changes under its name.\<close>

definition sinks_ok :: "mvstore \<Rightarrow> bool" where
  "sinks_ok st \<longleftrightarrow> change_sink st \<noteq> None \<and> (\<forall>(n, m) \<in> set (maps st). sink m \<and> map_name m = n)"

lemma write_recorded:
  assumes "store_wf st" "sinks_ok st"
  shows "store_put st n k v = Some st' \<Longrightarrow> sink_changes st' = sink_changes st @ [change_put n k v]"
    and "store_remove st n k = Some st' \<Longrightarrow> sink_changes st' = sink_changes st @ [change_remove n k]"
proof -
  obtain m st1 where om: "open_map st n = (m, st1)" by force
  note o = open_map_step [OF assms(1) om]
  have m: "sink m" "map_name m = n" "sink_changes st1 = sink_changes st" "change_sink st1 = change_sink st"
    using om assms(2)
    by (auto simp: open_map_def Let_def sinks_ok_def sink_changes_def map_set_sink_def set_journaling_def map_new_def
        dest: map_of_SomeD split: option.splits)
  have set: "sink_changes (set_map st1 n m' c) = c" for m' c
    using assms(2) m(4) by (auto simp: set_map_def sink_changes_def sinks_ok_def)
  show "store_put st n k v = Some st' \<Longrightarrow> sink_changes st' = sink_changes st @ [change_put n k v]"
    using map_put_step [OF o(1), of k v "sink_changes st1"] m set by (auto simp: store_put_def om)
  show "store_remove st n k = Some st' \<Longrightarrow> sink_changes st' = sink_changes st @ [change_remove n k]"
    using map_remove_step [OF o(1), of k "sink_changes st1"] m set by (auto simp: store_remove_def om)
qed



lemma small_checkpoint:
  "\<exists>st st2. store_put (set_change_sink store_open_in_memory (Some [])) ''t'' [1] [7] = Some st \<and>
     sink_changes st = [change_put ''t'' [1] [7]] \<and> checkpoint toy_codecs False None st = (Inr 1, st2)"
proof -
  have "map_option root (tree_put mvtree_default [1] [7]) = Some (Leaf [\<lparr>entry_key = [1], entry_value = [7]\<rparr>])"
    by code_simp
  then obtain t where t: "tree_put mvtree_default [1] [7] = Some t" "root t = Leaf [\<lparr>entry_key = [1], entry_value = [7]\<rparr>]"
    by auto
  define st where "st = the (store_put (set_change_sink store_open_in_memory (Some [])) ''t'' [1] [7])"
  obtain m where st: "store_put (set_change_sink store_open_in_memory (Some [])) ''t'' [1] [7] = Some st" "maps st = [(''t'', m)]"
    "sink_changes st = [change_put ''t'' [1] [7]]" "root (tree m) = Leaf [\<lparr>entry_key = [1], entry_value = [7]\<rparr>]"
    "cached_root m = None" "\<not> has_checkpoint st" "version st = 0" "\<not> fs_handle (files st)" "wal_file (wal st) = None"
    using t by (simp add: st_def store_put_def set_change_sink_def store_open_in_memory_def open_map_def map_put_def
        set_map_def sink_changes_def map_set_sink_def set_journaling_def map_new_def record_put_def change_put_def Let_def
        fs_open_in_memory_def wal_open_in_memory_def)
  from metadata_tree_ok [of "[(''t'', [1, 7])]"] obtain mt where mt: "metadata_tree [(''t'', [1, 7])] = Some mt" by auto
  have ser: "ser_page toy_codecs (root (tree m)) = Inr [1, 7]" by (simp add: toy_codecs_def toy_ser_page_def st)
  obtain s where s: "checkpoint_map toy_codecs True (checkpointed_maps st) (''t'', m) = Inr s" "ms_name s = ''t''" "ms_root s = Some [1, 7]"
    using ser st(5) by (cases "take_journal (set_journaling m True)")
      (auto simp: checkpoint_map_def Let_def get_serialized_root_def take_journal_def set_journaling_def)
  have "checkpoint_maps toy_codecs True (checkpointed_maps st) (maps st) [] = Inr [s]" by (simp add: st(2) s)
  then have "\<exists>st2. checkpoint toy_codecs False None st = (Inr 1, st2)"
    using mt s st by (simp add: checkpoint_def write_checkpoint_def append_and_commit_def snapshot_roots_def Let_def)
  with st(1,3) show ?thesis by blast
qed


end
