(* ===== verification/Row_Codec.thy ===== *)
theory Row_Codec
  imports Index_Encoding
begin

text \<open>
  The stored form of a row (\<^verbatim>\<open>crates/h2-sql/src/row.rs\<close>): a magic byte, the number of values and one tagged
  encoding per value, arrays nested.  \<open>row_lib\<close> extends the library calls of \<open>Sql_Value\<close> with those only
  this file makes.  The theorems: a row reads back as it was written, decoding never looks past the bytes
  and is total, and \<^verbatim>\<open>extract_numeric_column\<close> agrees with decoding the whole row on the rows it understands.
\<close>

section \<open>Encoding\<close>

record ('dec, 'date, 'time, 'ts, 'json) row_lib = "('dec, 'date, 'time, 'ts, 'json) lib" +
  dec_serialize :: "'dec \<Rightarrow> bytes"
  dec_deserialize :: "bytes \<Rightarrow> 'dec"
  num_seconds_from_midnight :: "'time \<Rightarrow> u32"
  time_nanosecond :: "'time \<Rightarrow> u32"
  from_num_seconds_from_midnight_opt :: "u32 \<Rightarrow> u32 \<Rightarrow> 'time option"
  ts_timestamp :: "'ts \<Rightarrow> u64"
  ts_nanosecond :: "'ts \<Rightarrow> u32"
  from_timestamp :: "u64 \<Rightarrow> u32 \<Rightarrow> 'ts option"
  json_to_vec :: "'json \<Rightarrow> bytes option"
  json_from_slice :: "bytes \<Rightarrow> 'json option"

definition u16_to_le_bytes :: "u16 \<Rightarrow> bytes" where
  "u16_to_le_bytes w = le_enc 2 (unat w)"

definition u16_from_le_bytes :: "bytes \<Rightarrow> u16" where
  "u16_from_le_bytes bs = word_of_nat (le_nat bs)"

definition with_len :: "bytes \<Rightarrow> bytes" where
  "with_len b = u32_to_le_bytes (word_of_nat (length b)) @ b"

fun encode_value :: "('dec, 'date, 'time, 'ts, 'json) row_lib \<Rightarrow> ('dec, 'date, 'time, 'ts, 'json) val \<Rightarrow> bytes" where
  "encode_value R VNull = [0]"
| "encode_value R (VBoolean b) = [1, if b then 1 else 0]"
| "encode_value R (VTinyInt i) = [2, i]"
| "encode_value R (VSmallInt i) = 3 # u16_to_le_bytes i"
| "encode_value R (VInteger i) = 4 # u32_to_le_bytes i"
| "encode_value R (VBigInt i) = 5 # u64_to_le_bytes i"
| "encode_value R (VFloat f) = 6 # u32_to_le_bytes f"
| "encode_value R (VDouble d) = 7 # u64_to_le_bytes d"
| "encode_value R (VDecimal d) = 8 # dec_serialize R d"
| "encode_value R (VString s) = 9 # with_len s"
| "encode_value R (VBytes b) = 10 # with_len b"
| "encode_value R (VDate d) = 11 # u32_to_le_bytes (num_days_from_ce R d)"
| "encode_value R (VTime t) =
     12 # u32_to_le_bytes (num_seconds_from_midnight R t) @ u32_to_le_bytes (time_nanosecond R t)"
| "encode_value R (VTimestamp t) =
     13 # u64_to_le_bytes (ts_timestamp R t) @ u32_to_le_bytes (ts_nanosecond R t)"
| "encode_value R (VUuid u) = 14 # u"
| "encode_value R (VJson j) = 15 # with_len (case json_to_vec R j of Some b \<Rightarrow> b | None \<Rightarrow> [])"
| "encode_value R (VArray vs) =
     16 # u32_to_le_bytes (word_of_nat (length vs)) @ concat (map (encode_value R) vs)"
| "encode_value R (VInterval iv) =
     17 # u32_to_le_bytes (iv_months iv) @ u32_to_le_bytes (iv_days iv) @ u64_to_le_bytes (iv_microseconds iv)"

definition row_to_bytes :: "('dec, 'date, 'time, 'ts, 'json) row_lib \<Rightarrow> ('dec, 'date, 'time, 'ts, 'json) val list \<Rightarrow>
    bytes" where
  "row_to_bytes R vals =
     0xAA # u32_to_le_bytes (word_of_nat (length vals)) @ concat (map (encode_value R) vals)"

section \<open>Decoding\<close>

text \<open>The arms for strings, bytes and JSON: a length and that many bytes.\<close>

definition sized :: "bytes \<Rightarrow> (bytes \<Rightarrow> 'v option) \<Rightarrow> ('v \<times> nat) option" where
  "sized bytes f =
     (if length bytes < 5 then None
      else let len = unat (u32_from_le_bytes (take 4 (drop 1 bytes))) in
           if length bytes < 5 + len then None
           else map_option (\<lambda>v. (v, 5 + len)) (f (take len (drop 5 bytes))))"

text \<open>\<open>decode_values\<close> is the loop of the array arm, and of \<^verbatim>\<open>from_bytes\<close>, from the current offset on.\<close>

function decode_value :: "('dec, 'date, 'time, 'ts, 'json) row_lib \<Rightarrow> bytes \<Rightarrow>
    (('dec, 'date, 'time, 'ts, 'json) val \<times> nat) option"
and decode_values :: "('dec, 'date, 'time, 'ts, 'json) row_lib \<Rightarrow> nat \<Rightarrow> bytes \<Rightarrow>
    (('dec, 'date, 'time, 'ts, 'json) val list \<times> nat) option" where
  "decode_value R bytes =
     (if bytes = [] then None
      else let tag = hd bytes in
           if tag = 0 then Some (VNull, 1)
           else if tag = 1 then field bytes 2 (\<lambda>b. Some (VBoolean (hd b \<noteq> 0)))
           else if tag = 2 then field bytes 2 (\<lambda>b. Some (VTinyInt (hd b)))
           else if tag = 3 then field bytes 3 (\<lambda>b. Some (VSmallInt (u16_from_le_bytes b)))
           else if tag = 4 then field bytes 5 (\<lambda>b. Some (VInteger (u32_from_le_bytes b)))
           else if tag = 5 then field bytes 9 (\<lambda>b. Some (VBigInt (u64_from_le_bytes b)))
           else if tag = 6 then field bytes 5 (\<lambda>b. Some (VFloat (u32_from_le_bytes b)))
           else if tag = 7 then field bytes 9 (\<lambda>b. Some (VDouble (u64_from_le_bytes b)))
           else if tag = 8 then field bytes 17 (\<lambda>b. Some (VDecimal (dec_deserialize R b)))
           else if tag = 9 then sized bytes (\<lambda>b. if utf8_valid b then Some (VString b) else None)
           else if tag = 10 then sized bytes (\<lambda>b. Some (VBytes b))
           else if tag = 11 then
             field bytes 5 (\<lambda>b. map_option VDate (from_num_days_from_ce_opt R (u32_from_le_bytes b)))
           else if tag = 12 then
             field bytes 9 (\<lambda>b. map_option VTime (from_num_seconds_from_midnight_opt R
               (u32_from_le_bytes (take 4 b)) (u32_from_le_bytes (drop 4 b))))
           else if tag = 13 then
             field bytes 13 (\<lambda>b. map_option VTimestamp (from_timestamp R
               (u64_from_le_bytes (take 8 b)) (u32_from_le_bytes (drop 8 b))))
           else if tag = 14 then field bytes 17 (\<lambda>b. Some (VUuid b))
           else if tag = 15 then sized bytes (\<lambda>b. map_option VJson (json_from_slice R b))
           else if tag = 16 then
             (if length bytes < 5 then None
              else map_option (\<lambda>(vs, n). (VArray vs, 5 + n))
                     (decode_values R (unat (u32_from_le_bytes (take 4 (drop 1 bytes)))) (drop 5 bytes)))
           else if tag = 17 then
             field bytes 17 (\<lambda>b. Some (VInterval
               \<lparr>iv_months = u32_from_le_bytes (take 4 b), iv_days = u32_from_le_bytes (take 4 (drop 4 b)),
                iv_microseconds = u64_from_le_bytes (drop 8 b)\<rparr>))
           else None)"
| "decode_values R 0 bytes = Some ([], 0)"
| "decode_values R (Suc k) bytes =
     (case decode_value R bytes of
        None \<Rightarrow> None
      | Some (v, n) \<Rightarrow> map_option (\<lambda>(vs, m). (v # vs, n + m)) (decode_values R k (drop n bytes)))"
  by pat_completeness auto
termination
  by (relation "inv_image (less_than <*lex*> less_than)
       (\<lambda>x. case x of Inl (R, bs) \<Rightarrow> (length bs, 0) | Inr (R, k, bs) \<Rightarrow> (length bs, Suc k))") auto

declare decode_value.simps [simp del]

definition row_from_bytes :: "('dec, 'date, 'time, 'ts, 'json) row_lib \<Rightarrow> bytes \<Rightarrow>
    ('dec, 'date, 'time, 'ts, 'json) val list h2_result" where
  "row_from_bytes R bytes =
     (if bytes = [] then Inl (Serialization ''Empty row bytes'')
      else if hd bytes \<noteq> 0xAA \<or> length bytes < 5
      then Inl (Serialization ''Invalid binary row format: missing magic byte'')
      else case decode_values R (unat (u32_from_le_bytes (take 4 (drop 1 bytes)))) (drop 5 bytes) of
             Some (vs, _) \<Rightarrow> Inr vs
           | None \<Rightarrow> Inl (Serialization ''Corrupted binary row value''))"


section \<open>Round trip\<close>

text \<open>
  A value that can be stored: lengths fit in 32 bits, strings are UTF-8, a UUID has 16 bytes, and the
  libraries read back what they wrote for it.
\<close>

fun storable :: "('dec, 'date, 'time, 'ts, 'json) row_lib \<Rightarrow> ('dec, 'date, 'time, 'ts, 'json) val \<Rightarrow> bool" where
  "storable R (VDecimal d) \<longleftrightarrow> length (dec_serialize R d) = 16 \<and> dec_deserialize R (dec_serialize R d) = d"
| "storable R (VString s) \<longleftrightarrow> utf8_valid s \<and> length s < 2 ^ 32"
| "storable R (VBytes b) \<longleftrightarrow> length b < 2 ^ 32"
| "storable R (VDate d) \<longleftrightarrow> from_num_days_from_ce_opt R (num_days_from_ce R d) = Some d"
| "storable R (VTime t) \<longleftrightarrow>
     from_num_seconds_from_midnight_opt R (num_seconds_from_midnight R t) (time_nanosecond R t) = Some t"
| "storable R (VTimestamp t) \<longleftrightarrow> from_timestamp R (ts_timestamp R t) (ts_nanosecond R t) = Some t"
| "storable R (VUuid u) \<longleftrightarrow> length u = 16"
| "storable R (VJson j) \<longleftrightarrow>
     (case json_to_vec R j of Some b \<Rightarrow> length b < 2 ^ 32 \<and> json_from_slice R b = Some j | None \<Rightarrow> False)"
| "storable R (VArray vs) \<longleftrightarrow> length vs < 2 ^ 32 \<and> list_all (storable R) vs"
| "storable R v \<longleftrightarrow> True"

lemma u16_le_codec [simp, codec_simps]: "u16_from_le_bytes (u16_to_le_bytes w) = w" "length (u16_to_le_bytes w) = 2"
  by (simp_all add: u16_from_le_bytes_def u16_to_le_bytes_def word_le_enc_roundtrip)

lemma field_encoded: "n = Suc (length b) \<Longrightarrow> field (t # b @ rest) n f = map_option (\<lambda>v. (v, n)) (f b)"
  by (simp add: field_def)

lemma u32_len: "k < 2 ^ 32 \<Longrightarrow> unat (word_of_nat k :: u32) = k"
  by (simp add: unsigned_of_nat take_bit_nat_eq_self)

lemma sized_encoded:
  "length b < 2 ^ 32 \<Longrightarrow> sized (t # with_len b @ rest) f = map_option (\<lambda>v. (v, 5 + length b)) (f b)"
  by (simp add: sized_def with_len_def u32_len Let_def)

lemma length_with_len [simp]: "length (with_len b) = 4 + length b"
  by (simp add: with_len_def)

lemma encode_value_nonempty [simp]: "encode_value R v \<noteq> []"
  by (cases v) simp_all

text \<open>The dispatch on the tag, once per tag.\<close>

lemma decode_arms:
  "decode_value R (0 # bs) = Some (VNull, 1)"
  "decode_value R (1 # bs) = field (1 # bs) 2 (\<lambda>b. Some (VBoolean (hd b \<noteq> 0)))"
  "decode_value R (2 # bs) = field (2 # bs) 2 (\<lambda>b. Some (VTinyInt (hd b)))"
  "decode_value R (3 # bs) = field (3 # bs) 3 (\<lambda>b. Some (VSmallInt (u16_from_le_bytes b)))"
  "decode_value R (4 # bs) = field (4 # bs) 5 (\<lambda>b. Some (VInteger (u32_from_le_bytes b)))"
  "decode_value R (5 # bs) = field (5 # bs) 9 (\<lambda>b. Some (VBigInt (u64_from_le_bytes b)))"
  "decode_value R (6 # bs) = field (6 # bs) 5 (\<lambda>b. Some (VFloat (u32_from_le_bytes b)))"
  "decode_value R (7 # bs) = field (7 # bs) 9 (\<lambda>b. Some (VDouble (u64_from_le_bytes b)))"
  "decode_value R (8 # bs) = field (8 # bs) 17 (\<lambda>b. Some (VDecimal (dec_deserialize R b)))"
  "decode_value R (9 # bs) = sized (9 # bs) (\<lambda>b. if utf8_valid b then Some (VString b) else None)"
  "decode_value R (10 # bs) = sized (10 # bs) (\<lambda>b. Some (VBytes b))"
  "decode_value R (11 # bs) = field (11 # bs) 5 (\<lambda>b. map_option VDate (from_num_days_from_ce_opt R (u32_from_le_bytes b)))"
  "decode_value R (12 # bs) = field (12 # bs) 9 (\<lambda>b. map_option VTime (from_num_seconds_from_midnight_opt R
     (u32_from_le_bytes (take 4 b)) (u32_from_le_bytes (drop 4 b))))"
  "decode_value R (13 # bs) = field (13 # bs) 13 (\<lambda>b. map_option VTimestamp (from_timestamp R
     (u64_from_le_bytes (take 8 b)) (u32_from_le_bytes (drop 8 b))))"
  "decode_value R (14 # bs) = field (14 # bs) 17 (\<lambda>b. Some (VUuid b))"
  "decode_value R (15 # bs) = sized (15 # bs) (\<lambda>b. map_option VJson (json_from_slice R b))"
  "decode_value R (16 # bs) = (if length bs < 4 then None else map_option (\<lambda>(vs, n). (VArray vs, 5 + n))
     (decode_values R (unat (u32_from_le_bytes (take 4 bs))) (drop 4 bs)))"
  "decode_value R (17 # bs) = field (17 # bs) 17 (\<lambda>b. Some (VInterval
     \<lparr>iv_months = u32_from_le_bytes (take 4 b), iv_days = u32_from_le_bytes (take 4 (drop 4 b)),
      iv_microseconds = u64_from_le_bytes (drop 8 b)\<rparr>))"
  by (simp_all add: decode_value.simps)

lemma decode_values_encoded:
  assumes "\<And>v rest. v \<in> set vs \<Longrightarrow> decode_value R (encode_value R v @ rest) = Some (v, length (encode_value R v))"
  shows "decode_values R (length vs) (concat (map (encode_value R) vs) @ rest) =
    Some (vs, length (concat (map (encode_value R) vs)))"
  using assms by (induction vs) simp_all

lemma decode_encoded: "storable R v \<Longrightarrow> decode_value R (encode_value R v @ rest) = Some (v, length (encode_value R v))"
proof (induction v arbitrary: rest)
  case (VArray vs)
  then have "length vs < 2 ^ 32" "\<And>v rest. v \<in> set vs \<Longrightarrow> decode_value R (encode_value R v @ rest) = Some (v, length (encode_value R v))"
    by (auto simp: list_all_iff)
  with decode_values_encoded [of vs R rest] show ?case by (simp add: decode_arms u32_len)
next
  case (VJson j)
  then show ?case by (auto simp: decode_arms sized_encoded split: option.splits)
next
  case (VInterval iv)
  then show ?case
    by (simp add: decode_arms field_encoded [of 17 "u32_to_le_bytes (iv_months iv) @ u32_to_le_bytes (iv_days iv) @ u64_to_le_bytes (iv_microseconds iv)", simplified])
next
  case (VTime t)
  then show ?case
    by (simp add: decode_arms field_encoded [of 9 "u32_to_le_bytes (num_seconds_from_midnight R t) @ u32_to_le_bytes (time_nanosecond R t)", simplified])
next
  case (VTimestamp t)
  then show ?case
    by (simp add: decode_arms field_encoded [of 13 "u64_to_le_bytes (ts_timestamp R t) @ u32_to_le_bytes (ts_nanosecond R t)", simplified])
qed (simp_all add: decode_arms field_encoded sized_encoded field_encoded [of 2 "[x]" for x, simplified])

lemma row_reads_back:
  assumes "list_all (storable R) vals" "length vals < 2 ^ 32"
  shows "row_from_bytes R (row_to_bytes R vals) = Inr vals"
  using decode_values_encoded [of vals R "[]"] decode_encoded [of R] assms
  by (simp add: row_from_bytes_def row_to_bytes_def u32_len list_all_iff)

text \<open>C24: A stored row reads back as it was written: for values the libraries can read back, with lengths that
  fit in 32 bits, decoding the bytes of a row gives the same values.\<close>

theorem row_roundtrip:
  assumes "list_all (storable R) vals" "length vals < 2 ^ 32"
  shows "row_from_bytes R (row_to_bytes R vals) = Inr vals"
  using assms by (rule row_reads_back)

text \<open>Decoding stays inside the bytes and makes progress, so the slices the loops take never panic.\<close>

lemma field_bound: "field bs n f = Some (v, m) \<Longrightarrow> m = n \<and> n \<le> length bs"
  by (auto simp: field_def split: if_splits)

lemma sized_bound: "sized bs f = Some (v, m) \<Longrightarrow> 5 \<le> m \<and> m \<le> length bs"
  by (auto simp: sized_def Let_def split: if_splits)

lemma decode_bounds:
  "decode_value R bs = Some (v, n) \<Longrightarrow> 1 \<le> n \<and> n \<le> length bs"
  "decode_values R k bs = Some (vs, m) \<Longrightarrow> length vs = k \<and> k \<le> m \<and> m \<le> length bs"
proof (induction R bs and R k bs arbitrary: v n and vs m rule: decode_value_decode_values.induct)
  case (1 R bytes)
  have ih: "m \<le> length bytes - 5"
    if "bytes \<noteq> []" "hd bytes = 16" "\<not> length bytes < 5"
      "decode_values R (unat (u32_from_le_bytes (take 4 (drop 1 bytes)))) (drop 5 bytes) = Some (vs, m)" for vs m
    using "1.IH" [OF that(1) refl, of vs m] that(2-) by simp
  from "1.prems" show ?case
    by (auto simp: decode_value.simps [of R bytes] Let_def Suc_le_eq dest!: field_bound sized_bound dest: ih split: if_splits)
next
  case (3 R k bytes)
  from "3.prems" obtain v n vs' m' where *: "decode_value R bytes = Some (v, n)" "decode_values R k (drop n bytes) = Some (vs', m')"
    "vs = v # vs'" "m = n + m'" by (auto split: option.splits)
  from "3.IH"(1) [OF *(1)] "3.IH"(2) [OF *(1) refl *(2)] * show ?case by auto
qed simp_all


section \<open>Extracting one number\<close>

text \<open>
  One round of the loop, on the bytes from the current offset: the value of the column as an integer and as
  a float, and its size.  Strings and the other opaque types read as zero.
\<close>

definition f64_one :: f64 where
  "f64_one = 0x3FF0000000000000"

definition numeric_arm :: "bytes \<Rightarrow> (u64 \<times> f64 \<times> nat) option" where
  "numeric_arm bytes =
     (let tag = hd bytes;
          int_arm = (\<lambda>n f. map_option (\<lambda>(v, k). (v, int_as_f64 (sint v), k)) (field bytes n (\<lambda>b. Some (f b)))) in
      if tag = 0 then Some (0, 0, 1)
      else if tag = 1 then
        map_option (\<lambda>(b, k). (if b then 1 else 0, if b then f64_one else 0, k)) (field bytes 2 (\<lambda>b. Some (hd b \<noteq> 0)))
      else if tag = 2 then int_arm 2 (\<lambda>b. signed (hd b))
      else if tag = 3 then int_arm 3 (\<lambda>b. signed (u16_from_le_bytes b))
      else if tag = 4 then int_arm 5 (\<lambda>b. signed (u32_from_le_bytes b))
      else if tag = 5 then int_arm 9 u64_from_le_bytes
      else if tag = 6 then
        map_option (\<lambda>(f, k). (word_of_int (f32_as_i64 f), f32_as_f64 f, k)) (field bytes 5 (\<lambda>b. Some (u32_from_le_bytes b)))
      else if tag = 7 then
        map_option (\<lambda>(f, k). (word_of_int (f64_as_i64 f), f, k)) (field bytes 9 (\<lambda>b. Some (u64_from_le_bytes b)))
      else if tag = 9 \<or> tag = 10 \<or> tag = 14 \<or> tag = 15 then
        map_option (\<lambda>(len, k). (0, 0, 5 + unat len)) (field bytes 5 (\<lambda>b. Some (u32_from_le_bytes b)))
      else if tag = 8 then Some (0, 0, 17)
      else if tag = 11 then Some (0, 0, 5)
      else if tag = 12 then Some (0, 0, 9)
      else if tag = 13 then Some (0, 0, 13)
      else None)"

fun extract_loop :: "nat \<Rightarrow> bytes \<Rightarrow> (u64 \<times> f64) option" where
  "extract_loop k bytes =
     (if bytes = [] then None
      else case numeric_arm bytes of
             None \<Rightarrow> None
           | Some (i, f, sz) \<Rightarrow>
               (case k of
                  0 \<Rightarrow> if hd bytes = 0 then None else Some (i, f)
                | Suc k' \<Rightarrow> extract_loop k' (drop sz bytes)))"

definition extract_numeric_column :: "bytes \<Rightarrow> nat \<Rightarrow> (u64 \<times> f64) option" where
  "extract_numeric_column bytes target_col =
     (if length bytes < 5 \<or> hd bytes \<noteq> 0xAA then None
      else if unat (u32_from_le_bytes (take 4 (drop 1 bytes))) \<le> target_col then None
      else extract_loop target_col (drop 5 bytes))"

declare extract_loop.simps [simp del]

text \<open>What the extraction should return for a value, and the values whose size it knows.\<close>

fun numeric_reading :: "('dec, 'date, 'time, 'ts, 'json) lib \<Rightarrow> ('dec, 'date, 'time, 'ts, 'json) val \<Rightarrow> (u64 \<times> f64) option" where
  "numeric_reading L VNull = None"
| "numeric_reading L (VBoolean b) = Some (if b then 1 else 0, if b then f64_one else 0)"
| "numeric_reading L (VTinyInt i) = Some (the (to_i64 L (VTinyInt i)), the (to_f64 L (VTinyInt i)))"
| "numeric_reading L (VSmallInt i) = Some (the (to_i64 L (VSmallInt i)), the (to_f64 L (VSmallInt i)))"
| "numeric_reading L (VInteger i) = Some (the (to_i64 L (VInteger i)), the (to_f64 L (VInteger i)))"
| "numeric_reading L (VBigInt i) = Some (the (to_i64 L (VBigInt i)), the (to_f64 L (VBigInt i)))"
| "numeric_reading L (VFloat f) = Some (the (to_i64 L (VFloat f)), the (to_f64 L (VFloat f)))"
| "numeric_reading L (VDouble f) = Some (the (to_i64 L (VDouble f)), the (to_f64 L (VDouble f)))"
| "numeric_reading L _ = Some (0, 0)"

fun extractable :: "('dec, 'date, 'time, 'ts, 'json) val \<Rightarrow> bool" where
  "extractable (VUuid u) = False"
| "extractable (VArray vs) = False"
| "extractable (VInterval iv) = False"
| "extractable v = True"

lemma numeric_arm_encoded:
  assumes "storable R v" "extractable v"
  shows "\<exists>i f. numeric_arm (encode_value R v @ rest) = Some (i, f, length (encode_value R v)) \<and>
    numeric_reading (lib.truncate R) v = (if hd (encode_value R v) = 0 then None else Some (i, f))"
  using assms
  by (cases v) (auto simp: numeric_arm_def field_def Let_def with_len_def u32_len sint_signed split: option.splits)

lemma extract_loop_encoded:
  assumes "list_all (storable R) vals" "list_all extractable (take (Suc k) vals)" "k < length vals"
  shows "extract_loop k (concat (map (encode_value R) vals) @ rest) = numeric_reading (lib.truncate R) (vals ! k)"
  using assms
proof (induction vals arbitrary: k)
  case (Cons v vals)
  from numeric_arm_encoded [of R v "concat (map (encode_value R) vals) @ rest"] Cons.prems(1,2) obtain i f where
    v: "numeric_arm (encode_value R v @ concat (map (encode_value R) vals) @ rest) = Some (i, f, length (encode_value R v))"
      "numeric_reading (lib.truncate R) v = (if hd (encode_value R v) = 0 then None else Some (i, f))" by auto
  show ?case
  proof (cases k)
    case 0
    with v show ?thesis by (simp add: extract_loop.simps hd_append)
  next
    case (Suc k')
    with v Cons.IH [of k'] Cons.prems show ?thesis by (subst extract_loop.simps) simp
  qed
qed simp

lemma extract_numeric_agrees:
  assumes "list_all (storable R) vals" "length vals < 2 ^ 32" "col < length vals"
    "list_all extractable (take (Suc col) vals)"
  shows "extract_numeric_column (row_to_bytes R vals) col = numeric_reading (lib.truncate R) (vals ! col)"
  using extract_loop_encoded [of R vals col "[]"] assms
  by (simp add: extract_numeric_column_def row_to_bytes_def u32_len)


text \<open>A UUID is stored without a length, but the extraction reads one: columns behind it are lost.\<close>

lemma uuid_hides_columns:
  "extract_numeric_column (row_to_bytes R [VUuid (replicate 16 1), VInteger 7]) 1 = None"
proof -
  have four: "replicate 4 (1::byte) = [1, 1, 1, 1]" by (simp add: numeral_eq_Suc)
  have len: "u32_from_le_bytes (replicate 4 1) = 0x01010101"
    by (simp add: u32_from_le_bytes_def four)
  have arm: "numeric_arm (14 # replicate 16 1 @ rest) = Some (0, 0, 16843014)" for rest
    by (simp add: numeric_arm_def field_def Let_def len)
  have "extract_loop (Suc 0) (14 # replicate 16 1 @ 4 # u32_to_le_bytes 7) = None"
    by (subst extract_loop.simps) (simp add: arm extract_loop.simps)
  then show ?thesis by (simp add: extract_numeric_column_def row_to_bytes_def u32_len)
qed

section \<open>A concrete library\<close>

definition toy_row_lib :: "(int, 8 word, nat, int, bytes) row_lib" where
  "toy_row_lib = lib.extend toy_lib
     (row_lib.fields (\<lambda>d. replicate 16 (word_of_int d)) (\<lambda>bs. sint (hd bs))
        (\<lambda>t. word_of_nat t) (\<lambda>_. 0) (\<lambda>s n. Some (unat s)) (\<lambda>t. word_of_int t) (\<lambda>_. 0) (\<lambda>s n. Some (sint s))
        Some Some)"

theorem row_roundtrip_witness:
  "row_from_bytes toy_row_lib (row_to_bytes toy_row_lib [VInteger (- 5), VNull, VArray [VString [0x61], VDecimal 3], VTime 9]) =
     Inr [VInteger (- 5), VNull, VArray [VString [0x61], VDecimal 3], VTime 9]"
  using row_roundtrip [of toy_row_lib "[VInteger (- 5), VNull, VArray [VString [0x61], VDecimal 3], VTime 9]"]
  by (simp add: toy_row_lib_def lib.defs row_lib.defs)



text \<open>C26: Decoding a stored value makes progress and never reads past the end: the number of bytes it reports as
  consumed is positive and at most the number of bytes it was given, whatever the bytes are, so the slices
  taken by the loops over arrays and rows do not panic.\<close>

theorem decode_in_bounds:
  assumes "decode_value R bs = Some (v, n)"
  shows "1 \<le> n \<and> n \<le> length bs"
  by (rule decode_bounds(1) [OF assms])

theorem decode_in_bounds_witness:
  "decode_value toy_row_lib [2, 7, 9] = Some (VTinyInt 7, 2) \<and> 1 \<le> (2::nat) \<and> 2 \<le> length [2, 7, 9 :: byte]"
proof -
  have "decode_value toy_row_lib [2, 7, 9] = Some (VTinyInt 7, 2)" by (simp add: decode_arms field_def)
  then show ?thesis using decode_in_bounds [of toy_row_lib "[2, 7, 9]"] by blast
qed

end
