(* ===== verification/Aggregate.thy ===== *)
theory Aggregate
  imports Row_Codec Index_Scan
begin

text \<open>
  Aggregates without grouping: the aggregate pushed down to the scan of the stored rows
  (\<^verbatim>\<open>crates/h2-sql/src/executor/query.rs\<close>: the loop over \<^verbatim>\<open>for_each_visible\<close> and
  \<^verbatim>\<open>build_pushdown_aggregate_result\<close>) and the one over decoded rows (\<^verbatim>\<open>execute_fast_row_aggregate\<close> of
  \<^verbatim>\<open>executor/mod.rs\<close>).  Each operation of the select list has its own accumulators, here one record; the
  float sums use IEEE addition and division.  The theorems: on integer columns both return the exact count,
  minimum and maximum, the row version also the exact sum, and where they differ.
\<close>

section \<open>Limits\<close>

definition F64_MAX :: f64 where "F64_MAX = 0x7FEFFFFFFFFFFFFF"
definition F64_MIN :: f64 where "F64_MIN = 0xFFEFFFFFFFFFFFFF"
definition I64_MAX :: u64 where "I64_MAX = 0x7FFFFFFFFFFFFFFF"
definition I64_MIN :: u64 where "I64_MIN = 0x8000000000000000"

section \<open>Aggregates over stored rows\<close>

datatype agg_op = ACountStar | ACount nat | ASum nat | AMin nat | AMax nat | AAvg nat

record acc =
  acc_sum :: f64
  acc_count :: u64
  acc_min :: f64
  acc_max :: f64
  acc_min_int :: u64
  acc_max_int :: u64

definition acc_new :: acc where
  "acc_new = \<lparr>acc_sum = 0, acc_count = 0, acc_min = F64_MAX, acc_max = F64_MIN,
     acc_min_int = I64_MAX, acc_max_int = I64_MIN\<rparr>"

definition pushdown_op :: "bytes \<Rightarrow> agg_op \<Rightarrow> acc \<Rightarrow> acc" where
  "pushdown_op val_bytes op a =
     (let sum = (\<lambda>col. case extract_numeric_column val_bytes col of
                  None \<Rightarrow> a | Some (vi, vf) \<Rightarrow> a\<lparr>acc_sum := f64_add (acc_sum a) vf, acc_count := acc_count a + 1\<rparr>) in
      case op of
        ACountStar \<Rightarrow> a\<lparr>acc_count := acc_count a + 1\<rparr>
      | ACount col \<Rightarrow> (case extract_numeric_column val_bytes col of None \<Rightarrow> a | Some _ \<Rightarrow> a\<lparr>acc_count := acc_count a + 1\<rparr>)
      | ASum col \<Rightarrow> sum col
      | AAvg col \<Rightarrow> sum col
      | AMin col \<Rightarrow>
          (case extract_numeric_column val_bytes col of
             None \<Rightarrow> a
           | Some (vi, vf) \<Rightarrow>
               a\<lparr>acc_min := (if f64_partial_cmp vf (acc_min a) = Some Less then vf else acc_min a),
                 acc_min_int := (if sint vi < sint (acc_min_int a) then vi else acc_min_int a),
                 acc_count := acc_count a + 1\<rparr>)
      | AMax col \<Rightarrow>
          (case extract_numeric_column val_bytes col of
             None \<Rightarrow> a
           | Some (vi, vf) \<Rightarrow>
               a\<lparr>acc_max := (if f64_partial_cmp vf (acc_max a) = Some Greater then vf else acc_max a),
                 acc_max_int := (if sint (acc_max_int a) < sint vi then vi else acc_max_int a),
                 acc_count := acc_count a + 1\<rparr>))"

fun int_type :: "data_type \<Rightarrow> bool" where
  "int_type TTinyInt = True" | "int_type TSmallInt = True" | "int_type TInteger = True" | "int_type TBigInt = True"
| "int_type _ = False"

definition int_column :: "column_def list \<Rightarrow> nat \<Rightarrow> bool" where
  "int_column cols col \<longleftrightarrow> col < length cols \<and> int_type (cd_type (cols ! col))"

definition pushdown_result :: "column_def list \<Rightarrow> agg_op \<Rightarrow> acc \<Rightarrow> ('dec, 'date, 'time, 'ts, 'json) val" where
  "pushdown_result cols op a =
     (let or_null = (\<lambda>v. if acc_count a = 0 then VNull else v) in
      case op of
        ACountStar \<Rightarrow> VBigInt (acc_count a)
      | ACount _ \<Rightarrow> VBigInt (acc_count a)
      | ASum _ \<Rightarrow> or_null (VBigInt (word_of_int (f64_as_i64 (acc_sum a))))
      | AAvg _ \<Rightarrow> or_null (VDouble (f64_div (acc_sum a) (int_as_f64 (sint (acc_count a)))))
      | AMin col \<Rightarrow> or_null (if int_column cols col then VBigInt (acc_min_int a) else VDouble (acc_min a))
      | AMax col \<Rightarrow> or_null (if int_column cols col then VBigInt (acc_max_int a) else VDouble (acc_max a)))"

definition build_pushdown_aggregate_result :: "column_def list \<Rightarrow> agg_op list \<Rightarrow> acc list \<Rightarrow>
    ('dec, 'date, 'time, 'ts, 'json) val list" where
  "build_pushdown_aggregate_result cols ops accs = map (\<lambda>(op, a). pushdown_result cols op a) (zip ops accs)"

text \<open>The scan: every visible row updates the accumulators of all operations.\<close>

definition pushdown_row :: "agg_op list \<Rightarrow> acc list \<Rightarrow> bytes \<Rightarrow> acc list" where
  "pushdown_row ops accs val_bytes = map (\<lambda>(op, a). pushdown_op val_bytes op a) (zip ops accs)"

definition pushdown_aggregate :: "column_def list \<Rightarrow> agg_op list \<Rightarrow> bytes list \<Rightarrow>
    ('dec, 'date, 'time, 'ts, 'json) val list" where
  "pushdown_aggregate cols ops rows =
     build_pushdown_aggregate_result cols ops (foldl (pushdown_row ops) (replicate (length ops) acc_new) rows)"

section \<open>Aggregates over decoded rows\<close>

record ('dec, 'date, 'time, 'ts, 'json) row_acc =
  ra_sum :: f64
  ra_count :: u64
  ra_min :: "('dec, 'date, 'time, 'ts, 'json) val option"
  ra_max :: "('dec, 'date, 'time, 'ts, 'json) val option"
  ra_integral :: bool
  ra_int_sum :: u64

definition row_acc_new :: "('dec, 'date, 'time, 'ts, 'json) row_acc" where
  "row_acc_new = \<lparr>ra_sum = 0, ra_count = 0, ra_min = None, ra_max = None, ra_integral = True, ra_int_sum = 0\<rparr>"

definition saturating_add :: "u64 \<Rightarrow> u64 \<Rightarrow> u64" where
  "saturating_add a b = word_of_int (max (- (2 ^ 63)) (min (2 ^ 63 - 1) (sint a + sint b)))"

definition sum_value :: "('dec, 'date, 'time, 'ts, 'json) lib \<Rightarrow> ('dec, 'date, 'time, 'ts, 'json) val \<Rightarrow>
    ('dec, 'date, 'time, 'ts, 'json) row_acc \<Rightarrow> ('dec, 'date, 'time, 'ts, 'json) row_acc" where
  "sum_value L v a =
     (let add_int = (\<lambda>i::u64. a\<lparr>ra_int_sum := saturating_add (ra_int_sum a) i,
                               ra_sum := f64_add (ra_sum a) (int_as_f64 (sint i)), ra_count := ra_count a + 1\<rparr>);
          add_float = (\<lambda>f. a\<lparr>ra_integral := False, ra_sum := f64_add (ra_sum a) f, ra_count := ra_count a + 1\<rparr>) in
      case v of
        VSmallInt i \<Rightarrow> add_int (signed i)
      | VInteger i \<Rightarrow> add_int (signed i)
      | VBigInt i \<Rightarrow> add_int i
      | VFloat f \<Rightarrow> add_float (f32_as_f64 f)
      | VDouble d \<Rightarrow> add_float d
      | VDecimal d \<Rightarrow> (case dec_to_f64 L d of Some n \<Rightarrow> add_float n | None \<Rightarrow> a\<lparr>ra_integral := False\<rparr>)
      | _ \<Rightarrow> a)"

definition row_op :: "('dec, 'date::linorder, 'time::linorder, 'ts::linorder, 'json) lib \<Rightarrow>
    ('dec, 'date, 'time, 'ts, 'json) val list \<Rightarrow> agg_op \<Rightarrow> ('dec, 'date, 'time, 'ts, 'json) row_acc \<Rightarrow>
    ('dec, 'date, 'time, 'ts, 'json) row_acc" where
  "row_op L row op a =
     (let at = (\<lambda>col f. if col < length row then f (row ! col) else a);
          pick = (\<lambda>better cur v. Some (case cur of Some c \<Rightarrow> if better v c then v else c | None \<Rightarrow> v)) in
      case op of
        ACountStar \<Rightarrow> a
      | ACount col \<Rightarrow> at col (\<lambda>v. if is_null v then a else a\<lparr>ra_count := ra_count a + 1\<rparr>)
      | ASum col \<Rightarrow> at col (\<lambda>v. sum_value L v a)
      | AAvg col \<Rightarrow> at col (\<lambda>v. sum_value L v a)
      | AMin col \<Rightarrow> at col (\<lambda>v. if is_null v then a else a\<lparr>ra_min := pick (cmp_lt L) (ra_min a) v\<rparr>)
      | AMax col \<Rightarrow> at col (\<lambda>v. if is_null v then a else a\<lparr>ra_max := pick (cmp_gt L) (ra_max a) v\<rparr>))"

definition row_result :: "nat \<Rightarrow> agg_op \<Rightarrow> ('dec, 'date, 'time, 'ts, 'json) row_acc \<Rightarrow> ('dec, 'date, 'time, 'ts, 'json) val" where
  "row_result count_star op a =
     (case op of
        ACountStar \<Rightarrow> VBigInt (word_of_nat count_star)
      | ACount _ \<Rightarrow> VBigInt (ra_count a)
      | ASum _ \<Rightarrow> if ra_count a = 0 then VNull else if ra_integral a then VBigInt (ra_int_sum a) else VDouble (ra_sum a)
      | AAvg _ \<Rightarrow> if ra_count a = 0 then VNull else VDouble (f64_div (ra_sum a) (int_as_f64 (sint (ra_count a))))
      | AMin _ \<Rightarrow> (case ra_min a of Some v \<Rightarrow> v | None \<Rightarrow> VNull)
      | AMax _ \<Rightarrow> (case ra_max a of Some v \<Rightarrow> v | None \<Rightarrow> VNull))"

definition execute_fast_row_aggregate :: "('dec, 'date::linorder, 'time::linorder, 'ts::linorder, 'json) lib \<Rightarrow>
    agg_op list \<Rightarrow> ('dec, 'date, 'time, 'ts, 'json) val list list \<Rightarrow> ('dec, 'date, 'time, 'ts, 'json) val list" where
  "execute_fast_row_aggregate L ops rows =
     map (\<lambda>(op, a). row_result (length rows) op a)
       (zip ops (foldl (\<lambda>accs row. map (\<lambda>(op, a). row_op L row op a) (zip ops accs))
                   (replicate (length ops) row_acc_new) rows))"


section \<open>Integer columns\<close>

text \<open>Each operation accumulates on its own.\<close>

lemma zip_map_same: "map (\<lambda>(op, a). h op a) (zip ops (map g ops)) = map (\<lambda>op. h op (g op)) ops"
  by (induction ops) simp_all

lemma foldl_columns:
  "foldl (\<lambda>accs x. map (\<lambda>(op, a). f x op a) (zip ops accs)) (map g ops) xs =
     map (\<lambda>op. foldl (\<lambda>a x. f x op a) (g op) xs) ops"
  by (induction xs arbitrary: g) (simp_all add: zip_map_same)

lemma replicate_map: "replicate (length ops) a = map (\<lambda>_. a) ops"
  by (induction ops) simp_all

lemma pushdown_aggregate_map:
  "pushdown_aggregate cols ops rows =
     map (\<lambda>op. pushdown_result cols op (foldl (\<lambda>a b. pushdown_op b op a) acc_new rows)) ops"
  using foldl_columns [of pushdown_op ops "\<lambda>_. acc_new" rows]
  by (simp add: pushdown_aggregate_def build_pushdown_aggregate_result_def pushdown_row_def [abs_def] replicate_map zip_map_same)

lemma fast_aggregate_map:
  "execute_fast_row_aggregate L ops rows =
     map (\<lambda>op. row_result (length rows) op (foldl (\<lambda>a r. row_op L r op a) row_acc_new rows)) ops"
  using foldl_columns [of "row_op L" ops "\<lambda>_. row_acc_new" rows]
  by (simp add: execute_fast_row_aggregate_def replicate_map zip_map_same)

text \<open>The integers of a column, NULLs left out, and the rows the theorems are about.\<close>

definition column_ints :: "nat \<Rightarrow> ('dec, 'date, 'time, 'ts, 'json) val list list \<Rightarrow> int list" where
  "column_ints col tab = List.map_filter (\<lambda>row. int_of (row_get row col)) tab"

definition int_row :: "('dec, 'date, 'time, 'ts, 'json) row_lib \<Rightarrow> nat \<Rightarrow> ('dec, 'date, 'time, 'ts, 'json) val list \<Rightarrow> bool" where
  "int_row R col row \<longleftrightarrow> length row < 2 ^ 32 \<and> list_all (storable R) row \<and>
     list_all extractable (take (Suc col) row) \<and> (is_null (row_get row col) \<or> int_of (row_get row col) \<noteq> None)"

lemma column_ints_simps:
  "column_ints col [] = []"
  "column_ints col (tab @ [row]) = column_ints col tab @ (case int_of (row_get row col) of None \<Rightarrow> [] | Some i \<Rightarrow> [i])"
  by (simp_all add: column_ints_def List.map_filter_def split: option.split)

lemma int_of_range: "int_of v = Some i \<Longrightarrow> - (2 ^ 63) \<le> i \<and> i < 2 ^ 63"
proof -
  have "- (2 ^ 63) \<le> sint w \<and> sint w < 2 ^ 63" for w :: u64
    using sint_ge [of w] sint_lt [of w] by simp
  moreover assume "int_of v = Some i"
  ultimately show ?thesis using to_i64_int_of [of v i] by metis
qed

lemma word_of_sint: "word_of_int (sint w) = (signed w :: 'b::len word)" for w :: "'a::len word"
  by transfer simp

lemma is_null_int_of: "is_null v \<Longrightarrow> int_of v = None"
  by (cases v) (auto simp: is_null_def)

lemma extract_int:
  assumes "int_row R col row"
  shows "extract_numeric_column (row_to_bytes R row) col = map_option (\<lambda>i. (word_of_int i, int_as_f64 i)) (int_of (row_get row col))"
proof (cases "col < length row")
  case True
  have "numeric_reading L v = map_option (\<lambda>i. (word_of_int i, int_as_f64 i)) (int_of v)"
    if "is_null v \<or> int_of v \<noteq> None" for L and v :: "('a, 'b, 'c, 'd, 'e) val"
    using that by (cases v) (auto simp: is_null_def sint_signed word_of_sint)
  with extract_numeric_agrees [of R row col] assms True show ?thesis by (simp add: int_row_def row_get_def)
next
  case False
  with assms show ?thesis
    by (simp add: int_row_def row_get_def extract_numeric_column_def row_to_bytes_def u32_len)
qed

text \<open>The accumulators after a scan of integer rows.\<close>

lemma fold_min_list: "fold min (xs @ ys) z = fold min ys (fold min xs z)" for z :: int
  by simp

lemma sint_word_of_int: "- (2 ^ 63) \<le> i \<Longrightarrow> i < 2 ^ 63 \<Longrightarrow> sint (word_of_int i :: u64) = i"
  by (simp add: signed_of_int signed_take_bit_int_eq_self)

definition after_scan :: "('dec, 'date, 'time, 'ts, 'json) row_lib \<Rightarrow> agg_op \<Rightarrow> ('dec, 'date, 'time, 'ts, 'json) val list list \<Rightarrow> acc" where
  "after_scan R op tab = foldl (\<lambda>a b. pushdown_op b op a) acc_new (map (row_to_bytes R) tab)"

lemma after_scan_snoc: "after_scan R op (tab @ [row]) = pushdown_op (row_to_bytes R row) op (after_scan R op tab)"
  "after_scan R op [] = acc_new"
  by (simp_all add: after_scan_def)

lemma scan_counts:
  assumes "list_all (int_row R col) tab" "op \<in> {ACount col, ASum col, AAvg col, AMin col, AMax col}"
  shows "acc_count (after_scan R op tab) = word_of_nat (length (column_ints col tab))"
  using assms(1)
proof (induction tab rule: rev_induct)
  case (snoc row tab)
  then have "int_row R col row" "list_all (int_row R col) tab" by auto
  with snoc.IH assms(2) show ?case
    by (auto simp: after_scan_snoc pushdown_op_def extract_int column_ints_simps split: option.split)
qed (simp add: column_ints_simps after_scan_snoc acc_new_def)

lemma scan_count_star: "acc_count (after_scan R ACountStar tab) = word_of_nat (length tab)"
  by (induction tab rule: rev_induct) (simp_all add: after_scan_snoc pushdown_op_def acc_new_def)

lemma scan_extremes:
  assumes "list_all (int_row R col) tab"
  shows "sint (acc_min_int (after_scan R (AMin col) tab)) = fold min (column_ints col tab) (2 ^ 63 - 1)"
    "sint (acc_max_int (after_scan R (AMax col) tab)) = fold max (column_ints col tab) (- (2 ^ 63))"
proof -
  have "sint (acc_min_int (after_scan R (AMin col) tab)) = fold min (column_ints col tab) (2 ^ 63 - 1) \<and>
    sint (acc_max_int (after_scan R (AMax col) tab)) = fold max (column_ints col tab) (- (2 ^ 63))"
    using assms
  proof (induction tab rule: rev_induct)
    case (snoc row tab)
    then have r: "int_row R col row" "list_all (int_row R col) tab" by auto
    show ?case
    proof (cases "int_of (row_get row col)")
      case None
      with snoc.IH [OF r(2)] r(1) show ?thesis
        by (simp add: after_scan_snoc pushdown_op_def extract_int column_ints_simps)
    next
      case (Some i)
      with int_of_range [OF Some] snoc.IH [OF r(2)] r(1) show ?thesis
        by (auto simp: after_scan_snoc pushdown_op_def extract_int column_ints_simps sint_word_of_int min_def max_def)
    qed
  qed (simp add: column_ints_simps after_scan_snoc acc_new_def I64_MAX_def I64_MIN_def)
  then show "sint (acc_min_int (after_scan R (AMin col) tab)) = fold min (column_ints col tab) (2 ^ 63 - 1)"
    "sint (acc_max_int (after_scan R (AMax col) tab)) = fold max (column_ints col tab) (- (2 ^ 63))" by auto
qed

lemma column_ints_range: "i \<in> set (column_ints col tab) \<Longrightarrow> - (2 ^ 63) \<le> i \<and> i < 2 ^ 63"
  using int_of_range by (fastforce simp: column_ints_def List.map_filter_def)

lemma fold_extreme:
  fixes xs :: "int list"
  assumes "xs \<noteq> []"
  shows "(\<And>x. x \<in> set xs \<Longrightarrow> x \<le> b) \<Longrightarrow> fold min xs b = Min (set xs)"
    "(\<And>x. x \<in> set xs \<Longrightarrow> b \<le> x) \<Longrightarrow> fold max xs b = Max (set xs)"
proof -
  have "fold min xs b = Min (set (b # xs))" "fold max xs b = Max (set (b # xs))"
    by (simp_all only: Min.set_eq_fold Max.set_eq_fold)
  moreover assume "\<And>x. x \<in> set xs \<Longrightarrow> x \<le> b"
  ultimately show "fold min xs b = Min (set xs)"
    using assms Min_in [of "set xs"] by (simp add: min_absorb2)
next
  have "fold max xs b = Max (set (b # xs))" by (simp only: Max.set_eq_fold)
  moreover assume "\<And>x. x \<in> set xs \<Longrightarrow> b \<le> x"
  ultimately show "fold max xs b = Max (set xs)"
    using assms Max_in [of "set xs"] by (simp add: max_absorb2)
qed

text \<open>What the aggregate of an integer column should be.\<close>

fun agg_column :: "agg_op \<Rightarrow> nat option" where
  "agg_column ACountStar = None"
| "agg_column (ACount c) = Some c" | "agg_column (ASum c) = Some c" | "agg_column (AMin c) = Some c"
| "agg_column (AMax c) = Some c" | "agg_column (AAvg c) = Some c"

fun exact_op :: "agg_op \<Rightarrow> bool" where
  "exact_op (ASum c) = False" | "exact_op (AAvg c) = False" | "exact_op _ = True"

definition agg_spec :: "('dec, 'date, 'time, 'ts, 'json) val list list \<Rightarrow> agg_op \<Rightarrow> ('dec, 'date, 'time, 'ts, 'json) val" where
  "agg_spec tab op =
     (let extreme = (\<lambda>f col. if column_ints col tab = [] then VNull else VBigInt (word_of_int (f (set (column_ints col tab))))) in
      case op of
        ACountStar \<Rightarrow> VBigInt (word_of_nat (length tab))
      | ACount col \<Rightarrow> VBigInt (word_of_nat (length (column_ints col tab)))
      | ASum col \<Rightarrow> extreme (\<lambda>_. sum_list (column_ints col tab)) col
      | AMin col \<Rightarrow> extreme Min col
      | AMax col \<Rightarrow> extreme Max col
      | AAvg col \<Rightarrow> VNull)"

lemma length_column_ints: "length (column_ints col tab) \<le> length tab"
  by (induction tab rule: rev_induct) (auto simp: column_ints_simps split: option.split)

lemma count_zero: "length tab < 2 ^ 63 \<Longrightarrow> word_of_nat (length (column_ints col tab)) = (0 :: u64) \<longleftrightarrow> column_ints col tab = []"
  using length_column_ints [of col tab] by (auto simp: word_of_nat_eq_0_iff dest: dvd_imp_le)

text \<open>
  The layout of a table none of whose columns was dropped: every column is stored at its own position.
  New tables have it and adding a column keeps it.
\<close>

definition plain_layout :: "column_def list \<Rightarrow> bool" where
  "plain_layout cols \<longleftrightarrow> (\<forall>i < length cols. cd_physical_index (cols ! i) = Some i)"

lemma plain_layout_new: "\<forall>c \<in> set cols. cd_physical_index c = None \<Longrightarrow> plain_layout (number_columns cols)"
  by (auto simp: plain_layout_def number_columns_def nth_enumerate_eq)

lemma fold_max_upt: "fold max [Suc 0..<Suc n] 0 = n"
  by (induction n) simp_all

lemma plain_layout_add:
  assumes "plain_layout cols" "add_column cols c = Inr cols'"
  shows "plain_layout cols'"
proof -
  have "map cd_physical_index cols = map Some [0..<length cols]"
    using assms(1) by (auto simp: plain_layout_def intro: nth_equalityI)
  moreover have "List.map_filter cd_physical_index cols = List.map_filter id (map cd_physical_index cols)"
    by (simp add: List.map_filter_def filter_map comp_def)
  moreover have "List.map_filter id (map Some xs) = xs" for xs :: "nat list"
    by (induction xs) (simp_all add: List.map_filter_def)
  ultimately have "List.map_filter cd_physical_index cols = [0..<length cols]" by simp
  then have "next_physical_index cols = length cols"
    by (cases cols) (simp_all add: next_physical_index_def upt_conv_Cons fold_max_upt del: upt_Suc)
  with assms show ?thesis
    by (auto simp: add_column_def plain_layout_def nth_append less_Suc_eq split: if_splits)
qed

lemma aligned_get:
  assumes "plain_layout cols" "col < length cols"
  shows "row_get (align_row cols row) col = row_get row col"
proof -
  have "cd_physical_index (cols ! col) = Some col" "cols ! col \<in> set cols"
    using assms by (simp_all add: plain_layout_def)
  then have "list_ex (\<lambda>c. cd_physical_index c \<noteq> None) cols" by (auto simp: list_ex_iff)
  then show ?thesis using assms by (simp add: align_row_def row_get_def plain_layout_def)
qed

lemma column_ints_aligned:
  "plain_layout cols \<Longrightarrow> col < length cols \<Longrightarrow> column_ints col (map (align_row cols) tab) = column_ints col tab"
  by (simp add: column_ints_def List.map_filter_def filter_map comp_def aligned_get)


definition ex_columns :: "column_def list" where
  "ex_columns = [\<lparr>cd_name = [0x6E], cd_type = TVarChar None, cd_physical_index = Some 0\<rparr>,
     \<lparr>cd_name = [0x61], cd_type = TInteger, cd_physical_index = Some 1\<rparr>]"


text \<open>
  Dropping the first of two columns: the aggregate of the other one, now column 0, is computed on the stored
  bytes of the dropped column.  Rows written after the drop are stored without it but read at the old
  positions, so they lose their values.
\<close>

lemma drop_column_misreads:
  fixes row :: "(int, 8 word, nat, int, bytes) val list"
  defines "cols \<equiv> [\<lparr>cd_name = ascii ''a'', cd_type = TInteger, cd_physical_index = Some 0\<rparr>,
      \<lparr>cd_name = ascii ''b'', cd_type = TInteger, cd_physical_index = Some 1\<rparr>]"
    and "row \<equiv> [VInteger 7, VInteger 3]"
  shows "\<exists>cols'. drop_column cols (ascii ''a'') = Inr cols' \<and> align_row cols' row = [VInteger 3] \<and>
    pushdown_aggregate cols' [AMin 0] [row_to_bytes toy_row_lib row] = [VBigInt 7 :: (int, 8 word, nat, int, bytes) val] \<and>
    align_row cols' [VInteger 5] = [VNull :: (int, 8 word, nat, int, bytes) val]"
proof -
  let ?cols = "[\<lparr>cd_name = ascii ''b'', cd_type = TInteger, cd_physical_index = Some 1\<rparr>]"
  have d: "drop_column cols (ascii ''a'') = Inr ?cols"
    by (simp add: cols_def drop_column_def column_index_def eq_ignore_ascii_case_def ascii_def enumerate_eq_zip)
  have "int_row toy_row_lib 0 row" by (simp add: int_row_def row_def row_get_def)
  from extract_int [OF this] have "extract_numeric_column (row_to_bytes toy_row_lib row) 0 = Some (7, int_as_f64 7)"
    by (simp add: row_def row_get_def)
  then have "pushdown_aggregate ?cols [AMin 0] [row_to_bytes toy_row_lib row] = [VBigInt 7 :: (int, 8 word, nat, int, bytes) val]"
    by (simp add: pushdown_aggregate_map pushdown_op_def pushdown_result_def acc_new_def int_column_def I64_MAX_def)
  with d show ?thesis by (simp add: align_row_def row_def)
qed

section \<open>Agreement with the aggregate over decoded rows\<close>

definition after_rows :: "('dec, 'date::linorder, 'time::linorder, 'ts::linorder, 'json) lib \<Rightarrow> agg_op \<Rightarrow>
    ('dec, 'date, 'time, 'ts, 'json) val list list \<Rightarrow> ('dec, 'date, 'time, 'ts, 'json) row_acc" where
  "after_rows L op tab = foldl (\<lambda>a r. row_op L r op a) row_acc_new tab"

lemma after_rows_snoc: "after_rows L op (tab @ [row]) = row_op L row op (after_rows L op tab)"
  "after_rows L op [] = row_acc_new"
  by (simp_all add: after_rows_def)

definition int_or_null :: "nat \<Rightarrow> ('dec, 'date, 'time, 'ts, 'json) val list \<Rightarrow> bool" where
  "int_or_null col row \<longleftrightarrow> col < length row \<and> (is_null (row ! col) \<or> int_of (row ! col) \<noteq> None)"

definition wider_than_tiny :: "nat \<Rightarrow> ('dec, 'date, 'time, 'ts, 'json) val list \<Rightarrow> bool" where
  "wider_than_tiny col row \<longleftrightarrow> (\<forall>i. row ! col \<noteq> VTinyInt i)"

definition sums_fit :: "int list \<Rightarrow> bool" where
  "sums_fit xs \<longleftrightarrow> (\<forall>n \<le> length xs. - (2 ^ 63) \<le> sum_list (take n xs) \<and> sum_list (take n xs) < 2 ^ 63)"

lemma sums_fit_snoc: "sums_fit (xs @ [x]) \<longleftrightarrow> sums_fit xs \<and> - (2 ^ 63) \<le> sum_list xs + x \<and> sum_list xs + x < 2 ^ 63"
  by (auto simp: sums_fit_def le_Suc_eq)

lemma cmp_ints:
  assumes "int_of v = Some i" "int_of w = Some j"
  shows "cmp_lt L v w \<longleftrightarrow> i < j" "cmp_gt L v w \<longleftrightarrow> j < i"
  using integers_compare_by_value [OF assms, of L] by (auto simp: cmp_lt_def cmp_gt_def cmp_key_def)

lemma rows_count:
  assumes "list_all (int_or_null col) tab"
  shows "ra_count (after_rows L (ACount col) tab) = word_of_nat (length (column_ints col tab))"
  using assms
proof (induction tab rule: rev_induct)
  case (snoc row tab)
  then have r: "int_or_null col row" "list_all (int_or_null col) tab" by auto
  from snoc.IH [OF r(2)] r(1) show ?case
    by (cases "is_null (row ! col)") (auto simp: after_rows_snoc row_op_def int_or_null_def is_null_int_of column_ints_simps row_get_def)
qed (simp add: after_rows_snoc row_acc_new_def column_ints_simps)

lemma rows_extremes:
  assumes "list_all (int_or_null col) tab"
  shows "column_ints col tab = [] \<longrightarrow> ra_min (after_rows L (AMin col) tab) = None \<and> ra_max (after_rows L (AMax col) tab) = None"
    "column_ints col tab \<noteq> [] \<longrightarrow>
      (\<exists>v. ra_min (after_rows L (AMin col) tab) = Some v \<and> int_of v = Some (Min (set (column_ints col tab)))) \<and>
      (\<exists>v. ra_max (after_rows L (AMax col) tab) = Some v \<and> int_of v = Some (Max (set (column_ints col tab))))"
proof -
  have "(column_ints col tab = [] \<longrightarrow> ra_min (after_rows L (AMin col) tab) = None \<and> ra_max (after_rows L (AMax col) tab) = None) \<and>
    (column_ints col tab \<noteq> [] \<longrightarrow>
      (\<exists>v. ra_min (after_rows L (AMin col) tab) = Some v \<and> int_of v = Some (Min (set (column_ints col tab)))) \<and>
      (\<exists>v. ra_max (after_rows L (AMax col) tab) = Some v \<and> int_of v = Some (Max (set (column_ints col tab)))))"
    using assms
  proof (induction tab rule: rev_induct)
    case (snoc row tab)
    then have r: "int_or_null col row" "list_all (int_or_null col) tab" by auto
    note ih = snoc.IH [OF r(2)]
    show ?case
    proof (cases "int_of (row ! col)")
      case None
      with r(1) ih show ?thesis by (auto simp: after_rows_snoc row_op_def int_or_null_def column_ints_simps row_get_def)
    next
      case (Some i)
      then have nn: "\<not> is_null (row ! col)" using is_null_int_of by force
      have pick: "int_of (if cmp_lt L (row ! col) v then row ! col else v) = Some (min i j)"
        "int_of (if cmp_gt L (row ! col) v then row ! col else v) = Some (max i j)" if "int_of v = Some j" for v j
        using Some that by (simp_all add: cmp_ints [OF Some that])
      have sets: "Min (insert i (set (column_ints col tab))) = min i (Min (set (column_ints col tab)))"
        "Max (insert i (set (column_ints col tab))) = max i (Max (set (column_ints col tab)))" if "column_ints col tab \<noteq> []"
        using that by simp_all
      from r(1) ih Some nn pick sets show ?thesis
        by (cases "column_ints col tab = []")
          (auto simp: after_rows_snoc row_op_def int_or_null_def column_ints_simps row_get_def simp del: Min_insert Max_insert if_split)
    qed
  qed (simp add: after_rows_snoc row_acc_new_def column_ints_simps)
  then show "column_ints col tab = [] \<longrightarrow> ra_min (after_rows L (AMin col) tab) = None \<and> ra_max (after_rows L (AMax col) tab) = None"
    "column_ints col tab \<noteq> [] \<longrightarrow>
      (\<exists>v. ra_min (after_rows L (AMin col) tab) = Some v \<and> int_of v = Some (Min (set (column_ints col tab)))) \<and>
      (\<exists>v. ra_max (after_rows L (AMax col) tab) = Some v \<and> int_of v = Some (Max (set (column_ints col tab))))"
    by auto
qed

lemma sum_value_int:
  assumes "int_of v = Some i" "\<forall>t. v \<noteq> VTinyInt t" "- (2 ^ 63) \<le> sint (ra_int_sum a) + i" "sint (ra_int_sum a) + i < 2 ^ 63"
  shows "ra_count (sum_value L v a) = ra_count a + 1" "ra_integral (sum_value L v a) = ra_integral a"
    "sint (ra_int_sum (sum_value L v a)) = sint (ra_int_sum a) + i"
proof -
  have sat: "sint (saturating_add s w) = sint s + sint w"
    if "- (2 ^ 63) \<le> sint s + sint w" "sint s + sint w < 2 ^ 63" for s w :: u64
    unfolding saturating_add_def by (subst sint_word_of_int) (use that in auto)
  show "ra_count (sum_value L v a) = ra_count a + 1" "ra_integral (sum_value L v a) = ra_integral a"
    "sint (ra_int_sum (sum_value L v a)) = sint (ra_int_sum a) + i"
    using assms sat by (cases v; simp add: sum_value_def sint_signed)+
qed

lemma rows_sum:
  assumes "list_all (int_or_null col) tab" "list_all (wider_than_tiny col) tab" "sums_fit (column_ints col tab)"
  shows "ra_count (after_rows L (ASum col) tab) = word_of_nat (length (column_ints col tab)) \<and>
    ra_integral (after_rows L (ASum col) tab) \<and>
    sint (ra_int_sum (after_rows L (ASum col) tab)) = sum_list (column_ints col tab)"
  using assms
proof (induction tab rule: rev_induct)
  case (snoc row tab)
  show ?case
  proof (cases "int_of (row ! col)")
    case None
    with snoc.prems have "is_null (row ! col)" by (auto simp: int_or_null_def)
    then have "row ! col = VNull" by (cases "row ! col") (auto simp: is_null_def)
    with snoc None show ?thesis
      by (auto simp: after_rows_snoc row_op_def sum_value_def int_or_null_def column_ints_simps row_get_def)
  next
    case (Some i)
    with snoc.prems have p: "sums_fit (column_ints col tab)" "- (2 ^ 63) \<le> sum_list (column_ints col tab) + i"
      "sum_list (column_ints col tab) + i < 2 ^ 63" "\<forall>t. row ! col \<noteq> VTinyInt t" "col < length row"
      by (simp_all add: column_ints_simps sums_fit_snoc wider_than_tiny_def int_or_null_def row_get_def)
    from snoc p(1) have ih: "ra_count (after_rows L (ASum col) tab) = word_of_nat (length (column_ints col tab))"
      "ra_integral (after_rows L (ASum col) tab)" "sint (ra_int_sum (after_rows L (ASum col) tab)) = sum_list (column_ints col tab)"
      by auto
    from sum_value_int [OF Some p(4), of "after_rows L (ASum col) tab" L] p ih Some show ?thesis
      by (simp add: after_rows_snoc row_op_def column_ints_simps row_get_def)
  qed
qed (simp add: after_rows_snoc row_acc_new_def column_ints_simps)


definition same_number :: "('dec, 'date, 'time, 'ts, 'json) val \<Rightarrow> ('dec, 'date, 'time, 'ts, 'json) val \<Rightarrow> bool" where
  "same_number v w \<longleftrightarrow> v = VNull \<and> w = VNull \<or> int_of v \<noteq> None \<and> int_of v = int_of w"

fun is_avg :: "agg_op \<Rightarrow> bool" where
  "is_avg (AAvg c) = True" | "is_avg _ = False"

definition summable :: "('dec, 'date, 'time, 'ts, 'json) val list list \<Rightarrow> agg_op \<Rightarrow> bool" where
  "summable tab op \<longleftrightarrow>
     (case op of ASum col \<Rightarrow> list_all (wider_than_tiny col) tab \<and> sums_fit (column_ints col tab) | _ \<Rightarrow> True)"

lemma row_extreme_exact:
  assumes "list_all (int_or_null col) tab"
  shows "same_number (row_result (length tab) (AMin col) (after_rows L (AMin col) tab)) (agg_spec tab (AMin col))"
    "same_number (row_result (length tab) (AMax col) (after_rows L (AMax col) tab)) (agg_spec tab (AMax col))"
proof -
  have "sint (word_of_int (f (set (column_ints col tab))) :: u64) = f (set (column_ints col tab))"
    if "column_ints col tab \<noteq> []" "f \<in> {Min, Max}" for f
    using that column_ints_range [of "f (set (column_ints col tab))" col tab] Min_in [of "set (column_ints col tab)"]
      Max_in [of "set (column_ints col tab)"]
    by (auto intro!: sint_word_of_int)
  with rows_extremes [OF assms, of L]
  show "same_number (row_result (length tab) (AMin col) (after_rows L (AMin col) tab)) (agg_spec tab (AMin col))"
    "same_number (row_result (length tab) (AMax col) (after_rows L (AMax col) tab)) (agg_spec tab (AMax col))"
    by (auto simp: same_number_def row_result_def agg_spec_def)
qed

text \<open>C38: The aggregate over decoded rows is exact on integer columns (every row has the column, holding an
  integer or NULL; fewer than 2^63 rows): COUNT, MIN and MAX return the number of rows or of values and the
  least and greatest value, and SUM returns the exact sum when no partial sum leaves the range of 64 bits and
  no value is a TINYINT; MIN, MAX and SUM return NULL when there is no value.  AVG, a float, is left out.\<close>

theorem row_aggregate_exact:
  assumes "length tab < 2 ^ 63"
    and "\<forall>op \<in> set ops. \<not> is_avg op \<and> summable tab op \<and> (\<forall>col. agg_column op = Some col \<longrightarrow> list_all (int_or_null col) tab)"
  shows "list_all2 same_number (execute_fast_row_aggregate L ops tab) (map (agg_spec tab) ops)"
proof -
  have "same_number (row_result (length tab) op (after_rows L op tab)) (agg_spec tab op)" if op: "op \<in> set ops" for op
  proof (cases op)
    case (ASum col)
    with assms(2) op have a: "list_all (int_or_null col) tab" "list_all (wider_than_tiny col) tab" "sums_fit (column_ints col tab)"
      by (fastforce simp: summable_def)+
    have "sint (word_of_int (sum_list (column_ints col tab)) :: u64) = sum_list (column_ints col tab)"
      using a(3) by (intro sint_word_of_int) (auto simp: sums_fit_def dest: spec [of _ "length (column_ints col tab)"])
    with rows_sum [OF a, of L] count_zero [OF assms(1), of col] ASum show ?thesis
      by (auto simp: same_number_def row_result_def agg_spec_def)
  next
    case (ACount col)
    with assms(2) op have "list_all (int_or_null col) tab" by fastforce
    from rows_count [OF this, of L] ACount show ?thesis by (simp add: same_number_def row_result_def agg_spec_def)
  next
    case (AMin col)
    with assms(2) op have "list_all (int_or_null col) tab" by fastforce
    with AMin row_extreme_exact(1) show ?thesis by blast
  next
    case (AMax col)
    with assms(2) op have "list_all (int_or_null col) tab" by fastforce
    with AMax row_extreme_exact(2) show ?thesis by blast
  next
    case ACountStar
    then show ?thesis by (simp add: same_number_def row_result_def agg_spec_def)
  next
    case (AAvg col)
    with assms(2) op show ?thesis by auto
  qed
  then show ?thesis by (auto simp: fast_aggregate_map after_rows_def list_all2_conv_all_nth)
qed

theorem row_aggregate_exact_witness:
  "list_all2 same_number
     (execute_fast_row_aggregate toy_lib [ASum 0, AMax 0, ACountStar] [[VInteger 4], [VNull], [VBigInt 9]])
     (map (agg_spec [[VInteger 4], [VNull], [VBigInt 9 :: (int, 8 word, nat, int, bytes) val]]) [ASum 0, AMax 0, ACountStar])"
proof (rule row_aggregate_exact)
  show "length [[VInteger 4], [VNull], [VBigInt 9 :: (int, 8 word, nat, int, bytes) val]] < 2 ^ 63" by simp
qed (auto simp: summable_def int_or_null_def is_null_def wider_than_tiny_def column_ints_def List.map_filter_def row_get_def sums_fit_def
    le_Suc_eq numeral_2_eq_2)

text \<open>The two differ on other columns: the pushed-down SUM is an integer whatever the column holds, a MIN of
  strings is the float zero, COUNT does not see intervals, and the row version ignores TINYINT values.\<close>

lemma pushdown_sum_integral:
  "pushdown_aggregate cols [ASum col] rows = [VNull] \<or> (\<exists>i. pushdown_aggregate cols [ASum col] rows = [VBigInt i])"
  by (auto simp: pushdown_aggregate_map pushdown_result_def)

lemma aggregates_differ:
  "pushdown_aggregate [\<lparr>cd_name = [0x61], cd_type = TVarChar None, cd_physical_index = Some 0\<rparr>] [AMin 0] [row_to_bytes toy_row_lib [VString [0x61]]] =
     [VDouble 0 :: (int, 8 word, nat, int, bytes) val]"
  "pushdown_aggregate [\<lparr>cd_name = [0x61], cd_type = TInterval, cd_physical_index = Some 0\<rparr>] [ACount 0] [row_to_bytes toy_row_lib [VInterval iv]] =
     [VBigInt 0 :: (int, 8 word, nat, int, bytes) val]"
  "execute_fast_row_aggregate toy_lib [ASum 0] [[VTinyInt 5]] = [VNull]"
proof -
  have less: "f64_partial_cmp 0 F64_MAX = Some Less" by (simp add: f64_partial_cmp_def F64_MAX_def fl_defs)
  have "extract_numeric_column (row_to_bytes toy_row_lib [VString [0x61]]) 0 = Some (0, 0)"
    by (simp add: extract_numeric_agrees)
  then show "pushdown_aggregate [\<lparr>cd_name = [0x61], cd_type = TVarChar None, cd_physical_index = Some 0\<rparr>] [AMin 0] [row_to_bytes toy_row_lib [VString [0x61]]] =
     [VDouble 0 :: (int, 8 word, nat, int, bytes) val]"
    by (simp add: pushdown_aggregate_map pushdown_op_def pushdown_result_def acc_new_def less int_column_def)
  have "extract_numeric_column (row_to_bytes toy_row_lib [VInterval iv]) 0 = None"
    by (simp add: extract_numeric_column_def row_to_bytes_def extract_loop.simps numeric_arm_def)
  then show "pushdown_aggregate [\<lparr>cd_name = [0x61], cd_type = TInterval, cd_physical_index = Some 0\<rparr>] [ACount 0] [row_to_bytes toy_row_lib [VInterval iv]] =
     [VBigInt 0 :: (int, 8 word, nat, int, bytes) val]"
    by (simp add: pushdown_aggregate_map pushdown_op_def pushdown_result_def acc_new_def)
  show "execute_fast_row_aggregate toy_lib [ASum 0] [[VTinyInt 5]] = [VNull]"
    by (simp add: fast_aggregate_map row_op_def sum_value_def row_result_def row_acc_new_def)
qed

end
