(* ===== verification/Backup.thy ===== *)
theory Backup
  imports Storage_Node Index_Encoding
begin

text \<open>
  Backup files (\<^verbatim>\<open>crates/h2-mvstore/src/backup.rs\<close>): a header of 64 bytes with its checksum, one section per map
  with a checksum, a trailer of 24 bytes with the size, the checksum and the number of records; and the store
  operations that write, verify and restore one (\<^verbatim>\<open>store.rs\<close>).  The reader works on the bytes that are left;
  a hasher is the list of the bytes it was given, and CRC-32 is a parameter.  The theorems: a backup reads
  back as it was written and restores the content of the store, verification accepts exactly the files that
  can be restored, and no file that was cut short is accepted.
\<close>

section \<open>Writing\<close>

record backup_metadata =
  bm_format_version :: u32
  bm_backup_id :: string
  bm_snapshot_version :: u64
  bm_timestamp_nanos :: u64
  bm_is_replica :: bool
  bm_total_maps :: nat
  bm_total_records :: u64
  bm_total_bytes :: u64
  bm_checksum :: u32

definition BACKUP_MAGIC :: bytes where "BACKUP_MAGIC = [0x48, 0x32, 0x42, 0x4B]"
definition BACKUP_TRAILER_MAGIC :: bytes where "BACKUP_TRAILER_MAGIC = [0x48, 0x32, 0x45, 0x46]"
definition CURRENT_BACKUP_VERSION :: u32 where "CURRENT_BACKUP_VERSION = 1"
definition BACKUP_HEADER_SIZE :: nat where "BACKUP_HEADER_SIZE = 64"
definition TRAILER_SIZE :: nat where "TRAILER_SIZE = 24"

definition hex_digit :: "nat \<Rightarrow> char" where
  "hex_digit d = ''0123456789abcdef'' ! d"

definition hex_encode :: "bytes \<Rightarrow> string" where
  "hex_encode bs = concat (map (\<lambda>b. [hex_digit (unat b div 16), hex_digit (unat b mod 16)]) bs)"

definition backup_id_bytes :: "u64 \<Rightarrow> u64 \<Rightarrow> bytes" where
  "backup_id_bytes timestamp snapshot_version = u64_to_le_bytes timestamp @ u64_to_le_bytes snapshot_version"

definition header_bytes :: "u64 \<Rightarrow> u64 \<Rightarrow> bool \<Rightarrow> nat \<Rightarrow> bytes" where
  "header_bytes timestamp snapshot_version is_replica n_maps =
     BACKUP_MAGIC @ u32_to_le_bytes CURRENT_BACKUP_VERSION @ backup_id_bytes timestamp snapshot_version @
     u64_to_le_bytes snapshot_version @ u64_to_le_bytes timestamp @ [if is_replica then 1 else 0, 1] @
     u32_to_le_bytes (word_of_nat n_maps) @ replicate 14 0"

definition entry_bytes :: "bytes \<times> bytes \<Rightarrow> bytes" where
  "entry_bytes e =
     u32_to_le_bytes (word_of_nat (length (fst e))) @ fst e @ u32_to_le_bytes (word_of_nat (length (snd e))) @ snd e"

definition map_bytes :: "crc32 \<Rightarrow> string \<times> (bytes, bytes) kvs \<Rightarrow> bytes" where
  "map_bytes ck ne =
     (case ne of (name, entries) \<Rightarrow>
      let body = u32_to_le_bytes (word_of_nat (length (name_bytes name))) @ name_bytes name @
                 u64_to_le_bytes (word_of_nat (length entries)) @ concat (map entry_bytes entries) in
      body @ u32_to_le_bytes (ck body))"

definition sorted_maps :: "(string \<times> 'a) list \<Rightarrow> (string \<times> 'a) list" where
  "sorted_maps ms = sort_key (name_bytes \<circ> fst) ms"

definition trailer_bytes :: "nat \<Rightarrow> u32 \<Rightarrow> nat \<Rightarrow> bytes" where
  "trailer_bytes n_bytes checksum n_records =
     u64_to_le_bytes (word_of_nat n_bytes) @ u32_to_le_bytes checksum @ u64_to_le_bytes (word_of_nat n_records) @
     BACKUP_TRAILER_MAGIC"

text \<open>The time stamp is read from the clock; the result is the file and the metadata.\<close>

definition write_binary_backup :: "crc32 \<Rightarrow> u64 \<Rightarrow> u64 \<Rightarrow> bool \<Rightarrow> (string, (bytes, bytes) kvs) hashmap \<Rightarrow>
    bytes \<times> backup_metadata" where
  "write_binary_backup ck timestamp snapshot_version is_replica ms =
     (let header = header_bytes timestamp snapshot_version is_replica (length ms);
          payload = concat (map (map_bytes ck) (sorted_maps ms));
          n_records = sum_list (map (length \<circ> snd) ms) in
      (header @ u32_to_le_bytes (ck header) @ payload @ trailer_bytes (length payload) (ck payload) n_records,
       \<lparr>bm_format_version = CURRENT_BACKUP_VERSION,
        bm_backup_id = hex_encode (backup_id_bytes timestamp snapshot_version),
        bm_snapshot_version = snapshot_version, bm_timestamp_nanos = timestamp, bm_is_replica = is_replica,
        bm_total_maps = length ms, bm_total_records = word_of_nat n_records,
        bm_total_bytes = word_of_nat (BACKUP_HEADER_SIZE + length payload + TRAILER_SIZE),
        bm_checksum = ck payload\<rparr>))"

section \<open>Reading\<close>

definition read_exact :: "nat \<Rightarrow> bytes \<Rightarrow> (bytes \<times> bytes) h2_result" where
  "read_exact n bs = (if length bs < n then Inl (Io ''failed to fill whole buffer'') else Inr (take n bs, drop n bs))"

definition read_sized :: "bytes \<Rightarrow> (bytes \<times> bytes) h2_result" where
  "read_sized bs =
     res_bind (read_exact 4 bs) (\<lambda>(len, bs1). read_exact (unat (u32_from_le_bytes len)) bs1)"

fun read_entries :: "nat \<Rightarrow> bytes \<Rightarrow> ((bytes, bytes) kvs \<times> bytes) h2_result" where
  "read_entries 0 bs = Inr ([], bs)"
| "read_entries (Suc n) bs =
     res_bind (read_sized bs) (\<lambda>(k, bs1).
     res_bind (read_sized bs1) (\<lambda>(v, bs2).
     res_bind (read_entries n bs2) (\<lambda>(es, bs3). Inr ((k, v) # es, bs3))))"

text \<open>
  One map section.  Both hashers are fed every byte that is read, so their content is the part of the input
  between two positions, \<open>consumed\<close>.
\<close>

definition consumed :: "bytes \<Rightarrow> bytes \<Rightarrow> bytes" where
  "consumed before after = take (length before - length after) before"

definition read_map :: "crc32 \<Rightarrow> bytes \<Rightarrow> ((string \<times> (bytes, bytes) kvs) \<times> bytes) h2_result" where
  "read_map ck bs =
     res_bind (read_sized bs) (\<lambda>(name, bs1).
       if \<not> utf8_valid name then Inl (Storage ''Invalid map name in backup'')
       else
         res_bind (read_exact 8 bs1) (\<lambda>(cnt, bs2).
         res_bind (read_entries (unat (u64_from_le_bytes cnt)) bs2) (\<lambda>(entries, bs3).
         res_bind (read_exact 4 bs3) (\<lambda>(stored, bs4).
           if u32_from_le_bytes stored \<noteq> ck (consumed bs bs3) then Inl (Storage ''Checksum mismatch in map'')
           else Inr ((bytes_name name, entries), bs4)))))"

fun read_maps :: "crc32 \<Rightarrow> nat \<Rightarrow> bytes \<Rightarrow> ((string \<times> (bytes, bytes) kvs) list \<times> bytes) h2_result" where
  "read_maps ck 0 bs = Inr ([], bs)"
| "read_maps ck (Suc n) bs =
     res_bind (read_map ck bs) (\<lambda>(m, bs1).
     res_bind (read_maps ck n bs1) (\<lambda>(ms, bs2). Inr (m # ms, bs2)))"

definition sub_bytes :: "bytes \<Rightarrow> nat \<Rightarrow> nat \<Rightarrow> bytes" where
  "sub_bytes bs a b = take (b - a) (drop a bs)"

definition read_backup_header :: "crc32 \<Rightarrow> bytes \<Rightarrow> (bytes \<times> bytes) h2_result" where
  "read_backup_header ck bs =
     (if length bs < 4 then Inl (Storage ''Invalid backup file: file too short or unreadable'')
      else if take 4 bs \<noteq> BACKUP_MAGIC then Inl (Storage ''Invalid backup magic'')
      else
        res_bind (read_exact BACKUP_HEADER_SIZE bs) (\<lambda>(header, bs1).
          if u32_from_le_bytes (sub_bytes header 4 8) \<noteq> CURRENT_BACKUP_VERSION
          then Inl (Storage ''Unsupported backup format version'')
          else if u32_from_le_bytes (sub_bytes header 60 64) \<noteq> ck (take 60 header)
          then Inl (Storage ''Backup header corruption'')
          else Inr (header, bs1)))"

definition read_trailer :: "crc32 \<Rightarrow> bytes \<Rightarrow> nat \<Rightarrow> bytes \<Rightarrow> (bytes \<times> bytes) h2_result" where
  "read_trailer ck payload n_records bs =
     res_bind (read_exact TRAILER_SIZE bs) (\<lambda>(trailer, bs1).
       if sub_bytes trailer 20 24 \<noteq> BACKUP_TRAILER_MAGIC then Inl (Storage ''Missing or corrupt backup trailer magic'')
       else if u64_from_le_bytes (sub_bytes trailer 0 8) \<noteq> word_of_nat (length payload)
       then Inl (Storage ''Payload length mismatch'')
       else if u32_from_le_bytes (sub_bytes trailer 8 12) \<noteq> ck payload
       then Inl (Storage ''Overall payload checksum corruption'')
       else if u64_from_le_bytes (sub_bytes trailer 12 20) \<noteq> word_of_nat n_records
       then Inl (Storage ''Record count mismatch'')
       else Inr (trailer, bs1))"

definition hm_of_list :: "(string \<times> 'a) list \<Rightarrow> (string, 'a) hashmap" where
  "hm_of_list ms = foldl (\<lambda>h (n, v). AList.update n v h) [] ms"

definition read_binary_backup_internal :: "crc32 \<Rightarrow> bytes \<Rightarrow> bool \<Rightarrow>
    (backup_metadata \<times> (string, (bytes, bytes) kvs) hashmap option) h2_result" where
  "read_binary_backup_internal ck bs load_entries =
     res_bind (read_backup_header ck bs) (\<lambda>(header, bs1).
     let n_maps = unat (u32_from_le_bytes (sub_bytes header 42 46)) in
     res_bind (read_maps ck n_maps bs1) (\<lambda>(ms, bs2).
     let payload = consumed bs1 bs2; n_records = sum_list (map (length \<circ> snd) ms) in
     res_bind (read_trailer ck payload n_records bs2) (\<lambda>(trailer, _).
     Inr (\<lparr>bm_format_version = u32_from_le_bytes (sub_bytes header 4 8),
           bm_backup_id = hex_encode (sub_bytes header 8 24),
           bm_snapshot_version = u64_from_le_bytes (sub_bytes header 24 32),
           bm_timestamp_nanos = u64_from_le_bytes (sub_bytes header 32 40),
           bm_is_replica = (header ! 40 \<noteq> 0), bm_total_maps = n_maps,
           bm_total_records = u64_from_le_bytes (sub_bytes trailer 12 20),
           bm_total_bytes = word_of_nat (BACKUP_HEADER_SIZE + length payload + TRAILER_SIZE),
           bm_checksum = u32_from_le_bytes (sub_bytes trailer 8 12)\<rparr>,
          if load_entries then Some (hm_of_list ms) else None))))"

definition verify_binary_backup :: "crc32 \<Rightarrow> bytes \<Rightarrow> backup_metadata h2_result" where
  "verify_binary_backup ck bs = res_bind (read_binary_backup_internal ck bs False) (\<lambda>(meta, _). Inr meta)"

definition read_and_verify_binary_backup :: "crc32 \<Rightarrow> bytes \<Rightarrow>
    (backup_metadata \<times> (string, (bytes, bytes) kvs) hashmap) h2_result" where
  "read_and_verify_binary_backup ck bs =
     res_bind (read_binary_backup_internal ck bs True) (\<lambda>(meta, ms). Inr (meta, case ms of Some m \<Rightarrow> m | None \<Rightarrow> []))"

definition is_binary_backup_file :: "bytes \<Rightarrow> bool" where
  "is_binary_backup_file bs \<longleftrightarrow> 4 \<le> length bs \<and> take 4 bs = BACKUP_MAGIC"

section \<open>Store operations\<close>

definition dump_backup :: "crc32 \<Rightarrow> u64 \<Rightarrow> bool \<Rightarrow> mvstore \<Rightarrow> bytes \<times> backup_metadata" where
  "dump_backup ck timestamp is_replica st =
     write_binary_backup ck timestamp (version st) is_replica (scan_all_maps st)"

definition restore_backup_file :: "codecs \<Rightarrow> bool \<Rightarrow> listener \<Rightarrow> mvstore \<Rightarrow> bytes \<Rightarrow> unit h2_result \<times> mvstore" where
  "restore_backup_file C wal_sync_fault lst st bs =
     (case read_and_verify_binary_backup (crc C) bs of
        Inl e \<Rightarrow> (Inl e, st)
      | Inr (meta, data) \<Rightarrow> restore_backup_data C wal_sync_fault lst st (bm_snapshot_version meta) data)"


section \<open>Readers look no further than they consume\<close>

named_theorems read_more \<open>a reader that succeeds does so with more input behind\<close>

lemma read_exact_more [read_more]: "read_exact n bs = Inr (a, r) \<Longrightarrow> read_exact n (bs @ s) = Inr (a, r @ s)"
  by (auto simp: read_exact_def split: if_splits)

lemma read_sized_more [read_more]: "read_sized bs = Inr (a, r) \<Longrightarrow> read_sized (bs @ s) = Inr (a, r @ s)"
  by (auto simp: read_sized_def res_bind_eq_Inr read_more)

lemma read_entries_more [read_more]: "read_entries n bs = Inr (es, r) \<Longrightarrow> read_entries n (bs @ s) = Inr (es, r @ s)"
  by (induction n arbitrary: bs es) (auto simp: res_bind_eq_Inr read_more)

lemma consumed_more: "consumed (before @ s) (after @ s) = consumed before after"
  by (simp add: consumed_def)

lemma read_map_more [read_more]: "read_map ck bs = Inr (m, r) \<Longrightarrow> read_map ck (bs @ s) = Inr (m, r @ s)"
  by (auto simp: read_map_def res_bind_eq_Inr consumed_more read_more split: if_splits)

lemma read_maps_more [read_more]: "read_maps ck n bs = Inr (ms, r) \<Longrightarrow> read_maps ck n (bs @ s) = Inr (ms, r @ s)"
  by (induction n arbitrary: bs ms) (auto simp: res_bind_eq_Inr read_more)

lemma read_backup_header_more [read_more]: "read_backup_header ck bs = Inr (h, r) \<Longrightarrow> read_backup_header ck (bs @ s) = Inr (h, r @ s)"
  by (auto simp: read_backup_header_def res_bind_eq_Inr read_more split: if_splits)

lemma read_trailer_more [read_more]:
  "read_trailer ck p n bs = Inr (t, r) \<Longrightarrow> read_trailer ck p n (bs @ s) = Inr (t, r @ s)"
  by (auto simp: read_trailer_def res_bind_eq_Inr read_more split: if_splits)

section \<open>Reading what was written\<close>

definition backup_fits :: "(string \<times> (bytes, bytes) kvs) list \<Rightarrow> bool" where
  "backup_fits ms \<longleftrightarrow> length ms < 2 ^ 32 \<and>
     (\<forall>(n, es) \<in> set ms. utf8_valid (name_bytes n) \<and> length (name_bytes n) < 2 ^ 32 \<and> length es < 2 ^ 64 \<and>
        (\<forall>(k, v) \<in> set es. length k < 2 ^ 32 \<and> length v < 2 ^ 32))"

lemma u64_len: "n < 2 ^ 64 \<Longrightarrow> unat (word_of_nat n :: u64) = n"
  by (simp add: unsigned_of_nat take_bit_nat_eq_self)

lemma read_exact_prefix: "n = length b \<Longrightarrow> read_exact n (b @ rest) = Inr (b, rest)"
  by (simp add: read_exact_def)

lemma read_sized_written:
  "length b < 2 ^ 32 \<Longrightarrow> read_sized (u32_to_le_bytes (word_of_nat (length b)) @ b @ rest) = Inr (b, rest)"
  by (simp add: read_sized_def read_exact_prefix unat_u32_of_nat)

lemma read_entries_written:
  "\<forall>(k, v) \<in> set es. length k < 2 ^ 32 \<and> length v < 2 ^ 32 \<Longrightarrow>
   read_entries (length es) (concat (map entry_bytes es) @ rest) = Inr (es, rest)"
  by (induction es) (auto simp: entry_bytes_def read_sized_written)

lemma read_map_written:
  assumes "utf8_valid (name_bytes n)" "length (name_bytes n) < 2 ^ 32" "length es < 2 ^ 64"
    "\<forall>(k, v) \<in> set es. length k < 2 ^ 32 \<and> length v < 2 ^ 32"
  shows "read_map ck (map_bytes ck (n, es) @ rest) = Inr ((n, es), rest)"
proof -
  let ?body = "u32_to_le_bytes (word_of_nat (length (name_bytes n))) @ name_bytes n @
    u64_to_le_bytes (word_of_nat (length es)) @ concat (map entry_bytes es)"
  have "consumed (?body @ u32_to_le_bytes (ck ?body) @ rest) (u32_to_le_bytes (ck ?body) @ rest) = ?body"
    by (simp add: consumed_def)
  then show ?thesis
    using assms by (simp add: read_map_def map_bytes_def Let_def read_sized_written read_exact_prefix read_entries_written u64_len)
qed

lemma read_maps_written:
  "backup_fits ms \<Longrightarrow> read_maps ck (length ms) (concat (map (map_bytes ck) ms) @ rest) = Inr (ms, rest)"
proof (induction ms)
  case (Cons m ms)
  then have "backup_fits ms" by (auto simp: backup_fits_def)
  with Cons.IH Cons.prems show ?case
    by (cases m) (auto simp: read_map_written backup_fits_def)
qed simp

lemma header_length [simp]: "length (header_bytes t v r n) = 60"
  by (simp add: header_bytes_def backup_id_bytes_def BACKUP_MAGIC_def)

lemma read_backup_header_written:
  "read_backup_header ck (header_bytes t v r n @ u32_to_le_bytes (ck (header_bytes t v r n)) @ rest) =
     Inr (header_bytes t v r n @ u32_to_le_bytes (ck (header_bytes t v r n)), rest)"
proof -
  let ?h = "header_bytes t v r n" and ?s = "u32_to_le_bytes (ck (header_bytes t v r n))"
  have "read_exact BACKUP_HEADER_SIZE (?h @ ?s @ rest) = Inr (?h @ ?s, rest)"
    using read_exact_prefix [of 64 "?h @ ?s" rest] by (simp add: BACKUP_HEADER_SIZE_def)
  moreover have "take 4 (?h @ ?s @ rest) = BACKUP_MAGIC" by (simp add: header_bytes_def BACKUP_MAGIC_def)
  moreover have "sub_bytes (?h @ ?s) 4 8 = u32_to_le_bytes CURRENT_BACKUP_VERSION"
    by (simp add: sub_bytes_def header_bytes_def BACKUP_MAGIC_def)
  moreover have "sub_bytes (?h @ ?s) 60 64 = ?s" by (simp add: sub_bytes_def)
  ultimately show ?thesis by (simp add: read_backup_header_def)
qed

lemma header_fields:
  assumes "n < 2 ^ 32"
  shows "unat (u32_from_le_bytes (sub_bytes (header_bytes t v r n @ s) 42 46)) = n"
    "sub_bytes (header_bytes t v r n @ s) 8 24 = backup_id_bytes t v"
    "u64_from_le_bytes (sub_bytes (header_bytes t v r n @ s) 24 32) = v"
    "u64_from_le_bytes (sub_bytes (header_bytes t v r n @ s) 32 40) = t"
    "((header_bytes t v r n @ s) ! 40 \<noteq> 0) = r"
    "u32_from_le_bytes (sub_bytes (header_bytes t v r n @ s) 4 8) = CURRENT_BACKUP_VERSION"
  using assms by (simp_all add: sub_bytes_def header_bytes_def backup_id_bytes_def BACKUP_MAGIC_def unat_u32_of_nat nth_append)

lemma trailer_length [simp]: "length (trailer_bytes p c n) = 24"
  by (simp add: trailer_bytes_def BACKUP_TRAILER_MAGIC_def)

lemma trailer_fields:
  "sub_bytes (trailer_bytes p c n) 20 24 = BACKUP_TRAILER_MAGIC" "u64_from_le_bytes (sub_bytes (trailer_bytes p c n) 0 8) = word_of_nat p"
  "u32_from_le_bytes (sub_bytes (trailer_bytes p c n) 8 12) = c" "u64_from_le_bytes (sub_bytes (trailer_bytes p c n) 12 20) = word_of_nat n"
  by (simp_all add: sub_bytes_def trailer_bytes_def BACKUP_TRAILER_MAGIC_def)

lemma read_trailer_written:
  "read_trailer ck payload n (trailer_bytes (length payload) (ck payload) n @ rest) =
     Inr (trailer_bytes (length payload) (ck payload) n, rest)"
  using read_exact_prefix [of 24 "trailer_bytes (length payload) (ck payload) n" rest]
  by (simp add: read_trailer_def TRAILER_SIZE_def trailer_fields)

lemma sorted_maps_perm: "mset (sorted_maps ms) = mset ms" "length (sorted_maps ms) = length ms"
  "set (sorted_maps ms) = set ms"
  by (simp_all add: sorted_maps_def)

lemma sorted_maps_fits: "backup_fits ms \<Longrightarrow> backup_fits (sorted_maps ms)"
  by (simp add: backup_fits_def sorted_maps_perm)

lemma sorted_maps_records: "sum_list (map (length \<circ> snd) (sorted_maps ms)) = sum_list (map (length \<circ> snd) ms)"
  by (metis mset_map sorted_maps_perm(1) sum_mset_sum_list)


lemma same_map_of:
  assumes "distinct (map fst xs)" "distinct (map fst ys)" "set xs = set ys"
  shows "map_of xs = map_of ys"
proof -
  have "map_of xs n = Some v \<longleftrightarrow> map_of ys n = Some v" for n v
    using assms by (metis map_of_SomeD map_of_is_SomeI)
  then show ?thesis by (metis ext not_Some_eq)
qed

lemma hm_of_list_props:
  "distinct (map fst (hm_of_list ms))" "distinct (map fst ms) \<Longrightarrow> map_of (hm_of_list ms) = map_of ms"
proof -
  have gen: "distinct (map fst (foldl (\<lambda>h (n, v). AList.update n v h) h0 ms)) \<and>
      map_of (foldl (\<lambda>h (n, v). AList.update n v h) h0 ms) = (\<lambda>n. case map_of (rev ms) n of Some v \<Rightarrow> Some v | None \<Rightarrow> map_of h0 n)"
    if "distinct (map fst h0)" for h0
    using that
  proof (induction ms arbitrary: h0)
    case (Cons m ms)
    from Cons.IH [OF distinct_update, OF Cons.prems, of "fst m" "snd m"] show ?case
      by (auto simp: split_def fun_eq_iff map_add_def split: option.split)
  qed simp
  show "distinct (map fst (hm_of_list ms))" using gen [of "[]"] by (simp add: hm_of_list_def)
  assume "distinct (map fst ms)"
  then have "map_of (rev ms) = map_of ms" by (intro same_map_of) (simp_all add: rev_map [symmetric])
  then show "map_of (hm_of_list ms) = map_of ms" using gen [of "[]"] by (simp add: hm_of_list_def fun_eq_iff split: option.split)
qed

lemma map_of_sorted_maps: "distinct (map fst ms) \<Longrightarrow> map_of (sorted_maps ms) = map_of ms \<and> distinct (map fst (sorted_maps ms))"
proof -
  assume d: "distinct (map fst ms)"
  then have ds: "distinct (map fst (sorted_maps ms))"
    by (metis mset_eq_imp_distinct_iff mset_map sorted_maps_perm(1))
  have "map_of (sorted_maps ms) = map_of ms" by (rule same_map_of [OF ds d sorted_maps_perm(3)])
  with ds show ?thesis by blast
qed

lemma read_internal_written:
  assumes "backup_fits ms"
  shows "read_binary_backup_internal ck (fst (write_binary_backup ck t v r ms)) load =
    Inr (snd (write_binary_backup ck t v r ms), if load then Some (hm_of_list (sorted_maps ms)) else None)"
proof -
  have n: "length ms < 2 ^ 32" using assms by (simp add: backup_fits_def)
  have tr: "read_trailer ck p k (trailer_bytes (length p) (ck p) k) = Inr (trailer_bytes (length p) (ck p) k, [])" for p k
    using read_trailer_written [of ck p k "[]"] by simp
  have "length (sorted_maps ms) = length ms" by (simp add: sorted_maps_perm)
  with read_maps_written [OF sorted_maps_fits [OF assms], of ck] n show ?thesis
    by (simp add: read_binary_backup_internal_def write_binary_backup_def Let_def read_backup_header_written header_fields
        sorted_maps_records tr trailer_fields consumed_def)
qed

text \<open>Backups read back as they were written.  The file that a backup writes is accepted by the verification
  and by the reader, both report the metadata that writing it returned, and the reader returns every map with
  exactly its entries, in order.\<close>

theorem backup_roundtrip:
  assumes "distinct (map fst ms)" "backup_fits ms" "write_binary_backup ck t v r ms = (bs, meta)"
  shows "\<exists>ms'. read_and_verify_binary_backup ck bs = Inr (meta, ms') \<and> map_of ms' = map_of ms \<and>
    verify_binary_backup ck bs = Inr meta"
  using read_internal_written [OF assms(2), of ck t v r] map_of_sorted_maps [OF assms(1)] hm_of_list_props(2) [of "sorted_maps ms"] assms(3)
  by (simp add: read_and_verify_binary_backup_def verify_binary_backup_def)

lemma map_res_bind: "map_sum id g (res_bind x f) = res_bind x (\<lambda>a. map_sum id g (f a))"
  by (cases x) simp_all

text \<open>Verifying a backup answers exactly whether it can be read: on every file, also a damaged one, verification
  succeeds with the metadata with which reading it succeeds, and fails when reading fails.\<close>

theorem verify_agrees_with_read:
  "verify_binary_backup ck bs = map_sum id fst (read_and_verify_binary_backup ck bs)"
proof -
  have "read_binary_backup_internal ck bs False = map_sum id (\<lambda>(meta, _). (meta, None)) (read_binary_backup_internal ck bs True)"
    by (simp add: read_binary_backup_internal_def Let_def split_def map_res_bind)
  then show ?thesis
    by (cases "read_binary_backup_internal ck bs True")
      (auto simp: verify_binary_backup_def read_and_verify_binary_backup_def)
qed

lemma truncated_not_read:
  assumes "backup_fits ms" "n < length (fst (write_binary_backup ck t v r ms))"
  shows "\<exists>e. read_and_verify_binary_backup ck (take n (fst (write_binary_backup ck t v r ms))) = Inl e"
proof (rule ccontr)
  let ?file = "fst (write_binary_backup ck t v r ms)"
  define s where "s = drop n ?file"
  have s: "?file = take n ?file @ s" "s \<noteq> []" using assms(2) by (simp_all add: s_def)
  assume "\<not> ?thesis"
  then obtain x where "read_and_verify_binary_backup ck (take n ?file) = Inr x" by (metis sum.exhaust)
  then obtain h b1 ms' b2 tr b3 where p: "read_backup_header ck (take n ?file) = Inr (h, b1)"
    "read_maps ck (unat (u32_from_le_bytes (sub_bytes h 42 46))) b1 = Inr (ms', b2)"
    "read_trailer ck (consumed b1 b2) (sum_list (map (length \<circ> snd) ms')) b2 = Inr (tr, b3)"
    by (auto simp: read_and_verify_binary_backup_def read_binary_backup_internal_def res_bind_eq_Inr Let_def)
  note q = read_backup_header_more [OF p(1), of s, folded s(1)] read_maps_more [OF p(2), of s] read_trailer_more [OF p(3), of s]
  let ?payload = "concat (map (map_bytes ck) (sorted_maps ms))"
  let ?t = "trailer_bytes (length ?payload) (ck ?payload) (sum_list (map (length \<circ> snd) ms))"
  have h: "h = header_bytes t v r (length ms) @ u32_to_le_bytes (ck (header_bytes t v r (length ms)))" "b1 @ s = ?payload @ ?t"
    using q(1) read_backup_header_written [of ck t v r "length ms" "?payload @ ?t"] by (simp_all add: write_binary_backup_def Let_def)
  have "length ms < 2 ^ 32" using assms(1) by (simp add: backup_fits_def)
  with q(2) read_maps_written [OF sorted_maps_fits [OF assms(1)], of ck ?t]
  have "Inr (ms', b2 @ s) = (Inr (sorted_maps ms, ?t) :: _ h2_result)"
    unfolding h(1) header_fields(1) [OF \<open>length ms < 2 ^ 32\<close>] h(2) sorted_maps_perm(2) by metis
  then have m: "ms' = sorted_maps ms" "b2 @ s = ?t" by blast+
  have "consumed b1 b2 = ?payload" using consumed_more [of b1 s b2] by (simp add: h(2) m(2) consumed_def)
  with q(3) read_trailer_written [of ck ?payload "sum_list (map (length \<circ> snd) ms)" "[]"] have "b3 @ s = []"
    by (simp add: m sorted_maps_records)
  with s(2) show False by simp
qed

text \<open>C18: A backup that was cut short is never accepted: for maps with UTF-8 names whose lengths and counts fit their
  fields (32 bits for the number of maps, names, keys and values, 64 bits for the entries of a map), and whatever
  the checksum function, both reading and verifying a proper prefix of the backup file report an error.\<close>

theorem truncated_backup_rejected:
  assumes "backup_fits ms" "n < length (fst (write_binary_backup ck t v r ms))"
  shows "\<exists>e. read_and_verify_binary_backup ck (take n (fst (write_binary_backup ck t v r ms))) = Inl e \<and>
    verify_binary_backup ck (take n (fst (write_binary_backup ck t v r ms))) = Inl e"
  using truncated_not_read [OF assms] verify_agrees_with_read [of ck "take n (fst (write_binary_backup ck t v r ms))"] by auto

lemma restored_data:
  assumes "store_wf src" "backup_fits (scan_all_maps src)"
  shows "\<exists>data. read_and_verify_binary_backup ck (fst (dump_backup ck t r src)) =
      Inr (snd (dump_backup ck t r src), data) \<and> distinct (map fst data) \<and> (\<forall>(n, ps) \<in> set data. distinct (map fst ps)) \<and>
    (\<forall>n. map_option map_of (map_of data n) = view (maps src) n)"
proof -
  let ?d = "hm_of_list (sorted_maps (scan_all_maps src))"
  note sc = scan_all_maps_data [OF assms(1)]
  have m: "map_of ?d = map_of (scan_all_maps src)" and d: "distinct (map fst ?d)"
    using map_of_sorted_maps [OF sc(1)] hm_of_list_props(2) [of "sorted_maps (scan_all_maps src)"] hm_of_list_props(1) by simp_all
  have "\<forall>(n, ps) \<in> set ?d. distinct (map fst ps)"
    using sc(2) m d by (metis (mono_tags, lifting) case_prodI2 map_of_SomeD map_of_is_SomeI prod.case)
  with d m sc(3) read_internal_written [OF assms(2), of ck t "version src" r True] show ?thesis
    by (auto simp: read_and_verify_binary_backup_def dump_backup_def intro!: exI [of _ ?d])
qed

text \<open>C16: A backup restores the store.  For a store whose map names are UTF-8 and whose sizes fit the fields of the file
  (32 bits for the number of maps, names, keys and values, 64 bits for the entries of a map), restoring the file it
  dumped into any other store reads the file, loads all maps without a panic and then writes a checkpoint: the
  result of the call is the result of that checkpoint, and whether or not the checkpoint succeeds, every map of
  the first store has exactly its content and maps that the backup does not have keep theirs.\<close>

theorem backup_restores_store:
  assumes "store_wf src" "store_wf dst" "backup_fits (scan_all_maps src)"
    "restore_backup_file C sf lst dst (fst (dump_backup (crc C) t r src)) = (res, st')"
  shows "store_wf st' \<and>
    (\<forall>n k. store_content st' (n, k) =
      (if map_of (maps src) n = None then store_content dst (n, k) else store_content src (n, k))) \<and>
    (\<exists>st2. store_wf st2 \<and> store_content st2 = store_content st' \<and> st' = snd (checkpoint C sf lst st2) \<and>
      res = map_sum id (\<lambda>_. ()) (fst (checkpoint C sf lst st2)))"
proof -
  from restored_data [OF assms(1,3), of "crc C" t r] obtain data where
    data: "read_and_verify_binary_backup (crc C) (fst (dump_backup (crc C) t r src)) = Inr (snd (dump_backup (crc C) t r src), data)"
      "distinct (map fst data)" "\<forall>(n, ps) \<in> set data. distinct (map fst ps)"
      "\<And>n. map_option map_of (map_of data n) = view (maps src) n" by blast
  from load_maps_view [OF assms(2) data(2,3)] obtain st1 where st1: "load_maps dst data = Some st1" "store_wf st1"
    "view (maps st1) = (\<lambda>n. case map_of data n of Some ps \<Rightarrow> Some (map_of ps) | None \<Rightarrow> view (maps dst) n)" by blast
  define st2 where "st2 = (if bm_snapshot_version (snd (dump_backup (crc C) t r src)) > 0
    then set_version st1 (bm_snapshot_version (snd (dump_backup (crc C) t r src))) else st1)"
  have m2: "maps st2 = maps st1" by (simp add: st2_def set_version_def)
  then have st2: "store_wf st2" "store_content st2 = store_content st1" using st1(2) by simp_all
  have cp: "st' = snd (checkpoint C sf lst st2)" "res = map_sum id (\<lambda>_. ()) (fst (checkpoint C sf lst st2))"
    using assms(4) by (auto simp: restore_backup_file_def data(1) restore_backup_data_def st1(1) st2_def split: prod.splits sum.splits)
  with checkpoint_content [OF st2(1), of C sf lst] st2(2) have st': "store_wf st'" "store_content st' = store_content st1" by simp_all
  have v1: "view (maps st1) n = (case view (maps src) n of Some f \<Rightarrow> Some f | None \<Rightarrow> view (maps dst) n)" for n
    using data(4) [of n] st1(3) by (auto split: option.splits)
  have src: "map_of (maps src) n = None \<longleftrightarrow> view (maps src) n = None" for n by (simp add: view_def)
  have "store_content st1 (n, k) = (if map_of (maps src) n = None then store_content dst (n, k) else store_content src (n, k))" for n k
    using v1 [of n] src [of n] by (auto simp: content_view split: option.splits)
  with st' st2 cp show ?thesis by auto
qed

section \<open>Examples\<close>

definition toy_backup :: "(string \<times> (bytes, bytes) kvs) list" where
  "toy_backup = [(''u'', [([1], [7])]), (''a'', [])]"

lemma toy_backup_fits: "backup_fits toy_backup" "distinct (map fst toy_backup)"
  by (simp_all add: backup_fits_def toy_backup_def name_bytes_def)

theorem backup_roundtrip_witness:
  "\<exists>ms'. read_and_verify_binary_backup toy_sum (fst (write_binary_backup toy_sum 5 3 True toy_backup)) =
     Inr (snd (write_binary_backup toy_sum 5 3 True toy_backup), ms') \<and> map_of ms' = map_of toy_backup"
  using backup_roundtrip [OF toy_backup_fits(2,1), of toy_sum 5 3 True] by (metis prod.collapse)

theorem truncated_backup_rejected_witness:
  "\<exists>e. read_and_verify_binary_backup toy_sum (take 70 (fst (write_binary_backup toy_sum 5 3 True toy_backup))) = Inl e \<and>
     verify_binary_backup toy_sum (take 70 (fst (write_binary_backup toy_sum 5 3 True toy_backup))) = Inl e"
  by (rule truncated_backup_rejected [OF toy_backup_fits(1)]) (simp add: write_binary_backup_def Let_def)

theorem backup_restores_store_witness:
  "store_content (snd (restore_backup_file toy_codecs False None store_open_in_memory
     (fst (dump_backup toy_sum 0 False toy_store)))) (''a'', [2]) = Some [2]"
proof -
  have dst: "store_wf store_open_in_memory" by (simp add: store_open_in_memory_def)
  have crc: "crc toy_codecs = toy_sum" by (simp add: toy_codecs_def)
  have fits: "backup_fits (scan_all_maps toy_store)"
    by (simp add: backup_fits_def scan_all_maps_def toy_store_def name_bytes_def toy_map_def map_scan_all_def tree_scan_all_def toy_tree_def kv_def)
  obtain res st' where run: "restore_backup_file toy_codecs False None store_open_in_memory
     (fst (dump_backup toy_sum 0 False toy_store)) = (res, st')" by force
  from backup_restores_store [OF toy_wf(1) dst fits, of toy_codecs False None 0 False res st'] run show ?thesis
    by (auto simp: crc content_view view_def toy_store_def)
qed

end
