(* ===== verification/Pack_Stream.thy ===== *)
theory Pack_Stream
  imports Index_Encoding
begin

text \<open>
  PackStream, the value encoding of the Bolt protocol (\<^verbatim>\<open>crates/h2-bolt/src/packstream.rs\<close>): values are a marker
  byte with the size, short sizes inside the marker, and nested content.  A map is a list of pairs in the
  order of its iteration.  The theorems: every value without byte strings reads back as it was written,
  decoding stays inside the buffer on all inputs, and byte strings cannot be read.
\<close>

section \<open>Values and encoding\<close>

datatype pack_value =
    PNull
  | PBoolean bool
  | PInteger "64 word"
  | PFloat f64
  | PString bytes
  | PBytes bytes
  | PList "pack_value list"
  | PMap "(bytes \<times> pack_value) list"
  | PStructure byte "pack_value list"

definition encode_integer :: "64 word \<Rightarrow> bytes" where
  "encode_integer i =
     (let s = sint i in
      if - 16 \<le> s \<and> s \<le> 127 then [ucast i]
      else if - 128 \<le> s \<and> s \<le> 127 then [0xC8, ucast i]
      else if - 32768 \<le> s \<and> s \<le> 32767 then 0xC9 # u16_to_be_bytes (ucast i)
      else if - 2147483648 \<le> s \<and> s \<le> 2147483647 then 0xCA # u32_to_be_bytes (ucast i)
      else 0xCB # u64_to_be_bytes i)"

text \<open>The size markers of strings, lists, maps and structures: \<open>tiny\<close> with four bits of size, or a marker byte.\<close>

definition size_marker :: "byte \<Rightarrow> byte \<Rightarrow> byte \<Rightarrow> byte \<Rightarrow> nat \<Rightarrow> bytes" where
  "size_marker tiny m8 m16 m32 len =
     (if len \<le> 15 then [tiny OR word_of_nat len]
      else if len \<le> 255 then [m8, word_of_nat len]
      else if len \<le> 65535 then m16 # u16_to_be_bytes (word_of_nat len)
      else m32 # u32_to_be_bytes (word_of_nat len))"

definition encode_string :: "bytes \<Rightarrow> bytes" where
  "encode_string s = size_marker 0x80 0xD0 0xD1 0xD2 (length s) @ s"

definition encode_bytes :: "bytes \<Rightarrow> bytes" where
  "encode_bytes b =
     (let len = length b in
      (if len \<le> 255 then [0xCC, word_of_nat len]
       else if len \<le> 65535 then 0xCD # u16_to_be_bytes (word_of_nat len)
       else 0xCE # u32_to_be_bytes (word_of_nat len)) @ b)"

definition struct_marker :: "nat \<Rightarrow> bytes" where
  "struct_marker len =
     (if len \<le> 15 then [0xB0 OR word_of_nat len]
      else if len \<le> 255 then [0xDC, word_of_nat len]
      else 0xDD # u16_to_be_bytes (word_of_nat len))"

fun pack_encode :: "pack_value \<Rightarrow> bytes" where
  "pack_encode PNull = [0xC0]"
| "pack_encode (PBoolean b) = [if b then 0xC3 else 0xC2]"
| "pack_encode (PInteger i) = encode_integer i"
| "pack_encode (PFloat f) = 0xC1 # u64_to_be_bytes f"
| "pack_encode (PString s) = encode_string s"
| "pack_encode (PBytes b) = encode_bytes b"
| "pack_encode (PList items) = size_marker 0x90 0xD4 0xD5 0xD6 (length items) @ concat (map pack_encode items)"
| "pack_encode (PMap m) =
     size_marker 0xA0 0xD8 0xD9 0xDA (length m) @ concat (map (\<lambda>(k, v). encode_string k @ pack_encode v) m)"
| "pack_encode (PStructure tag fs) = struct_marker (length fs) @ tag # concat (map pack_encode fs)"

section \<open>Decoding\<close>

definition be_size :: "string \<Rightarrow> bytes \<Rightarrow> nat \<Rightarrow> (nat \<Rightarrow> 'r h2_result) \<Rightarrow> 'r h2_result" where
  "be_size msg buf k f =
     (if length buf < 1 + k then Inl (Execution msg) else f (le_nat (rev (take k (drop 1 buf)))))"

definition decode_string_content :: "bytes \<Rightarrow> nat \<Rightarrow> nat \<Rightarrow> (pack_value \<times> nat) h2_result" where
  "decode_string_content buf len header_len =
     (if length buf < len then Inl (Execution ''Truncated string data'')
      else if \<not> utf8_valid (take len buf) then Inl (Execution ''Invalid UTF-8 string'')
      else Inr (PString (take len buf), header_len + len))"

definition fixed :: "string \<Rightarrow> bytes \<Rightarrow> nat \<Rightarrow> (bytes \<Rightarrow> pack_value) \<Rightarrow> (pack_value \<times> nat) h2_result" where
  "fixed msg buf n f =
     (if length buf < n then Inl (Execution msg) else Inr (f (take (n - 1) (drop 1 buf)), n))"

definition tiny_size :: "byte \<Rightarrow> nat" where
  "tiny_size marker = unat (marker AND 0x0F)"

definition with_header :: "('a \<Rightarrow> pack_value) \<Rightarrow> nat \<Rightarrow> ('a \<times> nat) h2_result \<Rightarrow> (pack_value \<times> nat) h2_result" where
  "with_header f header_len r = res_bind r (\<lambda>(x, offset). Inr (f x, header_len + offset))"

definition decode_struct_content :: "(nat \<Rightarrow> bytes \<Rightarrow> (pack_value list \<times> nat) h2_result) \<Rightarrow>
    bytes \<Rightarrow> nat \<Rightarrow> nat \<Rightarrow> (pack_value \<times> nat) h2_result" where
  "decode_struct_content items buf count header_len =
     (if buf = [] then Inl (Execution ''Truncated structure tag'')
      else with_header (PStructure (hd buf)) (header_len + 1) (items count (drop 1 buf)))"

lemma decode_struct_content_cong [fundef_cong]:
  "buf = buf' \<Longrightarrow> n = n' \<Longrightarrow> h = h' \<Longrightarrow> (buf' \<noteq> [] \<Longrightarrow> items n' (drop 1 buf') = items' n' (drop 1 buf')) \<Longrightarrow>
   decode_struct_content items buf n h = decode_struct_content items' buf' n' h'"
  by (simp add: decode_struct_content_def)

text \<open>\<open>decode_items\<close> and \<open>decode_pairs\<close> are the loops over lists, fields and map entries, from the current offset.\<close>

function pack_decode :: "bytes \<Rightarrow> (pack_value \<times> nat) h2_result"
and decode_items :: "nat \<Rightarrow> bytes \<Rightarrow> (pack_value list \<times> nat) h2_result"
and decode_pairs :: "nat \<Rightarrow> bytes \<Rightarrow> (bytes \<times> pack_value) list \<Rightarrow> ((bytes \<times> pack_value) list \<times> nat) h2_result" where
  "pack_decode buf =
     (if buf = [] then Inl (Execution ''Empty buffer in PackStream decode'')
      else
        let m = hd buf;
            str = (\<lambda>k len. decode_string_content (drop (Suc k) buf) len (Suc k));
            lst = (\<lambda>k n. with_header PList (Suc k) (decode_items n (drop (Suc k) buf)));
            mp = (\<lambda>k n. with_header PMap (Suc k) (decode_pairs n (drop (Suc k) buf) []));
            struct = (\<lambda>k n. decode_struct_content decode_items (drop (Suc k) buf) n (Suc k)) in
        if m = 0xC0 then Inr (PNull, 1)
        else if m = 0xC2 then Inr (PBoolean False, 1)
        else if m = 0xC3 then Inr (PBoolean True, 1)
        else if m = 0xC1 then fixed ''Truncated float'' buf 9 (\<lambda>b. PFloat (u64_from_be_bytes b))
        else if m \<le> 0x7F then Inr (PInteger (ucast m), 1)
        else if 0xF0 \<le> m then Inr (PInteger (signed m), 1)
        else if m = 0xC8 then fixed ''Truncated Int8'' buf 2 (\<lambda>b. PInteger (signed (hd b)))
        else if m = 0xC9 then fixed ''Truncated Int16'' buf 3 (\<lambda>b. PInteger (signed (u16_from_be_bytes b)))
        else if m = 0xCA then fixed ''Truncated Int32'' buf 5 (\<lambda>b. PInteger (signed (u32_from_be_bytes b)))
        else if m = 0xCB then fixed ''Truncated Int64'' buf 9 (\<lambda>b. PInteger (u64_from_be_bytes b))
        else if 0x80 \<le> m \<and> m \<le> 0x8F then str 0 (tiny_size m)
        else if m = 0xD0 then be_size ''Truncated String8'' buf 1 (str 1)
        else if m = 0xD1 then be_size ''Truncated String16'' buf 2 (str 2)
        else if m = 0xD2 then be_size ''Truncated String32'' buf 4 (str 4)
        else if 0x90 \<le> m \<and> m \<le> 0x9F then lst 0 (tiny_size m)
        else if m = 0xD4 then be_size ''Truncated List8'' buf 1 (lst 1)
        else if m = 0xD5 then be_size ''Truncated List16'' buf 2 (lst 2)
        else if m = 0xD6 then be_size ''Truncated List32'' buf 4 (lst 4)
        else if 0xA0 \<le> m \<and> m \<le> 0xAF then mp 0 (tiny_size m)
        else if m = 0xD8 then be_size ''Truncated Map8'' buf 1 (mp 1)
        else if m = 0xD9 then be_size ''Truncated Map16'' buf 2 (mp 2)
        else if m = 0xDA then be_size ''Truncated Map32'' buf 4 (mp 4)
        else if 0xB0 \<le> m \<and> m \<le> 0xBF then struct 0 (tiny_size m)
        else if m = 0xDC then be_size ''Truncated Struct8'' buf 1 (struct 1)
        else if m = 0xDD then be_size ''Truncated Struct16'' buf 2 (struct 2)
        else Inl (Execution ''Unknown PackStream marker''))"
| "decode_items 0 buf = Inr ([], 0)"
| "decode_items (Suc n) buf =
     res_bind (pack_decode buf) (\<lambda>(x, k).
     res_bind (decode_items n (drop k buf)) (\<lambda>(xs, j). Inr (x # xs, k + j)))"
| "decode_pairs 0 buf acc = Inr (acc, 0)"
| "decode_pairs (Suc n) buf acc =
     res_bind (pack_decode buf) (\<lambda>(key, k).
       case key of
         PString s \<Rightarrow>
           res_bind (pack_decode (drop k buf)) (\<lambda>(v, j).
           res_bind (decode_pairs n (drop (k + j) buf) (AList.update s v acc)) (\<lambda>(m, i). Inr (m, k + j + i)))
       | _ \<Rightarrow> Inl (Execution ''Map key must be String''))"
  by pat_completeness auto
termination
  by (relation "inv_image (less_than <*lex*> less_than)
       (\<lambda>x. case x of Inl b \<Rightarrow> (length b, 0)
                    | Inr (Inl (n, b)) \<Rightarrow> (length b, Suc n)
                    | Inr (Inr (n, b, _)) \<Rightarrow> (length b, Suc n))") auto

declare pack_decode.simps [simp del]


section \<open>Markers\<close>

lemma upto15: "len \<le> 15 \<Longrightarrow> len \<in> {0, 1, 2, 3, 4, 5, 6, 7, 8, 9, 10, 11, 12, 13, 14, 15}" for len :: nat
  by simp arith

lemma be_bytes_nat:
  "le_nat (rev (u16_to_be_bytes w)) = unat w" "le_nat (rev (u32_to_be_bytes v)) = unat v"
  by (simp_all add: u16_to_be_bytes_def u32_to_be_bytes_def le_nat_le_enc unat_bounds)

lemma small_words:
  "len \<le> 255 \<Longrightarrow> unat (word_of_nat len :: byte) = len" "len \<le> 65535 \<Longrightarrow> unat (word_of_nat len :: u16) = len"
  "len < 2 ^ 32 \<Longrightarrow> unat (word_of_nat len :: u32) = len"
  by (simp_all add: unsigned_of_nat take_bit_nat_eq_self)

lemma be_size_marker:
  "len \<le> 255 \<Longrightarrow> be_size msg (m # word_of_nat len # rest) (Suc 0) f = f len"
  "len \<le> 65535 \<Longrightarrow> be_size msg (m # u16_to_be_bytes (word_of_nat len) @ rest) 2 f = f len"
  "len < 2 ^ 32 \<Longrightarrow> be_size msg (m # u32_to_be_bytes (word_of_nat len) @ rest) 4 f = f len"
  by (simp_all add: be_size_def be_bytes_nat small_words)

lemma size_marker_cases:
  assumes "len < 2 ^ 32"
  obtains "len \<le> 15" "size_marker t m8 m16 m32 len = [t OR word_of_nat len]"
  | "\<not> len \<le> 15" "len \<le> 255" "size_marker t m8 m16 m32 len = [m8, word_of_nat len]"
  | "\<not> len \<le> 15" "len \<le> 65535" "size_marker t m8 m16 m32 len = m16 # u16_to_be_bytes (word_of_nat len)"
  | "\<not> len \<le> 15" "len < 2 ^ 32" "size_marker t m8 m16 m32 len = m32 # u32_to_be_bytes (word_of_nat len)"
  using assms by (cases "len \<le> 15"; cases "len \<le> 255"; cases "len \<le> 65535") (auto simp: size_marker_def)

text \<open>The decoder on each marker with its size; \<open>rest\<close> is what follows the marker.\<close>

lemma decode_string_marker:
  assumes "len < 2 ^ 32"
  shows "pack_decode (size_marker 0x80 0xD0 0xD1 0xD2 len @ rest) =
    decode_string_content rest len (length (size_marker 0x80 0xD0 0xD1 0xD2 len))"
  using assms
proof (cases rule: size_marker_cases [of len "0x80" "0xD0" "0xD1" "0xD2"])
  case 1
  from upto15 [OF 1(1)] show ?thesis unfolding 1(2) by (elim insertE) (simp_all add: pack_decode.simps tiny_size_def)
qed (simp_all add: pack_decode.simps be_size_marker Let_def)

lemma decode_list_marker:
  assumes "len < 2 ^ 32"
  shows "pack_decode (size_marker 0x90 0xD4 0xD5 0xD6 len @ rest) =
    with_header PList (length (size_marker 0x90 0xD4 0xD5 0xD6 len)) (decode_items len rest)"
  using assms
proof (cases rule: size_marker_cases [of len "0x90" "0xD4" "0xD5" "0xD6"])
  case 1
  from upto15 [OF 1(1)] show ?thesis unfolding 1(2) by (elim insertE) (simp_all add: pack_decode.simps tiny_size_def)
qed (simp_all add: pack_decode.simps be_size_marker Let_def)

lemma decode_map_marker:
  assumes "len < 2 ^ 32"
  shows "pack_decode (size_marker 0xA0 0xD8 0xD9 0xDA len @ rest) =
    with_header PMap (length (size_marker 0xA0 0xD8 0xD9 0xDA len)) (decode_pairs len rest [])"
  using assms
proof (cases rule: size_marker_cases [of len "0xA0" "0xD8" "0xD9" "0xDA"])
  case 1
  from upto15 [OF 1(1)] show ?thesis unfolding 1(2) by (elim insertE) (simp_all add: pack_decode.simps tiny_size_def)
qed (simp_all add: pack_decode.simps be_size_marker Let_def)

lemma decode_struct_marker:
  assumes "len \<le> 65535"
  shows "pack_decode (struct_marker len @ rest) = decode_struct_content decode_items rest len (length (struct_marker len))"
proof (cases "len \<le> 15")
  case True
  have "struct_marker len = [0xB0 OR word_of_nat len]" using True by (simp add: struct_marker_def)
  with upto15 [OF True] show ?thesis by (elim insertE) (simp_all add: pack_decode.simps tiny_size_def)
next
  case False
  with assms show ?thesis
    by (simp add: struct_marker_def pack_decode.simps be_size_marker Let_def)
qed


section \<open>Round trip\<close>

text \<open>What the encoding can represent: UTF-8 strings, sizes below \<open>2\<^sup>3\<^sup>2\<close> (65536 fields of a structure), the
  distinct keys of a hash map, and no byte strings.\<close>

fun packable :: "pack_value \<Rightarrow> bool" where
  "packable (PString s) \<longleftrightarrow> utf8_valid s \<and> length s < 2 ^ 32"
| "packable (PBytes b) \<longleftrightarrow> False"
| "packable (PList vs) \<longleftrightarrow> length vs < 2 ^ 32 \<and> list_all packable vs"
| "packable (PMap m) \<longleftrightarrow> length m < 2 ^ 32 \<and> distinct (map fst m) \<and>
     list_all (\<lambda>(k, v). utf8_valid k \<and> length k < 2 ^ 32 \<and> packable v) m"
| "packable (PStructure t vs) \<longleftrightarrow> length vs \<le> 65535 \<and> list_all packable vs"
| "packable v \<longleftrightarrow> True"

lemma fixed_encoded: "n = Suc (length b) \<Longrightarrow> fixed msg (m # b @ rest) n f = Inr (f b, n)"
  by (simp add: fixed_def)

text \<open>Narrowing a signed integer that fits and widening it again.\<close>

lemma signed_ucast:
  fixes i :: "64 word"
  assumes "- (2 ^ (LENGTH('a) - 1)) \<le> sint i" "sint i < 2 ^ (LENGTH('a) - 1)" "LENGTH('a) \<le> 64"
  shows "signed (ucast i :: 'a::len word) = i"
proof -
  have "(ucast i :: 'a word) = word_of_int (sint i)"
    using assms(3) by transfer (simp add: take_bit_take_bit take_bit_signed_take_bit min_def)
  moreover have "sint (word_of_int s :: 'a word) = s" if "- (2 ^ (LENGTH('a) - 1)) \<le> s" "s < 2 ^ (LENGTH('a) - 1)" for s
    using that by (simp add: signed_of_int signed_take_bit_int_eq_self)
  ultimately have "sint (ucast i :: 'a word) = sint i" using assms(1,2) by metis
  moreover have "sint (signed (ucast i :: 'a word) :: 64 word) = sint (ucast i :: 'a word)"
    by (rule sint_signed) (simp add: assms(3))
  ultimately show ?thesis by (simp add: sint_eq_iff)
qed


lemma tiny_integer:
  fixes i :: "64 word"
  assumes "- 16 \<le> sint i" "sint i \<le> 127"
  shows "pack_decode (ucast i # rest) = Inr (PInteger i, 1)"
proof -
  let ?b = "ucast i :: byte"
  have sg: "signed ?b = i" using assms by (intro signed_ucast) simp_all
  have w: "?b = word_of_int (sint i)"
    by transfer (simp add: take_bit_take_bit take_bit_signed_take_bit min_def)
  have "uint (word_of_int s :: byte) = s mod 256" for s by (simp add: unsigned_of_int take_bit_eq_mod)
  with w have b: "uint ?b = sint i mod 256" by metis
  show ?thesis
  proof (cases "0 \<le> sint i")
    case True
    then have u: "uint ?b = sint i" using b assms(2) by simp
    have "word_of_int (sint i) = i" by simp
    then have "ucast ?b = i" using u by (metis ucast_eq)
    with u True assms(2) show ?thesis
      by (simp add: pack_decode.simps word_le_def word_uint_eq_iff)
  next
    case False
    then have "(sint i + 256) mod 256 = sint i + 256" using assms(1) by (intro mod_pos_pos_trivial) simp_all
    then have "sint i mod 256 = sint i + 256" by simp
    with b False assms(1) sg show ?thesis
      by (simp add: pack_decode.simps word_le_def word_uint_eq_iff)
  qed
qed

lemma integer_decodes: "pack_decode (encode_integer i @ rest) = Inr (PInteger i, length (encode_integer i))"
proof -
  let ?s = "sint i"
  consider "- 16 \<le> ?s \<and> ?s \<le> 127" | "\<not> (- 16 \<le> ?s \<and> ?s \<le> 127)" "- 128 \<le> ?s \<and> ?s \<le> 127"
    | "\<not> (- 128 \<le> ?s \<and> ?s \<le> 127)" "- 32768 \<le> ?s \<and> ?s \<le> 32767"
    | "\<not> (- 32768 \<le> ?s \<and> ?s \<le> 32767)" "- 2147483648 \<le> ?s \<and> ?s \<le> 2147483647"
    | "\<not> (- 2147483648 \<le> ?s \<and> ?s \<le> 2147483647)" by blast
  then show ?thesis
  proof cases
    case 1
    with tiny_integer [of i rest] show ?thesis by (simp add: encode_integer_def)
  next
    case 2
    then have "signed (ucast i :: byte) = i" by (intro signed_ucast) simp_all
    with 2 fixed_encoded [of 2 "[ucast i]"] show ?thesis by (simp add: encode_integer_def pack_decode.simps fixed_def)
  next
    case 3
    then have "signed (ucast i :: u16) = i" by (intro signed_ucast) simp_all
    with 3 show ?thesis by (auto simp: encode_integer_def pack_decode.simps fixed_encoded)
  next
    case 4
    then have "signed (ucast i :: u32) = i" by (intro signed_ucast) simp_all
    with 4 show ?thesis by (auto simp: encode_integer_def pack_decode.simps fixed_encoded)
  next
    case 5
    then show ?thesis by (auto simp: encode_integer_def pack_decode.simps fixed_encoded)
  qed
qed

lemma string_decodes:
  "utf8_valid s \<Longrightarrow> length s < 2 ^ 32 \<Longrightarrow> pack_decode (encode_string s @ rest) = Inr (PString s, length (encode_string s))"
  by (simp add: encode_string_def decode_string_marker decode_string_content_def)

lemma decode_items_encoded:
  assumes "\<And>v rest. v \<in> set vs \<Longrightarrow> pack_decode (pack_encode v @ rest) = Inr (v, length (pack_encode v))"
  shows "decode_items (length vs) (concat (map pack_encode vs) @ rest) = Inr (vs, length (concat (map pack_encode vs)))"
  using assms by (induction vs) simp_all

lemma update_new: "k \<notin> fst ` set acc \<Longrightarrow> AList.update k v acc = acc @ [(k, v)]"
  by (induction acc) auto

lemma decode_pairs_encoded:
  assumes "\<And>k v rest. (k, v) \<in> set m \<Longrightarrow> pack_decode (pack_encode v @ rest) = Inr (v, length (pack_encode v)) \<and>
      utf8_valid k \<and> length k < 2 ^ 32"
    and "distinct (map fst (acc @ m))"
  shows "decode_pairs (length m) (concat (map (\<lambda>(k, v). encode_string k @ pack_encode v) m) @ rest) acc =
    Inr (acc @ m, length (concat (map (\<lambda>(k, v). encode_string k @ pack_encode v) m)))"
  using assms
proof (induction m arbitrary: acc)
  case (Cons kv m)
  obtain k v where kv: "kv = (k, v)" by force
  let ?tail = "concat (map (\<lambda>(k, v). encode_string k @ pack_encode v) m)"
  have v: "\<And>rest. pack_decode (pack_encode v @ rest) = Inr (v, length (pack_encode v))" "utf8_valid k" "length k < 2 ^ 32"
    using Cons.prems(1) kv by auto
  have "k \<notin> fst ` set acc" using Cons.prems(2) kv by auto
  moreover have "decode_pairs (length m) (?tail @ rest) (acc @ [(k, v)]) = Inr ((acc @ [(k, v)]) @ m, length ?tail)"
    using Cons.prems kv by (intro Cons.IH) auto
  ultimately show ?case using string_decodes [OF v(2,3)] v(1) by (simp add: kv update_new)
qed simp

text \<open>C40: every value the encoding can represent (no byte strings, sizes within the 32-bit markers, distinct map
  keys) is read back as it was written, at the front of any buffer, and decoding reports exactly the bytes written.\<close>

theorem pack_roundtrip:
  "packable v \<Longrightarrow> pack_decode (pack_encode v @ rest) = Inr (v, length (pack_encode v))"
proof (induction v arbitrary: rest rule: pack_value.induct)
  case (PList vs)
  then have "decode_items (length vs) (concat (map pack_encode vs) @ rest) = Inr (vs, length (concat (map pack_encode vs)))"
    by (intro decode_items_encoded) (auto simp: list_all_iff)
  with PList.prems show ?case by (simp add: decode_list_marker with_header_def)
next
  case (PMap m)
  have "decode_pairs (length m) (concat (map (\<lambda>(k, v). encode_string k @ pack_encode v) m) @ rest) [] =
      Inr ([] @ m, length (concat (map (\<lambda>(k, v). encode_string k @ pack_encode v) m)))"
    using PMap by (intro decode_pairs_encoded) (fastforce simp: list_all_iff intro: snds.intros)+
  with PMap.prems show ?case by (simp add: decode_map_marker with_header_def)
next
  case (PStructure t vs)
  then have "decode_items (length vs) (concat (map pack_encode vs) @ rest) = Inr (vs, length (concat (map pack_encode vs)))"
    by (intro decode_items_encoded) (auto simp: list_all_iff)
  with PStructure.prems show ?case by (simp add: decode_struct_marker decode_struct_content_def with_header_def)
qed (simp_all add: integer_decodes string_decodes, simp_all add: pack_decode.simps fixed_encoded)

theorem pack_roundtrip_witness:
  "pack_decode (pack_encode (PMap [([97], PList [PInteger 5, PNull])]) @ [7]) =
    Inr (PMap [([97], PList [PInteger 5, PNull])], length (pack_encode (PMap [([97], PList [PInteger 5, PNull])])))"
  by (rule pack_roundtrip) simp

section \<open>Bounds\<close>

text \<open>A decoder that reads at least one byte and none past the end, so that every slice of the loops is in range.\<close>

definition within :: "nat \<Rightarrow> ('a \<times> nat) h2_result \<Rightarrow> bool" where
  "within n r \<longleftrightarrow> (\<forall>x k. r = Inr (x, k) \<longrightarrow> k \<le> n)"

named_theorems within_intros

lemma within_if [within_intros]:
  "(c \<Longrightarrow> within n a) \<Longrightarrow> (\<not> c \<Longrightarrow> within n b) \<Longrightarrow> within n (if c then a else b)"
  by simp

lemma within_result [within_intros]: "within n (Inl e)" "k \<le> n \<Longrightarrow> within n (Inr (x, k))"
  by (simp_all add: within_def)

lemma within_fixed [within_intros]: "within (length buf) (fixed msg buf n f)"
  by (simp add: within_def fixed_def)

lemma within_be_size [within_intros]:
  "(\<And>m. k < length buf \<Longrightarrow> within n (f m)) \<Longrightarrow> within n (be_size msg buf k f)"
  by (simp add: within_def be_size_def)

lemma within_string [within_intros]:
  "k < length buf \<Longrightarrow> within (length buf) (decode_string_content (drop (Suc k) buf) len (Suc k))"
  by (auto simp: within_def decode_string_content_def)

lemma within_with_header [within_intros]: "h \<le> n \<Longrightarrow> within (n - h) r \<Longrightarrow> within n (with_header f h r)"
  by (cases r) (auto simp: within_def with_header_def)

lemma within_struct [within_intros]:
  "k < length buf \<Longrightarrow> (Suc k < length buf \<Longrightarrow> within (length buf - Suc (Suc k)) (items n (drop (Suc (Suc k)) buf))) \<Longrightarrow>
   within (length buf) (decode_struct_content items (drop (Suc k) buf) n (Suc k))"
  unfolding decode_struct_content_def by (intro within_intros) (simp_all add: not_le)

lemma within_items:
  assumes "\<And>b. length b \<le> n \<Longrightarrow> within (length b) (pack_decode b)" and "length buf \<le> n"
  shows "within (length buf) (decode_items m buf)"
  using assms(2)
proof (induction m arbitrary: buf)
  case (Suc m)
  show ?case
  proof (cases "pack_decode buf")
    case (Inr p)
    obtain x k where p: "p = (x, k)" by force
    have "k \<le> length buf" using assms(1) [OF Suc.prems] Inr p by (simp add: within_def)
    moreover have "within (length (drop k buf)) (decode_items m (drop k buf))" using Suc.prems by (intro Suc.IH) simp
    ultimately show ?thesis
      using Inr p by (cases "decode_items m (drop k buf)") (auto simp: within_def)
  qed (simp add: within_def)
qed (simp add: within_def)

lemma res_bind_stuck: "\<forall>v j. r \<noteq> Inr (v, j) \<Longrightarrow> (res_bind r f = Inr y) = False"
  by (cases r) auto

lemma within_pairs:
  assumes "\<And>b. length b \<le> n \<Longrightarrow> within (length b) (pack_decode b)" and "length buf \<le> n"
  shows "within (length buf) (decode_pairs m buf acc)"
  using assms(2)
proof (induction m arbitrary: buf acc)
  case (Suc m)
  show ?case
  proof (cases "\<exists>s k v j. pack_decode buf = Inr (PString s, k) \<and> pack_decode (drop k buf) = Inr (v, j)")
    case True
    then obtain s k v j where d: "pack_decode buf = Inr (PString s, k)" "pack_decode (drop k buf) = Inr (v, j)" by blast
    have "k \<le> length buf" using assms(1) [OF Suc.prems] d(1) by (simp add: within_def)
    moreover have "j \<le> length (drop k buf)"
      using assms(1) [of "drop k buf"] Suc.prems d(2) by (simp add: within_def)
    moreover have "within (length (drop (k + j) buf)) (decode_pairs m (drop (k + j) buf) (AList.update s v acc))"
      using Suc.prems by (intro Suc.IH) simp
    ultimately show ?thesis
      using d by (cases "decode_pairs m (drop (k + j) buf) (AList.update s v acc)") (auto simp: within_def)
  next
    case False
    then show ?thesis
      by (cases "pack_decode buf") (auto simp: within_def res_bind_stuck split: prod.splits pack_value.splits)
  qed
qed (simp add: within_def)

lemma within_decode: "within (length buf) (pack_decode buf)"
proof (induction "length buf" arbitrary: buf rule: less_induct)
  case less
  show ?case
  proof (cases "buf = []")
    case False
    have IH: "length b \<le> length buf - Suc k \<Longrightarrow> within (length b) (pack_decode b)" for b k
      using less [of b] False by (cases buf) auto
    have items: "within (length buf - Suc k) (decode_items n (drop (Suc k) buf))" for n k
      using within_items [OF IH [of _ k], where buf = "drop (Suc k) buf" and m = n] by simp
    have pairs: "within (length buf - Suc k) (decode_pairs n (drop (Suc k) buf) acc)" for n k acc
      using within_pairs [OF IH [of _ k], where buf = "drop (Suc k) buf" and m = n and acc = acc] by simp
    show ?thesis
      using False unfolding pack_decode.simps [of buf] Let_def
      by (simp only: if_False) (intro within_intros items pairs; simp add: Suc_le_eq)
  qed (simp add: pack_decode.simps within_result)
qed

text \<open>Decoding never reports more bytes than the buffer holds, whatever the input, so that the loops over
  list items, map entries and structure fields slice the buffer in range.\<close>

theorem pack_decode_bounds: "pack_decode buf = Inr (v, n) \<Longrightarrow> n \<le> length buf"
  using within_decode [of buf] by (simp add: within_def)

text \<open>The encoder writes byte strings under markers the decoder has no arm for.\<close>

theorem bytes_not_readable: "pack_decode (pack_encode (PBytes b) @ rest) = Inl (Execution ''Unknown PackStream marker'')"
  by (simp add: encode_bytes_def pack_decode.simps Let_def)

end
