(* ===== verification/External_Sort.thy ===== *)
theory External_Sort
  imports Row_Codec Index_Scan "HOL-Library.Multiset"
begin

text \<open>
  \<^verbatim>\<open>ORDER BY\<close>: the external merge sort of \<^verbatim>\<open>crates/h2-sql/src/memory/external_sort.rs\<close> and the end of a query in
  \<^verbatim>\<open>crates/h2-sql/src/executor/query.rs\<close> (the comparison of rows, \<^verbatim>\<open>DISTINCT\<close>, \<^verbatim>\<open>OFFSET\<close> and \<^verbatim>\<open>LIMIT\<close>).  Rows are
  collected until the memory limit, sorted and written to a temporary file in their stored form; the files
  are merged with a heap.  The theorem: whatever the memory limit and whichever of equal rows the heap prefers,
  the result is a sorted permutation of the rows.
\<close>

section \<open>Temporary files\<close>

definition row_frame :: "('dec, 'date, 'time, 'ts, 'json) row_lib \<Rightarrow> ('dec, 'date, 'time, 'ts, 'json) val list \<Rightarrow> bytes" where
  "row_frame R row = (let bytes = row_to_bytes R row in u32_to_be_bytes (word_of_nat (length bytes)) @ bytes)"

text \<open>\<open>io\<close> is the error of the file system while the file is written, if there is one.\<close>

definition create_from_rows :: "('dec, 'date, 'time, 'ts, 'json) row_lib \<Rightarrow> string option \<Rightarrow>
    ('dec, 'date, 'time, 'ts, 'json) val list list \<Rightarrow> bytes h2_result" where
  "create_from_rows R io rows =
     (case io of Some msg \<Rightarrow> Inl (Storage msg) | None \<Rightarrow> Inr (concat (map (row_frame R) rows)))"

text \<open>The next row and the unread rest of the file; a file that ends inside the length counts as read.\<close>

definition next_row :: "('dec, 'date, 'time, 'ts, 'json) row_lib \<Rightarrow> bytes \<Rightarrow>
    (('dec, 'date, 'time, 'ts, 'json) val list option \<times> bytes) h2_result" where
  "next_row R run =
     (if length run < 4 then Inr (None, [])
      else let len = unat (u32_from_be_bytes (take 4 run)); body = drop 4 run in
           if length body < len then Inl (Storage ''failed to fill whole buffer'')
           else res_bind (row_from_bytes R (take len body)) (\<lambda>row. Inr (Some row, drop len body)))"

lemma next_row_shrinks:
  "next_row R run = Inr (Some row, run') \<Longrightarrow> length run' < length run"
  "next_row R run = Inr (None, run') \<Longrightarrow> run' = []"
  by (auto simp: next_row_def Let_def res_bind_eq_Inr split: if_splits)

section \<open>Sorting\<close>

text \<open>\<^verbatim>\<open>slice::sort_by\<close>, which is stable.\<close>

fun insert_by :: "('a \<Rightarrow> 'a \<Rightarrow> ordering) \<Rightarrow> 'a \<Rightarrow> 'a list \<Rightarrow> 'a list" where
  "insert_by cmp x [] = [x]"
| "insert_by cmp x (y # ys) = (if cmp x y = Greater then y # insert_by cmp x ys else x # y # ys)"

definition sort_by :: "('a \<Rightarrow> 'a \<Rightarrow> ordering) \<Rightarrow> 'a list \<Rightarrow> 'a list" where
  "sort_by cmp xs = foldr (insert_by cmp) xs []"

text \<open>\<open>so_runs\<close> has the unread bytes of the temporary files; \<open>io\<close> gives the error, if any, of the write of each file.\<close>

record ('dec, 'date, 'time, 'ts, 'json) external_sorter =
  so_work_mem :: nat
  so_buffer :: "('dec, 'date, 'time, 'ts, 'json) val list list"
  so_current_buffer_bytes :: nat
  so_runs :: "bytes list"
  so_total_rows :: nat

definition sorter_new :: "nat \<Rightarrow> ('dec, 'date, 'time, 'ts, 'json) external_sorter" where
  "sorter_new work_mem =
     \<lparr>so_work_mem = work_mem, so_buffer = [], so_current_buffer_bytes = 0, so_runs = [], so_total_rows = 0\<rparr>"

definition approx_row_bytes :: "('dec, 'date, 'time, 'ts, 'json) row_lib \<Rightarrow> ('dec, 'date, 'time, 'ts, 'json) val list \<Rightarrow> nat" where
  "approx_row_bytes R row =
     sum_list (map (\<lambda>v. case v of
         VString s \<Rightarrow> length s + 16 | VBytes b \<Rightarrow> length b + 16 | VJson j \<Rightarrow> length (json_to_string R j) + 16
       | _ \<Rightarrow> 16) row) + 24"

definition spill_buffer :: "('dec, 'date, 'time, 'ts, 'json) row_lib \<Rightarrow>
    (('dec, 'date, 'time, 'ts, 'json) val list \<Rightarrow> ('dec, 'date, 'time, 'ts, 'json) val list \<Rightarrow> ordering) \<Rightarrow>
    (nat \<Rightarrow> string option) \<Rightarrow> ('dec, 'date, 'time, 'ts, 'json) external_sorter \<Rightarrow>
    ('dec, 'date, 'time, 'ts, 'json) external_sorter h2_result" where
  "spill_buffer R cmp io s =
     (if so_buffer s = [] then Inr s
      else res_bind (create_from_rows R (io (length (so_runs s))) (sort_by cmp (so_buffer s))) (\<lambda>run.
           Inr (s\<lparr>so_runs := so_runs s @ [run], so_buffer := [], so_current_buffer_bytes := 0\<rparr>)))"

definition add_row :: "('dec, 'date, 'time, 'ts, 'json) row_lib \<Rightarrow>
    (('dec, 'date, 'time, 'ts, 'json) val list \<Rightarrow> ('dec, 'date, 'time, 'ts, 'json) val list \<Rightarrow> ordering) \<Rightarrow>
    (nat \<Rightarrow> string option) \<Rightarrow> ('dec, 'date, 'time, 'ts, 'json) external_sorter \<Rightarrow>
    ('dec, 'date, 'time, 'ts, 'json) val list \<Rightarrow> ('dec, 'date, 'time, 'ts, 'json) external_sorter h2_result" where
  "add_row R cmp io s row =
     (let s' = s\<lparr>so_buffer := so_buffer s @ [row],
                 so_current_buffer_bytes := so_current_buffer_bytes s + approx_row_bytes R row,
                 so_total_rows := so_total_rows s + 1\<rparr> in
      if so_work_mem s' \<le> so_current_buffer_bytes s' then spill_buffer R cmp io s' else Inr s')"

text \<open>The first row of every run enters the heap.\<close>

fun load_heap :: "('dec, 'date, 'time, 'ts, 'json) row_lib \<Rightarrow> nat \<Rightarrow> bytes list \<Rightarrow>
    ((('dec, 'date, 'time, 'ts, 'json) val list \<times> nat) list \<times> bytes list) h2_result" where
  "load_heap R i [] = Inr ([], [])"
| "load_heap R i (run # runs) =
     res_bind (next_row R run) (\<lambda>(first_row, run').
     res_bind (load_heap R (Suc i) runs) (\<lambda>(heap, runs').
       Inr ((case first_row of Some row \<Rightarrow> (row, i) # heap | None \<Rightarrow> heap), run' # runs')))"

text \<open>The bytes left in the runs and the entries of the heap bound the rounds of the merge.\<close>

lemma sum_list_update_nat:
  "i < length ns \<Longrightarrow> sum_list (ns[i := n]) + ns ! i = sum_list ns + n" for ns :: "nat list"
  by (induction ns arbitrary: i) (auto split: nat.splits)

lemma merge_measure:
  assumes "i < length heap" "k < length runs" "length r < length (runs ! k) \<or> r = []"
  shows "sum_list (map length (runs[k := r])) + length (take i heap @ drop (Suc i) heap) <
      sum_list (map length runs) + length heap"
    and "length r < length (runs ! k) \<Longrightarrow>
      sum_list (map length (runs[k := r])) + length (take i heap @ drop (Suc i) heap @ [e]) <
      sum_list (map length runs) + length heap"
  using assms sum_list_update_nat [of k "map length runs" "length r"] by (auto simp: map_update)

text \<open>
  \<^verbatim>\<open>BinaryHeap\<close> is the list of its entries.  Its \<^verbatim>\<open>pop\<close> removes a greatest entry, here one with a least row;
  which of several is not specified, so \<open>pop\<close> is any choice of a position, given the entries and the number of
  rows popped so far.
\<close>

function merge_loop :: "('dec, 'date, 'time, 'ts, 'json) row_lib \<Rightarrow>
    (nat \<Rightarrow> (('dec, 'date, 'time, 'ts, 'json) val list \<times> nat) list \<Rightarrow> nat) \<Rightarrow>
    (('dec, 'date, 'time, 'ts, 'json) val list \<times> nat) list \<Rightarrow> bytes list \<Rightarrow>
    ('dec, 'date, 'time, 'ts, 'json) val list list \<Rightarrow> ('dec, 'date, 'time, 'ts, 'json) val list list h2_result" where
  "merge_loop R pop heap runs result =
     (if heap = [] then Inr result
      else
        let i = pop (length result) heap mod length heap;
            heap' = take i heap @ drop (Suc i) heap;
            row = fst (heap ! i);
            run_idx = snd (heap ! i) in
        if \<not> run_idx < length runs then Inl (Panic)
        else case next_row R (runs ! run_idx) of
               Inl e \<Rightarrow> Inl e
             | Inr (None, run') \<Rightarrow> merge_loop R pop heap' (runs[run_idx := run']) (result @ [row])
             | Inr (Some next, run') \<Rightarrow>
                 merge_loop R pop (heap' @ [(next, run_idx)]) (runs[run_idx := run']) (result @ [row]))"
  by pat_completeness auto

termination
  by (relation "measure (\<lambda>(R, pop, heap, runs, result). sum_list (map length runs) + length heap)")
     (auto dest: next_row_shrinks simp: merge_measure simp del: length_append length_take length_drop)

declare merge_loop.simps [simp del]

definition sorter_finish :: "('dec, 'date, 'time, 'ts, 'json) row_lib \<Rightarrow>
    (('dec, 'date, 'time, 'ts, 'json) val list \<Rightarrow> ('dec, 'date, 'time, 'ts, 'json) val list \<Rightarrow> ordering) \<Rightarrow>
    (nat \<Rightarrow> (('dec, 'date, 'time, 'ts, 'json) val list \<times> nat) list \<Rightarrow> nat) \<Rightarrow>
    (nat \<Rightarrow> string option) \<Rightarrow> ('dec, 'date, 'time, 'ts, 'json) external_sorter \<Rightarrow>
    ('dec, 'date, 'time, 'ts, 'json) val list list h2_result" where
  "sorter_finish R cmp pop io s =
     (if so_runs s = [] then Inr (sort_by cmp (so_buffer s))
      else res_bind (spill_buffer R cmp io s) (\<lambda>s'.
           res_bind (load_heap R 0 (so_runs s')) (\<lambda>(heap, runs). merge_loop R pop heap runs [])))"

section \<open>Correctness of the sort\<close>

abbreviation ord_le :: "('a \<Rightarrow> 'a \<Rightarrow> ordering) \<Rightarrow> 'a \<Rightarrow> 'a \<Rightarrow> bool" where
  "ord_le cmp a b \<equiv> cmp a b \<noteq> Greater"

text \<open>A comparison that orders the rows of a set: total and transitive there.\<close>

definition orders :: "('a \<Rightarrow> 'a \<Rightarrow> ordering) \<Rightarrow> 'a set \<Rightarrow> bool" where
  "orders cmp A \<longleftrightarrow>
     (\<forall>a \<in> A. \<forall>b \<in> A. ord_le cmp a b \<or> ord_le cmp b a) \<and>
     (\<forall>a \<in> A. \<forall>b \<in> A. \<forall>c \<in> A. ord_le cmp a b \<longrightarrow> ord_le cmp b c \<longrightarrow> ord_le cmp a c)"

lemma orders_trans: "orders cmp A \<Longrightarrow> ord_le cmp a b \<Longrightarrow> ord_le cmp b c \<Longrightarrow> {a, b, c} \<subseteq> A \<Longrightarrow> ord_le cmp a c"
  unfolding orders_def by blast

lemma orders_flip: "orders cmp A \<Longrightarrow> cmp a b = Greater \<Longrightarrow> {a, b} \<subseteq> A \<Longrightarrow> ord_le cmp b a"
  unfolding orders_def by blast

lemma mset_insert_by [simp]: "mset (insert_by cmp x xs) = add_mset x (mset xs)"
  by (induction xs) auto

lemma set_insert_by [simp]: "set (insert_by cmp x xs) = insert x (set xs)"
  by (metis mset_insert_by set_mset_add_mset_insert set_mset_mset)

lemma sorted_insert_by:
  "orders cmp A \<Longrightarrow> insert x (set xs) \<subseteq> A \<Longrightarrow> sorted_wrt (ord_le cmp) xs \<Longrightarrow> sorted_wrt (ord_le cmp) (insert_by cmp x xs)"
proof (induction xs)
  case (Cons y ys)
  have "ord_le cmp x z" if "ord_le cmp x y" "z \<in> set ys" for z
    using Cons.prems that by (intro orders_trans [of cmp A x y z]) auto
  moreover have "ord_le cmp y x" if "cmp x y = Greater" using Cons.prems that by (intro orders_flip [of cmp A x y]) auto
  ultimately show ?case using Cons by auto
qed simp

lemma mset_sort_by [simp]: "mset (sort_by cmp xs) = mset xs"
  by (induction xs) (simp_all add: sort_by_def)

lemma set_sort_by [simp]: "set (sort_by cmp xs) = set xs"
  by (metis mset_sort_by set_mset_mset)

lemma sorted_sort_by: "orders cmp A \<Longrightarrow> set xs \<subseteq> A \<Longrightarrow> sorted_wrt (ord_le cmp) (sort_by cmp xs)"
proof (induction xs)
  case (Cons x xs)
  then have "sorted_wrt (ord_le cmp) (sort_by cmp xs)" by simp
  with Cons.prems have "sorted_wrt (ord_le cmp) (insert_by cmp x (sort_by cmp xs))"
    by (intro sorted_insert_by [of cmp A]) auto
  then show ?case by (simp add: sort_by_def)
qed (simp add: sort_by_def)

text \<open>Rows that can be written to a temporary file, and what reading the file returns.\<close>

definition fits :: "('dec, 'date, 'time, 'ts, 'json) row_lib \<Rightarrow> ('dec, 'date, 'time, 'ts, 'json) val list \<Rightarrow> bool" where
  "fits R row \<longleftrightarrow> list_all (storable R) row \<and> length row < 2 ^ 32 \<and> length (row_to_bytes R row) < 2 ^ 32"

abbreviation file_of :: "('dec, 'date, 'time, 'ts, 'json) row_lib \<Rightarrow> ('dec, 'date, 'time, 'ts, 'json) val list list \<Rightarrow> bytes" where
  "file_of R rows \<equiv> concat (map (row_frame R) rows)"

lemma next_row_file:
  "next_row R [] = Inr (None, [])"
  "fits R row \<Longrightarrow> next_row R (row_frame R row @ rest) = Inr (Some row, rest)"
  using row_reads_back [of R row]
  by (simp_all add: next_row_def row_frame_def fits_def Let_def u32_len)

lemma load_heap_files:
  "\<forall>rows \<in> set rss. \<forall>row \<in> set rows. fits R row \<Longrightarrow>
   load_heap R i (map (file_of R) rss) =
     Inr (map (\<lambda>(j, rows). (hd rows, j)) (filter (\<lambda>(j, rows). rows \<noteq> []) (enumerate i rss)), map (file_of R \<circ> tl) rss)"
proof (induction rss arbitrary: i)
  case (Cons rows rss)
  then show ?case by (cases rows) (simp_all add: next_row_file)
qed simp

text \<open>What \<^verbatim>\<open>BinaryHeap::pop\<close> promises: an entry whose row no other row precedes.\<close>

definition pops_least :: "('a \<Rightarrow> 'a \<Rightarrow> ordering) \<Rightarrow> 'a set \<Rightarrow> (nat \<Rightarrow> ('a \<times> nat) list \<Rightarrow> nat) \<Rightarrow> bool" where
  "pops_least cmp A pop \<longleftrightarrow>
     (\<forall>k heap. heap \<noteq> [] \<longrightarrow> fst ` set heap \<subseteq> A \<longrightarrow> pop k heap < length heap \<and>
        (\<forall>e \<in> set heap. ord_le cmp (fst (heap ! pop k heap)) (fst e)))"

text \<open>
  The state of the merge over the rows still in the files: every run with rows left has its least row in the heap.
\<close>

definition merge_ok :: "('a \<Rightarrow> 'a \<Rightarrow> ordering) \<Rightarrow> ('a \<times> nat) list \<Rightarrow> 'a list list \<Rightarrow> bool" where
  "merge_ok cmp heap rss \<longleftrightarrow>
     distinct (map snd heap) \<and>
     (\<forall>(r, i) \<in> set heap. i < length rss \<and> sorted_wrt (ord_le cmp) (r # rss ! i)) \<and>
     (\<forall>i < length rss. rss ! i \<noteq> [] \<longrightarrow> i \<in> snd ` set heap)"

definition merge_rows :: "('a \<times> nat) list \<Rightarrow> 'a list list \<Rightarrow> 'a multiset" where
  "merge_rows heap rss = mset (map fst heap) + mset (concat rss)"

lemma mset_concat_update:
  "i < length xss \<Longrightarrow> mset (concat (xss[i := ys])) + mset (xss ! i) = mset (concat xss) + mset ys"
  by (induction xss arbitrary: i) (auto split: nat.splits simp: ac_simps)

lemma heap_split:
  assumes "i < length heap" "heap ! i = (r, k)" "distinct (map snd heap)"
  shows "mset heap = add_mset (r, k) (mset (take i heap @ drop (Suc i) heap))"
    and "set heap = insert (r, k) (set (take i heap @ drop (Suc i) heap))"
    and "distinct (map snd (take i heap @ drop (Suc i) heap))" "k \<notin> snd ` set (take i heap @ drop (Suc i) heap)"
proof -
  have h: "heap = take i heap @ (r, k) # drop (Suc i) heap" using id_take_nth_drop [OF assms(1)] assms(2) by simp
  show "mset heap = add_mset (r, k) (mset (take i heap @ drop (Suc i) heap))" by (subst h) simp
  show "set heap = insert (r, k) (set (take i heap @ drop (Suc i) heap))" by (subst h) simp
  have "distinct (map snd (take i heap @ (r, k) # drop (Suc i) heap))" using h assms(3) by simp
  then show "distinct (map snd (take i heap @ drop (Suc i) heap))" "k \<notin> snd ` set (take i heap @ drop (Suc i) heap)"
    by auto
qed

text \<open>The least entry precedes every row that is left.\<close>

lemma least_precedes:
  assumes "orders cmp A" "merge_ok cmp heap rss" "set_mset (merge_rows heap rss) \<subseteq> A"
    and least: "\<forall>e \<in> set heap. ord_le cmp r (fst e)" and "r \<in> A" "x \<in># merge_rows heap rss"
  shows "ord_le cmp r x"
proof (cases "x \<in> fst ` set heap")
  case False
  then obtain rs where rs: "rs \<in> set rss" "x \<in> set rs" using assms(6) by (auto simp: merge_rows_def)
  then obtain i where i: "i < length rss" "x \<in> set (rss ! i)" by (auto simp: in_set_conv_nth)
  then have "i \<in> snd ` set heap" using assms(2) by (force simp: merge_ok_def)
  then obtain h where h: "(h, i) \<in> set heap" by force
  then have hx: "ord_le cmp h x" using assms(2) i(2) by (auto simp: merge_ok_def)
  have "ord_le cmp r h" using least h by force
  moreover have "h \<in> A" "x \<in> A" using assms(3,6) h by (force simp: merge_rows_def)+
  ultimately show ?thesis using hx assms(1,5) by (intro orders_trans [of cmp A r h x]) auto
qed (use least in force)

lemma merge_ok_pop:
  assumes ok: "merge_ok cmp heap rss"
    and heap: "set heap = insert (r, k) (set heap')" "distinct (map snd heap')" "k \<notin> snd ` set heap'"
  shows "k < length rss"
    and "rss ! k = [] \<Longrightarrow> merge_ok cmp heap' rss"
    and "rss ! k = r' # rs \<Longrightarrow> merge_ok cmp (heap' @ [(r', k)]) (rss[k := rs])"
proof -
  have entry: "i < length rss \<and> sorted_wrt (ord_le cmp) (h # rss ! i)" if "(h, i) \<in> insert (r, k) (set heap')" for h i
    using ok that unfolding merge_ok_def heap(1) by fast
  have cover: "i \<in> insert k (snd ` set heap')" if "i < length rss" "rss ! i \<noteq> []" for i
    using ok that unfolding merge_ok_def heap(1) by force
  show k: "k < length rss" using entry by blast
  show "merge_ok cmp heap' rss" if "rss ! k = []"
    using entry cover heap(2) that unfolding merge_ok_def by force
  show "merge_ok cmp (heap' @ [(r', k)]) (rss[k := rs])" if rs: "rss ! k = r' # rs"
    unfolding merge_ok_def
  proof (intro conjI ballI allI impI, goal_cases)
    case 1
    show ?case using heap(2,3) by auto
  next
    case (2 e)
    obtain h i where e: "e = (h, i)" by force
    show ?case
    proof (cases "i = k")
      case True
      then have "(h, i) = (r', k)" using 2 heap(3) e by force
      with entry [of r k] rs show ?thesis unfolding e by auto
    next
      case False
      with 2 e entry [of h i] show ?thesis by auto
    qed
  next
    case (3 i)
    then show ?case using cover [of i] by (cases "i = k") auto
  qed
qed

lemma merge_rows_step:
  assumes "i < length heap" "heap ! i = (r, k)" "distinct (map snd heap)" "k < length rss"
  shows "merge_rows heap rss = add_mset r (merge_rows (take i heap @ drop (Suc i) heap) rss)"
    and "rss ! k = r' # rs \<Longrightarrow>
      merge_rows heap rss = add_mset r (merge_rows ((take i heap @ drop (Suc i) heap) @ [(r', k)]) (rss[k := rs]))"
proof -
  have "mset (map fst heap) = add_mset r (mset (map fst (take i heap @ drop (Suc i) heap)))"
    using heap_split(1) [OF assms(1-3)] by (metis fst_conv image_mset_add_mset mset_map)
  then show "merge_rows heap rss = add_mset r (merge_rows (take i heap @ drop (Suc i) heap) rss)"
    and "rss ! k = r' # rs \<Longrightarrow>
      merge_rows heap rss = add_mset r (merge_rows ((take i heap @ drop (Suc i) heap) @ [(r', k)]) (rss[k := rs]))"
    using mset_concat_update [OF assms(4), of rs] by (simp_all add: merge_rows_def)
qed

lemma merge_ok_heap_nonempty:
  assumes "merge_ok cmp heap rss" "merge_rows heap rss \<noteq> {#}"
  shows "heap \<noteq> []"
proof
  assume "heap = []"
  then have "\<forall>i < length rss. rss ! i = []" using assms(1) by (auto simp: merge_ok_def)
  then have "concat rss = []" by (auto simp: in_set_conv_nth)
  with \<open>heap = []\<close> assms(2) show False by (simp add: merge_rows_def)
qed

lemma pops_least_entry:
  assumes "pops_least cmp A pop" "heap \<noteq> []" "fst ` set heap \<subseteq> A"
  obtains i r k where "pop n heap = i" "i < length heap" "heap ! i = (r, k)" "\<forall>e \<in> set heap. ord_le cmp r (fst e)"
proof -
  obtain r k where rk: "heap ! pop n heap = (r, k)" by force
  have "pop n heap < length heap" "\<forall>e \<in> set heap. ord_le cmp (fst (heap ! pop n heap)) (fst e)"
    using assms unfolding pops_least_def by blast+
  with rk that show thesis by simp
qed

lemma merge_loop_step:
  assumes "pop (length result) heap = i" "i < length heap" "heap ! i = (r, k)" "k < length rss"
    and "\<forall>rows \<in> set rss. \<forall>row \<in> set rows. fits R row"
  shows "merge_loop R pop heap (map (file_of R) rss) result =
    (case rss ! k of
       [] \<Rightarrow> merge_loop R pop (take i heap @ drop (Suc i) heap) (map (file_of R) rss) (result @ [r])
     | r' # rs \<Rightarrow> merge_loop R pop ((take i heap @ drop (Suc i) heap) @ [(r', k)]) (map (file_of R) (rss[k := rs])) (result @ [r]))"
proof -
  have ne: "heap \<noteq> []" using assms(2) by auto
  show ?thesis
  proof (cases "rss ! k")
    case Nil
    have "(map (file_of R) rss)[k := []] = map (file_of R) rss"
      using list_update_id [of "map (file_of R) rss" k] assms(4) Nil by simp
    moreover have "file_of R (rss ! k) = []" using Nil by simp
    ultimately show ?thesis
      using assms(1-4) ne Nil unfolding merge_loop.simps [of R pop heap] by (simp add: next_row_file(1))
  next
    case (Cons r' rs)
    then have "fits R r'" using assms(4,5) by (metis list.set_intros(1) nth_mem)
    then have "next_row R (file_of R (rss ! k)) = Inr (Some r', file_of R rs)" by (simp add: Cons next_row_file(2))
    with assms(1-4) ne Cons show ?thesis unfolding merge_loop.simps [of R pop heap] by (simp add: map_update)
  qed
qed

lemma merge_loop_sorts:
  assumes "orders cmp A" "pops_least cmp A pop" "merge_ok cmp heap rss" "set_mset (merge_rows heap rss) \<subseteq> A"
    and "\<forall>rows \<in> set rss. \<forall>row \<in> set rows. fits R row"
  shows "\<exists>out. merge_loop R pop heap (map (file_of R) rss) result = Inr (result @ out) \<and>
    mset out = merge_rows heap rss \<and> sorted_wrt (ord_le cmp) out"
  using assms(3-)
proof (induction "size (merge_rows heap rss)" arbitrary: heap rss result)
  case 0
  then have "heap = []" "concat rss = []" by (auto simp: merge_rows_def)
  then show ?case by (auto simp: merge_loop.simps merge_rows_def simp del: concat_eq_Nil_conv)
next
  case (Suc n)
  have "heap \<noteq> []" using Suc.prems(1) Suc.hyps(2) by (intro merge_ok_heap_nonempty) auto
  moreover have "fst ` set heap \<subseteq> A" using Suc.prems(2) by (auto simp: merge_rows_def)
  ultimately obtain i r k where i: "pop (length result) heap = i" "i < length heap" "heap ! i = (r, k)"
    "\<forall>e \<in> set heap. ord_le cmp r (fst e)" using pops_least_entry [OF assms(2), of heap "length result"] by blast
  let ?heap = "take i heap @ drop (Suc i) heap"
  have d: "distinct (map snd heap)" using Suc.prems(1) by (simp add: merge_ok_def)
  note pop = merge_ok_pop [OF Suc.prems(1) heap_split(2-4) [OF i(2,3) d]]
  note rows = merge_rows_step [OF i(2,3) d pop(1)] and loop = merge_loop_step [where R = R and rss = rss and pop = pop and heap = heap and result = result, OF i(1-3) pop(1) Suc.prems(3)]
  have "r \<in> A" using rows(1) Suc.prems(2) by auto
  then have precedes: "ord_le cmp r x" if "x \<in># merge_rows heap rss" for x
    using least_precedes [OF assms(1) Suc.prems(1,2) i(4) _ that] by blast
  show ?case
  proof (cases "rss ! k")
    case Nil
    obtain out where "merge_loop R pop ?heap (map (file_of R) rss) (result @ [r]) = Inr ((result @ [r]) @ out)"
      "mset out = merge_rows ?heap rss" "sorted_wrt (ord_le cmp) out"
      using Suc.hyps(1) [of ?heap rss "result @ [r]"] Suc.hyps(2) Suc.prems(2,3) pop(2) Nil rows(1) by auto
    then show ?thesis using loop Nil rows(1) precedes
      by (intro exI [of _ "r # out"]) (auto simp flip: set_mset_mset)
  next
    case (Cons r' rs)
    have fit: "\<forall>rows \<in> set (rss[k := rs]). \<forall>row \<in> set rows. fits R row"
      using Suc.prems(3) Cons pop(1) by (metis list.set_intros(2) nth_mem set_update_subset_insert insertE subsetD)
    note rows' = rows(2) [OF Cons]
    obtain out where "merge_loop R pop (?heap @ [(r', k)]) (map (file_of R) (rss[k := rs])) (result @ [r]) = Inr ((result @ [r]) @ out)"
      "mset out = merge_rows (?heap @ [(r', k)]) (rss[k := rs])" "sorted_wrt (ord_le cmp) out"
      using Suc.hyps(1) [of "?heap @ [(r', k)]" "rss[k := rs]" "result @ [r]"] Suc.hyps(2) Suc.prems(2) pop(3) [OF Cons] fit rows'
      by auto
    then show ?thesis using loop Cons rows' precedes
      by (intro exI [of _ "r # out"]) (auto simp flip: set_mset_mset)
  qed
qed

text \<open>The sorter while rows are added: sorted runs in the files, the other rows in the buffer.\<close>

definition sorter_ok :: "('dec, 'date, 'time, 'ts, 'json) row_lib \<Rightarrow>
    (('dec, 'date, 'time, 'ts, 'json) val list \<Rightarrow> ('dec, 'date, 'time, 'ts, 'json) val list \<Rightarrow> ordering) \<Rightarrow>
    ('dec, 'date, 'time, 'ts, 'json) val list set \<Rightarrow> ('dec, 'date, 'time, 'ts, 'json) val list list \<Rightarrow>
    ('dec, 'date, 'time, 'ts, 'json) external_sorter \<Rightarrow> bool" where
  "sorter_ok R cmp A rows s \<longleftrightarrow>
     (\<exists>rss. so_runs s = map (file_of R) rss \<and> (\<forall>rs \<in> set rss. sorted_wrt (ord_le cmp) rs) \<and>
        mset (concat rss) + mset (so_buffer s) = mset rows) \<and>
     (\<forall>row \<in> set rows. row \<in> A \<and> fits R row)"

text \<open>A failure of the sort is a failure of the file system.\<close>

definition disk_error :: "(nat \<Rightarrow> string option) \<Rightarrow> h2_error \<Rightarrow> bool" where
  "disk_error io e \<longleftrightarrow> (\<exists>k msg. io k = Some msg \<and> e = Storage msg)"

lemma spill_ok:
  assumes "orders cmp A" "sorter_ok R cmp A rows s"
  shows "case spill_buffer R cmp io s of Inl e \<Rightarrow> disk_error io e | Inr s' \<Rightarrow> sorter_ok R cmp A rows s' \<and> so_buffer s' = []"
proof (cases "so_buffer s = []")
  case False
  obtain rss where rss: "so_runs s = map (file_of R) rss" "\<forall>rs \<in> set rss. sorted_wrt (ord_le cmp) rs"
    "mset (concat rss) + mset (so_buffer s) = mset rows" using assms(2) unfolding sorter_ok_def by blast
  have "set_mset (mset (concat rss) + mset (so_buffer s)) \<subseteq> A" using assms(2) unfolding rss(3) by (auto simp: sorter_ok_def)
  then have "sorted_wrt (ord_le cmp) (sort_by cmp (so_buffer s))" using assms(1) by (intro sorted_sort_by) auto
  with rss have "\<exists>rss'. map (file_of R) rss @ [file_of R (sort_by cmp (so_buffer s))] = map (file_of R) rss' \<and>
      (\<forall>rs \<in> set rss'. sorted_wrt (ord_le cmp) rs) \<and> mset (concat rss') = mset rows"
    by (intro exI [of _ "rss @ [sort_by cmp (so_buffer s)]"]) auto
  with False rss(1) assms(2) show ?thesis
    by (auto simp: spill_buffer_def create_from_rows_def disk_error_def sorter_ok_def split: option.splits)
qed (use assms(2) in \<open>simp add: spill_buffer_def\<close>)

lemma add_row_ok:
  assumes "orders cmp A" "sorter_ok R cmp A rows s" "row \<in> A" "fits R row"
  shows "case add_row R cmp io s row of Inl e \<Rightarrow> disk_error io e | Inr s' \<Rightarrow> sorter_ok R cmp A (rows @ [row]) s'"
proof -
  let ?s = "s\<lparr>so_buffer := so_buffer s @ [row], so_current_buffer_bytes := so_current_buffer_bytes s + approx_row_bytes R row,
     so_total_rows := so_total_rows s + 1\<rparr>"
  have ok: "sorter_ok R cmp A (rows @ [row]) ?s" using assms(2-4) by (auto simp: sorter_ok_def)
  from spill_ok [OF assms(1) ok, of io] show ?thesis
    using ok by (auto simp: add_row_def Let_def split: sum.splits)
qed

text \<open>The loop that adds the rows of a query.\<close>

fun add_rows :: "('dec, 'date, 'time, 'ts, 'json) row_lib \<Rightarrow>
    (('dec, 'date, 'time, 'ts, 'json) val list \<Rightarrow> ('dec, 'date, 'time, 'ts, 'json) val list \<Rightarrow> ordering) \<Rightarrow>
    (nat \<Rightarrow> string option) \<Rightarrow> ('dec, 'date, 'time, 'ts, 'json) external_sorter \<Rightarrow>
    ('dec, 'date, 'time, 'ts, 'json) val list list \<Rightarrow> ('dec, 'date, 'time, 'ts, 'json) external_sorter h2_result" where
  "add_rows R cmp io s [] = Inr s"
| "add_rows R cmp io s (row # rows) = res_bind (add_row R cmp io s row) (\<lambda>s'. add_rows R cmp io s' rows)"

lemma add_rows_ok:
  "orders cmp A \<Longrightarrow> sorter_ok R cmp A done s \<Longrightarrow> \<forall>row \<in> set rows. row \<in> A \<and> fits R row \<Longrightarrow>
   case add_rows R cmp io s rows of Inl e \<Rightarrow> disk_error io e | Inr s' \<Rightarrow> sorter_ok R cmp A (done @ rows) s'"
proof (induction rows arbitrary: s "done")
  case (Cons row rows)
  show ?case
  proof (cases "add_row R cmp io s row")
    case (Inr s')
    with add_row_ok [OF Cons.prems(1,2), of row io] Cons.prems(3) have "sorter_ok R cmp A (done @ [row]) s'" by simp
    from Cons.IH [OF Cons.prems(1) this] Cons.prems(3) Inr show ?thesis by (simp split: sum.splits)
  qed (use add_row_ok [OF Cons.prems(1,2), of row io] Cons.prems(3) in simp)
qed simp

text \<open>The heap after loading the first rows.\<close>

lemma merge_ok_start:
  assumes "\<forall>rs \<in> set rss. sorted_wrt (ord_le cmp) rs"
  shows "merge_ok cmp (map (\<lambda>(j, rows). (hd rows, j)) (filter (\<lambda>(j, rows). rows \<noteq> []) (enumerate 0 rss))) (map tl rss)"
proof -
  have "sorted_wrt (ord_le cmp) (tl (rss ! j)) \<and> (\<forall>x \<in> set (tl (rss ! j)). ord_le cmp (hd (rss ! j)) x)"
    if "j < length rss" "rss ! j \<noteq> []" for j
  proof -
    have "sorted_wrt (ord_le cmp) (rss ! j)" using assms that(1) by simp
    then show ?thesis using that(2) by (cases "rss ! j") simp_all
  qed
  moreover have "distinct (map fst (filter (\<lambda>(j, rows). rows \<noteq> []) (enumerate 0 rss)))"
    by (rule distinct_map_filter) simp
  ultimately show ?thesis
    unfolding merge_ok_def by (auto simp: in_set_enumerate_eq image_iff comp_def case_prod_unfold split: prod.splits intro!: bexI)
qed

lemma merge_rows_start:
  "merge_rows (map (\<lambda>(j, rows). (hd rows, j)) (filter (\<lambda>(j, rows). rows \<noteq> []) (enumerate i rss))) (map tl rss) = mset (concat rss)"
proof (induction rss arbitrary: i)
  case (Cons rows rss)
  then show ?case by (cases rows) (auto simp: merge_rows_def)
qed (simp add: merge_rows_def)

lemma in_set_tlD: "x \<in> set (tl xs) \<Longrightarrow> x \<in> set xs"
  by (cases xs) auto

lemma finish_ok:
  assumes "orders cmp A" "pops_least cmp A pop" "sorter_ok R cmp A rows s"
  shows "case sorter_finish R cmp pop io s of
      Inl e \<Rightarrow> disk_error io e | Inr out \<Rightarrow> mset out = mset rows \<and> sorted_wrt (ord_le cmp) out"
proof (cases "so_runs s = []")
  case True
  with assms(3) have "mset (so_buffer s) = mset rows" "set rows \<subseteq> A" by (auto simp: sorter_ok_def)
  moreover from this have "set (so_buffer s) \<subseteq> A" by (metis mset_eq_setD)
  ultimately show ?thesis using True sorted_sort_by [OF assms(1)] by (simp add: sorter_finish_def)
next
  case False
  show ?thesis
  proof (cases "spill_buffer R cmp io s")
    case (Inr s')
    with spill_ok [OF assms(1,3), of io] have ok: "sorter_ok R cmp A rows s'" "so_buffer s' = []" by auto
    then obtain rss where rss: "so_runs s' = map (file_of R) rss" "\<forall>rs \<in> set rss. sorted_wrt (ord_le cmp) rs"
      "mset (concat rss) = mset rows" unfolding sorter_ok_def by auto
    have rows: "\<forall>rows \<in> set rss. \<forall>row \<in> set rows. fits R row \<and> row \<in> A"
      using ok(1) mset_eq_setD [OF rss(3)] by (auto simp: sorter_ok_def)
    let ?heap = "map (\<lambda>(j, rows). (hd rows, j)) (filter (\<lambda>(j, rows). rows \<noteq> []) (enumerate 0 rss))"
    have tls: "\<forall>rows \<in> set (map tl rss). \<forall>row \<in> set rows. fits R row"
      using rows by (auto dest: in_set_tlD)
    obtain out where out: "merge_loop R pop ?heap (map (file_of R) (map tl rss)) [] = Inr ([] @ out)"
      "mset out = merge_rows ?heap (map tl rss)" "sorted_wrt (ord_le cmp) out"
      using merge_loop_sorts [OF assms(1,2) merge_ok_start [OF rss(2)] _ tls, of "[]"] rows unfolding merge_rows_start by auto
    have "load_heap R 0 (so_runs s') = Inr (?heap, map (file_of R) (map tl rss))"
      using load_heap_files [of rss R 0] rows rss(1) by simp
    with out rss(3) show ?thesis using False Inr by (simp add: sorter_finish_def merge_rows_start)
  qed (use spill_ok [OF assms(1,3), of io] False in \<open>simp add: sorter_finish_def\<close>)
qed

section \<open>\<^verbatim>\<open>ORDER BY\<close>\<close>

fun reverse_ordering :: "ordering \<Rightarrow> ordering" where
  "reverse_ordering Less = Greater"
| "reverse_ordering Equal = Equal"
| "reverse_ordering Greater = Less"

text \<open>The value of an order expression: an error counts as \<^verbatim>\<open>NULL\<close>.\<close>

definition order_value :: "('dec, 'date::linorder, 'time::linorder, 'ts::linorder, 'json) lib \<Rightarrow>
    ('dec, 'date, 'time, 'ts, 'json) row_context \<Rightarrow> expr \<Rightarrow> ('dec, 'date, 'time, 'ts, 'json) val list \<Rightarrow>
    ('dec, 'date, 'time, 'ts, 'json) val" where
  "order_value L ctx e row = (case evaluate_expr_context L ctx row e of Inr v \<Rightarrow> v | Inl _ \<Rightarrow> VNull)"

text \<open>The comparison closure; the flag of an expression is \<^verbatim>\<open>asc\<close>.\<close>

fun order_cmp :: "('dec, 'date::linorder, 'time::linorder, 'ts::linorder, 'json) lib \<Rightarrow>
    ('dec, 'date, 'time, 'ts, 'json) row_context \<Rightarrow> (expr \<times> bool option) list \<Rightarrow>
    ('dec, 'date, 'time, 'ts, 'json) val list \<Rightarrow> ('dec, 'date, 'time, 'ts, 'json) val list \<Rightarrow> ordering" where
  "order_cmp L ctx [] a b = Equal"
| "order_cmp L ctx ((e, asc) # os) a b =
     (let ord = (case partial_cmp L (order_value L ctx e a) (order_value L ctx e b) of Some c \<Rightarrow> c | None \<Rightarrow> Equal);
          is_asc = (case asc of Some d \<Rightarrow> d | None \<Rightarrow> True);
          ord' = (if is_asc then ord else reverse_ordering ord) in
      if ord' \<noteq> Equal then ord' else order_cmp L ctx os a b)"

definition order_by_rows :: "('dec, 'date::linorder, 'time::linorder, 'ts::linorder, 'json) row_lib \<Rightarrow>
    ('dec, 'date, 'time, 'ts, 'json) row_context \<Rightarrow> (expr \<times> bool option) list \<Rightarrow> nat \<Rightarrow>
    (nat \<Rightarrow> (('dec, 'date, 'time, 'ts, 'json) val list \<times> nat) list \<Rightarrow> nat) \<Rightarrow> (nat \<Rightarrow> string option) \<Rightarrow>
    ('dec, 'date, 'time, 'ts, 'json) val list list \<Rightarrow> ('dec, 'date, 'time, 'ts, 'json) val list list h2_result" where
  "order_by_rows R ctx os work_mem pop io rows =
     (let cmp = order_cmp (lib.truncate R) ctx os in
      res_bind (add_rows R cmp io (sorter_new work_mem) rows) (sorter_finish R cmp pop io))"

text \<open>Values that can be ordered with each other: of one type, or null.\<close>

definition sortable :: "('dec, 'date::linorder, 'time::linorder, 'ts::linorder, 'json) lib \<Rightarrow>
    ('dec, 'date, 'time, 'ts, 'json) val set \<Rightarrow> bool" where
  "sortable L V \<longleftrightarrow> (\<forall>v \<in> V. comparable L v) \<and> (\<forall>v \<in> V. \<forall>w \<in> V. like_typed L v w)"

lemma order_cmp_le:
  assumes "partial_cmp L (order_value L ctx e a) (order_value L ctx e b) = Some (cmp_key ka kb)"
  shows "ord_le (order_cmp L ctx ((e, asc) # os)) a b \<longleftrightarrow>
    (if asc = Some False then kb < ka else ka < kb) \<or> ka = kb \<and> ord_le (order_cmp L ctx os) a b"
  using assms by (auto simp: Let_def cmp_key_def split: option.splits)

lemma order_cmp_orders:
  assumes "lib_ok L" "\<forall>(e, asc) \<in> set os. sortable L (order_value L ctx e ` A)"
  shows "orders (order_cmp L ctx os) A"
  using assms(2)
proof (induction os)
  case (Cons oe os)
  obtain e asc where oe: "oe = (e, asc)" by force
  define k where "k a = enc L (order_value L ctx e a)" for a
  have key: "partial_cmp L (order_value L ctx e a) (order_value L ctx e b) = Some (cmp_key (k a) (k b))"
    if "a \<in> A" "b \<in> A" for a b
    using Cons.prems that enc_order_null [OF assms(1)] by (simp add: oe k_def sortable_def)
  have IH: "orders (order_cmp L ctx os) A" using Cons by simp
  show ?case
    unfolding orders_def oe
  proof (intro conjI ballI impI, goal_cases)
    case (1 a b)
    have "ord_le (order_cmp L ctx os) a b \<or> ord_le (order_cmp L ctx os) b a"
      using IH 1 unfolding orders_def by blast
    then show ?case
      using linorder_less_linear [of "k a" "k b"]
      unfolding order_cmp_le [OF key [OF 1]] order_cmp_le [OF key [OF 1(2,1)]] by auto
  next
    case (2 a b c)
    then show ?case
      using orders_trans [OF IH, of a b c]
      unfolding order_cmp_le [OF key [OF 2(1,2)]] order_cmp_le [OF key [OF 2(2,3)]] order_cmp_le [OF key [OF 2(1,3)]]
      by (auto split: if_splits)
  qed
qed (simp add: orders_def)


text \<open>A heap that pops the first of the least entries; it shows that an order always has such a heap.\<close>

definition pop_first :: "('a \<Rightarrow> 'a \<Rightarrow> ordering) \<Rightarrow> nat \<Rightarrow> ('a \<times> nat) list \<Rightarrow> nat" where
  "pop_first cmp k heap = length (takeWhile (\<lambda>e. \<exists>e' \<in> set heap. cmp (fst e) (fst e') = Greater) heap)"

lemma orders_least:
  "orders cmp A \<Longrightarrow> xs \<noteq> [] \<Longrightarrow> set xs \<subseteq> A \<Longrightarrow> \<exists>m \<in> set xs. \<forall>x \<in> set xs. ord_le cmp m x"
proof (induction xs)
  case (Cons y ys)
  have self: "ord_le cmp y y" using orders_flip [OF Cons.prems(1), of y y] Cons.prems(3) by auto
  show ?case
  proof (cases "ys = []")
    case False
    then obtain m where m: "m \<in> set ys" "\<forall>x \<in> set ys. ord_le cmp m x" using Cons by auto
    show ?thesis
    proof (cases "cmp m y = Greater")
      case True
      then have "ord_le cmp y m" using Cons.prems m(1) by (intro orders_flip [of cmp A m y]) auto
      then have "ord_le cmp y x" if "x \<in> set ys" for x
        using orders_trans [OF Cons.prems(1), of y m x] m that Cons.prems(3) by auto
      with self show ?thesis by auto
    qed (use m in auto)
  qed (use self in simp)
qed simp

lemma length_takeWhile_less: "x \<in> set xs \<Longrightarrow> \<not> P x \<Longrightarrow> length (takeWhile P xs) < length xs"
  by (induction xs) auto

lemma pop_first_least: "orders cmp A \<Longrightarrow> pops_least cmp A (pop_first cmp)"
  unfolding pops_least_def
proof (intro allI impI, goal_cases)
  case (1 k heap)
  let ?P = "\<lambda>e. \<exists>e' \<in> set heap. cmp (fst e) (fst e') = Greater"
  obtain m where m: "m \<in> fst ` set heap" "\<forall>x \<in> fst ` set heap. ord_le cmp m x"
    using orders_least [OF 1(1), of "map fst heap"] 1(2,3) by auto
  then obtain e where "e \<in> set heap" "\<not> ?P e" by force
  then have less: "length (takeWhile ?P heap) < length heap" by (rule length_takeWhile_less)
  then have "\<not> ?P (heap ! length (takeWhile ?P heap))" by (rule nth_length_takeWhile)
  with less show ?case by (auto simp: pop_first_def)
qed

section \<open>The end of a query\<close>

text \<open>\<^verbatim>\<open>DISTINCT\<close>: a row is kept unless a row kept before equals it.\<close>

fun distinct_rows :: "('dec, 'date::linorder, 'time::linorder, 'ts::linorder, 'json) lib \<Rightarrow>
    ('dec, 'date, 'time, 'ts, 'json) val list list \<Rightarrow> ('dec, 'date, 'time, 'ts, 'json) val list list \<Rightarrow>
    ('dec, 'date, 'time, 'ts, 'json) val list list" where
  "distinct_rows L seen [] = []"
| "distinct_rows L seen (row # rows) =
     (if list_ex (\<lambda>s. values_eq L s row) seen then distinct_rows L seen rows
      else row # distinct_rows L (seen @ [row]) rows)"

text \<open>The value of \<^verbatim>\<open>OFFSET\<close> or \<^verbatim>\<open>LIMIT\<close>; a negative number counts as zero.\<close>

definition page_number :: "('dec, 'date, 'time, 'ts, 'json) lib \<Rightarrow> string \<Rightarrow> expr \<Rightarrow> nat h2_result" where
  "page_number L msg e =
     res_bind (evaluate_literal_or_unary L e) (\<lambda>v. case v of
         VTinyInt n \<Rightarrow> Inr (nat (max 0 (sint n)))
       | VSmallInt n \<Rightarrow> Inr (nat (max 0 (sint n)))
       | VInteger n \<Rightarrow> Inr (nat (max 0 (sint n)))
       | VBigInt n \<Rightarrow> Inr (nat (max 0 (sint n)))
       | _ \<Rightarrow> Inl (Execution msg))"

definition select_tail :: "('dec, 'date::linorder, 'time::linorder, 'ts::linorder, 'json) lib \<Rightarrow> bool \<Rightarrow> expr option \<Rightarrow>
    expr option \<Rightarrow> nat \<Rightarrow> ('dec, 'date, 'time, 'ts, 'json) val list list \<Rightarrow> ('dec, 'date, 'time, 'ts, 'json) val list list h2_result" where
  "select_tail L is_distinct offset limit max_rows rows =
     (let final_rows = (if is_distinct then distinct_rows L [] rows else rows) in
      res_bind (case offset of Some e \<Rightarrow> page_number L ''OFFSET must be an integer'' e | None \<Rightarrow> Inr 0) (\<lambda>offset_num.
      res_bind (case limit of
                  Some e \<Rightarrow> res_bind (page_number L ''LIMIT must be an integer'' e) (\<lambda>n. Inr (Some n))
                | None \<Rightarrow> Inr None) (\<lambda>limit_num.
        let page = (case limit_num of Some lim \<Rightarrow> take lim (drop offset_num final_rows) | None \<Rightarrow> drop offset_num final_rows) in
        if 0 < max_rows \<and> max_rows < length page
        then Inl (Execution ''Query exceeded maximum materialized row limit'')
        else Inr page)))"

lemma distinct_rows_spec:
  "(\<forall>s \<in> set seen. \<forall>t \<in> set (distinct_rows L seen rows). \<not> values_eq L s t) \<and>
   sorted_wrt (\<lambda>s t. \<not> values_eq L s t) (distinct_rows L seen rows) \<and>
   (\<forall>r \<in> set rows. r \<in> set (distinct_rows L seen rows) \<or> (\<exists>s \<in> set seen \<union> set (distinct_rows L seen rows). values_eq L s r))"
proof (induction rows arbitrary: seen)
  case (Cons row rows)
  show ?case
  proof (cases "list_ex (\<lambda>s. values_eq L s row) seen")
    case True
    then show ?thesis using Cons [of seen] by (auto simp: list_ex_iff)
  next
    case False
    then show ?thesis using Cons [of "seen @ [row]"] by (fastforce simp: list_ex_iff)
  qed
qed simp

text \<open>The page of a query is a segment of its rows.\<close>

lemma select_tail_pages:
  assumes "page_number L ''OFFSET must be an integer'' oe = Inr n" "page_number L ''LIMIT must be an integer'' le = Inr m"
  shows "select_tail L d (Some oe) (Some le) 0 rows = Inr (take m (drop n (if d then distinct_rows L [] rows else rows)))"
  using assms by (simp add: select_tail_def)

section \<open>A concrete query\<close>


end
