(* ===== verification/Query_Memory.thy ===== *)
theory Query_Memory
  imports KV_Interface
begin

text \<open>
  Memory of queries (\<^verbatim>\<open>crates/h2-sql/src/memory/admission.rs\<close>, \<^verbatim>\<open>tracker.rs\<close>, \<^verbatim>\<open>config.rs\<close>): the coordinator that
  grants memory from a pool and lets queries wait for it, the tracker of one query and the settings.  The
  theorems are about any interleaving of queries that ask, wait, give up and release: the pool is never
  overcommitted, its counter is the sum of the grants, and no query sleeps while its request fits and nobody is
  about to wake it.
\<close>

section \<open>Settings and tracker\<close>

record memory_config =
  max_materialized_rows :: u64
  work_mem :: u64
  total_query_memory :: u64

definition memory_config_default :: memory_config where
  "memory_config_default =
     \<lparr>max_materialized_rows = 100000, work_mem = 4 * 1024 * 1024, total_query_memory = 128 * 1024 * 1024\<rparr>"

definition set_max_materialized_rows :: "memory_config \<Rightarrow> u64 \<Rightarrow> memory_config" where
  "set_max_materialized_rows cfg rows = cfg\<lparr>max_materialized_rows := rows\<rparr>"

definition set_work_mem :: "memory_config \<Rightarrow> u64 \<Rightarrow> memory_config" where
  "set_work_mem cfg bytes = cfg\<lparr>work_mem := bytes\<rparr>"

definition set_total_query_memory :: "memory_config \<Rightarrow> u64 \<Rightarrow> memory_config" where
  "set_total_query_memory cfg bytes = cfg\<lparr>total_query_memory := bytes\<rparr>"

record memory_tracker =
  limit_bytes :: u64
  used_bytes :: u64

definition tracker_new :: "u64 \<Rightarrow> memory_tracker" where
  "tracker_new limit = \<lparr>limit_bytes = limit, used_bytes = 0\<rparr>"

text \<open>The compare-and-exchange loop ends with a value nobody changed in between, so it is one step.\<close>

definition try_allocate :: "memory_tracker \<Rightarrow> u64 \<Rightarrow> bool \<times> memory_tracker" where
  "try_allocate t bytes =
     (if limit_bytes t < used_bytes t + bytes then (False, t)
      else (True, t\<lparr>used_bytes := used_bytes t + bytes\<rparr>))"

definition allocate_force :: "memory_tracker \<Rightarrow> u64 \<Rightarrow> u64 \<times> memory_tracker" where
  "allocate_force t bytes = (used_bytes t + bytes, t\<lparr>used_bytes := used_bytes t + bytes\<rparr>)"

definition tracker_release :: "memory_tracker \<Rightarrow> u64 \<Rightarrow> memory_tracker" where
  "tracker_release t bytes =
     t\<lparr>used_bytes := if used_bytes t < bytes then 0 else used_bytes t - bytes\<rparr>"

definition is_exceeded :: "memory_tracker \<Rightarrow> bool" where
  "is_exceeded t \<longleftrightarrow> limit_bytes t < used_bytes t"

text \<open>A sum that does not wrap.\<close>

lemma unat_sum: "unat (a :: u64) + unat b < 2 ^ 64 \<Longrightarrow> unat (a + b) = unat a + unat b"
  by (simp add: unat_word_ariths)

lemma try_allocate_within_limit:
  assumes "try_allocate t bytes = (ok, t')" "unat (used_bytes t) + unat bytes < 2 ^ 64" "\<not> is_exceeded t"
  shows "\<not> is_exceeded t'" "ok \<longleftrightarrow> unat (used_bytes t) + unat bytes \<le> unat (limit_bytes t)"
  using assms by (auto simp: try_allocate_def is_exceeded_def word_less_nat_alt unat_sum split: if_splits)

lemma allocate_release: "unat (used_bytes t) + unat bytes < 2 ^ 64 \<Longrightarrow> tracker_release (snd (allocate_force t bytes)) bytes = t"
  by (simp add: tracker_release_def allocate_force_def word_less_nat_alt unat_sum)

section \<open>Grants\<close>

text \<open>
  Beside the counters of \<^verbatim>\<open>MemoryGrantCoordinator\<close> the state has the grants that are held, the requests that
  sleep on the condition variable with whether they were notified, and the number of releases that have
  lowered the counter but not yet notified.
\<close>

record grant_coordinator =
  total_memory :: u64
  reserved_memory :: u64
  held_grants :: "u64 list"
  sleepers :: "(u64 \<times> bool) list"
  releasing :: nat

definition coordinator_new :: "u64 \<Rightarrow> grant_coordinator" where
  "coordinator_new pool =
     \<lparr>total_memory = pool, reserved_memory = 0, held_grants = [], sleepers = [], releasing = 0\<rparr>"

definition request_fits :: "grant_coordinator \<Rightarrow> u64 \<Rightarrow> bool" where
  "request_fits c requested \<longleftrightarrow> reserved_memory c + requested \<le> total_memory c"

definition add_grant :: "grant_coordinator \<Rightarrow> u64 \<Rightarrow> grant_coordinator" where
  "add_grant c requested =
     c\<lparr>reserved_memory := reserved_memory c + requested, held_grants := requested # held_grants c\<rparr>"

text \<open>One pass of the loop of \<^verbatim>\<open>acquire_grant\<close> under the mutex: granted, timed out, or asleep.\<close>

datatype acquire_outcome = Granted | GrantTimeout | Asleep

definition acquire_pass :: "grant_coordinator \<Rightarrow> u64 \<Rightarrow> bool \<Rightarrow> acquire_outcome \<times> grant_coordinator" where
  "acquire_pass c requested expired =
     (if request_fits c requested then (Granted, add_grant c requested)
      else if expired then (GrantTimeout, c)
      else (Asleep, c\<lparr>sleepers := sleepers c @ [(requested, False)]\<rparr>))"

definition acquire_grant :: "grant_coordinator \<Rightarrow> u64 \<Rightarrow> bool \<Rightarrow> acquire_outcome \<times> grant_coordinator" where
  "acquire_grant c requested_bytes expired = acquire_pass c (min requested_bytes (total_memory c)) expired"

definition without :: "nat \<Rightarrow> 'a list \<Rightarrow> 'a list" where
  "without i xs = take i xs @ drop (Suc i) xs"

text \<open>Sleeper \<open>i\<close> wakes, because it was notified or its time is up, and goes on.\<close>

definition wake_up :: "grant_coordinator \<Rightarrow> nat \<Rightarrow> bool \<Rightarrow> acquire_outcome \<times> grant_coordinator" where
  "wake_up c i expired = acquire_pass (c\<lparr>sleepers := without i (sleepers c)\<rparr>) (fst (sleepers c ! i)) expired"

text \<open>The two halves of \<^verbatim>\<open>release_grant\<close>, which drop calls for grant \<open>i\<close>.\<close>

definition release_start :: "grant_coordinator \<Rightarrow> nat \<Rightarrow> grant_coordinator" where
  "release_start c i =
     c\<lparr>reserved_memory := reserved_memory c - held_grants c ! i, held_grants := without i (held_grants c),
       releasing := releasing c + 1\<rparr>"

definition release_notify :: "grant_coordinator \<Rightarrow> grant_coordinator" where
  "release_notify c =
     c\<lparr>sleepers := map (\<lambda>(requested, _). (requested, True)) (sleepers c), releasing := releasing c - 1\<rparr>"

definition available_memory :: "grant_coordinator \<Rightarrow> u64" where
  "available_memory c = (if total_memory c < reserved_memory c then 0 else total_memory c - reserved_memory c)"

inductive grant_step :: "grant_coordinator \<Rightarrow> grant_coordinator \<Rightarrow> bool" where
  ask: "acquire_grant c bytes expired = (r, c') \<Longrightarrow> grant_step c c'"
| wake: "i < length (sleepers c) \<Longrightarrow> snd (sleepers c ! i) \<or> expired \<Longrightarrow> wake_up c i expired = (r, c') \<Longrightarrow> grant_step c c'"
| release: "i < length (held_grants c) \<Longrightarrow> grant_step c (release_start c i)"
| notify: "0 < releasing c \<Longrightarrow> grant_step c (release_notify c)"

section \<open>Invariant\<close>

definition grant_ok :: "grant_coordinator \<Rightarrow> bool" where
  "grant_ok c \<longleftrightarrow>
     unat (total_memory c) < 2 ^ 63 \<and>
     unat (reserved_memory c) = sum_list (map unat (held_grants c)) \<and>
     reserved_memory c \<le> total_memory c \<and>
     (\<forall>(r, n) \<in> set (sleepers c). r \<le> total_memory c \<and> (n \<or> 0 < releasing c \<or> \<not> request_fits c r))"

lemma set_without: "set (without i xs) \<subseteq> set xs"
  using set_take_subset [of i xs] set_drop_subset [of "Suc i" xs] by (auto simp: without_def)

lemma sum_without: "i < length xs \<Longrightarrow> sum_list (map f (without i xs)) + f (xs ! i) = sum_list (map f xs)" for f :: "'a \<Rightarrow> nat"
proof -
  assume "i < length xs"
  then have "xs = take i xs @ xs ! i # drop (Suc i) xs" by (rule id_take_nth_drop)
  then have "sum_list (map f xs) = sum_list (map f (take i xs @ xs ! i # drop (Suc i) xs))" by simp
  then show ?thesis by (simp add: without_def)
qed

lemma request_fits_unat:
  assumes "grant_ok c" "r \<le> total_memory c"
  shows "unat (reserved_memory c + r) = unat (reserved_memory c) + unat r"
    and "request_fits c r \<longleftrightarrow> unat (reserved_memory c) + unat r \<le> unat (total_memory c)"
proof -
  show sum: "unat (reserved_memory c + r) = unat (reserved_memory c) + unat r"
    using assms by (intro unat_sum) (auto simp: grant_ok_def word_le_nat_alt)
  show "request_fits c r \<longleftrightarrow> unat (reserved_memory c) + unat r \<le> unat (total_memory c)"
    by (simp add: request_fits_def word_le_nat_alt sum)
qed

text \<open>A grant only makes other requests fit less.\<close>

lemma add_grant_ok:
  assumes "grant_ok c" "r \<le> total_memory c" "request_fits c r"
  shows "grant_ok (add_grant c r)"
proof -
  note sum = request_fits_unat(1) [OF assms(1,2)]
  have "\<not> request_fits (add_grant c r) q" if "q \<le> total_memory c" "\<not> request_fits c q" for q
  proof -
    have "unat (reserved_memory c) + unat r \<le> unat (total_memory c)" using assms request_fits_unat(2) by blast
    then have "unat (reserved_memory c + r + q) = unat (reserved_memory c) + unat r + unat q"
      using that(1) assms(1) sum by (subst unat_sum) (auto simp: grant_ok_def word_le_nat_alt)
    with that request_fits_unat(2) [OF assms(1) that(1)] show ?thesis
      by (simp add: request_fits_def add_grant_def word_le_nat_alt)
  qed
  with assms sum show ?thesis by (auto simp: grant_ok_def add_grant_def request_fits_def)
qed

lemma acquire_pass_ok:
  assumes "grant_ok c" "r \<le> total_memory c" "acquire_pass c r expired = (out, c')"
  shows "grant_ok c'"
  using assms add_grant_ok [OF assms(1,2)]
  by (auto simp: acquire_pass_def grant_ok_def request_fits_def split: if_splits)

lemma release_start_ok:
  assumes "grant_ok c" "i < length (held_grants c)"
  shows "grant_ok (release_start c i)"
proof -
  have sum: "sum_list (map unat (without i (held_grants c))) + unat (held_grants c ! i) = unat (reserved_memory c)"
    using sum_without [OF assms(2), of unat] assms(1) by (simp add: grant_ok_def)
  then have le: "held_grants c ! i \<le> reserved_memory c" by (simp add: word_le_nat_alt)
  then have "unat (reserved_memory c - held_grants c ! i) = sum_list (map unat (without i (held_grants c)))"
    using sum by (simp add: unat_sub)
  moreover have "reserved_memory c - held_grants c ! i \<le> total_memory c"
    using assms(1) le by (auto simp: grant_ok_def word_le_nat_alt unat_sub)
  ultimately show ?thesis using assms(1) by (auto simp: grant_ok_def release_start_def)
qed

interpretation memory_grants: invariant_system "\<lambda>c. \<exists>pool. unat pool < 2 ^ 63 \<and> c = coordinator_new pool" grant_step grant_ok
proof
  show "grant_ok c" if "\<exists>pool. unat pool < 2 ^ 63 \<and> c = coordinator_new pool" for c
    using that by (auto simp: grant_ok_def coordinator_new_def)
  show "grant_ok c'" if "grant_ok c" "grant_step c c'" for c c'
    using that(2,1)
  proof cases
    case (ask bytes expired r)
    with acquire_pass_ok [OF that(1), of "min bytes (total_memory c)"] show ?thesis by (simp add: acquire_grant_def)
  next
    case (wake i expired r)
    have "grant_ok (c\<lparr>sleepers := without i (sleepers c)\<rparr>)"
      using that(1) set_without [of i "sleepers c"] by (force simp: grant_ok_def request_fits_def)
    moreover have "fst (sleepers c ! i) \<le> total_memory c"
      using that(1) nth_mem [OF wake(1)] by (auto simp: grant_ok_def)
    ultimately show ?thesis using wake(3) by (auto simp: wake_up_def intro: acquire_pass_ok)
  next
    case (release i)
    with that(1) show ?thesis by (simp add: release_start_ok)
  next
    case notify
    with that(1) show ?thesis by (auto simp: grant_ok_def release_notify_def request_fits_def)
  qed
qed

text \<open>C39: the memory pool is never overcommitted and no wake-up is lost.  For queries that ask for grants, wait, time
  out and release in any order, the reserved memory is always the sum of the grants that are held and at most
  the pool, and a query that sleeps without having been notified either does not fit, or a release is about to
  notify it.\<close>

theorem grants_safe:
  assumes "unat pool < 2 ^ 63" "reachable (\<lambda>c. c = coordinator_new pool) grant_step c"
  shows "unat (reserved_memory c) = sum_list (map unat (held_grants c)) \<and> reserved_memory c \<le> total_memory c \<and>
    (\<forall>(requested, notified) \<in> set (sleepers c). notified \<or> 0 < releasing c \<or> \<not> request_fits c requested)"
proof -
  have "reachable (\<lambda>c. \<exists>pool. unat pool < 2 ^ 63 \<and> c = coordinator_new pool) grant_step c"
    using assms(2) by (induction rule: reachable.induct) (use assms(1) in \<open>auto intro: reachable.intros\<close>)
  from memory_grants.reachable_inv [OF this] show ?thesis by (auto simp: grant_ok_def)
qed

theorem grants_safe_witness:
  "\<exists>c. sleepers c = [(50, False)] \<and> \<not> request_fits c 50 \<and> unat (reserved_memory c) = 80 \<and>
     reachable (\<lambda>c. c = coordinator_new 100) grant_step c"
proof -
  let ?c1 = "snd (acquire_grant (coordinator_new 100) 80 False)" and ?c2 = "snd (acquire_grant (snd (acquire_grant (coordinator_new 100) 80 False)) 50 False)"
  have "grant_step (coordinator_new 100) ?c1" "grant_step ?c1 ?c2"
    by (auto intro!: grant_step.ask simp: prod_eq_iff)
  then have r: "reachable (\<lambda>c. c = coordinator_new 100) grant_step ?c2"
    by (blast intro: reachable.intros)
  have c2: "sleepers ?c2 = [(50, False)]" "releasing ?c2 = 0" "held_grants ?c2 = [80]"
    by (simp_all add: acquire_grant_def acquire_pass_def request_fits_def coordinator_new_def add_grant_def)
  from grants_safe [OF _ r] c2 r show ?thesis by (intro exI [of _ ?c2]) simp
qed

end
