(* ===== verification/Auth.thy ===== *)
theory Auth
  imports Sql_Expr
begin

text \<open>
  Users and privileges (\<^verbatim>\<open>crates/h2-sql/src/auth.rs\<close>) and the statements that change them
  (\<^verbatim>\<open>crates/h2-sql/src/executor/dcl.rs\<close>): accounts with hosts, passwords and table privileges, the check of an
  address against a network, and the check of a statement.  Strings are UTF-8 byte lists; \<open>low\<close> and \<open>up\<close> are
  the Unicode case conversions.  The theorems: the privilege check agrees with the history of grants and
  revocations, networks are matched by their leading bits, and the built-in accounts stay superusers.
\<close>

unbundle bit_operations_syntax

section \<open>Privileges\<close>

datatype privilege = Select | Insert | Update | Delete | AllPrivileges

fun privilege_to_string :: "privilege \<Rightarrow> bytes" where
  "privilege_to_string Select = ascii ''SELECT''"
| "privilege_to_string Insert = ascii ''INSERT''"
| "privilege_to_string Update = ascii ''UPDATE''"
| "privilege_to_string Delete = ascii ''DELETE''"
| "privilege_to_string AllPrivileges = ascii ''ALL''"

definition privilege_from_str :: "(bytes \<Rightarrow> bytes) \<Rightarrow> bytes \<Rightarrow> privilege h2_result" where
  "privilege_from_str up s =
     (let u = up (str_trim s) in
      if u = ascii ''SELECT'' then Inr Select
      else if u = ascii ''INSERT'' then Inr Insert
      else if u = ascii ''UPDATE'' then Inr Update
      else if u = ascii ''DELETE'' then Inr Delete
      else if u = ascii ''ALL'' \<or> u = ascii ''ALL PRIVILEGES'' then Inr AllPrivileges
      else Inl (SqlParse ''Unknown privilege type''))"

section \<open>Networks\<close>

text \<open>\<^verbatim>\<open>str::split\<close> by one byte.\<close>

fun split_on :: "byte \<Rightarrow> bytes \<Rightarrow> bytes list" where
  "split_on b [] = [[]]"
| "split_on b (c # cs) =
     (if c = b then [] # split_on b cs
      else case split_on b cs of p # ps \<Rightarrow> (c # p) # ps | [] \<Rightarrow> [[c]])"

text \<open>\<^verbatim>\<open>Ipv4Addr::from_str\<close>: four decimal numbers below 256 of at most three digits, without leading zeros.\<close>

definition parse_octet :: "bytes \<Rightarrow> nat option" where
  "parse_octet s =
     (if s = [] \<or> 3 < length s \<or> (1 < length s \<and> hd s = 48) then None
      else Option.bind (parse_unsigned s) (\<lambda>n. if n < 256 then Some n else None))"

definition parse_ipv4 :: "bytes \<Rightarrow> u32 option" where
  "parse_ipv4 s =
     (case map parse_octet (split_on 46 s) of
        [Some a, Some b, Some c, Some d] \<Rightarrow> Some (word_of_nat (((a * 256 + b) * 256 + c) * 256 + d))
      | _ \<Rightarrow> None)"

text \<open>\<^verbatim>\<open>str::parse::<u8>\<close>\<close>

definition parse_u8 :: "bytes \<Rightarrow> nat option" where
  "parse_u8 s =
     Option.bind (parse_unsigned (case s of b # bs \<Rightarrow> if b = 43 then bs else s | [] \<Rightarrow> []))
       (\<lambda>n. if n < 256 then Some n else None)"

definition parse_cidr :: "bytes \<Rightarrow> (u32 \<times> nat) option" where
  "parse_cidr s =
     (case split_on 47 s of
        [ip, len] \<Rightarrow>
          Option.bind (parse_ipv4 (str_trim ip)) (\<lambda>a.
          Option.bind (parse_u8 (str_trim len)) (\<lambda>n. if 32 < n then None else Some (a, n)))
      | _ \<Rightarrow> None)"

definition match_cidr :: "u32 \<Rightarrow> nat \<Rightarrow> bytes \<Rightarrow> bool" where
  "match_cidr net_ip prefix_len client_ip_str =
     (case parse_ipv4 client_ip_str of
        None \<Rightarrow> False
      | Some client_ip \<Rightarrow>
          if prefix_len = 0 then True
          else let mask = NOT (push_bit (32 - prefix_len) 1 - 1) in net_ip AND mask = client_ip AND mask)"

section \<open>Accounts\<close>

record user_info =
  username :: bytes
  password :: "bytes option"
  allowed_hosts :: "bytes list"
  is_superuser :: bool
  table_privileges :: "(bytes, privilege list) hashmap"

definition user_info_new :: "bytes \<Rightarrow> bytes option \<Rightarrow> bytes option \<Rightarrow> bool \<Rightarrow> user_info" where
  "user_info_new name pw allowed_host super =
     \<lparr>username = name, password = pw,
      allowed_hosts = (case allowed_host of
          Some h \<Rightarrow> if str_trim h \<noteq> [] then [str_trim h] else [ascii ''%''] | None \<Rightarrow> [ascii ''%'']),
      is_superuser = super, table_privileges = []\<rparr>"

definition host_matches :: "bytes \<Rightarrow> bytes \<Rightarrow> bool" where
  "host_matches trimmed_ip host =
     (let h = str_trim host in
      h = ascii ''%'' \<or> h = ascii ''*'' \<or> eq_ignore_ascii_case h (ascii ''any'') \<or>
      (eq_ignore_ascii_case h (ascii ''localhost'') \<and>
        (trimmed_ip = ascii ''127.0.0.1'' \<or> trimmed_ip = ascii ''::1'' \<or> eq_ignore_ascii_case trimmed_ip (ascii ''localhost''))) \<or>
      h = trimmed_ip \<or>
      (case parse_cidr h of Some (cidr_ip, prefix_len) \<Rightarrow> match_cidr cidr_ip prefix_len trimmed_ip | None \<Rightarrow> False))"

definition matches_host :: "user_info \<Rightarrow> bytes \<Rightarrow> bool" where
  "matches_host u client_ip = list_ex (host_matches (str_trim client_ip)) (allowed_hosts u)"

definition table_grants :: "user_info \<Rightarrow> bytes \<Rightarrow> privilege list" where
  "table_grants u table_key = (case map_of (table_privileges u) table_key of Some ps \<Rightarrow> ps | None \<Rightarrow> [])"

definition has_table_privilege :: "(bytes \<Rightarrow> bytes) \<Rightarrow> user_info \<Rightarrow> bytes \<Rightarrow> privilege \<Rightarrow> bool" where
  "has_table_privilege low u table required =
     (is_superuser u \<or>
      AllPrivileges \<in> set (table_grants u (low table)) \<or> required \<in> set (table_grants u (low table)) \<or>
      AllPrivileges \<in> set (table_grants u (ascii ''*'')) \<or> required \<in> set (table_grants u (ascii ''*'')))"

record auth_manager =
  users :: "(bytes, user_info) hashmap"
  auth_enabled :: bool

definition default_names :: "bytes list" where
  "default_names = map ascii [''admin'', ''postgres'', ''sa'', ''root'', ''app'']"

definition auth_new :: auth_manager where
  "auth_new =
     \<lparr>users = map (\<lambda>name. (name, user_info_new name None (Some (ascii ''%'')) True)) default_names, auth_enabled = True\<rparr>"

definition set_auth_enabled :: "auth_manager \<Rightarrow> bool \<Rightarrow> auth_manager" where
  "set_auth_enabled m enabled = m\<lparr>auth_enabled := enabled\<rparr>"

definition create_user :: "(bytes \<Rightarrow> bytes) \<Rightarrow> auth_manager \<Rightarrow> bytes \<Rightarrow> bytes option \<Rightarrow> bytes option \<Rightarrow> bool \<Rightarrow>
    auth_manager h2_result" where
  "create_user low m name pw allowed_host super =
     (let key = low name in
      if hm_contains (users m) key then Inl (Execution ''User already exists'')
      else Inr (m\<lparr>users := AList.update key (user_info_new key pw allowed_host super) (users m)\<rparr>))"

definition alter_user :: "(bytes \<Rightarrow> bytes) \<Rightarrow> auth_manager \<Rightarrow> bytes \<Rightarrow> bytes option \<Rightarrow> bytes option \<Rightarrow> auth_manager h2_result" where
  "alter_user low m name pw allowed_host =
     (let key = low name in
      case map_of (users m) key of
        None \<Rightarrow> Inl (Execution ''User does not exist'')
      | Some u \<Rightarrow>
          let u1 = (case pw of Some p \<Rightarrow> u\<lparr>password := Some p\<rparr> | None \<Rightarrow> u);
              u2 = (case allowed_host of Some h \<Rightarrow> u1\<lparr>allowed_hosts := [h]\<rparr> | None \<Rightarrow> u1) in
          Inr (m\<lparr>users := AList.update key u2 (users m)\<rparr>))"

definition drop_user :: "(bytes \<Rightarrow> bytes) \<Rightarrow> auth_manager \<Rightarrow> bytes \<Rightarrow> bool \<Rightarrow> auth_manager h2_result" where
  "drop_user low m name if_exists =
     (let key = low name in
      if key = ascii ''admin'' \<or> key = ascii ''postgres''
      then Inl (Execution ''Cannot drop system default superuser'')
      else if \<not> hm_contains (users m) key \<and> \<not> if_exists then Inl (Execution ''User does not exist'')
      else Inr (m\<lparr>users := AList.delete key (users m)\<rparr>))"

definition authenticate :: "(bytes \<Rightarrow> bytes) \<Rightarrow> auth_manager \<Rightarrow> bytes \<Rightarrow> bytes option \<Rightarrow> bytes \<Rightarrow> user_info h2_result" where
  "authenticate low m name pw client_ip =
     (case map_of (users m) (low name) of
        None \<Rightarrow> Inl (Authentication ''User does not exist'')
      | Some u \<Rightarrow>
          if \<not> matches_host u client_ip then Inl (Authentication ''Access denied (host restriction)'')
          else case password u of
                 None \<Rightarrow> Inr u
               | Some expected \<Rightarrow>
                   if pw = Some expected then Inr u else Inl (Authentication ''Password authentication failed''))"

definition grant :: "(bytes \<Rightarrow> bytes) \<Rightarrow> auth_manager \<Rightarrow> bytes \<Rightarrow> bytes \<Rightarrow> privilege list \<Rightarrow> auth_manager h2_result" where
  "grant low m name table privileges =
     (let key = low name in
      case map_of (users m) key of
        None \<Rightarrow> Inl (Execution ''User does not exist'')
      | Some u \<Rightarrow>
          let granted = fold List.insert privileges (table_grants u (low table)) in
          Inr (m\<lparr>users := AList.update key
                  (u\<lparr>table_privileges := AList.update (low table) granted (table_privileges u)\<rparr>) (users m)\<rparr>))"

definition revoke :: "(bytes \<Rightarrow> bytes) \<Rightarrow> auth_manager \<Rightarrow> bytes \<Rightarrow> bytes \<Rightarrow> privilege list \<Rightarrow> auth_manager h2_result" where
  "revoke low m name table privileges =
     (let key = low name in
      case map_of (users m) key of
        None \<Rightarrow> Inl (Execution ''User does not exist'')
      | Some u \<Rightarrow>
          (case map_of (table_privileges u) (low table) of
             None \<Rightarrow> Inr m
           | Some ps \<Rightarrow>
               let left = (if AllPrivileges \<in> set privileges then [] else fold removeAll privileges ps) in
               Inr (m\<lparr>users := AList.update key
                       (u\<lparr>table_privileges := AList.update (low table) left (table_privileges u)\<rparr>) (users m)\<rparr>)))"

definition check_privilege :: "(bytes \<Rightarrow> bytes) \<Rightarrow> auth_manager \<Rightarrow> bytes \<Rightarrow> bytes \<Rightarrow> privilege \<Rightarrow> unit h2_result" where
  "check_privilege low m name table required =
     (if \<not> auth_enabled m then Inr ()
      else case map_of (users m) (low name) of
             None \<Rightarrow> Inl (PermissionDenied ''User does not exist'')
           | Some u \<Rightarrow>
               if \<not> has_table_privilege low u table required then Inl (PermissionDenied ''missing privilege'') else Inr ())"

definition list_users :: "auth_manager \<Rightarrow> user_info list" where
  "list_users m = map snd (users m)"

definition get_user_grants :: "(bytes \<Rightarrow> bytes) \<Rightarrow> auth_manager \<Rightarrow> bytes \<Rightarrow> (bytes \<times> privilege list) list h2_result" where
  "get_user_grants low m name =
     (case map_of (users m) (low name) of
        None \<Rightarrow> Inl (Execution ''User does not exist'')
      | Some u \<Rightarrow>
          Inr (sort_key fst (map (\<lambda>(table, privs). (table, sort_key privilege_to_string privs)) (table_privileges u))))"

section \<open>Statements\<close>

text \<open>
  String slices by byte positions, which panic outside the string or inside a character; the first occurrence of
  a pattern; and the trimming the statements use.
\<close>

definition char_boundary :: "bytes \<Rightarrow> nat \<Rightarrow> bool" where
  "char_boundary s i \<longleftrightarrow> i = length s \<or> (i < length s \<and> \<not> (0x80 \<le> s ! i \<and> s ! i < 0xC0))"

definition slice :: "bytes \<Rightarrow> nat \<Rightarrow> nat \<Rightarrow> bytes h2_result" where
  "slice s i j =
     (if i \<le> j \<and> char_boundary s i \<and> char_boundary s j then Inr (take (j - i) (drop i s)) else Inl Panic)"

abbreviation slice_from :: "bytes \<Rightarrow> nat \<Rightarrow> bytes h2_result" where
  "slice_from s i \<equiv> slice s i (length s)"

fun str_find :: "bytes \<Rightarrow> bytes \<Rightarrow> nat option" where
  "str_find pat [] = (if pat = [] then Some 0 else None)"
| "str_find pat (b # bs) = (if prefix pat (b # bs) then Some 0 else map_option Suc (str_find pat bs))"

definition trim_matches :: "byte \<Rightarrow> bytes \<Rightarrow> bytes" where
  "trim_matches b s = rev (dropWhile (\<lambda>c. c = b) (rev (dropWhile (\<lambda>c. c = b) s)))"

definition unquote :: "bytes \<Rightarrow> bytes" where
  "unquote s = trim_matches 34 (trim_matches 39 s)"

definition statement_text :: "bytes \<Rightarrow> bytes" where
  "statement_text sql = str_trim (rev (dropWhile (\<lambda>c. c = 59) (rev (str_trim sql))))"

text \<open>The first item of \<^verbatim>\<open>split_whitespace\<close>.\<close>

fun take_word :: "bytes \<Rightarrow> bytes" where
  "take_word [] = []"
| "take_word (b # bs) = (if list_ex (\<lambda>w. prefix w (b # bs)) white_space then [] else b # take_word bs)"

definition first_word :: "string \<Rightarrow> bytes \<Rightarrow> bytes h2_result" where
  "first_word msg s = (let w = take_word (str_trim s) in if w = [] then Inl (SqlParse msg) else Inr w)"

text \<open>The quoted text behind a key word, if there is one.\<close>

definition quoted_after :: "(bytes \<Rightarrow> bytes) \<Rightarrow> bytes \<Rightarrow> bytes \<Rightarrow> bytes option h2_result" where
  "quoted_after up word rest =
     (case str_find word (up rest) of
        None \<Rightarrow> Inr None
      | Some pos \<Rightarrow>
          res_bind (slice_from rest (pos + length word)) (\<lambda>s.
            let sub = str_trim s in
            Inr (Option.bind (str_find [39] sub) (\<lambda>start.
                 Option.bind (str_find [39] (drop (start + 1) sub)) (\<lambda>len.
                   Some (take len (drop (start + 1) sub)))))))"

definition execute_create_user :: "(bytes \<Rightarrow> bytes) \<Rightarrow> (bytes \<Rightarrow> bytes) \<Rightarrow> auth_manager \<Rightarrow> bytes \<Rightarrow> auth_manager h2_result" where
  "execute_create_user low up m sql =
     (let trimmed = statement_text sql; upper = up trimmed in
      res_bind
        (if prefix (ascii ''CREATE USER IF NOT EXISTS '') upper
         then slice_from trimmed (length (ascii ''CREATE USER IF NOT EXISTS ''))
         else if prefix (ascii ''CREATE USER '') upper then slice_from trimmed (length (ascii ''CREATE USER ''))
         else Inl (SqlParse ''Invalid CREATE USER syntax'')) (\<lambda>rest.
      res_bind (first_word ''Missing username in CREATE USER'' rest) (\<lambda>word.
      res_bind (quoted_after up (ascii ''PASSWORD'') rest) (\<lambda>pw.
      res_bind (quoted_after up (ascii ''HOST'') rest) (\<lambda>host.
        create_user low m (unquote word) pw host (str_find (ascii ''SUPERUSER'') (up rest) \<noteq> None))))))"

definition execute_alter_user :: "(bytes \<Rightarrow> bytes) \<Rightarrow> (bytes \<Rightarrow> bytes) \<Rightarrow> auth_manager \<Rightarrow> bytes \<Rightarrow> auth_manager h2_result" where
  "execute_alter_user low up m sql =
     (let trimmed = statement_text sql in
      res_bind (slice_from trimmed (length (ascii ''ALTER USER ''))) (\<lambda>r.
      let rest = str_trim r in
      res_bind (first_word ''Missing username in ALTER USER'' rest) (\<lambda>word.
      res_bind (quoted_after up (ascii ''PASSWORD'') rest) (\<lambda>pw.
      res_bind (quoted_after up (ascii ''HOST'') rest) (\<lambda>host.
        alter_user low m (unquote word) pw host)))))"

definition execute_drop_user :: "(bytes \<Rightarrow> bytes) \<Rightarrow> (bytes \<Rightarrow> bytes) \<Rightarrow> auth_manager \<Rightarrow> bytes \<Rightarrow> auth_manager h2_result" where
  "execute_drop_user low up m sql =
     (let trimmed = statement_text sql;
          if_exists = prefix (ascii ''DROP USER IF EXISTS '') (up trimmed);
          skip = (if if_exists then ascii ''DROP USER IF EXISTS '' else ascii ''DROP USER '') in
      res_bind (slice_from trimmed (length skip)) (\<lambda>name. drop_user low m (unquote (str_trim name)) if_exists))"

fun parse_privileges :: "(bytes \<Rightarrow> bytes) \<Rightarrow> bytes list \<Rightarrow> privilege list h2_result" where
  "parse_privileges up [] = Inr []"
| "parse_privileges up (p # ps) =
     res_bind (privilege_from_str up (str_trim p)) (\<lambda>x. res_bind (parse_privileges up ps) (\<lambda>xs. Inr (x # xs)))"

text \<open>\<^verbatim>\<open>GRANT\<close> and \<^verbatim>\<open>REVOKE\<close> differ in their key words.\<close>

definition parse_grant :: "(bytes \<Rightarrow> bytes) \<Rightarrow> bytes \<Rightarrow> bytes \<Rightarrow> bytes \<Rightarrow> (bytes \<times> bytes \<times> privilege list) h2_result" where
  "parse_grant up verb to sql =
     (let trimmed = statement_text sql; upper = up trimmed in
      case (str_find (ascii '' ON '') upper, str_find to upper) of
        (None, _) \<Rightarrow> Inl (SqlParse ''Missing ON'')
      | (Some _, None) \<Rightarrow> Inl (SqlParse ''Missing TO or FROM'')
      | (Some on_pos, Some to_pos) \<Rightarrow>
          res_bind (slice trimmed (length verb) on_pos) (\<lambda>privs.
          res_bind (slice trimmed (on_pos + length (ascii '' ON '')) to_pos) (\<lambda>table.
          let table_raw = str_trim table in
          res_bind (if prefix (ascii ''TABLE '') (up table_raw)
                    then res_bind (slice_from table_raw (length (ascii ''TABLE ''))) (\<lambda>t. Inr (str_trim t))
                    else Inr table_raw) (\<lambda>table_name.
          res_bind (slice_from trimmed (to_pos + length to)) (\<lambda>name.
          res_bind (parse_privileges up (split_on 44 (str_trim privs))) (\<lambda>privileges.
            Inr (unquote (str_trim name), unquote table_name, privileges)))))))"

definition execute_grant :: "(bytes \<Rightarrow> bytes) \<Rightarrow> (bytes \<Rightarrow> bytes) \<Rightarrow> auth_manager \<Rightarrow> bytes \<Rightarrow> auth_manager h2_result" where
  "execute_grant low up m sql =
     res_bind (parse_grant up (ascii ''GRANT '') (ascii '' TO '') sql) (\<lambda>(name, table, ps). grant low m name table ps)"

definition execute_revoke :: "(bytes \<Rightarrow> bytes) \<Rightarrow> (bytes \<Rightarrow> bytes) \<Rightarrow> auth_manager \<Rightarrow> bytes \<Rightarrow> auth_manager h2_result" where
  "execute_revoke low up m sql =
     res_bind (parse_grant up (ascii ''REVOKE '') (ascii '' FROM '') sql) (\<lambda>(name, table, ps). revoke low m name table ps)"

text \<open>
  The dispatch of \<^verbatim>\<open>execute_with_user_and_tx_inner\<close> on these statements; \<open>None\<close> for another one.  The user who runs
  the statement is an argument of the function, as it is in the code.
\<close>

definition execute_dcl :: "(bytes \<Rightarrow> bytes) \<Rightarrow> (bytes \<Rightarrow> bytes) \<Rightarrow> bool \<Rightarrow> bytes option \<Rightarrow> auth_manager \<Rightarrow> bytes \<Rightarrow>
    auth_manager h2_result option" where
  "execute_dcl low up read_only user m sql =
     (let trimmed = statement_text sql; upper = up trimmed in
      if read_only \<and> list_ex (\<lambda>w. prefix (ascii w) upper)
           [''CREATE USER'', ''ALTER USER'', ''DROP USER'', ''GRANT '', ''REVOKE '']
      then Some (Inl (ReadOnly ''Cannot execute data-modifying or DDL statements on a read-only instance''))
      else if prefix (ascii ''CREATE USER '') upper then Some (execute_create_user low up m trimmed)
      else if prefix (ascii ''ALTER USER '') upper then Some (execute_alter_user low up m trimmed)
      else if prefix (ascii ''DROP USER '') upper then Some (execute_drop_user low up m trimmed)
      else if prefix (ascii ''GRANT '') upper then Some (execute_grant low up m trimmed)
      else if prefix (ascii ''REVOKE '') upper then Some (execute_revoke low up m trimmed)
      else None)"

text \<open>
  The statement as \<^verbatim>\<open>check_statement_privileges\<close> sees it: its kind and the tables that are found in its syntax tree.
\<close>

datatype statement =
    QueryStatement "bytes list"
  | InsertStatement bytes "bytes list"
  | UpdateStatement bytes
  | DeleteStatement "bytes option"
  | DdlStatement
  | OtherStatement

fun check_tables :: "(bytes \<Rightarrow> bytes) \<Rightarrow> auth_manager \<Rightarrow> bytes \<Rightarrow> privilege \<Rightarrow> bytes list \<Rightarrow> unit h2_result" where
  "check_tables low m user required [] = Inr ()"
| "check_tables low m user required (t # ts) =
     res_bind (check_privilege low m user t required) (\<lambda>_. check_tables low m user required ts)"

definition check_statement_privileges :: "(bytes \<Rightarrow> bytes) \<Rightarrow> auth_manager \<Rightarrow> bytes \<Rightarrow> statement \<Rightarrow> unit h2_result" where
  "check_statement_privileges low m user stmt =
     (if \<not> auth_enabled m then Inr ()
      else if (case find (\<lambda>u. eq_ignore_ascii_case (username u) user) (list_users m) of
                 Some u \<Rightarrow> is_superuser u | None \<Rightarrow> False) then Inr ()
      else case stmt of
             QueryStatement ts \<Rightarrow> check_tables low m user Select ts
           | InsertStatement t ts \<Rightarrow>
               res_bind (check_privilege low m user t Insert) (\<lambda>_. check_tables low m user Select ts)
           | UpdateStatement t \<Rightarrow> check_privilege low m user t Update
           | DeleteStatement (Some t) \<Rightarrow> check_privilege low m user t Delete
           | DeleteStatement None \<Rightarrow> Inr ()
           | DdlStatement \<Rightarrow> Inl (PermissionDenied ''User does not have administrative privileges for DDL'')
           | OtherStatement \<Rightarrow> Inr ())"

definition require_stats_admin :: "auth_manager \<Rightarrow> bytes option \<Rightarrow> unit h2_result" where
  "require_stats_admin m user =
     (case user of
        None \<Rightarrow> Inr ()
      | Some name \<Rightarrow>
          if \<not> auth_enabled m then Inr ()
          else if (case find (\<lambda>u. eq_ignore_ascii_case (username u) name) (list_users m) of
                     Some u \<Rightarrow> is_superuser u | None \<Rightarrow> False) then Inr ()
          else Inl (PermissionDenied ''Query statistics require a superuser''))"

section \<open>Networks by leading bits\<close>

lemma masked_eq: "(a AND NOT (mask n) = b AND NOT (mask n)) = (drop_bit n a = drop_bit n b)" for a b :: "'a::len word"
proof -
  have clear: "c AND NOT (mask n) = push_bit n (drop_bit n c)" for c :: "'a word"
    by (rule bit_word_eqI) (auto simp: bit_simps)
  have "drop_bit n (push_bit n (drop_bit n c)) = drop_bit n c" for c :: "'a word"
    by (rule bit_word_eqI) (auto simp: bit_simps dest: bit_imp_le_length)
  then show ?thesis unfolding clear by metis
qed

lemma match_cidr_bits:
  assumes "p \<le> 32"
  shows "match_cidr net p s \<longleftrightarrow> (\<exists>c. parse_ipv4 s = Some c \<and> drop_bit (32 - p) net = drop_bit (32 - p) c)"
proof -
  have "push_bit k 1 - 1 = (mask k :: u32)" for k by (simp add: mask_eq_decr_exp)
  moreover have "drop_bit 32 (a :: u32) = 0" for a by (simp add: bit_eq_iff bit_simps)
  ultimately show ?thesis using assms by (auto simp: match_cidr_def Let_def masked_eq split: option.splits)
qed

section \<open>Histories of privileges\<close>

datatype auth_op =
    CreateUser bytes "bytes option" "bytes option" bool
  | AlterUser bytes "bytes option" "bytes option"
  | DropUser bytes bool
  | GrantTo bytes bytes "privilege list"
  | RevokeFrom bytes bytes "privilege list"

definition keep_on_error :: "'a \<Rightarrow> 'a h2_result \<Rightarrow> 'a" where
  "keep_on_error m r = (case r of Inr m' \<Rightarrow> m' | Inl _ \<Rightarrow> m)"

fun apply_auth_op :: "(bytes \<Rightarrow> bytes) \<Rightarrow> auth_manager \<Rightarrow> auth_op \<Rightarrow> auth_manager h2_result" where
  "apply_auth_op low m (CreateUser n pw host super) = create_user low m n pw host super"
| "apply_auth_op low m (AlterUser n pw host) = alter_user low m n pw host"
| "apply_auth_op low m (DropUser n if_exists) = drop_user low m n if_exists"
| "apply_auth_op low m (GrantTo n t ps) = grant low m n t ps"
| "apply_auth_op low m (RevokeFrom n t ps) = revoke low m n t ps"

text \<open>A history has the newest operation first; operations that fail leave the manager as it is.\<close>

fun run_auth :: "(bytes \<Rightarrow> bytes) \<Rightarrow> auth_op list \<Rightarrow> auth_manager" where
  "run_auth low [] = auth_new"
| "run_auth low (a # h) = keep_on_error (run_auth low h) (apply_auth_op low (run_auth low h) a)"

text \<open>
  What a history means, without the tables of the manager: which accounts exist, which are superusers, and
  which privileges were granted and not revoked since.
\<close>

definition protected :: "bytes \<Rightarrow> bool" where
  "protected u \<longleftrightarrow> u = ascii ''admin'' \<or> u = ascii ''postgres''"

fun account :: "(bytes \<Rightarrow> bytes) \<Rightarrow> auth_op list \<Rightarrow> bytes \<Rightarrow> bool" where
  "account low [] u \<longleftrightarrow> u \<in> set default_names"
| "account low (CreateUser n pw host super # h) u \<longleftrightarrow> low n = u \<or> account low h u"
| "account low (DropUser n if_exists # h) u \<longleftrightarrow> account low h u \<and> (low n = u \<longrightarrow> protected u)"
| "account low (_ # h) u \<longleftrightarrow> account low h u"

fun superuser :: "(bytes \<Rightarrow> bytes) \<Rightarrow> auth_op list \<Rightarrow> bytes \<Rightarrow> bool" where
  "superuser low [] u \<longleftrightarrow> u \<in> set default_names"
| "superuser low (CreateUser n pw host super # h) u \<longleftrightarrow>
     (if low n = u \<and> \<not> account low h u then super else superuser low h u)"
| "superuser low (_ # h) u \<longleftrightarrow> superuser low h u"

fun granted :: "(bytes \<Rightarrow> bytes) \<Rightarrow> auth_op list \<Rightarrow> bytes \<Rightarrow> bytes \<Rightarrow> privilege \<Rightarrow> bool" where
  "granted low [] u t p \<longleftrightarrow> False"
| "granted low (GrantTo n s ps # h) u t p \<longleftrightarrow>
     granted low h u t p \<or> (low n = u \<and> account low h u \<and> low s = t \<and> p \<in> set ps)"
| "granted low (RevokeFrom n s ps # h) u t p \<longleftrightarrow>
     granted low h u t p \<and> \<not> (low n = u \<and> low s = t \<and> (p \<in> set ps \<or> AllPrivileges \<in> set ps))"
| "granted low (DropUser n if_exists # h) u t p \<longleftrightarrow> granted low h u t p \<and> (low n = u \<longrightarrow> protected u)"
| "granted low (_ # h) u t p \<longleftrightarrow> granted low h u t p"

lemma set_fold_insert [simp]: "set (fold List.insert xs ys) = set xs \<union> set ys"
  by (induction xs arbitrary: ys) auto

lemma set_fold_removeAll [simp]: "set (fold removeAll xs ys) = set ys - set xs"
  by (induction xs arbitrary: ys) auto

lemma table_grants_update [simp]:
  "table_grants (u\<lparr>table_privileges := AList.update t ps (table_privileges u)\<rparr>) t' = (if t' = t then ps else table_grants u t')"
  by (simp add: table_grants_def update_conv')

definition agrees :: "(bytes \<Rightarrow> bytes) \<Rightarrow> auth_op list \<Rightarrow> bytes \<Rightarrow> user_info option \<Rightarrow> bool" where
  "agrees low h k r \<longleftrightarrow>
     (case r of
        None \<Rightarrow> \<not> account low h k \<and> (\<forall>t p. \<not> granted low h k t p)
      | Some u \<Rightarrow> account low h k \<and> is_superuser u = superuser low h k \<and>
          (\<forall>t p. p \<in> set (table_grants u t) \<longleftrightarrow> granted low h k t p))"

text \<open>What each operation does to one account.\<close>

lemma users_after:
  "map_of (users (keep_on_error m (create_user low m n pw host super))) k =
     (if k = low n \<and> map_of (users m) k = None then Some (user_info_new k pw host super) else map_of (users m) k)"
  "map_of (users (keep_on_error m (drop_user low m n if_exists))) k =
     (if k = low n \<and> \<not> protected k then None else map_of (users m) k)"
  "map_of (users (keep_on_error m (grant low m n t ps))) k =
     map_option (\<lambda>u. if k = low n then
         u\<lparr>table_privileges := AList.update (low t) (fold List.insert ps (table_grants u (low t))) (table_privileges u)\<rparr> else u)
       (map_of (users m) k)"
  by (cases "k = low n"; cases "map_of (users m) (low n)";
      auto simp: keep_on_error_def create_user_def drop_user_def grant_def hm_contains_def protected_def update_conv' delete_conv'
        option.map_ident Let_def)+

lemma users_after_alter:
  "map_of (users (keep_on_error m (alter_user low m n pw host))) k = None \<longleftrightarrow> map_of (users m) k = None"
  "map_of (users (keep_on_error m (alter_user low m n pw host))) k = Some u' \<Longrightarrow>
     \<exists>u. map_of (users m) k = Some u \<and> is_superuser u' = is_superuser u \<and> table_grants u' = table_grants u"
  by (auto simp: keep_on_error_def alter_user_def update_conv' table_grants_def fun_eq_iff Let_def split: option.splits if_splits)

lemma users_after_revoke:
  "map_of (users (keep_on_error m (revoke low m n t ps))) k =
     map_option (\<lambda>u. if k = low n then
         (case map_of (table_privileges u) (low t) of
            None \<Rightarrow> u
          | Some qs \<Rightarrow> u\<lparr>table_privileges := AList.update (low t)
              (if AllPrivileges \<in> set ps then [] else fold removeAll ps qs) (table_privileges u)\<rparr>) else u)
       (map_of (users m) k)"
  by (cases "k = low n"; cases "map_of (users m) (low n)";
      auto simp: keep_on_error_def revoke_def update_conv' option.map_ident Let_def split: option.splits)

lemma run_auth_agrees: "agrees low h k (map_of (users (run_auth low h)) k)"
proof (induction h arbitrary: k)
  case Nil
  show ?case
    by (auto simp: agrees_def auth_new_def user_info_new_def table_grants_def default_names_def)
next
  case (Cons a h)
  note IH = Cons [of k, unfolded agrees_def]
  show ?case
  proof (cases a)
    case (CreateUser n pw host super)
    with IH show ?thesis
      by (auto simp: agrees_def users_after user_info_new_def table_grants_def split: option.splits)
  next
    case (AlterUser n pw host)
    with IH users_after_alter [of "run_auth low h" low n pw host k] show ?thesis
      by (cases "map_of (users (run_auth low (a # h))) k") (auto simp: agrees_def)
  next
    case (DropUser n if_exists)
    with IH show ?thesis by (auto simp: agrees_def users_after split: option.splits)
  next
    case (GrantTo n t ps)
    with IH show ?thesis by (auto simp: agrees_def users_after split: option.splits)
  next
    case (RevokeFrom n t ps)
    have t: "qs = table_grants u t" if "map_of (table_privileges u) t = Some qs" for u qs t
      using that by (simp add: table_grants_def)
    have none: "table_grants u t = []" if "map_of (table_privileges u) t = None" for u t
      using that by (simp add: table_grants_def)
    from RevokeFrom IH none show ?thesis
      by (auto simp: agrees_def users_after_revoke split: option.splits dest!: t)
  qed
qed

lemma run_auth_enabled: "auth_enabled (run_auth low h)"
proof (induction h)
  case (Cons a h)
  then show ?case
    by (cases a) (auto simp: keep_on_error_def create_user_def alter_user_def drop_user_def grant_def revoke_def Let_def
        split: option.splits)
qed (simp add: auth_new_def)

text \<open>C17: the privilege check is decided by the history of the accounts.  After any sequence of user creations,
  changes, removals, grants and revocations, successful or not, a user may use a table exactly if the account
  exists and is a superuser, or the privilege or \<^verbatim>\<open>ALL\<close> was granted on the table or on all tables and not revoked since.\<close>

theorem privilege_check_exact:
  "check_privilege low (run_auth low h) name table required = Inr () \<longleftrightarrow>
     account low h (low name) \<and>
     (superuser low h (low name) \<or>
      granted low h (low name) (low table) required \<or> granted low h (low name) (low table) AllPrivileges \<or>
      granted low h (low name) (ascii ''*'') required \<or> granted low h (low name) (ascii ''*'') AllPrivileges)"
  using run_auth_agrees [of low h "low name"] run_auth_enabled [of low h]
  by (auto simp: check_privilege_def agrees_def has_table_privilege_def split: option.splits)

text \<open>A network is matched exactly by the addresses with its leading bits.\<close>

theorem network_match_exact:
  assumes "parse_cidr host = Some (net, p)"
  shows "p \<le> 32" "match_cidr net p ip \<longleftrightarrow> (\<exists>c. parse_ipv4 ip = Some c \<and> drop_bit (32 - p) net = drop_bit (32 - p) c)"
proof -
  show "p \<le> 32" using assms by (auto simp: parse_cidr_def split: list.splits bind_splits if_splits)
  then show "match_cidr net p ip \<longleftrightarrow> (\<exists>c. parse_ipv4 ip = Some c \<and> drop_bit (32 - p) net = drop_bit (32 - p) c)"
    by (rule match_cidr_bits)
qed

text \<open>The two protected accounts exist and stay superusers whatever is done.\<close>

lemma protected_stay: "protected u \<Longrightarrow> account low h u \<and> superuser low h u"
  by (induction low h u rule: account.induct) (auto simp: protected_def default_names_def)

theorem protected_superusers:
  assumes "protected (low name)"
  shows "check_privilege low (run_auth low h) name table required = Inr ()"
  using protected_stay [OF assms, of low h] run_auth_agrees [of low h "low name"]
  by (auto simp: check_privilege_def agrees_def has_table_privilege_def split: option.splits)

text \<open>Who may log in.\<close>

lemma authenticate_exact:
  "(\<exists>u. authenticate low m name pw ip = Inr u) \<longleftrightarrow>
     (\<exists>u. map_of (users m) (low name) = Some u \<and> matches_host u ip \<and> (password u = None \<or> pw = password u))"
  by (auto simp: authenticate_def split: option.splits)

text \<open>
  Revoking one privilege from an account that holds \<^verbatim>\<open>ALL\<close> takes nothing away: the set keeps \<^verbatim>\<open>ALL\<close>.
\<close>

lemma revoke_from_all:
  assumes "granted low h (low n) (low t) AllPrivileges" "AllPrivileges \<notin> set ps"
  shows "check_privilege low (run_auth low (RevokeFrom n t ps # h)) n t p = Inr ()"
proof -
  have "granted low (RevokeFrom n t ps # h) (low n) (low t) AllPrivileges" using assms by simp
  moreover have "account low h k" if "granted low h k s q" for k s q
    using run_auth_agrees [of low h k] that by (auto simp: agrees_def split: option.splits)
  ultimately show ?thesis
    using assms run_auth_agrees [of low "RevokeFrom n t ps # h" "low n"] run_auth_enabled [of low "RevokeFrom n t ps # h"]
    by (auto simp: check_privilege_def agrees_def has_table_privilege_def simp del: run_auth.simps granted.simps split: option.splits)
qed

text \<open>The statements that manage users are run for everybody: the user is not looked at.\<close>

lemma dcl_ignores_user: "execute_dcl low up ro user m sql = execute_dcl low up ro user' m sql"
  by (simp add: execute_dcl_def)

definition ascii_upper :: "byte \<Rightarrow> byte" where
  "ascii_upper b = (if 97 \<le> b \<and> b \<le> 122 then b - 32 else b)"

text \<open>So an account without any privilege can make itself a second account that has all of them.\<close>

theorem any_user_becomes_superuser:
  "case execute_dcl (map ascii_lower) (map ascii_upper) False (Some user) auth_new (ascii ''CREATE USER eve SUPERUSER'') of
     Some (Inr m) \<Rightarrow> check_privilege (map ascii_lower) m (ascii ''eve'') table required = Inr ()
   | _ \<Rightarrow> False"
  by code_simp

end
