(* ===== verification/Spec2Isabelle.thy ===== *)
theory Spec2Isabelle
  imports MV_Store Locking Tx_System Index_Scan Buffer_Pool Compute_Cluster Aggregate Backup Pack_Stream
    External_Sort Query_Memory Auth
begin

text \<open>
  This library verifies the core of a database written in Rust: a versioned key-value store with a
  write-ahead log and checkpoints, multi-version transactions over it, the value and key layer of the SQL
  engine, and a replicated storage fleet.  Paths below are under \<^verbatim>\<open>src/crates\<close>.

  The parts and how they work together.

  A statement of the SQL engine (\<^verbatim>\<open>h2-sql\<close>) reads and writes rows as bytes under index keys.  Rows and keys
  are encoded values (\<^verbatim>\<open>h2-types\<close>).  The bytes go through a transaction (\<^verbatim>\<open>h2-mvstore/src/tx\<close>), which keeps
  for every key an uncommitted record and a history of committed versions, takes locks through the lock
  manager and reads the snapshot it began with.  The versioned values are serialized into named maps
  (\<^verbatim>\<open>map.rs\<close>), each a copy-on-write B+ tree (\<^verbatim>\<open>tree.rs\<close>, \<^verbatim>\<open>page.rs\<close>).  A commit is a list of changes that is
  appended to the write-ahead log (\<^verbatim>\<open>wal.rs\<close>) before the version of the store advances; checkpoints
  (\<^verbatim>\<open>chunk.rs\<close>, \<^verbatim>\<open>delta.rs\<close>, \<^verbatim>\<open>file_store.rs\<close>) write the maps to the database file, and opening the store
  loads the last checkpoint and replays the log.  The buffer pool keeps slotted pages of a page file.  In
  the distributed form (\<^verbatim>\<open>h2/src/storage\<close>) a primary compute node turns a commit into log records that a
  quorum of storage nodes stores, and replicas apply the same records.

  The theories.

  \<^item> \<open>H2_Prelude\<close>: machine types, \<^verbatim>\<open>H2Error\<close> and the result type, \<^verbatim>\<open>Vec\<close> operations with their panics,
    byte encodings of integers, hash maps as association lists, and the shared lemmas; \<open>KV_Interface\<close>: the
    contracts \<open>ordered_kv\<close> (what a tree promises to a map), \<open>replayable\<close> (what a replayed log rebuilds) and
    \<open>invariant_system\<close> (reachability and invariants of a step relation).
  \<^item> \<open>MV_Tree\<close> (\<^verbatim>\<open>h2-mvstore/src/page.rs\<close>, \<^verbatim>\<open>tree.rs\<close>): pages, lookup, insertion with splits, removal, full,
    prefix and range scans.  The tree refines a finite map sorted by key, and the scans return exactly the
    keys they name.
  \<^item> \<open>MV_Map\<close> (\<^verbatim>\<open>map.rs\<close>, \<^verbatim>\<open>replication.rs\<close>): a named map with its journal, its modification counter and the
    change collector; the journal replays to the content.
  \<^item> \<open>Versioned\<close> (\<^verbatim>\<open>tx/versioned_value.rs\<close>): the value of one key over time, pruning, and the read over
    serialized bytes, which agrees with the read of the decoded value.
  \<^item> \<open>Locking\<close> (\<^verbatim>\<open>tx/lock.rs\<close>): the wait-for graph and the wait cells.  Cycle detection is exact, so no
    set of waiters is deadlocked, and no wake-up between check and wait is lost.
  \<^item> \<open>Wal\<close> (\<^verbatim>\<open>wal.rs\<close>): framing, append, sync, truncation, segments and archive.  Recovery returns the
    records of a prefix of the appends that contains all synced ones, and is idempotent.
  \<^item> \<open>Checkpoint_File\<close> (\<^verbatim>\<open>chunk.rs\<close>, \<^verbatim>\<open>delta.rs\<close>, \<^verbatim>\<open>file_store.rs\<close>): the database file over a disk with a
    script of faults.  A crash in a checkpoint leaves the old or the new one, and so does a crash
    between the renames of a compaction.
  \<^item> \<open>MV_Store\<close> (\<^verbatim>\<open>store.rs\<close>): opening, maps, group commit, checkpoints, compaction, snapshots and recovery
    to a version.  Acknowledged commits survive reopening; failed ones leave no trace.
  \<^item> \<open>Backup\<close> (\<^verbatim>\<open>backup.rs\<close> and the two operations of \<^verbatim>\<open>store.rs\<close> over it): writing, verifying and reading
    backup files.  A restored store has the content of the saved one; every proper prefix of a file is rejected.
  \<^item> \<open>Transactions\<close>, \<open>Tx_Isolation\<close> and \<open>Tx_System\<close> (\<^verbatim>\<open>tx/store.rs\<close>, \<^verbatim>\<open>tx/transaction.rs\<close>): begin, reads,
    scans, put and remove with lock waits, commit, rollback, drop and vacuum; then a system of any number of
    transactions whose operations interleave with each other and with the vacuum.  Repeatable reads, atomic
    commit, rollback, exclusive writers, reading one's own writes, scans that agree with gets.
  \<^item> \<open>Slotted_Page\<close> and \<open>Buffer_Pool\<close> (\<^verbatim>\<open>buffer_pool/*.rs\<close>): a page refines a list of optional tuples; the
    pool with its clock replacer is transparent, that is the pages read are the pages last written.
  \<^item> \<open>Rust_Float\<close>, \<open>Sql_Value\<close> (\<^verbatim>\<open>h2-types/src/value.rs\<close>, \<^verbatim>\<open>data_type.rs\<close>): floats as bit patterns with
    comparison, conversion and printing; values, casts, text forms, equality and order.
  \<^item> \<open>Sql_Expr\<close> (\<^verbatim>\<open>h2-sql/src/expression.rs\<close>): evaluation of expressions on a row with three-valued logic.
  \<^item> \<open>Index_Encoding\<close> (\<^verbatim>\<open>executor/encoding.rs\<close>), \<open>Index_Scan\<close> (\<^verbatim>\<open>executor/query.rs\<close>, \<^verbatim>\<open>statement.rs\<close>) and
    \<open>Row_Codec\<close> (\<^verbatim>\<open>row.rs\<close>): memory-comparable keys that keep the order of values and read back; bounds that
    are extracted from a condition admit every row the condition accepts; an index range scan and the
    uniqueness check are exact; rows read back and one column can be read without decoding the row.
  \<^item> \<open>Aggregate\<close> (\<^verbatim>\<open>executor/query.rs\<close>, \<^verbatim>\<open>executor/mod.rs\<close>): the aggregate pushed down to the scan and the
    aggregate over decoded rows.
  \<^item> \<open>Storage_Node\<close> (\<^verbatim>\<open>h2-types/src/storage.rs\<close>, \<^verbatim>\<open>h2/src/storage/smart_node.rs\<close>, \<^verbatim>\<open>h2-mvstore/src/storage_engine.rs\<close>),
    \<open>Storage_Fleet\<close> (\<^verbatim>\<open>quorum.rs\<close>) and \<open>Compute_Cluster\<close> (\<^verbatim>\<open>compute.rs\<close>, \<^verbatim>\<open>cluster.rs\<close>): leases with fencing tokens,
    log appends, reads by replay and repair; quorum calls with one thread per node; primary, replicas
    and failover.  An acknowledged append is on a majority, a writer with an old token gets no quorum.
  \<^item> \<open>Pack_Stream\<close> (\<^verbatim>\<open>h2-bolt/src/packstream.rs\<close>): the value encoding of the Bolt protocol, its round trip and bounds.
  \<^item> \<open>External_Sort\<close> (\<^verbatim>\<open>memory/external_sort.rs\<close> and the end of a query in \<^verbatim>\<open>executor/query.rs\<close>): sorted runs in temporary files, their
    merge with a heap, \<^verbatim>\<open>ORDER BY\<close>, \<^verbatim>\<open>DISTINCT\<close>, \<^verbatim>\<open>OFFSET\<close> and \<^verbatim>\<open>LIMIT\<close>.  The result is a sorted permutation of the rows.
  \<^item> \<open>Query_Memory\<close> (\<^verbatim>\<open>memory/admission.rs\<close>, \<^verbatim>\<open>tracker.rs\<close>, \<^verbatim>\<open>config.rs\<close>): grants from a memory pool with waiting queries as a step
    relation.  The pool is never overcommitted and no wake-up is lost.
  \<^item> \<open>Auth\<close> (\<^verbatim>\<open>auth.rs\<close>, \<^verbatim>\<open>executor/dcl.rs\<close>): users, hosts and networks, table privileges and the statements that change them.
    The privilege check agrees with the history of grants and revocations.

  Interfaces and their interpretations.

  \<open>ordered_kv\<close> is interpreted on the B+ tree (\<open>bt\<close>); the map and the store use its facts.  \<open>replayable\<close> is
  interpreted on trees (\<open>treer\<close>), maps (\<open>mapr\<close>), the log (\<open>walr\<close>) and the store (\<open>storer\<close>).  \<open>invariant_system\<close> is
  interpreted on the lock manager (\<open>locks\<close>, \<open>cells\<close>), the memory grants (\<open>memory_grants\<close>), the buffer pool (\<open>pool\<close>), the transaction system (\<open>txsys\<close>),
  a storage node (\<open>node_sys\<close>) and the fleet (\<open>fleet_sys\<close>).  \<open>fenced\<close> states what a holder of a lease relies on and is
  interpreted on the storage node (\<open>node\<close>) and on the local storage engine (\<open>local_store\<close>).

  Parameters.

  Code outside the repository is an argument of the definitions: the \<^verbatim>\<open>bincode\<close> codecs (record \<open>codecs\<close>; they
  decode what they encoded), CRC-32 (any function to 32 bits; where corruption must be told apart the theorem says
  so), \<^verbatim>\<open>rust_decimal\<close>, \<^verbatim>\<open>chrono\<close>, \<^verbatim>\<open>uuid\<close>, \<^verbatim>\<open>serde_json\<close>, the Unicode case tables and the parsing of decimal numbers
  (record \<open>lib\<close>), the clock, and the answers of scalar SQL functions.  Which of several equal rows
  the heap of a merge returns first is an arbitrary choice.  The syntax tree of \<^verbatim>\<open>sqlparser\<close> is a
  datatype with the constructors the sources match.  The hypotheses are named predicates, and witnesses
  instantiate them with concrete functions.

  Granularity, bounds and termination.

  An operation that holds a lock throughout is one step; operations that release it (lock waits, group commit,
  quorum calls) are split at those points.  In the transaction system a commit is one step; the commit
  itself is modelled in its phases in the store.  Checkpoints are operations of the store and do not occur in the
  steps of the transaction system.  Integers keep their width where the code can wrap; counters of versions, ids
  and log positions are assumed not to reach the end of 64 bits where a theorem names that.  Panics are values
  (\<open>None\<close> or \<open>Panic\<close>).  Strings are UTF-8 byte lists where the bytes matter.  Hash maps are association lists, their
  order of iteration is the order of the list.  There is no fuel: recursions are structural or have a measure (page
  size, remaining bytes, unvisited transactions), and waiting is a step that is not enabled.

  Not modelled.

  The rest of the SQL engine: the statement dispatch, joins, grouping, projection, set operations, window functions, the catalog
  and the statistics work on the syntax tree of the \<^verbatim>\<open>sqlparser\<close> crate, which is not part of the repository;
  scalar functions and arithmetic are answers of a parameter.
  The vectorized operators and the Iceberg tables rest on the arrow and parquet crates.  The PL/pgSQL interpreter and the Cypher
  engine (\<^verbatim>\<open>h2-graph\<close>) are further languages over the same transactions, the full-text index and the message queue
  (\<^verbatim>\<open>jms.rs\<close>) are tables over them.  The servers (PostgreSQL, Bolt, MCP), the replication
  threads, the connection facade and the command line are network and terminal input and output.  Thread-local metrics have
  no effect on results.
\<close>

end
